(* ===== verification/Prelude.thy ===== *)
theory Prelude
  imports Main "HOL-Library.Word"
begin

text \<open>
  Shared vocabulary of the development.

  \<^item> The effect type \<open>('w, 'a) prog\<close>: a C function that reads and changes a state of type
    \<open>'w\<close> and either returns a value or hits a \<open>fault\<close> (an undefined behaviour of C, a call
    outside the documented domain of a library, or \<open>abort()\<close>). Faults are values, so that
    every theorem says whether the code can reach one.
  \<^item> The predicate transformer \<open>wp m Q E w\<close>: running \<open>m\<close> in state \<open>w\<close> ends normally with
    \<open>Q\<close>, or in a fault that \<open>E\<close> allows. Its rewrite rules are collected in \<open>wp_rules\<close>; the
    component proofs are symbolic executions with them.
  \<^item> C strings: byte lists with a terminating NUL, and the functions of \<open>string.h\<close> and
    \<open>strings.h\<close> the sources call.
  \<^item> Generic lemmas on words and lists that several components use.
\<close>

named_theorems wp_rules
named_theorems cstr_simps

section \<open>Programs with state and faults\<close>

datatype fault =
    Abort             \<comment> \<open>the code called \<open>abort()\<close>\<close>
  | Out_of_bounds     \<comment> \<open>an array or heap block is read or written past its end\<close>
  | Null_pointer      \<comment> \<open>a null pointer is dereferenced or passed where it is not allowed\<close>
  | Dangling          \<comment> \<open>an object that is not (or no longer) allocated is used or freed\<close>
  | Overlap           \<comment> \<open>a copy between overlapping ranges that may not overlap\<close>

type_synonym ('w, 'a) prog = "'w \<Rightarrow> fault + ('a \<times> 'w)"

definition ret :: "'a \<Rightarrow> ('w, 'a) prog" where
  "ret x = (\<lambda>w. Inr (x, w))"

definition throw :: "fault \<Rightarrow> ('w, 'a) prog" where
  "throw f = (\<lambda>w. Inl f)"

definition bindM :: "('w, 'a) prog \<Rightarrow> ('a \<Rightarrow> ('w, 'b) prog) \<Rightarrow> ('w, 'b) prog" where
  "bindM m f = (\<lambda>w. case m w of Inl e \<Rightarrow> Inl e | Inr (x, w') \<Rightarrow> f x w')"

definition seqM :: "('w, 'a) prog \<Rightarrow> ('w, 'b) prog \<Rightarrow> ('w, 'b) prog" where
  "seqM m n = bindM m (\<lambda>_. n)"

definition gets :: "('w \<Rightarrow> 'a) \<Rightarrow> ('w, 'a) prog" where
  "gets f = (\<lambda>w. Inr (f w, w))"

definition modifyM :: "('w \<Rightarrow> 'w) \<Rightarrow> ('w, unit) prog" where
  "modifyM f = (\<lambda>w. Inr ((), f w))"

definition whenM :: "bool \<Rightarrow> ('w, unit) prog \<Rightarrow> ('w, unit) prog" where
  "whenM b m = (if b then m else ret ())"

definition guardM :: "bool \<Rightarrow> fault \<Rightarrow> ('w, unit) prog" where
  "guardM b f = (if b then ret () else throw f)"

lemma ret_apply [simp]: "ret x w = Inr (x, w)"
  by (simp add: ret_def)

lemma throw_apply [simp]: "throw f w = Inl f"
  by (simp add: throw_def)

lemma gets_apply [simp]: "gets f w = Inr (f w, w)"
  by (simp add: gets_def)

lemma modifyM_apply [simp]: "modifyM f w = Inr ((), f w)"
  by (simp add: modifyM_def)

lemma bindM_Inr [simp]: "m w = Inr (x, w') \<Longrightarrow> bindM m f w = f x w'"
  by (simp add: bindM_def)

lemma bindM_Inl [simp]: "m w = Inl e \<Longrightarrow> bindM m f w = Inl e"
  by (simp add: bindM_def)

lemma seqM_apply: "seqM m n w = (case m w of Inl e \<Rightarrow> Inl e | Inr (x, w') \<Rightarrow> n w')"
  by (simp add: seqM_def bindM_def)

lemma bindM_assoc: "bindM (bindM m f) g = bindM m (\<lambda>x. bindM (f x) g)"
  by (rule ext) (simp add: bindM_def split: sum.splits prod.splits)

subsection \<open>Weakest preconditions with a fault postcondition\<close>

definition wp :: "('w, 'a) prog \<Rightarrow> ('a \<Rightarrow> 'w \<Rightarrow> bool) \<Rightarrow> (fault \<Rightarrow> bool) \<Rightarrow> 'w \<Rightarrow> bool" where
  "wp m Q E w = (case m w of Inl f \<Rightarrow> E f | Inr (x, w') \<Rightarrow> Q x w')"

abbreviation no_fault :: "fault \<Rightarrow> bool" where
  "no_fault \<equiv> \<lambda>_. False"

lemma wp_ret [wp_rules]: "wp (ret x) Q E w = Q x w"
  by (simp add: wp_def)

lemma wp_throw [wp_rules]: "wp (throw f) Q E w = E f"
  by (simp add: wp_def)

lemma wp_gets [wp_rules]: "wp (gets f) Q E w = Q (f w) w"
  by (simp add: wp_def)

lemma wp_modifyM [wp_rules]: "wp (modifyM f) Q E w = Q () (f w)"
  by (simp add: wp_def)

lemma wp_bindM [wp_rules]: "wp (bindM m f) Q E w = wp m (\<lambda>x. wp (f x) Q E) E w"
  by (simp add: wp_def bindM_def split: sum.splits prod.splits)

lemma wp_seqM [wp_rules]: "wp (seqM m n) Q E w = wp m (\<lambda>_. wp n Q E) E w"
  by (simp add: seqM_def wp_bindM)

lemma wp_eta:
  "wp (bindM m f) Q E = wp m (\<lambda>x. wp (f x) Q E) E"
  "wp (seqM m n) Q E = wp m (\<lambda>_. wp n Q E) E"
  "wp (ret x) Q E = Q x"
  by (simp_all add: fun_eq_iff wp_bindM wp_seqM wp_ret)

lemma wp_if [wp_rules]: "wp (if b then m else n) Q E w = (if b then wp m Q E w else wp n Q E w)"
  by simp

lemma wp_whenM [wp_rules]: "wp (whenM b m) Q E w = (if b then wp m Q E w else Q () w)"
  by (simp add: whenM_def wp_ret)

lemma wp_guardM [wp_rules]: "wp (guardM b f) Q E w = (if b then Q () w else E f)"
  by (simp add: guardM_def wp_ret wp_throw)

lemma wp_mono:
  assumes "wp m Q E w"
    and "\<And>x w'. Q x w' \<Longrightarrow> Q' x w'" and "\<And>f. E f \<Longrightarrow> E' f"
  shows "wp m Q' E' w"
  using assms by (auto simp: wp_def split: sum.splits)

lemma wp_conj:
  assumes "wp m Q E w" and "wp m Q' E w"
  shows "wp m (\<lambda>x w'. Q x w' \<and> Q' x w') E w"
  using assms by (auto simp: wp_def split: sum.splits)

lemma wp_conj_any:
  assumes "wp m Q E w" and "wp m Q' (\<lambda>_. True) w"
  shows "wp m (\<lambda>x w'. Q x w' \<and> Q' x w') E w"
  using assms by (auto simp: wp_def split: sum.splits)

lemma wp_Inr: "wp m Q E w \<Longrightarrow> m w = Inr (x, w') \<Longrightarrow> Q x w'"
  by (simp add: wp_def)

lemma wp_run: "m w = Inr (x, w') \<Longrightarrow> wp m Q E w = Q x w'"
  by (simp add: wp_def)

lemma wp_Inl: "wp m Q E w \<Longrightarrow> m w = Inl f \<Longrightarrow> E f"
  by (simp add: wp_def)

lemma wp_no_faultE:
  assumes "wp m Q no_fault w"
  obtains x w' where "m w = Inr (x, w')" and "Q x w'"
  using assms by (auto simp: wp_def split: sum.splits prod.splits)

lemma wp_no_fault_pairE:
  assumes "wp m (\<lambda>(x, y) w'. Q x y w') no_fault w"
  obtains x y w' where "m w = Inr ((x, y), w')" and "Q x y w'"
  using assms by (auto simp: wp_def split: sum.splits prod.splits)

section \<open>C strings\<close>

abbreviation NUL :: char where "NUL \<equiv> CHR 0x00"
abbreviation TAB :: char where "TAB \<equiv> CHR 0x09"
abbreviation LF :: char where "LF \<equiv> CHR 0x0A"
abbreviation CR :: char where "CR \<equiv> CHR 0x0D"
abbreviation CRLF :: string where "CRLF \<equiv> [CR, LF]"

text \<open>
  A pointer to \<open>char\<close> is the list of the bytes from the pointer to the end of the object it
  points into. The string it denotes ends before the first NUL; without a NUL in the object a
  \<open>string.h\<close> function reads past its end.
\<close>

definition has_nul :: "char list \<Rightarrow> bool" where
  "has_nul s = (NUL \<in> set s)"

definition cstr :: "char list \<Rightarrow> string" where
  "cstr s = takeWhile (\<lambda>c. c \<noteq> NUL) s"

definition strlen :: "char list \<Rightarrow> nat" where
  "strlen s = length (cstr s)"

fun tolower :: "char \<Rightarrow> char" where
  "tolower c =
     (if 65 \<le> (of_char c :: nat) \<and> (of_char c :: nat) \<le> 90
      then char_of (of_char c + 32 :: nat) else c)"

text \<open>
  \<open>strncmp\<close> and \<open>strncasecmp\<close> compare at most \<open>n\<close> bytes and stop at a NUL. The difference of
  the first differing (lowered) bytes is returned. The end of a list is read as a NUL, so the
  functions are total; every caller passes NUL-terminated arrays.
\<close>

fun strncmp_by :: "(char \<Rightarrow> char) \<Rightarrow> char list \<Rightarrow> char list \<Rightarrow> nat \<Rightarrow> int" where
  "strncmp_by f s t 0 = 0"
| "strncmp_by f [] [] (Suc n) = 0"
| "strncmp_by f [] (b # t) (Suc n) = of_char (f NUL) - of_char (f b)"
| "strncmp_by f (a # s) [] (Suc n) = of_char (f a) - of_char (f NUL)"
| "strncmp_by f (a # s) (b # t) (Suc n) =
     (if f a \<noteq> f b then of_char (f a) - of_char (f b)
      else if a = NUL then 0
      else strncmp_by f s t n)"

definition strncmp :: "char list \<Rightarrow> char list \<Rightarrow> nat \<Rightarrow> int" where
  "strncmp = strncmp_by (\<lambda>c. c)"

definition strncasecmp :: "char list \<Rightarrow> char list \<Rightarrow> nat \<Rightarrow> int" where
  "strncasecmp = strncmp_by tolower"

text \<open>A string literal as the array the compiler stores: its bytes and a NUL.\<close>

definition lit :: "string \<Rightarrow> char list" where
  "lit s = s @ [NUL]"

lemma of_char_eq_int: "(of_char a :: int) - of_char b = 0 \<longleftrightarrow> a = b"
  by (metis eq_iff_diff_eq_0 of_char_eq_iff)

lemma strncmp_by_prefix:
  assumes "NUL \<notin> set p" and "\<And>c. f c = f NUL \<longleftrightarrow> c = NUL"
  shows "strncmp_by f s (p @ q) (length p) = 0 \<longleftrightarrow>
         length p \<le> length s \<and> map f (take (length p) s) = map f p"
  using assms(1)
proof (induction p arbitrary: s)
  case Nil
  then show ?case by (cases s) auto
next
  case (Cons b p)
  then have b: "f b \<noteq> f NUL" and p: "NUL \<notin> set p"
    using assms(2) [of b] by auto
  show ?case
  proof (cases s)
    case Nil
    then show ?thesis using b of_char_eq_int [of "f NUL" "f b"] by auto
  next
    case (Cons a s')
    show ?thesis
    proof (cases "f a = f b")
      case False
      then show ?thesis using Cons of_char_eq_int by auto
    next
      case True
      then have "a \<noteq> NUL" using b by auto
      then show ?thesis using Cons.IH [OF p, of s'] True Cons by simp
    qed
  qed
qed

lemma strncmp_prefix:
  assumes "NUL \<notin> set p"
  shows "strncmp s (lit p) (length p) = 0 \<longleftrightarrow> take (length p) s = p"
proof -
  have "strncmp s (lit p) (length p) = 0 \<longleftrightarrow>
        length p \<le> length s \<and> map (\<lambda>c. c) (take (length p) s) = map (\<lambda>c. c) p"
    unfolding strncmp_def lit_def by (rule strncmp_by_prefix [OF assms]) simp
  then show ?thesis
    by (metis length_take list.map_ident min.absorb_iff2 nat_le_linear)
qed

lemma tolower_NUL_iff: "tolower c = tolower NUL \<longleftrightarrow> c = NUL"
proof
  assume eq: "tolower c = tolower NUL"
  then have t: "tolower c = NUL" by simp
  show "c = NUL"
  proof (rule ccontr)
    assume "c \<noteq> NUL"
    with t have r: "65 \<le> (of_char c :: nat)" "(of_char c :: nat) \<le> 90"
      and z: "char_of (of_char c + 32 :: nat) = NUL" by (auto split: if_splits)
    have "(of_char (char_of (of_char c + 32 :: nat)) :: nat) = of_char c + 32"
      using r by (simp add: of_char_of mod_less)
    with z show False using r by simp
  qed
qed simp

lemma strncasecmp_prefix:
  assumes "NUL \<notin> set p"
  shows "strncasecmp s (lit p) (length p) = 0 \<longleftrightarrow>
         length p \<le> length s \<and> map tolower (take (length p) s) = map tolower p"
  unfolding strncasecmp_def lit_def
  by (rule strncmp_by_prefix [OF assms]) (rule tolower_NUL_iff)

lemma cstr_append: "NUL \<notin> set p \<Longrightarrow> cstr (p @ q) = p @ cstr q"
  unfolding cstr_def by (induction p) auto

lemma cstr_append_NUL [simp]: "NUL \<notin> set s \<Longrightarrow> cstr (s @ NUL # t) = s"
  unfolding cstr_def by (induction s) auto

lemma cstr_upto_NUL: "cstr (s @ NUL # t) = cstr s"
  unfolding cstr_def by (induction s) auto

lemma NUL_notin_cstr [simp]: "NUL \<notin> set (cstr s)"
  unfolding cstr_def using set_takeWhileD by fastforce

lemma strlen_le: "strlen s \<le> length s"
  by (simp add: strlen_def cstr_def length_takeWhile_le)

lemma strlen_less: "has_nul s \<Longrightarrow> strlen s < length s"
  unfolding has_nul_def strlen_def cstr_def by (induction s) auto

lemma has_nul_split: "has_nul s \<Longrightarrow> s = cstr s @ NUL # drop (Suc (strlen s)) s"
  unfolding has_nul_def strlen_def cstr_def
  by (induction s) auto

section \<open>Words and lists\<close>

unbundle bit_operations_syntax

type_synonym size_t = "64 word"
type_synonym u8 = "8 word"
type_synonym u32 = "32 word"
type_synonym u64 = "64 word"

lemma unat_plus_simple:
  fixes a b :: "'n::len word"
  assumes "unat a + unat b < 2 ^ LENGTH('n)"
  shows "unat (a + b) = unat a + unat b"
  using assms by (simp add: unat_word_ariths)

lemma unat_Suc_less:
  fixes a :: "'n::len word"
  assumes "unat a < k" and "k < 2 ^ LENGTH('n)"
  shows "unat (a + 1) = Suc (unat a)"
  using assms unat_plus_simple [of a 1] by simp

lemma unat_minus_one_pos:
  fixes a :: "'n::len word"
  assumes "a \<noteq> 0"
  shows "unat (a - 1) = unat a - 1"
  using assms by (simp add: unat_minus_one)

lemma unat_and_not_mask: "unat (w AND NOT (mask k)) = 2 ^ k * (unat w div 2 ^ k)"
  for w :: "'n::len word"
proof -
  have "NOT w AND take_bit k w = 0" by (simp add: bit_eq_iff bit_simps)
  then have "w - take_bit k w = w AND NOT (take_bit k w)"
    by (rule disjunctive_diff_eq_and_not)
  also have "\<dots> = w AND NOT (mask k)" by (auto simp: bit_eq_iff bit_simps)
  finally have "w AND NOT (mask k) = w - take_bit k w" by simp
  moreover have "take_bit k w \<le> w"
    by (simp add: word_le_nat_alt unsigned_take_bit_eq)
  moreover have "unat (take_bit k w) = take_bit k (unat w)" by (rule unsigned_take_bit_eq)
  then have "unat (take_bit k w) = unat w mod 2 ^ k" by (simp only: take_bit_eq_mod [of k "unat w"])
  ultimately have "unat (w AND NOT (mask k)) = unat w - unat w mod 2 ^ k"
    by (simp only: unat_sub)
  then show ?thesis by (simp add: minus_mod_eq_mult_div)
qed

lemma length_overwrite:
  "off + length xs \<le> length blk \<Longrightarrow>
   length (take off blk @ xs @ drop (off + length xs) blk) = length blk"
  by simp

end
