(* ===== verification/World.thy ===== *)
theory World
  imports Prelude
begin

text \<open>
  The world Femail runs in: the kernel's sockets, the C heap, OpenSSL objects, the clock, the
  mutex and the system log. None of this code is part of the repository, so its answers are a
  parameter: an \<open>env\<close> gives, for every call, the answer in the present state of the world, and
  the world carries the trace of all calls made so far, so an \<open>env\<close> can answer differently each
  time. What the sources rely on is stated as named conditions on \<open>env\<close> at the end of this
  theory.

  Every call is one definition with one rewrite rule for \<open>wp\<close>. A call outside the documented
  domain of the library (a null or freed object) is a fault.
\<close>

section \<open>State and answers of the world\<close>

datatype family = AF_INET | AF_INET6

datatype sockopt = SO_REUSEADDR | IPV6_V6ONLY

datatype loglevel =
  LOG_EMERG | LOG_ALERT | LOG_CRIT | LOG_ERR | LOG_WARNING | LOG_NOTICE | LOG_INFO

datatype event =
    Ev_socket family int
  | Ev_setsockopt int sockopt int
  | Ev_bind int family nat int
  | Ev_listen int int
  | Ev_accept int int
  | Ev_close int
  | Ev_read int "char list option"
  | Ev_write int string
  | Ev_ssl_new "nat option"
  | Ev_ssl_set_fd nat int
  | Ev_ssl_accept nat int
  | Ev_ssl_read nat "int + char list"
  | Ev_ssl_write nat string
  | Ev_ssl_free nat
  | Ev_ctx_new "nat option"
  | Ev_ctx_call nat string int
  | Ev_ctx_free nat
  | Ev_realloc "nat option" nat "nat option"
  | Ev_free nat
  | Ev_time int
  | Ev_mutex_init
  | Ev_mutex_lock int
  | Ev_mutex_unlock int
  | Ev_log loglevel string
  | Ev_thread_create int
  | Ev_signal_handler string

record world =
  fds :: "int set"                        \<comment> \<open>open file descriptors\<close>
  bound_to :: "int \<rightharpoonup> family \<times> nat"        \<comment> \<open>address family and port a socket is bound to\<close>
  listening :: "int set"                  \<comment> \<open>sockets in the listening state\<close>
  ssls :: "nat set"                       \<comment> \<open>live \<open>SSL\<close> objects\<close>
  ssl_ctxs :: "nat set"                   \<comment> \<open>live \<open>SSL_CTX\<close> objects\<close>
  heap :: "nat \<rightharpoonup> char list"              \<comment> \<open>allocated blocks of the C heap\<close>
  trace :: "event list"                   \<comment> \<open>calls made so far, newest first\<close>

record env =
  env_socket :: "world \<Rightarrow> family \<Rightarrow> int"
  env_setsockopt :: "world \<Rightarrow> int \<Rightarrow> sockopt \<Rightarrow> int"
  env_bind :: "world \<Rightarrow> int \<Rightarrow> family \<Rightarrow> nat \<Rightarrow> int"
  env_listen :: "world \<Rightarrow> int \<Rightarrow> int"
  env_accept :: "world \<Rightarrow> int \<Rightarrow> int"
  env_read :: "world \<Rightarrow> int \<Rightarrow> char list option"
  env_would_block :: "world \<Rightarrow> bool"       \<comment> \<open>\<open>errno == EWOULDBLOCK\<close> after the last call\<close>
  env_ssl_new :: "world \<Rightarrow> nat option"
  env_ssl_accept :: "world \<Rightarrow> nat \<Rightarrow> int"
  env_ssl_want_io :: "world \<Rightarrow> nat \<Rightarrow> bool" \<comment> \<open>\<open>SSL_get_error\<close> is \<open>WANT_READ\<close> or \<open>WANT_WRITE\<close>\<close>
  env_ssl_read :: "world \<Rightarrow> nat \<Rightarrow> int + char list"
  env_realloc :: "world \<Rightarrow> nat option \<Rightarrow> nat \<Rightarrow> nat option"
  env_junk :: "world \<Rightarrow> nat \<Rightarrow> char"        \<comment> \<open>contents of fresh heap memory\<close>
  env_time :: "world \<Rightarrow> int"
  env_lock :: "world \<Rightarrow> int"
  env_unlock :: "world \<Rightarrow> int"
  env_getenv :: "world \<Rightarrow> string \<Rightarrow> string option"
  env_ctx_new :: "world \<Rightarrow> nat option"
  env_use_cert :: "world \<Rightarrow> string \<Rightarrow> int"
  env_use_key :: "world \<Rightarrow> string \<Rightarrow> int"
  env_use_key_null :: "world \<Rightarrow> string \<Rightarrow> int option"
      \<comment> \<open>the key call on a null context: \<open>None\<close> when it crashes\<close>
  env_thread_create :: "world \<Rightarrow> int"
  env_signalled :: "world \<Rightarrow> bool"         \<comment> \<open>a SIGINT or SIGTERM is delivered at this point\<close>

type_synonym 'a os = "(world, 'a) prog"

definition emit :: "event \<Rightarrow> world \<Rightarrow> world" where
  "emit ev w = w\<lparr>trace := ev # trace w\<rparr>"

lemma emit_simps [simp]:
  "fds (emit ev w) = fds w" "bound_to (emit ev w) = bound_to w"
  "listening (emit ev w) = listening w" "ssls (emit ev w) = ssls w"
  "ssl_ctxs (emit ev w) = ssl_ctxs w" "heap (emit ev w) = heap w"
  "trace (emit ev w) = ev # trace w"
  by (simp_all add: emit_def)

text \<open>\<open>quiet w w'\<close>: nothing but the trace changed.\<close>

definition quiet :: "world \<Rightarrow> world \<Rightarrow> bool" where
  "quiet w w' \<longleftrightarrow> w' = w\<lparr>trace := trace w'\<rparr>"

lemma quiet_refl [simp]: "quiet w w"
  by (simp add: quiet_def)

lemma quiet_emit [simp]: "quiet w (emit ev w') = quiet w w'"
  by (cases w; cases w') (simp add: quiet_def emit_def)

lemma quiet_from_emit [simp]: "quiet (emit ev w) w' = quiet w w'"
  by (cases w; cases w') (simp add: quiet_def emit_def)

lemma quiet_simps:
  assumes "quiet w w'"
  shows "fds w' = fds w" "bound_to w' = bound_to w" "listening w' = listening w"
    "ssls w' = ssls w" "ssl_ctxs w' = ssl_ctxs w" "heap w' = heap w"
  using assms by (cases w; cases w'; simp add: quiet_def)+

lemma quiet_trans: "quiet w w1 \<Longrightarrow> quiet w1 w2 \<Longrightarrow> quiet w w2"
  by (cases w; cases w1; cases w2) (simp add: quiet_def)

section \<open>Calls\<close>

subsection \<open>System log, clock, mutex\<close>

definition sys_log :: "loglevel \<Rightarrow> string \<Rightarrow> unit os" where
  "sys_log l s = modifyM (emit (Ev_log l s))"

definition sys_time :: "env \<Rightarrow> int os" where
  "sys_time e = (\<lambda>w. Inr (env_time e w, emit (Ev_time (env_time e w)) w))"

definition sys_mutex_init :: "unit os" where
  "sys_mutex_init = modifyM (emit Ev_mutex_init)"

definition sys_mutex_lock :: "env \<Rightarrow> int os" where
  "sys_mutex_lock e = (\<lambda>w. Inr (env_lock e w, emit (Ev_mutex_lock (env_lock e w)) w))"

definition sys_mutex_unlock :: "env \<Rightarrow> int os" where
  "sys_mutex_unlock e = (\<lambda>w. Inr (env_unlock e w, emit (Ev_mutex_unlock (env_unlock e w)) w))"

lemma wp_sys_log [wp_rules]: "wp (sys_log l s) Q E w = Q () (emit (Ev_log l s) w)"
  by (simp add: sys_log_def wp_rules)

lemma wp_sys_time [wp_rules]:
  "wp (sys_time e) Q E w = Q (env_time e w) (emit (Ev_time (env_time e w)) w)"
  by (simp add: sys_time_def wp_def)

lemma wp_sys_mutex_init [wp_rules]: "wp sys_mutex_init Q E w = Q () (emit Ev_mutex_init w)"
  by (simp add: sys_mutex_init_def wp_rules)

lemma wp_sys_mutex_lock [wp_rules]:
  "wp (sys_mutex_lock e) Q E w = Q (env_lock e w) (emit (Ev_mutex_lock (env_lock e w)) w)"
  by (simp add: sys_mutex_lock_def wp_def)

lemma wp_sys_mutex_unlock [wp_rules]:
  "wp (sys_mutex_unlock e) Q E w =
     Q (env_unlock e w) (emit (Ev_mutex_unlock (env_unlock e w)) w)"
  by (simp add: sys_mutex_unlock_def wp_def)

subsection \<open>Sockets\<close>

definition open_fd :: "int \<Rightarrow> world \<Rightarrow> world" where
  "open_fd fd w = (if fd = - 1 then w else w\<lparr>fds := insert fd (fds w)\<rparr>)"

definition close_fd :: "int \<Rightarrow> world \<Rightarrow> world" where
  "close_fd fd w =
     w\<lparr>fds := fds w - {fd}, bound_to := (bound_to w)(fd := None), listening := listening w - {fd}\<rparr>"

definition sys_socket :: "env \<Rightarrow> family \<Rightarrow> int os" where
  "sys_socket e fam = (\<lambda>w. let fd = env_socket e w fam in
     Inr (fd, emit (Ev_socket fam fd) (open_fd fd w)))"

definition sys_setsockopt :: "env \<Rightarrow> int \<Rightarrow> sockopt \<Rightarrow> int os" where
  "sys_setsockopt e fd opt = (\<lambda>w. let r = env_setsockopt e w fd opt in
     Inr (r, emit (Ev_setsockopt fd opt r) w))"

definition sys_bind :: "env \<Rightarrow> int \<Rightarrow> family \<Rightarrow> nat \<Rightarrow> int os" where
  "sys_bind e fd fam port = (\<lambda>w. let r = env_bind e w fd fam port in
     Inr (r, emit (Ev_bind fd fam port r)
       (if r = 0 then w\<lparr>bound_to := (bound_to w)(fd \<mapsto> (fam, port))\<rparr> else w)))"

definition sys_listen :: "env \<Rightarrow> int \<Rightarrow> int os" where
  "sys_listen e fd = (\<lambda>w. let r = env_listen e w fd in
     Inr (r, emit (Ev_listen fd r)
       (if r = 0 then w\<lparr>listening := insert fd (listening w)\<rparr> else w)))"

definition sys_accept :: "env \<Rightarrow> int \<Rightarrow> int os" where
  "sys_accept e fd = (\<lambda>w. let r = env_accept e w fd in
     Inr (r, emit (Ev_accept fd r) (open_fd r w)))"

definition sys_close :: "int \<Rightarrow> unit os" where
  "sys_close fd = modifyM (\<lambda>w. emit (Ev_close fd) (close_fd fd w))"

text \<open>
  \<open>read(fd, buf, n)\<close>: \<open>- 1\<close>, or the number of bytes read, never more than \<open>n\<close>; the bytes come
  back beside the count and the caller stores them at the start of its buffer.
\<close>

definition sys_read :: "env \<Rightarrow> int \<Rightarrow> nat \<Rightarrow> (int \<times> char list) os" where
  "sys_read e fd n = (\<lambda>w. let a = map_option (take n) (env_read e w fd) in
     Inr ((case a of None \<Rightarrow> (- 1, []) | Some bs \<Rightarrow> (int (length bs), bs)),
          emit (Ev_read fd a) w))"

text \<open>\<open>dprintf(fd, \<dots>)\<close> with the text already formatted.\<close>

definition sys_dprintf :: "int \<Rightarrow> string \<Rightarrow> unit os" where
  "sys_dprintf fd s = modifyM (emit (Ev_write fd s))"

lemma wp_sys_socket [wp_rules]:
  "wp (sys_socket e fam) Q E w =
     Q (env_socket e w fam) (emit (Ev_socket fam (env_socket e w fam)) (open_fd (env_socket e w fam) w))"
  by (simp add: sys_socket_def wp_def Let_def)

lemma wp_sys_setsockopt [wp_rules]:
  "wp (sys_setsockopt e fd opt) Q E w =
     Q (env_setsockopt e w fd opt) (emit (Ev_setsockopt fd opt (env_setsockopt e w fd opt)) w)"
  by (simp add: sys_setsockopt_def wp_def Let_def)

lemma wp_sys_bind [wp_rules]:
  "wp (sys_bind e fd fam port) Q E w =
     (let r = env_bind e w fd fam port in
      Q r (emit (Ev_bind fd fam port r)
        (if r = 0 then w\<lparr>bound_to := (bound_to w)(fd \<mapsto> (fam, port))\<rparr> else w)))"
  by (simp add: sys_bind_def wp_def Let_def)

lemma wp_sys_listen [wp_rules]:
  "wp (sys_listen e fd) Q E w =
     (let r = env_listen e w fd in
      Q r (emit (Ev_listen fd r) (if r = 0 then w\<lparr>listening := insert fd (listening w)\<rparr> else w)))"
  by (simp add: sys_listen_def wp_def Let_def)

lemma wp_sys_accept [wp_rules]:
  "wp (sys_accept e fd) Q E w =
     Q (env_accept e w fd) (emit (Ev_accept fd (env_accept e w fd)) (open_fd (env_accept e w fd) w))"
  by (simp add: sys_accept_def wp_def Let_def)

lemma wp_sys_close [wp_rules]:
  "wp (sys_close fd) Q E w = Q () (emit (Ev_close fd) (close_fd fd w))"
  by (simp add: sys_close_def wp_rules)

lemma wp_sys_read [wp_rules]:
  "wp (sys_read e fd n) Q E w =
     (case env_read e w fd of
        None \<Rightarrow> Q (- 1, []) (emit (Ev_read fd None) w)
      | Some bs \<Rightarrow> Q (int (length (take n bs)), take n bs) (emit (Ev_read fd (Some (take n bs))) w))"
  by (simp add: sys_read_def wp_def Let_def split: option.splits)

lemma wp_sys_dprintf [wp_rules]: "wp (sys_dprintf fd s) Q E w = Q () (emit (Ev_write fd s) w)"
  by (simp add: sys_dprintf_def wp_rules)

subsection \<open>Heap\<close>

text \<open>
  \<open>realloc(p, n)\<close> keeps the common prefix; memory it adds has unknown contents. On failure the
  old block stays allocated. \<open>free\<close> of a null pointer does nothing.
\<close>

definition old_block :: "nat option \<Rightarrow> world \<Rightarrow> char list" where
  "old_block p w = (case p of None \<Rightarrow> [] | Some a \<Rightarrow> (case heap w a of None \<Rightarrow> [] | Some b \<Rightarrow> b))"

definition valid_ptr :: "nat option \<Rightarrow> world \<Rightarrow> bool" where
  "valid_ptr p w = (case p of None \<Rightarrow> True | Some a \<Rightarrow> heap w a \<noteq> None)"

definition grown :: "env \<Rightarrow> world \<Rightarrow> char list \<Rightarrow> nat \<Rightarrow> char list" where
  "grown e w old n = take n old @ map (env_junk e w) [length old..<n]"

definition drop_ptr :: "nat option \<Rightarrow> (nat \<rightharpoonup> char list) \<Rightarrow> (nat \<rightharpoonup> char list)" where
  "drop_ptr p h = (case p of None \<Rightarrow> h | Some a \<Rightarrow> h(a := None))"

definition sys_realloc :: "env \<Rightarrow> nat option \<Rightarrow> nat \<Rightarrow> nat option os" where
  "sys_realloc e p n = (\<lambda>w.
     if \<not> valid_ptr p w then Inl Dangling
     else case env_realloc e w p n of
            None \<Rightarrow> Inr (None, emit (Ev_realloc p n None) w)
          | Some a \<Rightarrow> Inr (Some a, emit (Ev_realloc p n (Some a))
              (w\<lparr>heap := (drop_ptr p (heap w))(a \<mapsto> grown e w (old_block p w) n)\<rparr>)))"

definition sys_free :: "nat option \<Rightarrow> unit os" where
  "sys_free p = (\<lambda>w. case p of
       None \<Rightarrow> Inr ((), w)
     | Some a \<Rightarrow> if heap w a = None then Inl Dangling
                 else Inr ((), emit (Ev_free a) (w\<lparr>heap := (heap w)(a := None)\<rparr>)))"

text \<open>Writing \<open>bs\<close> at offset \<open>off\<close> of a heap block, and reading a block.\<close>

definition sys_store :: "nat option \<Rightarrow> nat \<Rightarrow> char list \<Rightarrow> unit os" where
  "sys_store p off bs = (\<lambda>w. case p of
       None \<Rightarrow> Inl Null_pointer
     | Some a \<Rightarrow> (case heap w a of
           None \<Rightarrow> Inl Dangling
         | Some b \<Rightarrow> if length b < off + length bs then Inl Out_of_bounds
             else Inr ((), w\<lparr>heap := (heap w)(a \<mapsto> take off b @ bs @ drop (off + length bs) b)\<rparr>)))"

definition sys_load :: "nat option \<Rightarrow> char list os" where
  "sys_load p = (\<lambda>w. case p of
       None \<Rightarrow> Inl Null_pointer
     | Some a \<Rightarrow> (case heap w a of None \<Rightarrow> Inl Dangling | Some b \<Rightarrow> Inr (b, w)))"

lemma wp_sys_realloc [wp_rules]:
  "wp (sys_realloc e p n) Q E w =
     (if valid_ptr p w then
        (case env_realloc e w p n of
           None \<Rightarrow> Q None (emit (Ev_realloc p n None) w)
         | Some a \<Rightarrow> Q (Some a) (emit (Ev_realloc p n (Some a))
              (w\<lparr>heap := (drop_ptr p (heap w))(a \<mapsto> grown e w (old_block p w) n)\<rparr>)))
      else E Dangling)"
  by (simp add: sys_realloc_def wp_def split: option.splits)

lemma wp_sys_free [wp_rules]:
  "wp (sys_free p) Q E w =
     (case p of None \<Rightarrow> Q () w
      | Some a \<Rightarrow> if heap w a = None then E Dangling
                  else Q () (emit (Ev_free a) (w\<lparr>heap := (heap w)(a := None)\<rparr>)))"
  by (cases p) (simp_all add: sys_free_def wp_def)

lemma wp_sys_store [wp_rules]:
  "wp (sys_store p off bs) Q E w =
     (case p of None \<Rightarrow> E Null_pointer
      | Some a \<Rightarrow> (case heap w a of None \<Rightarrow> E Dangling
         | Some b \<Rightarrow> if length b < off + length bs then E Out_of_bounds
             else Q () (w\<lparr>heap := (heap w)(a \<mapsto> take off b @ bs @ drop (off + length bs) b)\<rparr>)))"
  by (simp add: sys_store_def wp_def split: option.splits)

lemma wp_sys_load [wp_rules]:
  "wp (sys_load p) Q E w =
     (case p of None \<Rightarrow> E Null_pointer
      | Some a \<Rightarrow> (case heap w a of None \<Rightarrow> E Dangling | Some b \<Rightarrow> Q b w))"
  by (simp add: sys_load_def wp_def split: option.splits)

lemma length_grown [simp]: "length (grown e w old n) = n"
  by (simp add: grown_def)

lemma take_grown: "k \<le> length old \<Longrightarrow> k \<le> n \<Longrightarrow> take k (grown e w old n) = take k old"
  by (simp add: grown_def min_absorb1)

subsection \<open>OpenSSL\<close>

text \<open>
  A connection object is used through these calls only. \<open>SSL_new\<close> on a null context fails;
  \<open>SSL_free\<close> of a null pointer does nothing; every other call needs a live object.
\<close>

definition with_ssl :: "nat option \<Rightarrow> (nat \<Rightarrow> 'a os) \<Rightarrow> 'a os" where
  "with_ssl p f = (\<lambda>w. case p of
       None \<Rightarrow> Inl Null_pointer
     | Some s \<Rightarrow> if s \<in> ssls w then f s w else Inl Dangling)"

definition sys_ssl_new :: "env \<Rightarrow> nat option \<Rightarrow> nat option os" where
  "sys_ssl_new e ctx = (\<lambda>w.
     let r = (if ctx = None then None else env_ssl_new e w)
     in Inr (r, emit (Ev_ssl_new r)
          (case r of None \<Rightarrow> w | Some s \<Rightarrow> w\<lparr>ssls := insert s (ssls w)\<rparr>)))"

definition sys_ssl_set_fd :: "nat option \<Rightarrow> int \<Rightarrow> unit os" where
  "sys_ssl_set_fd p fd = with_ssl p (\<lambda>s. modifyM (emit (Ev_ssl_set_fd s fd)))"

definition sys_ssl_accept :: "env \<Rightarrow> nat option \<Rightarrow> int os" where
  "sys_ssl_accept e p = with_ssl p (\<lambda>s w. let r = env_ssl_accept e w s in
     Inr (r, emit (Ev_ssl_accept s r) w))"

definition sys_ssl_want_io :: "env \<Rightarrow> nat option \<Rightarrow> bool os" where
  "sys_ssl_want_io e p = with_ssl p (\<lambda>s. gets (\<lambda>w. env_ssl_want_io e w s))"

definition sys_ssl_read :: "env \<Rightarrow> nat option \<Rightarrow> nat \<Rightarrow> (int \<times> char list) os" where
  "sys_ssl_read e p n = with_ssl p (\<lambda>s w.
     let a = (case env_ssl_read e w s of Inl r \<Rightarrow> Inl (min r 0) | Inr bs \<Rightarrow> Inr (take n bs))
     in Inr ((case a of Inl r \<Rightarrow> (r, []) | Inr bs \<Rightarrow> (int (length bs), bs)),
             emit (Ev_ssl_read s a) w))"

definition sys_ssl_write :: "nat option \<Rightarrow> string \<Rightarrow> unit os" where
  "sys_ssl_write p bs = with_ssl p (\<lambda>s. modifyM (emit (Ev_ssl_write s bs)))"

definition sys_ssl_free :: "nat option \<Rightarrow> unit os" where
  "sys_ssl_free p = (if p = None then ret ()
     else with_ssl p (\<lambda>s. modifyM (\<lambda>w. emit (Ev_ssl_free s) (w\<lparr>ssls := ssls w - {s}\<rparr>))))"

lemma wp_with_ssl:
  "wp (with_ssl p f) Q E w =
     (case p of None \<Rightarrow> E Null_pointer
      | Some s \<Rightarrow> if s \<in> ssls w then wp (f s) Q E w else E Dangling)"
  by (simp add: with_ssl_def wp_def split: option.splits)

lemma wp_sys_ssl_new [wp_rules]:
  "wp (sys_ssl_new e ctx) Q E w =
     (case (if ctx = None then None else env_ssl_new e w) of
        None \<Rightarrow> Q None (emit (Ev_ssl_new None) w)
      | Some s \<Rightarrow> Q (Some s) (emit (Ev_ssl_new (Some s)) (w\<lparr>ssls := insert s (ssls w)\<rparr>)))"
  by (simp add: sys_ssl_new_def wp_def Let_def split: option.splits)

lemma wp_sys_ssl_set_fd [wp_rules]:
  "wp (sys_ssl_set_fd p fd) Q E w =
     (case p of None \<Rightarrow> E Null_pointer
      | Some s \<Rightarrow> if s \<in> ssls w then Q () (emit (Ev_ssl_set_fd s fd) w) else E Dangling)"
  by (simp add: sys_ssl_set_fd_def wp_with_ssl wp_rules split: option.splits)

lemma wp_sys_ssl_accept [wp_rules]:
  "wp (sys_ssl_accept e p) Q E w =
     (case p of None \<Rightarrow> E Null_pointer
      | Some s \<Rightarrow> if s \<in> ssls w
                  then Q (env_ssl_accept e w s) (emit (Ev_ssl_accept s (env_ssl_accept e w s)) w)
                  else E Dangling)"
  by (simp add: sys_ssl_accept_def wp_with_ssl split: option.splits) (simp add: wp_def Let_def)

lemma wp_sys_ssl_want_io [wp_rules]:
  "wp (sys_ssl_want_io e p) Q E w =
     (case p of None \<Rightarrow> E Null_pointer
      | Some s \<Rightarrow> if s \<in> ssls w then Q (env_ssl_want_io e w s) w else E Dangling)"
  by (simp add: sys_ssl_want_io_def wp_with_ssl wp_rules split: option.splits)

lemma wp_sys_ssl_read [wp_rules]:
  "wp (sys_ssl_read e p n) Q E w =
     (case p of None \<Rightarrow> E Null_pointer
      | Some s \<Rightarrow> if s \<in> ssls w
          then (case env_ssl_read e w s of
                  Inl r \<Rightarrow> Q (min r 0, []) (emit (Ev_ssl_read s (Inl (min r 0))) w)
                | Inr bs \<Rightarrow> Q (int (length (take n bs)), take n bs)
                              (emit (Ev_ssl_read s (Inr (take n bs))) w))
          else E Dangling)"
  by (simp add: sys_ssl_read_def wp_with_ssl split: option.splits)
     (simp add: wp_def Let_def split: sum.splits)

lemma wp_sys_ssl_write [wp_rules]:
  "wp (sys_ssl_write p bs) Q E w =
     (case p of None \<Rightarrow> E Null_pointer
      | Some s \<Rightarrow> if s \<in> ssls w then Q () (emit (Ev_ssl_write s bs) w) else E Dangling)"
  by (simp add: sys_ssl_write_def wp_with_ssl wp_rules split: option.splits)

lemma wp_sys_ssl_free [wp_rules]:
  "wp (sys_ssl_free p) Q E w =
     (case p of None \<Rightarrow> Q () w
      | Some s \<Rightarrow> if s \<in> ssls w then Q () (emit (Ev_ssl_free s) (w\<lparr>ssls := ssls w - {s}\<rparr>))
                  else E Dangling)"
  by (simp add: sys_ssl_free_def wp_with_ssl wp_rules split: option.splits)

text \<open>
  The server's context object. Setting it up needs a live object, except that the call that
  loads the private key is also made with a null context; what it does then is not documented,
  so the answer may be a crash. \<open>SSL_CTX_free\<close> of a null pointer does nothing.
\<close>

definition with_ctx :: "nat option \<Rightarrow> (nat \<Rightarrow> 'a os) \<Rightarrow> 'a os" where
  "with_ctx p f = (\<lambda>w. case p of
       None \<Rightarrow> Inl Null_pointer
     | Some x \<Rightarrow> if x \<in> ssl_ctxs w then f x w else Inl Dangling)"

definition sys_ctx_new :: "env \<Rightarrow> nat option os" where
  "sys_ctx_new e = (\<lambda>w. let r = env_ctx_new e w in
     Inr (r, emit (Ev_ctx_new r)
       (case r of None \<Rightarrow> w | Some x \<Rightarrow> w\<lparr>ssl_ctxs := insert x (ssl_ctxs w)\<rparr>)))"

definition sys_ctx_set :: "string \<Rightarrow> nat option \<Rightarrow> unit os" where
  "sys_ctx_set name p = with_ctx p (\<lambda>x. modifyM (emit (Ev_ctx_call x name 1)))"

definition sys_use_cert :: "env \<Rightarrow> nat option \<Rightarrow> string \<Rightarrow> int os" where
  "sys_use_cert e p file = with_ctx p (\<lambda>x w. let r = env_use_cert e w file in
     Inr (r, emit (Ev_ctx_call x file r) w))"

definition sys_use_key :: "env \<Rightarrow> nat option \<Rightarrow> string \<Rightarrow> int os" where
  "sys_use_key e p file =
     (if p = None then (\<lambda>w. case env_use_key_null e w file of
          None \<Rightarrow> Inl Null_pointer
        | Some r \<Rightarrow> Inr (r, w))
      else with_ctx p (\<lambda>x w. let r = env_use_key e w file in
        Inr (r, emit (Ev_ctx_call x file r) w)))"

definition sys_ctx_free :: "nat option \<Rightarrow> unit os" where
  "sys_ctx_free p = (if p = None then ret ()
     else with_ctx p (\<lambda>x. modifyM (\<lambda>w. emit (Ev_ctx_free x) (w\<lparr>ssl_ctxs := ssl_ctxs w - {x}\<rparr>))))"

lemma wp_with_ctx:
  "wp (with_ctx p f) Q E w =
     (case p of None \<Rightarrow> E Null_pointer
      | Some x \<Rightarrow> if x \<in> ssl_ctxs w then wp (f x) Q E w else E Dangling)"
  by (simp add: with_ctx_def wp_def split: option.splits)

lemma wp_sys_ctx_new [wp_rules]:
  "wp (sys_ctx_new e) Q E w =
     (case env_ctx_new e w of
        None \<Rightarrow> Q None (emit (Ev_ctx_new None) w)
      | Some x \<Rightarrow> Q (Some x) (emit (Ev_ctx_new (Some x)) (w\<lparr>ssl_ctxs := insert x (ssl_ctxs w)\<rparr>)))"
  by (simp add: sys_ctx_new_def wp_def Let_def split: option.splits)

lemma wp_sys_ctx_set [wp_rules]:
  "wp (sys_ctx_set name p) Q E w =
     (case p of None \<Rightarrow> E Null_pointer
      | Some x \<Rightarrow> if x \<in> ssl_ctxs w then Q () (emit (Ev_ctx_call x name 1) w) else E Dangling)"
  by (simp add: sys_ctx_set_def wp_with_ctx wp_rules split: option.splits)

lemma wp_sys_use_cert [wp_rules]:
  "wp (sys_use_cert e p file) Q E w =
     (case p of None \<Rightarrow> E Null_pointer
      | Some x \<Rightarrow> if x \<in> ssl_ctxs w
                  then Q (env_use_cert e w file) (emit (Ev_ctx_call x file (env_use_cert e w file)) w)
                  else E Dangling)"
  by (simp add: sys_use_cert_def wp_with_ctx split: option.splits) (simp add: wp_def Let_def)

lemma wp_sys_use_key [wp_rules]:
  "wp (sys_use_key e p file) Q E w =
     (case p of
        None \<Rightarrow> (case env_use_key_null e w file of None \<Rightarrow> E Null_pointer | Some r \<Rightarrow> Q r w)
      | Some x \<Rightarrow> if x \<in> ssl_ctxs w
                  then Q (env_use_key e w file) (emit (Ev_ctx_call x file (env_use_key e w file)) w)
                  else E Dangling)"
  by (cases p) (simp_all add: sys_use_key_def wp_with_ctx wp_def Let_def with_ctx_def split: option.splits)

lemma wp_sys_ctx_free [wp_rules]:
  "wp (sys_ctx_free p) Q E w =
     (case p of None \<Rightarrow> Q () w
      | Some x \<Rightarrow> if x \<in> ssl_ctxs w then Q () (emit (Ev_ctx_free x) (w\<lparr>ssl_ctxs := ssl_ctxs w - {x}\<rparr>))
                  else E Dangling)"
  by (simp add: sys_ctx_free_def wp_with_ctx wp_rules split: option.splits)

subsection \<open>Threads and signals\<close>

definition sys_signal :: "string \<Rightarrow> unit os" where
  "sys_signal name = modifyM (emit (Ev_signal_handler name))"

definition sys_thread_create :: "env \<Rightarrow> int os" where
  "sys_thread_create e = (\<lambda>w. let r = env_thread_create e w in Inr (r, emit (Ev_thread_create r) w))"

lemma wp_sys_signal [wp_rules]: "wp (sys_signal name) Q E w = Q () (emit (Ev_signal_handler name) w)"
  by (simp add: sys_signal_def wp_rules)

lemma wp_sys_thread_create [wp_rules]:
  "wp (sys_thread_create e) Q E w =
     Q (env_thread_create e w) (emit (Ev_thread_create (env_thread_create e w)) w)"
  by (simp add: sys_thread_create_def wp_def Let_def)

section \<open>What the sources rely on\<close>

text \<open>
  POSIX: a new descriptor is non-negative and was not open before. C: a block that is allocated
  is disjoint from every other one (\<open>realloc\<close> may also grow in place). OpenSSL: a new object is distinct from every live one, and a
  failed \<open>SSL_read\<close> returns 0 or \<open>- 1\<close>. POSIX: locking and unlocking a valid default mutex in
  the only thread that uses it succeeds.
\<close>

definition fresh_fds :: "env \<Rightarrow> bool" where
  "fresh_fds e \<longleftrightarrow>
     (\<forall>w fam. env_socket e w fam = - 1 \<or> 0 \<le> env_socket e w fam \<and> env_socket e w fam \<notin> fds w) \<and>
     (\<forall>w fd. env_accept e w fd = - 1 \<or> 0 \<le> env_accept e w fd \<and> env_accept e w fd \<notin> fds w)"

definition fresh_heap :: "env \<Rightarrow> bool" where
  "fresh_heap e \<longleftrightarrow> (\<forall>w p n a. env_realloc e w p n = Some a \<longrightarrow> heap w a = None \<or> p = Some a)"

definition fresh_ssls :: "env \<Rightarrow> bool" where
  "fresh_ssls e \<longleftrightarrow> (\<forall>w s. env_ssl_new e w = Some s \<longrightarrow> s \<notin> ssls w)"

definition ssl_read_minus1 :: "env \<Rightarrow> bool" where
  "ssl_read_minus1 e \<longleftrightarrow> (\<forall>w s r. env_ssl_read e w s = Inl r \<longrightarrow> - 1 \<le> r)"

definition mutex_works :: "env \<Rightarrow> bool" where
  "mutex_works e \<longleftrightarrow> (\<forall>w. env_lock e w = 0) \<and> (\<forall>w. env_unlock e w = 0)"

lemma fresh_fds_socket:
  "fresh_fds e \<Longrightarrow> env_socket e w fam \<noteq> - 1 \<Longrightarrow>
   0 \<le> env_socket e w fam \<and> env_socket e w fam \<notin> fds w"
  by (auto simp: fresh_fds_def)

lemma fresh_fds_accept:
  "fresh_fds e \<Longrightarrow> env_accept e w fd \<noteq> - 1 \<Longrightarrow>
   0 \<le> env_accept e w fd \<and> env_accept e w fd \<notin> fds w"
  by (auto simp: fresh_fds_def)

lemma fresh_heap_realloc:
  "fresh_heap e \<Longrightarrow> env_realloc e w p n = Some a \<Longrightarrow> heap w a = None \<or> p = Some a"
  by (auto simp: fresh_heap_def)

lemma fresh_ssls_new: "fresh_ssls e \<Longrightarrow> env_ssl_new e w = Some s \<Longrightarrow> s \<notin> ssls w"
  by (auto simp: fresh_ssls_def)

lemma mutex_works_lock [simp]: "mutex_works e \<Longrightarrow> env_lock e w = 0"
  and mutex_works_unlock [simp]: "mutex_works e \<Longrightarrow> env_unlock e w = 0"
  by (auto simp: mutex_works_def)

end
