(* ===== verification/Comm.thy ===== *)
theory Comm
  imports World
begin

text \<open>
  The listening services, \<open>src/comm.h\<close> and \<open>src/comm.c\<close>: the five service contexts, their
  \<open>init_\<close>, \<open>start_\<close> and \<open>stop_\<close> functions and \<open>check_communications\<close>. The five \<open>start_\<close>
  functions of the source repeat one body with other names, ports and log levels; the body is
  \<open>start_listeners\<close> over a \<open>service\<close> record that holds exactly what differs.

  The contract of a service (\<open>net_service\<close>) says what a client may rely on after start and
  stop: which descriptors are open, what they are bound to, and that nothing leaks. It is
  interpreted for each of the five services.
\<close>

section \<open>Contexts\<close>

definition SMTP_PORT :: nat where "SMTP_PORT = 25"
definition SMTPS_PORT :: nat where "SMTPS_PORT = 465"
definition STARTTLS_PORT :: nat where "STARTTLS_PORT = 587"
definition HTTP_PORT :: nat where "HTTP_PORT = 80"
definition HTTPS_PORT :: nat where "HTTPS_PORT = 443"

lemmas port_defs = SMTP_PORT_def SMTPS_PORT_def STARTTLS_PORT_def HTTP_PORT_def HTTPS_PORT_def

record netcontext =
  active :: bool
  socket4 :: int
  socket6 :: int

record smtpcontext = netcontext +
  starttls :: bool

type_synonym smtpscontext = netcontext
type_synonym starttlscontext = netcontext
type_synonym httpcontext = netcontext
type_synonym httpscontext = netcontext

definition init_smtp :: "smtpcontext \<Rightarrow> smtpcontext" where
  "init_smtp ctx = ctx\<lparr>active := False, starttls := False, socket4 := - 1, socket6 := - 1\<rparr>"

definition init_smtps :: "smtpscontext \<Rightarrow> smtpscontext" where
  "init_smtps ctx = ctx\<lparr>active := False, socket4 := - 1, socket6 := - 1\<rparr>"

definition init_starttls :: "starttlscontext \<Rightarrow> starttlscontext" where
  "init_starttls ctx = ctx\<lparr>active := False, socket4 := - 1, socket6 := - 1\<rparr>"

definition init_http :: "httpcontext \<Rightarrow> httpcontext" where
  "init_http ctx = ctx\<lparr>active := False, socket4 := - 1, socket6 := - 1\<rparr>"

definition init_https :: "httpscontext \<Rightarrow> httpscontext" where
  "init_https ctx = ctx\<lparr>active := False, socket4 := - 1, socket6 := - 1\<rparr>"

text \<open>The global contexts of \<open>femail.c\<close> are zero-initialised, as every C global.\<close>

definition zero_netcontext :: netcontext where
  "zero_netcontext = \<lparr>active = False, socket4 = 0, socket6 = 0\<rparr>"

definition zero_smtpcontext :: smtpcontext where
  "zero_smtpcontext = \<lparr>active = False, socket4 = 0, socket6 = 0, starttls = False\<rparr>"

section \<open>Starting a service\<close>

record service =
  svc_tag :: string             \<comment> \<open>prefix of the log lines\<close>
  svc_opt6_tag :: string        \<comment> \<open>prefix in the warnings about IPv6 socket options\<close>
  svc_bind_level :: loglevel    \<comment> \<open>level at which a failed \<open>bind\<close> is logged\<close>
  svc_name :: string            \<comment> \<open>name in the line that says the service is available\<close>
  svc_port :: nat

definition start_ipv4 :: "env \<Rightarrow> service \<Rightarrow> 'c netcontext_scheme \<Rightarrow> 'c netcontext_scheme os" where
  "start_ipv4 e svc ctx =
     bindM (sys_socket e AF_INET) (\<lambda>fd.
     if fd = - 1
     then seqM (sys_log LOG_ERR (svc_tag svc @ '': Failed to create IPv4 socket.''))
               (ret (ctx\<lparr>socket4 := fd\<rparr>))
     else
       bindM (sys_setsockopt e fd SO_REUSEADDR) (\<lambda>r.
       seqM (whenM (r \<noteq> 0)
               (sys_log LOG_WARNING (svc_tag svc @ '': Couldn't set an IPv4 socket option.'')))
       (bindM (sys_bind e fd AF_INET (svc_port svc)) (\<lambda>b.
        if b \<noteq> 0
        then seqM (sys_log (svc_bind_level svc) (svc_tag svc @ '': Unable to bind on the IPv4 socket. %s''))
             (seqM (sys_close fd)
             (ret (ctx\<lparr>socket4 := - 1\<rparr>)))
        else
          bindM (sys_listen e fd) (\<lambda>l.
          if l \<noteq> 0
          then seqM (sys_log LOG_ERR (svc_tag svc @ '': Unable to listen on the IPv4 socket. %s''))
               (seqM (sys_close fd)
               (ret (ctx\<lparr>socket4 := - 1\<rparr>)))
          else ret (ctx\<lparr>socket4 := fd, active := True\<rparr>))))))"

definition start_ipv6 :: "env \<Rightarrow> service \<Rightarrow> 'c netcontext_scheme \<Rightarrow> 'c netcontext_scheme os" where
  "start_ipv6 e svc ctx =
     bindM (sys_socket e AF_INET6) (\<lambda>fd.
     if fd = - 1
     then seqM (sys_log LOG_ERR (svc_tag svc @ '': Failed to create IPv6 socket.''))
               (ret (ctx\<lparr>socket6 := fd\<rparr>))
     else
       bindM (sys_setsockopt e fd SO_REUSEADDR) (\<lambda>r.
       seqM (whenM (r \<noteq> 0)
               (sys_log LOG_WARNING (svc_opt6_tag svc @ '': Couldn't set an IPv6 socket option.'')))
       (bindM (sys_setsockopt e fd IPV6_V6ONLY) (\<lambda>r6.
       seqM (whenM (r6 \<noteq> 0)
               (sys_log LOG_WARNING (svc_opt6_tag svc @ '': Couldn't set an IPv6 socket option.'')))
       (bindM (sys_bind e fd AF_INET6 (svc_port svc)) (\<lambda>b.
        if b \<noteq> 0
        then seqM (sys_log (svc_bind_level svc) (svc_tag svc @ '': Unable to bind on the IPv6 socket. %s''))
             (seqM (sys_close fd)
             (ret (ctx\<lparr>socket6 := - 1\<rparr>)))
        else
          bindM (sys_listen e fd) (\<lambda>l.
          if l \<noteq> 0
          then seqM (sys_log LOG_ERR (svc_tag svc @ '': Unable to listen on the IPv6 socket. %s''))
               (seqM (sys_close fd)
               (ret (ctx\<lparr>socket6 := - 1\<rparr>)))
          else ret (ctx\<lparr>socket6 := fd, active := True\<rparr>))))))))"

definition start_listeners ::
    "env \<Rightarrow> service \<Rightarrow> 'c netcontext_scheme \<Rightarrow> (int \<times> 'c netcontext_scheme) os" where
  "start_listeners e svc ctx =
     bindM (start_ipv4 e svc ctx) (\<lambda>ctx.
     bindM (start_ipv6 e svc ctx) (\<lambda>ctx.
     if active ctx
     then seqM (sys_log LOG_INFO (''Available on '' @ svc_name svc @ '' port %d.''))
               (ret (0, ctx))
     else ret (1, ctx)))"

definition smtp_service :: service where
  "smtp_service = \<lparr>svc_tag = ''SMTP'', svc_opt6_tag = ''SMTP'', svc_bind_level = LOG_CRIT,
     svc_name = ''SMTP'', svc_port = SMTP_PORT\<rparr>"

definition smtps_service :: service where
  "smtps_service = \<lparr>svc_tag = ''SMTPS'', svc_opt6_tag = ''SMTPS'', svc_bind_level = LOG_CRIT,
     svc_name = ''SMTPS'', svc_port = SMTPS_PORT\<rparr>"

definition starttls_service :: service where
  "starttls_service = \<lparr>svc_tag = ''STARTTLS'', svc_opt6_tag = ''STARTTLS'',
     svc_bind_level = LOG_CRIT, svc_name = ''StartTLS'', svc_port = STARTTLS_PORT\<rparr>"

definition http_service :: service where
  "http_service = \<lparr>svc_tag = ''HTTP'', svc_opt6_tag = ''HTTP'', svc_bind_level = LOG_ERR,
     svc_name = ''HTTP'', svc_port = HTTP_PORT\<rparr>"

definition https_service :: service where
  "https_service = \<lparr>svc_tag = ''HTTPS'', svc_opt6_tag = ''HTTP'', svc_bind_level = LOG_ERR,
     svc_name = ''HTTPS'', svc_port = HTTPS_PORT\<rparr>"

definition start_smtp :: "env \<Rightarrow> nat option \<Rightarrow> smtpcontext \<Rightarrow> (int \<times> smtpcontext) os" where
  "start_smtp e sslctx ctx =
     (if active ctx then ret (0, ctx)
      else if sslctx = None
      then seqM (sys_log LOG_WARNING ''SMTP: No SSL context available. StartTLS disabled.'')
                (start_listeners e smtp_service (ctx\<lparr>starttls := False\<rparr>))
      else start_listeners e smtp_service (ctx\<lparr>starttls := True\<rparr>))"

definition start_smtps :: "env \<Rightarrow> nat option \<Rightarrow> smtpscontext \<Rightarrow> (int \<times> smtpscontext) os" where
  "start_smtps e sslctx ctx =
     (if active ctx then ret (0, ctx)
      else if sslctx = None
      then seqM (sys_log LOG_ERR ''SMTPS: No SSL context available.'') (ret (1, ctx))
      else start_listeners e smtps_service ctx)"

definition start_starttls ::
    "env \<Rightarrow> nat option \<Rightarrow> starttlscontext \<Rightarrow> (int \<times> starttlscontext) os" where
  "start_starttls e sslctx ctx =
     (if active ctx then ret (0, ctx)
      else if sslctx = None
      then seqM (sys_log LOG_ERR ''STARTTLS: No SSL context available.'') (ret (1, ctx))
      else start_listeners e starttls_service ctx)"

definition start_http :: "env \<Rightarrow> httpcontext \<Rightarrow> (int \<times> httpcontext) os" where
  "start_http e ctx =
     (if active ctx then ret (0, ctx) else start_listeners e http_service ctx)"

definition start_https :: "env \<Rightarrow> nat option \<Rightarrow> httpscontext \<Rightarrow> (int \<times> httpscontext) os" where
  "start_https e sslctx ctx =
     (if active ctx then ret (0, ctx)
      else if sslctx = None
      then seqM (sys_log LOG_ERR ''HTTPS: No SSL context available.'') (ret (1, ctx))
      else start_listeners e https_service ctx)"

definition check_communications ::
    "smtpcontext \<Rightarrow> smtpscontext \<Rightarrow> starttlscontext \<Rightarrow> unit os" where
  "check_communications smtp smtps tls =
     (if \<not> active smtp \<and> \<not> active smtps \<and> \<not> active tls
      then seqM (sys_log LOG_CRIT
                  ''CRIT: no communication services were able to be started. aborting...'')
                (throw Abort)
      else ret ())"

section \<open>Stopping a service\<close>

definition close_socket4 :: "'c netcontext_scheme \<Rightarrow> 'c netcontext_scheme os" where
  "close_socket4 ctx =
     (if socket4 ctx \<noteq> - 1 then seqM (sys_close (socket4 ctx)) (ret (ctx\<lparr>socket4 := - 1\<rparr>))
      else ret ctx)"

definition close_socket6 :: "'c netcontext_scheme \<Rightarrow> 'c netcontext_scheme os" where
  "close_socket6 ctx =
     (if socket6 ctx \<noteq> - 1 then seqM (sys_close (socket6 ctx)) (ret (ctx\<lparr>socket6 := - 1\<rparr>))
      else ret ctx)"

definition stop_smtp :: "smtpcontext \<Rightarrow> smtpcontext os" where
  "stop_smtp ctx =
     bindM (close_socket4 ctx) (\<lambda>ctx.
     bindM (close_socket6 ctx) (\<lambda>ctx.
     ret (ctx\<lparr>starttls := False, active := False\<rparr>)))"

definition stop_smtps :: "smtpscontext \<Rightarrow> smtpscontext os" where
  "stop_smtps ctx =
     bindM (close_socket4 ctx) (\<lambda>ctx.
     bindM (close_socket6 ctx) (\<lambda>ctx.
     ret (ctx\<lparr>active := False\<rparr>)))"

definition stop_starttls :: "starttlscontext \<Rightarrow> starttlscontext os" where
  "stop_starttls ctx =
     bindM (close_socket4 ctx) (\<lambda>ctx.
     bindM (close_socket6 ctx) (\<lambda>ctx.
     ret (ctx\<lparr>active := False\<rparr>)))"

definition stop_http :: "httpcontext \<Rightarrow> httpcontext os" where
  "stop_http ctx =
     bindM (close_socket4 ctx) (\<lambda>ctx.
     bindM (close_socket6 ctx) (\<lambda>ctx.
     ret (ctx\<lparr>active := False\<rparr>)))"

definition stop_https :: "httpscontext \<Rightarrow> httpscontext os" where
  "stop_https ctx =
     bindM (close_socket4 ctx) (\<lambda>ctx.
     bindM (close_socket6 ctx) (\<lambda>ctx.
     ret (ctx\<lparr>active := False\<rparr>)))"

section \<open>What starting and stopping do to the descriptors\<close>

text \<open>
  \<open>same_others X w w'\<close>: nothing but descriptors in \<open>X\<close> changed. \<open>sock_up fam port fd w w'\<close>: from
  \<open>w\<close> to \<open>w'\<close> either no descriptor was added (\<open>fd\<close> is \<open>- 1\<close>), or exactly \<open>fd\<close> was, bound to
  \<open>port\<close> and listening.
\<close>

definition same_others :: "int set \<Rightarrow> world \<Rightarrow> world \<Rightarrow> bool" where
  "same_others X w w' \<longleftrightarrow>
     (\<forall>x \<in> fds w - X. bound_to w' x = bound_to w x \<and> (x \<in> listening w' \<longleftrightarrow> x \<in> listening w)) \<and>
     ssls w' = ssls w \<and> ssl_ctxs w' = ssl_ctxs w \<and> heap w' = heap w"

definition sock_up :: "family \<Rightarrow> nat \<Rightarrow> int \<Rightarrow> world \<Rightarrow> world \<Rightarrow> bool" where
  "sock_up fam port fd w w' \<longleftrightarrow>
     same_others {} w w' \<and>
     (if fd = - 1 then fds w' = fds w
      else 0 \<le> fd \<and> fd \<notin> fds w \<and> fds w' = insert fd (fds w) \<and>
           bound_to w' fd = Some (fam, port) \<and> fd \<in> listening w')"

lemmas net_simps = open_fd_def close_fd_def same_others_def sock_up_def

lemma wp_start_ipv4:
  assumes "fresh_fds e" and "\<not> active ctx"
  shows "wp (start_ipv4 e svc ctx)
           (\<lambda>ctx' w'. socket6 ctx' = socket6 ctx \<and> netcontext.more ctx' = netcontext.more ctx \<and>
                     active ctx' = (socket4 ctx' \<noteq> - 1) \<and>
                     sock_up AF_INET (svc_port svc) (socket4 ctx') w w') no_fault w"
proof (cases "env_socket e w AF_INET = - 1")
  case True
  then show ?thesis using assms(2) by (simp add: start_ipv4_def wp_rules net_simps)
next
  case False
  define fd where "fd = env_socket e w AF_INET"
  have fd: "fd \<noteq> - 1" "0 \<le> fd" "fd \<notin> fds w"
    using False fresh_fds_socket [OF assms(1) False] by (auto simp: fd_def)
  then show ?thesis
    using assms(2)
    by (simp add: start_ipv4_def wp_rules fd_def [symmetric] Let_def net_simps)
qed

text \<open>Setting an option only adds to the trace, whether it warns or not.\<close>

lemma wp_set_option:
  assumes "\<And>t. wp m Q E (w\<lparr>trace := t\<rparr>)"
  shows "wp (bindM (sys_setsockopt e fd opt) (\<lambda>r. seqM (whenM (r \<noteq> 0) (sys_log l s)) m)) Q E w"
  using assms by (simp add: wp_rules emit_def)

lemma wp_start_ipv6:
  assumes "fresh_fds e"
  shows "wp (start_ipv6 e svc ctx)
           (\<lambda>ctx' w'. socket4 ctx' = socket4 ctx \<and> netcontext.more ctx' = netcontext.more ctx \<and>
                     active ctx' = (active ctx \<or> socket6 ctx' \<noteq> - 1) \<and>
                     sock_up AF_INET6 (svc_port svc) (socket6 ctx') w w') no_fault w"
proof (cases "env_socket e w AF_INET6 = - 1")
  case True
  then show ?thesis by (simp add: start_ipv6_def wp_rules net_simps)
next
  case False
  define fd where "fd = env_socket e w AF_INET6"
  have fd: "fd \<noteq> - 1" "0 \<le> fd" "fd \<notin> fds w"
    using False fresh_fds_socket [OF assms(1) False] by (auto simp: fd_def)
  show ?thesis
    unfolding start_ipv6_def wp_bindM [of "sys_socket e AF_INET6"] wp_sys_socket fd_def [symmetric]
      if_not_P [OF fd(1)]
    by (intro wp_set_option) (use fd in \<open>simp add: wp_rules Let_def net_simps\<close>)
qed

text \<open>
  The state a service leaves behind when \<open>start_\<close> got as far as opening sockets: \<open>r\<close> is the
  result, \<open>a\<close> the active flag, \<open>f4\<close> and \<open>f6\<close> the two descriptors. Exactly the descriptors the
  context holds were added; each is bound to the service's port and listens.
\<close>

definition service_up :: "nat \<Rightarrow> int \<Rightarrow> bool \<Rightarrow> int \<Rightarrow> int \<Rightarrow> world \<Rightarrow> world \<Rightarrow> bool" where
  "service_up port r a f4 f6 w w' \<longleftrightarrow>
     r = (if a then 0 else 1) \<and> a = (f4 \<noteq> - 1 \<or> f6 \<noteq> - 1) \<and>
     fds w' = fds w \<union> ({f4, f6} - {- 1}) \<and> ({f4, f6} - {- 1}) \<inter> fds w = {} \<and>
     (f4 = f6 \<longrightarrow> f4 = - 1) \<and>
     (f4 \<noteq> - 1 \<longrightarrow> 0 \<le> f4 \<and> bound_to w' f4 = Some (AF_INET, port) \<and> f4 \<in> listening w') \<and>
     (f6 \<noteq> - 1 \<longrightarrow> 0 \<le> f6 \<and> bound_to w' f6 = Some (AF_INET6, port) \<and> f6 \<in> listening w') \<and>
     same_others {} w w'"

lemma sock_up_both:
  assumes "sock_up AF_INET port f4 w w1" and "sock_up AF_INET6 port f6 w1 w2"
    and "a = (f4 \<noteq> - 1 \<or> f6 \<noteq> - 1)" and "r = (if a then 0 else 1)"
  shows "service_up port r a f4 f6 w w2"
  using assms unfolding service_up_def sock_up_def same_others_def
  by (auto split: if_splits)

lemma service_up_emit: "service_up port r a f4 f6 w (emit ev w') = service_up port r a f4 f6 w w'"
  by (simp add: service_up_def same_others_def)

lemma service_up_from_emit: "service_up port r a f4 f6 (emit ev w) w' = service_up port r a f4 f6 w w'"
  by (simp add: service_up_def same_others_def)

lemma wp_start_listeners:
  assumes "fresh_fds e" and "\<not> active ctx"
  shows "wp (start_listeners e svc ctx)
           (\<lambda>(r, ctx') w'. netcontext.more ctx' = netcontext.more ctx \<and>
              service_up (svc_port svc) r (active ctx') (socket4 ctx') (socket6 ctx') w w')
           no_fault w"
proof -
  have six: "wp (bindM (start_ipv6 e svc c1) (\<lambda>ctx.
               if active ctx
               then seqM (sys_log LOG_INFO (''Available on '' @ svc_name svc @ '' port %d.''))
                         (ret (0, ctx))
               else ret (1, ctx)))
           (\<lambda>(r, ctx') w'. netcontext.more ctx' = netcontext.more ctx \<and>
              service_up (svc_port svc) r (active ctx') (socket4 ctx') (socket6 ctx') w w')
           no_fault w1"
    if c1: "netcontext.more c1 = netcontext.more ctx" "active c1 = (socket4 c1 \<noteq> - 1)"
           "sock_up AF_INET (svc_port svc) (socket4 c1) w w1" for c1 w1
    unfolding wp_bindM
  proof (rule wp_mono [OF wp_start_ipv6 [OF assms(1)]], goal_cases)
    case (1 x w')
    then have "service_up (svc_port svc) (if active x then 0 else 1) (active x)
                 (socket4 x) (socket6 x) w w'"
      using c1 by (intro sock_up_both [of _ _ _ w1]) auto
    then show ?case using 1 c1 by (auto simp: wp_rules service_up_emit)
  qed
  show ?thesis
    unfolding start_listeners_def wp_bindM [of "start_ipv4 e svc ctx"]
    by (rule wp_mono [OF wp_start_ipv4 [OF assms]]) (auto intro: six)
qed

lemma service_up_same:
  "service_up port r a f4 f6 w w' \<Longrightarrow> ssls w' = ssls w \<and> ssl_ctxs w' = ssl_ctxs w \<and> heap w' = heap w"
  by (simp add: service_up_def same_others_def)

text \<open>\<open>service_down\<close>: exactly the descriptors the context held are closed.\<close>

definition service_down :: "int \<Rightarrow> int \<Rightarrow> world \<Rightarrow> world \<Rightarrow> bool" where
  "service_down f4 f6 w w' \<longleftrightarrow>
     fds w' = fds w - ({f4, f6} - {- 1}) \<and> same_others ({f4, f6} - {- 1}) w w'"

lemma service_up_down:
  assumes up: "service_up port r a f4 f6 w w1" and down: "service_down f4 f6 w1 w2"
  shows "fds w2 = fds w \<and> same_others {} w w2"
proof -
  let ?D = "{f4, f6} - {- 1}"
  have D: "fds w1 = fds w \<union> ?D" "?D \<inter> fds w = {}" and w2: "fds w2 = fds w1 - ?D"
    using up down by (simp_all only: service_up_def service_down_def)
  have s1: "same_others {} w w1" and s2: "same_others ?D w1 w2"
    using up down by (simp_all only: service_up_def service_down_def)
  have "x \<in> fds w1 - ?D" if "x \<in> fds w" for x
    using that D by blast
  then have "same_others {} w w2"
    using s1 s2 unfolding same_others_def by auto
  moreover have "fds w2 = fds w" using D w2 by blast
  ultimately show ?thesis by blast
qed

lemma wp_close_socket4:
  "wp (close_socket4 ctx)
     (\<lambda>ctx' w'. ctx' = ctx\<lparr>socket4 := - 1\<rparr> \<and> service_down (socket4 ctx) (- 1) w w') no_fault w"
  by (auto simp: close_socket4_def wp_rules service_down_def net_simps)

lemma wp_close_socket6:
  "wp (close_socket6 ctx)
     (\<lambda>ctx' w'. ctx' = ctx\<lparr>socket6 := - 1\<rparr> \<and> service_down (- 1) (socket6 ctx) w w') no_fault w"
  by (auto simp: close_socket6_def wp_rules service_down_def net_simps)

lemma service_down_both:
  "service_down f4 (- 1) w w1 \<Longrightarrow> service_down (- 1) f6 w1 w2 \<Longrightarrow> service_down f4 f6 w w2"
  by (auto simp: service_down_def same_others_def)

lemma wp_stop_sockets:
  "wp (bindM (close_socket4 ctx) (\<lambda>ctx. bindM (close_socket6 ctx) (\<lambda>ctx. ret (f ctx))))
     (\<lambda>ctx' w'. ctx' = f (ctx\<lparr>socket4 := - 1, socket6 := - 1\<rparr>) \<and>
               service_down (socket4 ctx) (socket6 ctx) w w') no_fault w"
  unfolding wp_bindM
  by (rule wp_mono [OF wp_close_socket4])
     (auto simp: wp_rules intro!: wp_mono [OF wp_close_socket6] intro: service_down_both)

section \<open>The contract of a service\<close>

text \<open>
  A service is started with the TLS context in force and stopped again. Some services
  (\<open>needs_ssl\<close>) refuse to start without a TLS context.
\<close>

locale net_service =
  fixes start :: "env \<Rightarrow> nat option \<Rightarrow> 'c \<Rightarrow> (int \<times> 'c) os"
    and stop :: "'c \<Rightarrow> 'c os"
    and act :: "'c \<Rightarrow> bool"
    and fd4 :: "'c \<Rightarrow> int"
    and fd6 :: "'c \<Rightarrow> int"
    and port :: nat
    and needs_ssl :: bool
  assumes start_active: "act c \<Longrightarrow> start e x c w = Inr ((0, c), w)"
    and start_refused: "\<not> act c \<Longrightarrow> needs_ssl \<Longrightarrow>
      \<exists>l m. start e None c w = Inr ((1, c), emit (Ev_log l m) w)"
    and start_inactive: "fresh_fds e \<Longrightarrow> \<not> act c \<Longrightarrow> needs_ssl \<longrightarrow> x \<noteq> None \<Longrightarrow>
      wp (start e x c) (\<lambda>(r, c') w'. service_up port r (act c') (fd4 c') (fd6 c') w w') no_fault w"
    and stop_closes: "wp (stop c)
      (\<lambda>c' w'. \<not> act c' \<and> fd4 c' = - 1 \<and> fd6 c' = - 1 \<and> service_down (fd4 c) (fd6 c) w w') no_fault w"
begin

lemma start_result:
  assumes "fresh_fds e" and "start e x c w = Inr ((r, c'), w')"
  shows "r = (if act c' then 0 else 1)"
proof -
  consider (on) "act c" | (no) "\<not> act c" "needs_ssl" "x = None" | (up) "\<not> act c" "needs_ssl \<longrightarrow> x \<noteq> None"
    by blast
  then show ?thesis
  proof cases
    case on
    then show ?thesis using assms(2) start_active by simp
  next
    case no
    then show ?thesis using start_refused [of c e w] assms(2) by auto
  next
    case up
    show ?thesis
      using wp_Inr [OF start_inactive [OF assms(1) up] assms(2)] by (simp add: service_up_def)
  qed
qed

lemma start_never_faults:
  assumes "fresh_fds e"
  shows "wp (start e x c) (\<lambda>_ _. True) no_fault w"
proof -
  consider (on) "act c" | (no) "\<not> act c" "needs_ssl" "x = None" | (up) "\<not> act c" "needs_ssl \<longrightarrow> x \<noteq> None"
    by blast
  then show ?thesis
  proof cases
    case on
    then show ?thesis by (simp add: start_active wp_def)
  next
    case no
    then show ?thesis using start_refused [of c e w] by (auto simp: wp_def)
  next
    case up
    show ?thesis by (rule wp_mono [OF start_inactive [OF assms up]]) simp_all
  qed
qed

lemma start_twice:
  assumes "fresh_fds e" and "start e x c w = Inr ((0, c'), w')"
  shows "start e y c' w' = Inr ((0, c'), w')"
  using start_result [OF assms] start_active by (simp split: if_splits)

text \<open>Starting and then stopping gives back the descriptors that were open before.\<close>

lemma start_stop:
  assumes e: "fresh_fds e" and c: "\<not> act c" "needs_ssl \<longrightarrow> x \<noteq> None"
  shows "wp (bindM (start e x c) (\<lambda>(r, c'). stop c'))
           (\<lambda>c2 w2. \<not> act c2 \<and> fd4 c2 = - 1 \<and> fd6 c2 = - 1 \<and> fds w2 = fds w \<and> same_others {} w w2)
           no_fault w"
  unfolding wp_bindM
proof (rule wp_mono [OF start_inactive [OF e c]], goal_cases)
  case (1 rc w1)
  obtain r c1 where rc: "rc = (r, c1)" by (cases rc)
  have up: "service_up port r (act c1) (fd4 c1) (fd6 c1) w w1" using 1 rc by simp
  have "fds w2 = fds w \<and> same_others {} w w2" if "service_down (fd4 c1) (fd6 c1) w1 w2" for w2
    by (rule service_up_down [OF up that])
  then show ?case
    unfolding rc prod.case by (intro wp_mono [OF stop_closes]) auto
qed simp

end

section \<open>The five services meet the contract\<close>

lemmas stop_defs = stop_smtp_def stop_smtps_def stop_starttls_def stop_http_def stop_https_def

interpretation smtp_svc: net_service start_smtp stop_smtp active socket4 socket6 SMTP_PORT False
proof unfold_locales
  fix e and x :: "nat option" and c :: smtpcontext and w
  assume "fresh_fds e" and "\<not> active c"
  then show "wp (start_smtp e x c)
     (\<lambda>(r, c') w'. service_up SMTP_PORT r (active c') (socket4 c') (socket6 c') w w') no_fault w"
    using wp_start_listeners [of e "c\<lparr>starttls := True\<rparr>" smtp_service w]
      wp_start_listeners [of e "c\<lparr>starttls := False\<rparr>" smtp_service
        "emit (Ev_log LOG_WARNING ''SMTP: No SSL context available. StartTLS disabled.'') w"]
    by (auto simp: start_smtp_def wp_rules smtp_service_def service_up_from_emit elim!: wp_mono)
next
  fix c :: smtpcontext and w
  show "wp (stop_smtp c) (\<lambda>c' w'. \<not> active c' \<and> socket4 c' = - 1 \<and> socket6 c' = - 1 \<and>
          service_down (socket4 c) (socket6 c) w w') no_fault w"
    unfolding stop_defs by (rule wp_mono [OF wp_stop_sockets]) auto
qed (simp_all add: start_smtp_def)

interpretation smtps_svc: net_service start_smtps stop_smtps active socket4 socket6 SMTPS_PORT True
proof unfold_locales
  fix e and x :: "nat option" and c :: smtpscontext and w
  assume "fresh_fds e" and "\<not> active c" and "True \<longrightarrow> x \<noteq> None"
  then show "wp (start_smtps e x c)
     (\<lambda>(r, c') w'. service_up SMTPS_PORT r (active c') (socket4 c') (socket6 c') w w') no_fault w"
    using wp_start_listeners [of e c smtps_service w]
    by (auto simp: start_smtps_def smtps_service_def elim!: wp_mono)
next
  fix c :: smtpscontext and w
  show "wp (stop_smtps c) (\<lambda>c' w'. \<not> active c' \<and> socket4 c' = - 1 \<and> socket6 c' = - 1 \<and>
          service_down (socket4 c) (socket6 c) w w') no_fault w"
    unfolding stop_defs by (rule wp_mono [OF wp_stop_sockets]) auto
qed (auto simp: start_smtps_def seqM_apply sys_log_def)

interpretation starttls_svc:
  net_service start_starttls stop_starttls active socket4 socket6 STARTTLS_PORT True
proof unfold_locales
  fix e and x :: "nat option" and c :: starttlscontext and w
  assume "fresh_fds e" and "\<not> active c" and "True \<longrightarrow> x \<noteq> None"
  then show "wp (start_starttls e x c)
     (\<lambda>(r, c') w'. service_up STARTTLS_PORT r (active c') (socket4 c') (socket6 c') w w') no_fault w"
    using wp_start_listeners [of e c starttls_service w]
    by (auto simp: start_starttls_def starttls_service_def elim!: wp_mono)
next
  fix c :: starttlscontext and w
  show "wp (stop_starttls c) (\<lambda>c' w'. \<not> active c' \<and> socket4 c' = - 1 \<and> socket6 c' = - 1 \<and>
          service_down (socket4 c) (socket6 c) w w') no_fault w"
    unfolding stop_defs by (rule wp_mono [OF wp_stop_sockets]) auto
qed (auto simp: start_starttls_def seqM_apply sys_log_def)

interpretation http_svc:
  net_service "\<lambda>e x. start_http e" stop_http active socket4 socket6 HTTP_PORT False
proof unfold_locales
  fix e and c :: httpcontext and w
  assume "fresh_fds e" and "\<not> active c"
  then show "wp (start_http e c)
     (\<lambda>(r, c') w'. service_up HTTP_PORT r (active c') (socket4 c') (socket6 c') w w') no_fault w"
    using wp_start_listeners [of e c http_service w]
    by (auto simp: start_http_def http_service_def elim!: wp_mono)
next
  fix c :: httpcontext and w
  show "wp (stop_http c) (\<lambda>c' w'. \<not> active c' \<and> socket4 c' = - 1 \<and> socket6 c' = - 1 \<and>
          service_down (socket4 c) (socket6 c) w w') no_fault w"
    unfolding stop_defs by (rule wp_mono [OF wp_stop_sockets]) auto
qed (simp_all add: start_http_def)

interpretation https_svc: net_service start_https stop_https active socket4 socket6 HTTPS_PORT True
proof unfold_locales
  fix e and x :: "nat option" and c :: httpscontext and w
  assume "fresh_fds e" and "\<not> active c" and "True \<longrightarrow> x \<noteq> None"
  then show "wp (start_https e x c)
     (\<lambda>(r, c') w'. service_up HTTPS_PORT r (active c') (socket4 c') (socket6 c') w w') no_fault w"
    using wp_start_listeners [of e c https_service w]
    by (auto simp: start_https_def https_service_def elim!: wp_mono)
next
  fix c :: httpscontext and w
  show "wp (stop_https c) (\<lambda>c' w'. \<not> active c' \<and> socket4 c' = - 1 \<and> socket6 c' = - 1 \<and>
          service_down (socket4 c) (socket6 c) w w') no_fault w"
    unfolding stop_defs by (rule wp_mono [OF wp_stop_sockets]) auto
qed (auto simp: start_https_def seqM_apply sys_log_def)

end
