(* ===== verification/Connections.thy ===== *)
theory Connections
  imports World
begin

text \<open>
  The connection object, \<open>src/femail.h\<close>, and its life cycle in \<open>src/master.c\<close>:
  \<open>connection_init\<close>, \<open>reset_connection\<close> and \<open>connection_deinit\<close>. A connection owns its client
  socket, its \<open>SSL\<close> object and its message buffer. \<open>conn_owns\<close> says that these are allocated,
  \<open>buffer_ok\<close> that the message buffer is as large as the counters say, and the lemmas show what
  each function does to them.
\<close>

section \<open>Types\<close>

definition DOMAIN_MAX_SIZE :: nat where "DOMAIN_MAX_SIZE = 255"
definition SMALL_BUFFER_SIZE :: nat where "SMALL_BUFFER_SIZE = 1024"

datatype ConnectionHandlerResult =
    CONNECTION_DONE
  | CONNECTION_CONTINUE
  | CONNECTION_RESET
  | CONNECTION_ERROR

datatype ConnectionType =
    SMTP_CONNECTION
  | SMTPS_CONNECTION
  | STARTTLS_CONNECTION
  | HTTP_CONNECTION
  | HTTPS_CONNECTION

datatype ConnectionState =
    MAIL_CONNECTION_OPENED
  | MAIL_CONNECTION_EXPECT_ANY
  | MAIL_CONNECTION_GREETED
  | MAIL_CONNECTION_MAILING
  | MAIL_CONNECTION_RCPT
  | MAIL_CONNECTION_EXPECT_TLS_NEG
  | MAIL_CONNECTION_EXPECT_DATA
  | HTTP_CONNECTION_OPENED

datatype SSL_STRATEGY =
    NO_SSL
  | OPPORTUNISTIC_TLS
  | IMPLICIT_TLS

record Connection =
  timeinitialized :: int
  timerefreshed :: int
  live :: bool
  conn_type :: ConnectionType
  conn_state :: ConnectionState
  clientsocket :: int
  sslstrat :: SSL_STRATEGY
  sslconn :: "nat option"
  mailclientdomain :: "char list"
  alloccount :: size_t
  messagebuffersize :: size_t
  messagebufferend :: size_t
  messagebuffer :: "nat option"

section \<open>Life cycle\<close>

definition connection_init :: "env \<Rightarrow> nat option \<Rightarrow> Connection \<Rightarrow> Connection os" where
  "connection_init e sslctx conn =
     bindM (sys_time e) (\<lambda>t0.
     bindM (sys_time e) (\<lambda>t1.
     let conn = conn\<lparr>timeinitialized := t0, timerefreshed := t1, live := True\<rparr> in
     bindM (case sslstrat conn of
              IMPLICIT_TLS \<Rightarrow>
                bindM (sys_ssl_new e sslctx) (\<lambda>s.
                seqM (sys_ssl_set_fd s (clientsocket conn))
                (ret (conn\<lparr>sslconn := s\<rparr>)))
            | OPPORTUNISTIC_TLS \<Rightarrow> ret conn
            | NO_SSL \<Rightarrow> ret conn) (\<lambda>conn.
     let conn =
       (case conn_type conn of
          SMTP_CONNECTION \<Rightarrow> conn\<lparr>conn_state := MAIL_CONNECTION_OPENED\<rparr>
        | SMTPS_CONNECTION \<Rightarrow> conn\<lparr>conn_state := MAIL_CONNECTION_OPENED\<rparr>
        | STARTTLS_CONNECTION \<Rightarrow> conn\<lparr>conn_state := MAIL_CONNECTION_OPENED\<rparr>
        | HTTP_CONNECTION \<Rightarrow> conn\<lparr>conn_state := HTTP_CONNECTION_OPENED\<rparr>
        | HTTPS_CONNECTION \<Rightarrow> conn\<lparr>conn_state := HTTP_CONNECTION_OPENED\<rparr>) in
     ret (conn\<lparr>alloccount := 0, messagebuffersize := 0, messagebufferend := 0,
               messagebuffer := None\<rparr>))))"

definition reset_connection :: "Connection \<Rightarrow> Connection os" where
  "reset_connection conn =
     (let conn = conn\<lparr>live := True\<rparr>;
          conn = (if conn_state conn = MAIL_CONNECTION_GREETED
                  then conn\<lparr>conn_state := MAIL_CONNECTION_GREETED\<rparr>
                  else conn\<lparr>conn_state := MAIL_CONNECTION_EXPECT_ANY\<rparr>);
          conn = conn\<lparr>alloccount := 0, messagebuffersize := 0, messagebufferend := 0\<rparr>
      in seqM (sys_free (messagebuffer conn))
         (ret (conn\<lparr>messagebuffer := None\<rparr>)))"

definition connection_deinit :: "Connection \<Rightarrow> Connection os" where
  "connection_deinit conn =
     (let conn = conn\<lparr>live := False\<rparr> in
      seqM (sys_ssl_free (sslconn conn))
      (seqM (sys_free (messagebuffer conn))
      (seqM (sys_close (clientsocket conn))
      (ret conn))))"

section \<open>Ownership\<close>

definition conn_owns :: "Connection \<Rightarrow> world \<Rightarrow> bool" where
  "conn_owns c w \<longleftrightarrow>
     0 \<le> clientsocket c \<and> clientsocket c \<in> fds w \<and>
     (\<forall>s. sslconn c = Some s \<longrightarrow> s \<in> ssls w) \<and>
     (\<forall>a. messagebuffer c = Some a \<longrightarrow> heap w a \<noteq> None)"

text \<open>
  The message buffer holds \<open>alloccount\<close> chunks of 1024 bytes and one byte for a NUL, and the
  bytes in use leave room for that NUL.
\<close>

definition buffer_ok :: "Connection \<Rightarrow> world \<Rightarrow> bool" where
  "buffer_ok c w \<longleftrightarrow>
     length (mailclientdomain c) = DOMAIN_MAX_SIZE \<and>
     unat (alloccount c) \<le> 10239 \<and>
     unat (messagebufferend c) \<le> unat (alloccount c) * SMALL_BUFFER_SIZE \<and>
     length (old_block (messagebuffer c) w) =
       (if messagebuffer c = None then 0 else unat (alloccount c) * SMALL_BUFFER_SIZE + 1) \<and>
     (messagebuffer c = None \<longrightarrow> alloccount c = 0)"

definition conn_ok :: "Connection \<Rightarrow> world \<Rightarrow> bool" where
  "conn_ok c w \<longleftrightarrow> conn_owns c w \<and> buffer_ok c w"

text \<open>\<open>frame c w w'\<close>: a step on behalf of \<open>c\<close> left what other connections own alone.\<close>

definition frame :: "Connection \<Rightarrow> world \<Rightarrow> world \<Rightarrow> bool" where
  "frame c w w' \<longleftrightarrow>
     (\<forall>fd \<in> fds w. fd \<noteq> clientsocket c \<longrightarrow> fd \<in> fds w') \<and>
     (\<forall>s \<in> ssls w. sslconn c \<noteq> Some s \<longrightarrow> s \<in> ssls w') \<and>
     (\<forall>a. heap w a \<noteq> None \<longrightarrow> messagebuffer c \<noteq> Some a \<longrightarrow> heap w' a = heap w a) \<and>
     ssl_ctxs w' = ssl_ctxs w \<and> bound_to w' = (bound_to w)(clientsocket c := bound_to w' (clientsocket c)) \<and>
     listening w - {clientsocket c} \<subseteq> listening w'"

text \<open>Two connections that share nothing.\<close>

definition apart :: "Connection \<Rightarrow> Connection \<Rightarrow> bool" where
  "apart c d \<longleftrightarrow> clientsocket c \<noteq> clientsocket d \<and>
     (sslconn c = None \<or> sslconn c \<noteq> sslconn d) \<and>
     (messagebuffer c = None \<or> messagebuffer c \<noteq> messagebuffer d)"

lemma apart_sym: "apart c d \<Longrightarrow> apart d c"
  by (auto simp: apart_def)

lemma old_block_cong:
  "(\<And>a. p = Some a \<Longrightarrow> heap w' a = heap w a) \<Longrightarrow> old_block p w' = old_block p w"
  by (simp add: old_block_def split: option.splits)

lemma frame_conn_ok:
  assumes "frame c w w'" and "apart c d" and "conn_ok d w"
  shows "conn_ok d w'"
proof -
  have own: "conn_owns d w" and buf: "buffer_ok d w"
    using assms(3) by (simp_all add: conn_ok_def)
  have h: "heap w' a = heap w a" if "messagebuffer d = Some a" for a
    using assms(1,2) own that by (auto simp: frame_def apart_def conn_owns_def)
  then have "old_block (messagebuffer d) w' = old_block (messagebuffer d) w"
    by (rule old_block_cong)
  with buf have "buffer_ok d w'" by (simp add: buffer_ok_def)
  moreover have "conn_owns d w'"
    using assms(1,2) own h by (auto simp: frame_def apart_def conn_owns_def)
  ultimately show ?thesis by (simp add: conn_ok_def)
qed

lemma frame_emit [simp]: "frame c w (emit ev w') = frame c w w'"
  by (simp add: frame_def)

lemma old_block_emit [simp]: "old_block p (emit ev w) = old_block p w"
  by (rule old_block_cong) simp

lemma conn_owns_emit [simp]: "conn_owns c (emit ev w) = conn_owns c w"
  by (simp add: conn_owns_def)

lemma buffer_ok_emit [simp]: "buffer_ok c (emit ev w) = buffer_ok c w"
  by (simp add: buffer_ok_def)

lemma conn_ok_emit [simp]: "conn_ok c (emit ev w) = conn_ok c w"
  by (simp add: conn_ok_def)

lemma quiet_frame: "quiet w w' \<Longrightarrow> frame c w w'"
  by (simp add: frame_def quiet_simps)

lemma quiet_conn_ok: "quiet w w' \<Longrightarrow> conn_ok c w' = conn_ok c w"
  using old_block_cong [of "messagebuffer c" w' w]
  by (simp add: conn_ok_def conn_owns_def buffer_ok_def quiet_simps)

lemma frame_refl [simp]: "frame c w w"
  by (simp add: frame_def)

section \<open>What the life cycle does\<close>

lemma wp_connection_deinit:
  assumes "conn_owns c w"
  shows "wp (connection_deinit c)
           (\<lambda>c' w'. c' = c\<lparr>live := False\<rparr> \<and> frame c w w' \<and>
              fds w' = fds w - {clientsocket c} \<and>
              ssls w' = ssls w - set_option (sslconn c) \<and>
              dom (heap w') = dom (heap w) - set_option (messagebuffer c)) no_fault w"
  using assms
  by (cases "sslconn c"; cases "messagebuffer c")
     (auto simp: connection_deinit_def wp_rules conn_owns_def frame_def close_fd_def)

lemma wp_reset_connection:
  assumes "conn_owns c w" and "length (mailclientdomain c) = DOMAIN_MAX_SIZE"
  shows "wp (reset_connection c)
           (\<lambda>c' w'. conn_ok c' w' \<and> frame c w w' \<and> live c' \<and>
              conn_state c' = (if conn_state c = MAIL_CONNECTION_GREETED
                               then MAIL_CONNECTION_GREETED else MAIL_CONNECTION_EXPECT_ANY) \<and>
              clientsocket c' = clientsocket c \<and> sslconn c' = sslconn c \<and>
              conn_type c' = conn_type c \<and> messagebuffer c' = None \<and>
              fds w' = fds w \<and> ssls w' = ssls w \<and>
              dom (heap w') = dom (heap w) - set_option (messagebuffer c)) no_fault w"
  using assms
  by (cases "messagebuffer c")
     (auto simp: reset_connection_def wp_rules conn_ok_def conn_owns_def frame_def buffer_ok_def
        old_block_def)

end
