(* ===== verification/Fifo.thy ===== *)
theory Fifo
  imports Main
begin

text \<open>
  The contract of a bounded first-in first-out queue. The server's connection queue and the
  runtime's message queue are both instances.
\<close>

section \<open>Bounded first-in first-out queues\<close>

fun pop_n :: "('q \<Rightarrow> 'a \<times> 'q) \<Rightarrow> nat \<Rightarrow> 'q \<Rightarrow> 'a list \<times> 'q" where
  "pop_n pop 0 q = ([], q)"
| "pop_n pop (Suc n) q =
     (let (x, q') = pop q; (xs, q'') = pop_n pop n q' in (x # xs, q''))"

locale bounded_fifo =
  fixes inv :: "'q \<Rightarrow> bool"
    and contents :: "'q \<Rightarrow> 'a list"
    and push :: "'a \<Rightarrow> 'q \<Rightarrow> 'q"
    and pop :: "'q \<Rightarrow> 'a \<times> 'q"
    and cap :: nat
  assumes length_contents: "inv q \<Longrightarrow> length (contents q) \<le> cap"
    and inv_push: "inv q \<Longrightarrow> length (contents q) < cap \<Longrightarrow> inv (push x q)"
    and contents_push: "inv q \<Longrightarrow> length (contents q) < cap \<Longrightarrow> contents (push x q) = contents q @ [x]"
    and inv_pop: "inv q \<Longrightarrow> contents q \<noteq> [] \<Longrightarrow> inv (snd (pop q))"
    and fst_pop: "inv q \<Longrightarrow> contents q \<noteq> [] \<Longrightarrow> fst (pop q) = hd (contents q)"
    and contents_pop: "inv q \<Longrightarrow> contents q \<noteq> [] \<Longrightarrow> contents (snd (pop q)) = tl (contents q)"
begin

lemma push_all:
  "inv q \<Longrightarrow> length (contents q) + length xs \<le> cap \<Longrightarrow>
   inv (fold push xs q) \<and> contents (fold push xs q) = contents q @ xs"
proof (induction xs arbitrary: q)
  case Nil
  then show ?case by simp
next
  case (Cons x xs)
  then have "inv (push x q)" and "contents (push x q) = contents q @ [x]"
    by (simp_all add: inv_push contents_push)
  with Cons.IH [of "push x q"] Cons.prems show ?case by simp
qed

lemma pop_all:
  "inv q \<Longrightarrow> n \<le> length (contents q) \<Longrightarrow>
   fst (pop_n pop n q) = take n (contents q) \<and> inv (snd (pop_n pop n q)) \<and>
   contents (snd (pop_n pop n q)) = drop n (contents q)"
proof (induction n arbitrary: q)
  case 0
  then show ?case by simp
next
  case (Suc n)
  then have ne: "contents q \<noteq> []" by auto
  obtain x q' where p: "pop q = (x, q')" by (cases "pop q")
  have q': "inv q'" "x = hd (contents q)" "contents q' = tl (contents q)"
    using inv_pop [OF Suc.prems(1) ne] fst_pop [OF Suc.prems(1) ne]
      contents_pop [OF Suc.prems(1) ne] p by simp_all
  obtain xs q'' where r: "pop_n pop n q' = (xs, q'')" by (cases "pop_n pop n q'")
  have "n \<le> length (contents q')" using Suc.prems(2) q' by simp
  from Suc.IH [OF q'(1) this] ne q' show ?case
    by (simp add: p r) (metis drop_Suc list.collapse take_Suc)
qed

text \<open>What goes in comes out, in the same order, behind what was there.\<close>

lemma fifo_order:
  assumes "inv q" and "length (contents q) + length xs \<le> cap"
  shows "fst (pop_n pop (length (contents q) + length xs) (fold push xs q)) = contents q @ xs"
  using pop_all [of "fold push xs q" "length (contents q) + length xs"] push_all [OF assms]
  by simp

end

end
