(* ===== verification/Conn_Queue.thy ===== *)
theory Conn_Queue
  imports Connections Fifo
begin

text \<open>
  The connection queue of \<open>src/master.h\<close> and \<open>src/master.c\<close>: a ring buffer of 512 connections
  behind a mutex. \<open>queue_push\<close> and \<open>queue_pop\<close> are the code between locking and unlocking;
  \<open>bounded_fifo\<close> is what the master service relies on, and the ring buffer is shown to
  implement it. The queue's functions are then characterised on every path, mutex failures
  included.
\<close>

section \<open>The ring buffer\<close>

definition CONNECTION_QUEUE_CAPACITY :: size_t where "CONNECTION_QUEUE_CAPACITY = 512"

record ConnectionQueue =
  q_count :: size_t
  q_head :: size_t
  q_tail :: size_t
  q_data :: "Connection list"

text \<open>A connection object filled with zero bytes.\<close>

definition zero_connection :: Connection where
  "zero_connection = \<lparr>timeinitialized = 0, timerefreshed = 0, live = False,
     conn_type = SMTP_CONNECTION, conn_state = MAIL_CONNECTION_OPENED, clientsocket = 0,
     sslstrat = NO_SSL, sslconn = None, mailclientdomain = replicate DOMAIN_MAX_SIZE NUL,
     alloccount = 0, messagebuffersize = 0, messagebufferend = 0, messagebuffer = None\<rparr>"

definition conn_queue_init :: "ConnectionQueue \<Rightarrow> (int \<times> ConnectionQueue) os" where
  "conn_queue_init q =
     seqM sys_mutex_init
     (ret (0, q\<lparr>q_count := 0, q_head := 0, q_tail := 0,
               q_data := replicate (unat CONNECTION_QUEUE_CAPACITY) zero_connection\<rparr>))"

definition mutex_lock_failure :: string where
  "mutex_lock_failure = ''Mutex lock failure, system may begin failing.''"

definition mutex_unlock_failure :: string where
  "mutex_unlock_failure = ''Mutex unlock failure, system may begin failing.''"

definition conn_queue_count :: "env \<Rightarrow> ConnectionQueue \<Rightarrow> size_t os" where
  "conn_queue_count e q =
     bindM (sys_mutex_lock e) (\<lambda>l.
     if l \<noteq> 0 then seqM (sys_log LOG_ALERT mutex_lock_failure) (ret 0)
     else
       let result = q_count q in
       bindM (sys_mutex_unlock e) (\<lambda>u.
       if u \<noteq> 0 then seqM (sys_log LOG_ALERT mutex_unlock_failure) (ret 0)
       else ret result))"

definition queue_push :: "Connection \<Rightarrow> ConnectionQueue \<Rightarrow> ConnectionQueue" where
  "queue_push conn q =
     q\<lparr>q_data := (q_data q)[unat (q_head q) := conn],
       q_head := (q_head q + 1) mod CONNECTION_QUEUE_CAPACITY,
       q_count := q_count q + 1\<rparr>"

definition conn_queue_enqueue ::
    "env \<Rightarrow> ConnectionQueue \<Rightarrow> Connection \<Rightarrow> (int \<times> ConnectionQueue) os" where
  "conn_queue_enqueue e q conn =
     bindM (sys_mutex_lock e) (\<lambda>l.
     if l \<noteq> 0 then seqM (sys_log LOG_ALERT mutex_lock_failure) (ret (1, q))
     else if q_count q = CONNECTION_QUEUE_CAPACITY then
       seqM (sys_log LOG_ERR ''Connection queue filled, rejecting a connection.'')
       (bindM (sys_mutex_unlock e) (\<lambda>u.
        if u \<noteq> 0 then seqM (sys_log LOG_ALERT mutex_unlock_failure) (ret (1, q))
        else ret (1, q)))
     else
       bindM (sys_time e) (\<lambda>t.
       seqM (guardM (unat (q_head q) < length (q_data q)) Out_of_bounds)
       (let q = queue_push (conn\<lparr>timerefreshed := t\<rparr>) q in
        bindM (sys_mutex_unlock e) (\<lambda>u.
        if u \<noteq> 0 then seqM (sys_log LOG_ALERT mutex_unlock_failure) (ret (1, q))
        else ret (0, q)))))"

definition queue_pop :: "ConnectionQueue \<Rightarrow> Connection \<times> ConnectionQueue" where
  "queue_pop q =
     (q_data q ! unat (q_tail q),
      q\<lparr>q_tail := (q_tail q + 1) mod CONNECTION_QUEUE_CAPACITY, q_count := q_count q - 1\<rparr>)"

definition conn_queue_dequeue ::
    "env \<Rightarrow> ConnectionQueue \<Rightarrow> Connection \<Rightarrow> (int \<times> ConnectionQueue \<times> Connection) os" where
  "conn_queue_dequeue e q conn =
     bindM (sys_mutex_lock e) (\<lambda>l.
     if l \<noteq> 0 then seqM (sys_log LOG_ALERT mutex_lock_failure) (ret (1, q, conn))
     else if q_count q = 0 then
       bindM (sys_mutex_unlock e) (\<lambda>u.
       if u \<noteq> 0 then seqM (sys_log LOG_ALERT mutex_unlock_failure) (ret (1, q, conn))
       else ret (1, q, conn))
     else
       seqM (guardM (unat (q_tail q) < length (q_data q)) Out_of_bounds)
       (let (conn, q) = queue_pop q in
        bindM (sys_mutex_unlock e) (\<lambda>u.
        if u \<noteq> 0 then seqM (sys_log LOG_ALERT mutex_unlock_failure) (ret (1, q, conn))
        else ret (0, q, conn))))"

section \<open>The ring buffer is a bounded queue\<close>

definition queue_inv :: "ConnectionQueue \<Rightarrow> bool" where
  "queue_inv q \<longleftrightarrow>
     length (q_data q) = 512 \<and> unat (q_count q) \<le> 512 \<and>
     unat (q_head q) < 512 \<and> unat (q_tail q) < 512 \<and>
     unat (q_head q) = (unat (q_tail q) + unat (q_count q)) mod 512"

definition queue_contents :: "ConnectionQueue \<Rightarrow> Connection list" where
  "queue_contents q =
     map (\<lambda>i. q_data q ! ((unat (q_tail q) + i) mod 512)) [0..<unat (q_count q)]"

lemma length_queue_contents [simp]: "length (queue_contents q) = unat (q_count q)"
  by (simp add: queue_contents_def)

lemma unat_wrap:
  assumes "unat h < 512"
  shows "unat ((h + 1) mod CONNECTION_QUEUE_CAPACITY) = (unat h + 1) mod 512"
proof -
  have "unat (h + 1) = Suc (unat h)"
    using assms by (intro unat_Suc_less [of _ 512]) simp_all
  then show ?thesis by (simp add: CONNECTION_QUEUE_CAPACITY_def unat_mod)
qed

lemma mod_add_neq:
  fixes t i n :: nat
  assumes "i < n" and "n < 512"
  shows "(t + i) mod 512 \<noteq> (t + n) mod 512"
proof
  assume "(t + i) mod 512 = (t + n) mod 512"
  then have "512 dvd n - i"
    using assms(1) mod_eq_dvd_iff_nat [of "t + i" "t + n" 512] by simp
  then show False using assms by (auto dest: dvd_imp_le)
qed

lemma queue_push_contents:
  assumes inv: "queue_inv q" and room: "unat (q_count q) < 512"
  shows "queue_contents (queue_push x q) = queue_contents q @ [x]"
proof -
  let ?t = "unat (q_tail q)" and ?n = "unat (q_count q)"
  have head: "unat (q_head q) = (?t + ?n) mod 512" and len: "length (q_data q) = 512"
    using inv by (simp_all add: queue_inv_def)
  have n: "unat (q_count q + 1) = Suc ?n"
    using room by (rule unat_Suc_less) simp
  have "(q_data q)[unat (q_head q) := x] ! ((?t + i) mod 512) = q_data q ! ((?t + i) mod 512)"
    if "i < ?n" for i
    using mod_add_neq [OF that room, of ?t] head by simp
  then show ?thesis
    by (simp add: queue_contents_def queue_push_def n head len)
qed

lemma queue_push_inv:
  assumes "queue_inv q" and "unat (q_count q) < 512"
  shows "queue_inv (queue_push x q)"
proof -
  have n: "unat (q_count q + 1) = Suc (unat (q_count q))"
    using assms(2) by (rule unat_Suc_less) simp
  have h: "unat ((q_head q + 1) mod CONNECTION_QUEUE_CAPACITY) = (unat (q_head q) + 1) mod 512"
    using assms(1) by (intro unat_wrap) (simp add: queue_inv_def)
  show ?thesis
    using assms unfolding queue_inv_def queue_push_def
    by (simp add: n h mod_Suc_eq)
qed

lemma queue_pop_facts:
  assumes inv: "queue_inv q" and ne: "queue_contents q \<noteq> []"
  shows "queue_inv (snd (queue_pop q))"
    and "fst (queue_pop q) = hd (queue_contents q)"
    and "queue_contents (snd (queue_pop q)) = tl (queue_contents q)"
proof -
  let ?t = "unat (q_tail q)" and ?n = "unat (q_count q)"
  have "?n > 0" using ne by (metis length_greater_0_conv length_queue_contents)
  then have n: "unat (q_count q - 1) = ?n - 1"
    by (intro unat_minus_one_pos) auto
  obtain m where m: "?n = Suc m" using \<open>?n > 0\<close> gr0_implies_Suc by blast
  have t: "unat ((q_tail q + 1) mod CONNECTION_QUEUE_CAPACITY) = (?t + 1) mod 512"
    using inv by (intro unat_wrap) (simp add: queue_inv_def)
  show "queue_inv (snd (queue_pop q))"
    using inv unfolding queue_inv_def queue_pop_def
    by (simp add: n t m mod_add_left_eq)
  show "fst (queue_pop q) = hd (queue_contents q)"
    using inv by (simp add: queue_pop_def queue_contents_def m queue_inv_def upt_conv_Cons del: upt_Suc)
  show "queue_contents (snd (queue_pop q)) = tl (queue_contents q)"
  proof -
    have "tl (queue_contents q) = map (\<lambda>i. q_data q ! ((?t + i) mod 512)) (map Suc [0..<m])"
      by (simp add: queue_contents_def m upt_conv_Cons map_Suc_upt del: upt_Suc)
    also have "\<dots> = map (\<lambda>i. q_data q ! (((?t + 1) mod 512 + i) mod 512)) [0..<m]"
      by (simp add: mod_add_left_eq)
    finally show ?thesis by (simp add: queue_contents_def queue_pop_def n t m)
  qed
qed

lemma queue_inv_count: "queue_inv q \<Longrightarrow> unat (q_count q) \<le> 512"
  by (simp add: queue_inv_def)

interpretation conn_fifo: bounded_fifo queue_inv queue_contents queue_push queue_pop 512
  by unfold_locales
     (auto simp: queue_push_inv queue_push_contents queue_pop_facts queue_inv_count)

section \<open>The queue's functions\<close>

lemma q_count_full: "queue_inv q \<Longrightarrow>
    q_count q \<noteq> CONNECTION_QUEUE_CAPACITY \<longleftrightarrow> unat (q_count q) < 512"
  using queue_inv_count [of q]
  by (auto simp: CONNECTION_QUEUE_CAPACITY_def word_unat_eq_iff)

lemma wp_conn_queue_init:
  "wp (conn_queue_init q)
     (\<lambda>(r, q') w'. r = 0 \<and> queue_inv q' \<and> queue_contents q' = [] \<and> quiet w w') no_fault w"
  by (simp add: conn_queue_init_def wp_rules queue_inv_def queue_contents_def
        CONNECTION_QUEUE_CAPACITY_def)

lemma wp_conn_queue_enqueue:
  assumes "mutex_works e" and "queue_inv q"
  shows "wp (conn_queue_enqueue e q c)
           (\<lambda>(r, q') w'. quiet w w' \<and>
              (if unat (q_count q) < 512
               then r = 0 \<and> queue_inv q' \<and>
                    (\<exists>t. queue_contents q' = queue_contents q @ [c\<lparr>timerefreshed := t\<rparr>])
               else r = 1 \<and> q' = q)) no_fault w"
proof (cases "unat (q_count q) < 512")
  case True
  have "unat (q_head q) < length (q_data q)" using assms(2) by (simp add: queue_inv_def)
  with True show ?thesis
    using assms q_count_full [OF assms(2)] queue_push_inv [OF assms(2) True]
      queue_push_contents [OF assms(2) True]
    by (auto simp: conn_queue_enqueue_def wp_rules Let_def)
next
  case False
  then show ?thesis
    using assms q_count_full [OF assms(2)]
    by (simp add: conn_queue_enqueue_def wp_rules)
qed

lemma q_count_zero: "q_count q = 0 \<longleftrightarrow> queue_contents q = []"
  by (metis length_0_conv length_queue_contents unat_eq_zero)

lemma wp_conn_queue_dequeue:
  assumes "mutex_works e" and "queue_inv q"
  shows "wp (conn_queue_dequeue e q c)
           (\<lambda>(r, q', c') w'. quiet w w' \<and>
              (case queue_contents q of
                 [] \<Rightarrow> r = 1 \<and> q' = q \<and> c' = c
               | x # xs \<Rightarrow> r = 0 \<and> queue_inv q' \<and> c' = x \<and> queue_contents q' = xs)) no_fault w"
proof (cases "queue_contents q")
  case Nil
  then show ?thesis
    using assms q_count_zero [of q] by (simp add: conn_queue_dequeue_def wp_rules)
next
  case (Cons x xs)
  then have ne: "queue_contents q \<noteq> []" by simp
  have "unat (q_tail q) < length (q_data q)" using assms(2) by (simp add: queue_inv_def)
  then show ?thesis
    using assms Cons q_count_zero [of q] queue_pop_facts [OF assms(2) ne]
    by (auto simp: conn_queue_dequeue_def wp_rules Let_def split: prod.splits)
qed

text \<open>
  When unlocking fails after a connection was stored, the function reports failure although the
  queue holds the connection.
\<close>

lemma enqueue_unlock_failure_quiet:
  assumes "queue_inv q" and "unat (q_count q) < 512"
    and "\<And>w. env_lock e w = 0" and "\<And>w. env_unlock e w \<noteq> 0"
  shows "wp (conn_queue_enqueue e q c)
           (\<lambda>(r, q') w'. r = 1 \<and> quiet w w' \<and>
              (\<exists>t. queue_contents q' = queue_contents q @ [c\<lparr>timerefreshed := t\<rparr>])) no_fault w"
proof -
  have "unat (q_head q) < length (q_data q)" using assms(1) by (simp add: queue_inv_def)
  then show ?thesis
    using assms q_count_full [OF assms(1)] queue_push_contents [OF assms(1,2)]
    by (auto simp: conn_queue_enqueue_def wp_rules Let_def)
qed

end
