(* ===== verification/Smtp.thy ===== *)
theory Smtp
  imports Connections "HOL-Library.Sublist"
begin

text \<open>
  The SMTP side, \<open>src/smtp.h\<close> and \<open>src/smtp.c\<close>: the command parser, the search for the end of
  a message, the copy of the client's domain, the replies, and the three mail handlers. The
  large handler is split at its own section boundaries: \<open>smtp_handle_data\<close> and
  \<open>smtp_store_data\<close> are the branch that collects message data, \<open>smtp_handle_command\<close> the switch
  over the parsed command.
\<close>

section \<open>Commands\<close>

datatype SMTPCommand =
    SMTP_NOOP
  | SMTP_QUIT
  | SMTP_RSET
  | SMTP_DATA
  | SMTP_HELP
  | SMTP_HELO
  | SMTP_EHLO
  | SMTP_MAIL
  | SMTP_RCPT
  | SMTP_VRFY
  | SMTP_EXPN
  | SMTP_STARTTLS

text \<open>The parameter points into the line: its offset from the start of the buffer.\<close>

record SMTPClientCommand =
  command :: SMTPCommand
  param :: "nat option"

text \<open>\<open>None\<close> is the result 1, an unrecognised command.\<close>

definition parse_client_command :: "char list \<Rightarrow> SMTPClientCommand option" where
  "parse_client_command buffer =
     (if strncasecmp buffer (lit ''NOOP'') 4 = 0
      then Some \<lparr>command = SMTP_NOOP, param = None\<rparr>
      else if strncasecmp buffer (lit ''QUIT'') 4 = 0
      then Some \<lparr>command = SMTP_QUIT, param = None\<rparr>
      else if strncasecmp buffer (lit ''RSET'') 4 = 0
      then Some \<lparr>command = SMTP_RSET, param = None\<rparr>
      else if strncasecmp buffer (lit ''DATA'') 4 = 0
      then Some \<lparr>command = SMTP_DATA, param = None\<rparr>
      else if strncasecmp buffer (lit ''HELP'') 4 = 0
      then Some \<lparr>command = SMTP_HELP, param = Some 5\<rparr>
      else if strncasecmp buffer (lit ''HELO '') 5 = 0
      then Some \<lparr>command = SMTP_HELO, param = Some 5\<rparr>
      else if strncasecmp buffer (lit ''EHLO '') 5 = 0
      then Some \<lparr>command = SMTP_EHLO, param = Some 5\<rparr>
      else if strncasecmp buffer (lit ''MAIL FROM:'') 10 = 0
      then Some \<lparr>command = SMTP_MAIL, param = Some 10\<rparr>
      else if strncasecmp buffer (lit ''RCPT TO:'') 8 = 0
      then Some \<lparr>command = SMTP_RCPT, param = Some 8\<rparr>
      else if strncasecmp buffer (lit ''VRFY '') 5 = 0
      then Some \<lparr>command = SMTP_VRFY, param = Some 5\<rparr>
      else if strncasecmp buffer (lit ''EXPN '') 5 = 0
      then Some \<lparr>command = SMTP_EXPN, param = Some 5\<rparr>
      else if strncasecmp buffer (lit ''STARTTLS'') 8 = 0
      then Some \<lparr>command = SMTP_STARTTLS, param = Some 8\<rparr>
      else None)"

definition ends_word :: "char \<Rightarrow> bool" where
  "ends_word word =
     (word = NUL \<or> word = CHR '' '' \<or> word = TAB \<or> word = CR \<or> word = LF)"

text \<open>The line that ends a message; \<open>None\<close> when the search runs past the end of the object.\<close>

definition end_mark :: string where
  "end_mark = [CR, LF, CHR ''.'', CR, LF]"

fun found_crlf_end :: "char list \<Rightarrow> bool option" where
  "found_crlf_end [] = None"
| "found_crlf_end (c # str) =
     (if c = NUL then Some False
      else if c = CR \<and> strncmp (c # str) (lit end_mark) 5 = 0 then Some True
      else found_crlf_end str)"

text \<open>
  The loop of \<open>move_client_mail_domain\<close>: \<open>current\<close> is what is left of the parameter, \<open>dest\<close> the
  array \<open>mailclientdomain\<close>. Reading past the buffer and writing past the array are faults.
\<close>

fun move_domain_loop :: "char list \<Rightarrow> nat \<Rightarrow> nat \<Rightarrow> char list \<Rightarrow> fault + (int \<times> char list)" where
  "move_domain_loop [] offset mx dest = Inl Out_of_bounds"
| "move_domain_loop (c # current) offset mx dest =
     (if ends_word c
      then (if offset < length dest then Inr (0, dest[offset := NUL]) else Inl Out_of_bounds)
      else if offset = mx then Inr (1, dest)
      else if offset < length dest
      then move_domain_loop current (Suc offset) mx (dest[offset := c])
      else Inl Out_of_bounds)"

definition move_client_mail_domain ::
    "char list \<Rightarrow> Connection \<Rightarrow> nat \<Rightarrow> (int \<times> Connection) os" where
  "move_client_mail_domain prm conn mx =
     (case move_domain_loop prm 0 mx (mailclientdomain conn) of
        Inl f \<Rightarrow> throw f
      | Inr (r, dest) \<Rightarrow> ret (r, conn\<lparr>mailclientdomain := dest\<rparr>))"

section \<open>Sending and receiving\<close>

definition smtp_receive_msg :: "env \<Rightarrow> Connection \<Rightarrow> nat \<Rightarrow> (int \<times> char list) os" where
  "smtp_receive_msg e conn nbytes =
     (if sslconn conn \<noteq> None then sys_ssl_read e (sslconn conn) nbytes
      else sys_read e (clientsocket conn) nbytes)"

text \<open>
  \<open>smtp_send_msg\<close> with the text as \<open>printf\<close> would expand it. Over TLS the text goes through a
  256-byte buffer, which keeps at most 255 of its bytes and a NUL, while \<open>SSL_write\<close> is told the
  length of the whole text.
\<close>

definition smtp_send_msg :: "Connection \<Rightarrow> string \<Rightarrow> unit os" where
  "smtp_send_msg conn text =
     (if sslconn conn \<noteq> None then
        let msgbuf = take 255 text @ [NUL]; len = length text in
        whenM (len > 0)
          (seqM (guardM (len \<le> 256) Out_of_bounds)
          (sys_ssl_write (sslconn conn) (take len msgbuf)))
      else sys_dprintf (clientsocket conn) text)"

definition ESMTP_SIZE :: nat where "ESMTP_SIZE = 10485760"

definition msg_accept_connection :: "string \<Rightarrow> string" where
  "msg_accept_connection dest = ''220 '' @ dest @ '' ESMTP Femail'' @ CRLF"

definition msg_accept_hello :: "string \<Rightarrow> string" where
  "msg_accept_hello client = ''250 Hello '' @ client @ CRLF"

definition msg_accept_ehello :: "string \<Rightarrow> string \<Rightarrow> string" where
  "msg_accept_ehello dest client =
     ''250-'' @ dest @ '' Hello '' @ client @ [LF] @
     ''250-SIZE 10485760'' @ [LF] @ ''250-STARTTLS'' @ [LF] @ ''250 HELP'' @ CRLF"

definition msg_accept_ok :: string where "msg_accept_ok = ''250 Ok'' @ CRLF"
definition msg_accept_goodbye :: string where "msg_accept_goodbye = ''221 Bye'' @ CRLF"
definition msg_accept_starttls :: string where "msg_accept_starttls = ''220 Go ahead'' @ CRLF"
definition msg_start_data :: string where "msg_start_data = ''354'' @ CRLF"
definition msg_reject_error :: string where "msg_reject_error = ''500 Bye'' @ CRLF"
definition msg_reject_sequence :: string where
  "msg_reject_sequence = ''503 Invalid Sequence'' @ CRLF"
definition msg_reject_too_long :: string where "msg_reject_too_long = ''500 Too long'' @ CRLF"
definition msg_reject_too_large :: string where
  "msg_reject_too_large = ''554 5.3.4 Message Too Large'' @ CRLF"
definition msg_reject_unrecognized :: string where
  "msg_reject_unrecognized = ''500 Command Unrecognized'' @ CRLF"
definition msg_reject_unimplemented :: string where
  "msg_reject_unimplemented = ''502 Command Unimplemented'' @ CRLF"
definition msg_reject_starttls :: string where
  "msg_reject_starttls = ''523 Use SMTPS instead'' @ CRLF"

lemmas fixed_msgs = msg_accept_ok_def msg_accept_goodbye_def msg_accept_starttls_def
  msg_start_data_def msg_reject_error_def msg_reject_sequence_def msg_reject_too_long_def
  msg_reject_too_large_def msg_reject_unrecognized_def msg_reject_unimplemented_def
  msg_reject_starttls_def

text \<open>A \<open>%s\<close> that prints the client's domain reads the array up to its NUL.\<close>

definition client_domain :: "Connection \<Rightarrow> string os" where
  "client_domain conn =
     seqM (guardM (has_nul (mailclientdomain conn)) Out_of_bounds)
     (ret (cstr (mailclientdomain conn)))"

section \<open>The handlers\<close>

type_synonym handled = "ConnectionHandlerResult \<times> Connection"

definition smtp_store_data :: "Connection \<Rightarrow> char list \<Rightarrow> size_t \<Rightarrow> handled os" where
  "smtp_store_data conn buffer readamount =
     seqM (guardM (unat readamount \<le> length buffer) Out_of_bounds)
     (seqM (sys_store (messagebuffer conn) (unat (messagebufferend conn))
              (take (unat readamount) buffer))
     (let conn = conn\<lparr>messagebufferend := messagebufferend conn + readamount\<rparr> in
      seqM (sys_store (messagebuffer conn) (unat (messagebufferend conn)) [NUL])
      (bindM (sys_load (messagebuffer conn)) (\<lambda>str.
       case found_crlf_end str of
         None \<Rightarrow> throw Out_of_bounds
       | Some found \<Rightarrow>
           if found then
             let conn = conn\<lparr>conn_state := MAIL_CONNECTION_GREETED\<rparr> in
             seqM (smtp_send_msg conn msg_accept_ok) (ret (CONNECTION_RESET, conn))
           else ret (CONNECTION_CONTINUE, conn)))))"

definition smtp_handle_data :: "env \<Rightarrow> Connection \<Rightarrow> char list \<Rightarrow> size_t \<Rightarrow> handled os" where
  "smtp_handle_data e conn buffer readamount =
     (let conn = conn\<lparr>alloccount := alloccount conn + 1\<rparr>;
          bufsize = alloccount conn * of_nat SMALL_BUFFER_SIZE + 1 :: size_t
      in
      if bufsize > of_nat ESMTP_SIZE then
        seqM (smtp_send_msg conn msg_reject_too_large) (ret (CONNECTION_RESET, conn))
      else
        bindM (sys_realloc e (messagebuffer conn) (unat bufsize)) (\<lambda>p.
        let conn = conn\<lparr>messagebuffer := p\<rparr> in
        if p = None then
          seqM (sys_log LOG_ERR ''Allocation Error'')
          (seqM (smtp_send_msg conn msg_reject_error) (ret (CONNECTION_ERROR, conn)))
        else smtp_store_data conn buffer readamount))"

definition smtp_hello ::
    "(string \<Rightarrow> string) \<Rightarrow> Connection \<Rightarrow> char list \<Rightarrow> handled os" where
  "smtp_hello msg conn prm =
     bindM (move_client_mail_domain prm conn DOMAIN_MAX_SIZE) (\<lambda>(r, conn).
     if r \<noteq> 0 then
       seqM (smtp_send_msg conn msg_reject_too_long) (ret (CONNECTION_CONTINUE, conn))
     else
       let conn = conn\<lparr>conn_state := MAIL_CONNECTION_GREETED\<rparr> in
       bindM (client_domain conn) (\<lambda>client.
       seqM (smtp_send_msg conn (msg client)) (ret (CONNECTION_CONTINUE, conn))))"

definition smtp_handle_command ::
    "env \<Rightarrow> string \<Rightarrow> nat option \<Rightarrow> Connection \<Rightarrow> char list \<Rightarrow> handled os" where
  "smtp_handle_command e maildomain sslctx conn buffer =
     (case parse_client_command buffer of
        None \<Rightarrow> seqM (smtp_send_msg conn msg_reject_unrecognized) (ret (CONNECTION_CONTINUE, conn))
      | Some cmd \<Rightarrow>
         let prm = (case param cmd of None \<Rightarrow> [] | Some k \<Rightarrow> drop k buffer) in
         (case command cmd of
            SMTP_NOOP \<Rightarrow> ret (CONNECTION_CONTINUE, conn)
          | SMTP_QUIT \<Rightarrow>
              seqM (smtp_send_msg conn msg_accept_goodbye) (ret (CONNECTION_DONE, conn))
          | SMTP_RSET \<Rightarrow>
              seqM (smtp_send_msg conn msg_accept_ok) (ret (CONNECTION_RESET, conn))
          | SMTP_DATA \<Rightarrow>
              let conn = conn\<lparr>conn_state := MAIL_CONNECTION_EXPECT_DATA\<rparr> in
              seqM (smtp_send_msg conn msg_start_data) (ret (CONNECTION_CONTINUE, conn))
          | SMTP_HELP \<Rightarrow>
              seqM (smtp_send_msg conn msg_accept_ok) (ret (CONNECTION_CONTINUE, conn))
          | SMTP_HELO \<Rightarrow> smtp_hello msg_accept_hello conn prm
          | SMTP_EHLO \<Rightarrow> smtp_hello (msg_accept_ehello maildomain) conn prm
          | SMTP_MAIL \<Rightarrow>
              if conn_state conn = MAIL_CONNECTION_EXPECT_ANY then
                seqM (smtp_send_msg conn msg_reject_sequence) (ret (CONNECTION_CONTINUE, conn))
              else
                let conn = conn\<lparr>conn_state := MAIL_CONNECTION_MAILING\<rparr> in
                seqM (smtp_send_msg conn msg_accept_ok) (ret (CONNECTION_CONTINUE, conn))
          | SMTP_RCPT \<Rightarrow>
              if conn_state conn \<noteq> MAIL_CONNECTION_MAILING \<and> conn_state conn \<noteq> MAIL_CONNECTION_RCPT then
                seqM (smtp_send_msg conn msg_reject_sequence) (ret (CONNECTION_CONTINUE, conn))
              else
                let conn = conn\<lparr>conn_state := MAIL_CONNECTION_RCPT\<rparr> in
                seqM (smtp_send_msg conn msg_accept_ok) (ret (CONNECTION_CONTINUE, conn))
          | SMTP_VRFY \<Rightarrow>
              seqM (smtp_send_msg conn msg_reject_unimplemented) (ret (CONNECTION_CONTINUE, conn))
          | SMTP_EXPN \<Rightarrow>
              seqM (smtp_send_msg conn msg_reject_unimplemented) (ret (CONNECTION_CONTINUE, conn))
          | SMTP_STARTTLS \<Rightarrow>
              let conn = conn\<lparr>conn_state := MAIL_CONNECTION_EXPECT_TLS_NEG\<rparr> in
              seqM (smtp_send_msg conn msg_accept_starttls)
              (bindM (sys_ssl_new e sslctx) (\<lambda>s.
               let conn = conn\<lparr>sslconn := s\<rparr> in
               seqM (sys_ssl_set_fd (sslconn conn) (clientsocket conn))
               (ret (CONNECTION_CONTINUE, conn))))))"

definition smtp_tls_negotiation :: "env \<Rightarrow> Connection \<Rightarrow> handled os" where
  "smtp_tls_negotiation e conn =
     bindM (sys_ssl_accept e (sslconn conn)) (\<lambda>acceptresult.
     if acceptresult \<le> 0 then
       bindM (sys_ssl_want_io e (sslconn conn)) (\<lambda>want.
       if want then ret (CONNECTION_CONTINUE, conn)
       else seqM (sys_log LOG_ERR ''Failed TLS negotiation %d.'') (ret (CONNECTION_ERROR, conn)))
     else ret (CONNECTION_CONTINUE, conn\<lparr>conn_state := MAIL_CONNECTION_EXPECT_ANY\<rparr>))"

text \<open>The zeroed buffer of the handlers after \<open>bytes\<close> were read into it.\<close>

definition read_buffer :: "char list \<Rightarrow> char list" where
  "read_buffer bytes = bytes @ replicate (SMALL_BUFFER_SIZE - length bytes) NUL"

definition smtp_handler ::
    "env \<Rightarrow> string \<Rightarrow> nat option \<Rightarrow> Connection \<Rightarrow> handled os" where
  "smtp_handler e maildomain sslctx conn =
     (if \<not> live conn then ret (CONNECTION_DONE, conn)
      else if conn_state conn = MAIL_CONNECTION_OPENED then
        seqM (smtp_send_msg conn (msg_accept_connection maildomain))
        (ret (CONNECTION_CONTINUE, conn\<lparr>conn_state := MAIL_CONNECTION_EXPECT_ANY\<rparr>))
      else if conn_state conn = MAIL_CONNECTION_EXPECT_TLS_NEG then smtp_tls_negotiation e conn
      else
        bindM (smtp_receive_msg e conn SMALL_BUFFER_SIZE) (\<lambda>(readresult, bytes).
        if readresult \<ge> int SMALL_BUFFER_SIZE - 1 \<and> conn_state conn \<noteq> MAIL_CONNECTION_EXPECT_DATA then
          seqM (smtp_send_msg conn msg_reject_too_long) (ret (CONNECTION_ERROR, conn))
        else if readresult = - 1 then
          bindM (gets (env_would_block e)) (\<lambda>b.
          if b then ret (CONNECTION_CONTINUE, conn)
          else seqM (sys_log LOG_ERR (''%s'' @ [LF])) (ret (CONNECTION_ERROR, conn)))
        else if readresult = 0 then ret (CONNECTION_ERROR, conn)
        else if conn_state conn = MAIL_CONNECTION_EXPECT_DATA then
          smtp_handle_data e conn (read_buffer bytes) (word_of_int readresult)
        else smtp_handle_command e maildomain sslctx conn (read_buffer bytes)))"

definition smtps_handler :: "env \<Rightarrow> Connection \<Rightarrow> handled os" where
  "smtps_handler e conn =
     (if \<not> live conn then ret (CONNECTION_DONE, conn)
      else bindM (sys_ssl_accept e (sslconn conn)) (\<lambda>r.
        if r \<le> 0 then ret (CONNECTION_ERROR, conn)
        else seqM (smtp_send_msg conn msg_reject_unimplemented) (ret (CONNECTION_DONE, conn))))"

definition starttls_handler :: "env \<Rightarrow> Connection \<Rightarrow> handled os" where
  "starttls_handler e conn =
     (if \<not> live conn then ret (CONNECTION_DONE, conn)
      else seqM (smtp_send_msg conn msg_reject_starttls) (ret (CONNECTION_DONE, conn)))"

section \<open>The parser\<close>

text \<open>The commands as a table, and a case-insensitive prefix test.\<close>

definition command_table :: "(string \<times> SMTPCommand \<times> nat option) list" where
  "command_table =
     [(''NOOP'', SMTP_NOOP, None), (''QUIT'', SMTP_QUIT, None), (''RSET'', SMTP_RSET, None),
      (''DATA'', SMTP_DATA, None), (''HELP'', SMTP_HELP, Some 5), (''HELO '', SMTP_HELO, Some 5),
      (''EHLO '', SMTP_EHLO, Some 5), (''MAIL FROM:'', SMTP_MAIL, Some 10),
      (''RCPT TO:'', SMTP_RCPT, Some 8), (''VRFY '', SMTP_VRFY, Some 5),
      (''EXPN '', SMTP_EXPN, Some 5), (''STARTTLS'', SMTP_STARTTLS, Some 8)]"

definition starts_with :: "string \<Rightarrow> char list \<Rightarrow> bool" where
  "starts_with name buffer \<longleftrightarrow>
     length name \<le> length buffer \<and> map tolower (take (length name) buffer) = map tolower name"

lemma strncasecmp_starts_with:
  assumes "NUL \<notin> set name" and "n = length name"
  shows "strncasecmp buffer (lit name) n = 0 \<longleftrightarrow> starts_with name buffer"
  using strncasecmp_prefix [OF assms(1)] assms(2) by (simp add: starts_with_def)

lemma parse_find:
  "parse_client_command buffer =
     map_option (\<lambda>(_, c, k). \<lparr>command = c, param = k\<rparr>)
       (find (\<lambda>(name, _). starts_with name buffer) command_table)"
  unfolding parse_client_command_def command_table_def
  by (simp add: strncasecmp_starts_with)

lemma tolower_idem: "tolower (tolower c) = tolower c"
proof (cases "65 \<le> (of_char c :: nat) \<and> (of_char c :: nat) \<le> 90")
  case True
  then have "(of_char (char_of (of_char c + 32 :: nat)) :: nat) = of_char c + 32"
    by (simp add: of_char_of)
  then show ?thesis using True by simp
next
  case False
  then have "tolower c = c" by auto
  then show ?thesis by (simp only:)
qed

lemma starts_with_tolower: "starts_with name (map tolower buffer) = starts_with name buffer"
  by (simp add: starts_with_def take_map comp_def tolower_idem del: tolower.simps)

lemma tolower_eq_NUL: "tolower c = NUL \<longleftrightarrow> c = NUL"
  using tolower_NUL_iff [of c] by simp

lemma starts_with_strlen:
  assumes "starts_with name buffer" and "NUL \<notin> set name"
  shows "length name \<le> strlen buffer"
proof -
  have m: "map tolower (take (length name) buffer) = map tolower name"
    and l: "length name \<le> length buffer" using assms(1) by (auto simp: starts_with_def)
  have "c \<noteq> NUL" if "c \<in> set (take (length name) buffer)" for c
  proof
    assume "c = NUL"
    with that have "tolower NUL \<in> set (map tolower (take (length name) buffer))" by auto
    then have "tolower NUL \<in> set (map tolower name)" using m by simp
    then obtain d where "d \<in> set name" "tolower d = tolower NUL" by auto
    then show False using assms(2) tolower_NUL_iff by metis
  qed
  then have "cstr (take (length name) buffer @ drop (length name) buffer) =
             take (length name) buffer @ cstr (drop (length name) buffer)"
    by (intro cstr_append) blast
  then show ?thesis using l by (simp add: strlen_def)
qed

lemma parse_Some_table:
  assumes "parse_client_command buffer = Some cmd"
  shows "\<exists>name. (name, command cmd, param cmd) \<in> set command_table \<and> starts_with name buffer"
  using assms unfolding parse_find by (auto simp: find_Some_iff split_beta) (metis fst_conv nth_mem)

lemma parse_param_bound:
  assumes "parse_client_command buffer = Some cmd" and "param cmd = Some k"
    and "command cmd \<noteq> SMTP_HELP"
  shows "k \<le> strlen buffer"
proof -
  obtain name where n: "(name, command cmd, Some k) \<in> set command_table" "starts_with name buffer"
    using parse_Some_table [OF assms(1)] assms(2) by auto
  then have "k = length name \<and> NUL \<notin> set name"
    using assms(3) by (auto simp: command_table_def)
  then show ?thesis using starts_with_strlen n(2) by blast
qed

section \<open>The end of a message\<close>

lemma found_crlf_end_total: "has_nul s \<Longrightarrow> found_crlf_end s \<noteq> None"
  by (induction s rule: found_crlf_end.induct) (auto simp: has_nul_def)

lemma end_mark_no_NUL: "NUL \<notin> set end_mark"
  by (simp add: end_mark_def)

lemma length_end_mark: "length end_mark = 5"
  by (simp add: end_mark_def)

lemma prefix_cstr:
  assumes "NUL \<notin> set p"
  shows "take (length p) s = p \<longleftrightarrow> prefix p (cstr s)"
proof
  assume t: "take (length p) s = p"
  have "cstr (take (length p) s @ drop (length p) s) = p @ cstr (drop (length p) s)"
    unfolding t by (rule cstr_append [OF assms])
  then show "prefix p (cstr s)" by simp
next
  assume "prefix p (cstr s)"
  moreover have "prefix (cstr s) s" unfolding cstr_def by (rule takeWhile_is_prefix)
  ultimately have "prefix p s" by (rule prefix_order.trans)
  then show "take (length p) s = p" by (auto simp: prefix_def)
qed

lemma found_crlf_end_sublist:
  "has_nul s \<Longrightarrow> found_crlf_end s = Some (sublist end_mark (cstr s))"
proof (induction s)
  case Nil
  then show ?case by (simp add: has_nul_def)
next
  case (Cons c s)
  show ?case
  proof (cases "c = NUL")
    case True
    then show ?thesis by (simp add: cstr_def end_mark_def)
  next
    case False
    then have nul: "has_nul s" and cs: "cstr (c # s) = c # cstr s"
      using Cons.prems by (auto simp: has_nul_def cstr_def)
    have "strncmp (c # s) (lit end_mark) 5 = 0 \<longleftrightarrow> prefix end_mark (c # cstr s)"
      using strncmp_prefix [OF end_mark_no_NUL, of "c # s"] prefix_cstr [OF end_mark_no_NUL, of "c # s"]
      unfolding length_end_mark cs by simp
    moreover have "prefix end_mark (c # cstr s) \<Longrightarrow> c = CR"
      by (simp add: end_mark_def)
    ultimately show ?thesis
      using False Cons.IH [OF nul] cs by (auto simp: sublist_Cons_right)
  qed
qed

section \<open>Copying the client's domain\<close>

definition word_of :: "char list \<Rightarrow> string" where
  "word_of prm = takeWhile (\<lambda>c. \<not> ends_word c) prm"

lemma word_of_Cons: "word_of (c # p) = (if ends_word c then [] else c # word_of p)"
  by (simp add: word_of_def)

lemma NUL_notin_word_of: "NUL \<notin> set (word_of p)"
  unfolding word_of_def by (auto dest: set_takeWhileD simp: ends_word_def)

lemma move_domain_fits:
  assumes "\<exists>c \<in> set p. ends_word c" and "off \<le> mx" and "mx \<le> length arr"
    and "off + length (word_of p) < mx"
  shows "move_domain_loop p off mx arr =
           Inr (0, take off arr @ word_of p @ NUL # drop (off + length (word_of p) + 1) arr)"
  using assms
proof (induction p arbitrary: off arr)
  case Nil
  then show ?case by simp
next
  case (Cons c p)
  show ?case
  proof (cases "ends_word c")
    case True
    then show ?thesis using Cons.prems
      by (simp add: word_of_Cons upd_conv_take_nth_drop)
  next
    case False
    with Cons.prems have p: "\<exists>c \<in> set p. ends_word c" "Suc off \<le> mx"
      "Suc off + length (word_of p) < mx" "off < length arr" "off \<noteq> mx"
      by (auto simp: word_of_Cons)
    have "move_domain_loop (c # p) off mx arr = move_domain_loop p (Suc off) mx (arr[off := c])"
      using False p by simp
    also have "\<dots> = Inr (0, take (Suc off) (arr[off := c]) @ word_of p @
                  NUL # drop (Suc off + length (word_of p) + 1) (arr[off := c]))"
      using Cons.prems(3) p by (intro Cons.IH) auto
    finally show ?thesis
      using p False by (simp add: word_of_Cons take_Suc_conv_app_nth)
  qed
qed

lemma move_domain_exact:
  assumes "\<exists>c \<in> set p. ends_word c" and "off \<le> mx" and "mx = length arr"
    and "off + length (word_of p) = mx"
  shows "move_domain_loop p off mx arr = Inl Out_of_bounds"
  using assms
proof (induction p arbitrary: off arr)
  case Nil
  then show ?case by simp
next
  case (Cons c p)
  show ?case
  proof (cases "ends_word c")
    case True
    then show ?thesis using Cons.prems by (simp add: word_of_Cons)
  next
    case False
    then have "move_domain_loop p (Suc off) mx (arr[off := c]) = Inl Out_of_bounds"
      using Cons.prems by (intro Cons.IH) (auto simp: word_of_Cons)
    then show ?thesis using False Cons.prems by (simp add: word_of_Cons)
  qed
qed

lemma move_domain_too_long:
  assumes "off \<le> mx" and "mx = length arr" and "mx < off + length (word_of p)"
  shows "\<exists>arr'. move_domain_loop p off mx arr = Inr (1, arr') \<and> length arr' = length arr"
  using assms
proof (induction p arbitrary: off arr)
  case Nil
  then show ?case by (simp add: word_of_def)
next
  case (Cons c p)
  then have c: "\<not> ends_word c" by (auto simp: word_of_Cons split: if_splits)
  show ?case
  proof (cases "off = mx")
    case True
    then show ?thesis using c by auto
  next
    case False
    then have "\<exists>arr'. move_domain_loop p (Suc off) mx (arr[off := c]) = Inr (1, arr') \<and>
                 length arr' = length (arr[off := c])"
      using Cons.prems c by (intro Cons.IH) (auto simp: word_of_Cons)
    then show ?thesis using c False Cons.prems by auto
  qed
qed

end
