(* ===== verification/Http.thy ===== *)
theory Http
  imports Connections
begin

text \<open>
  The HTTP side, \<open>src/http.h\<close> and \<open>src/http.c\<close>: any short request on the plain port is answered
  with a redirect to HTTPS, any short request over TLS with 204.
\<close>

section \<open>Responses\<close>

definition nocontentresponse :: string where
  "nocontentresponse =
     ''HTTP/1.1 204 No Content'' @ CRLF @
     ''Server: Femail'' @ CRLF @
     ''Connection: close'' @ CRLF @
     ''Cache-Control: no-store'' @ CRLF @
     CRLF"

definition httpmsg_redirect_https :: "string \<Rightarrow> string" where
  "httpmsg_redirect_https maildomain =
     ''HTTP/1.1 301 Moved Permanently'' @ CRLF @
     ''Server: Femail'' @ CRLF @
     ''Location: https://'' @ maildomain @ ''/'' @ CRLF @
     ''Connection: close'' @ CRLF @
     CRLF"

section \<open>Handlers\<close>

text \<open>What both handlers do with the result of reading; \<open>reply\<close> is sent for a short request.\<close>

definition http_after_read ::
    "env \<Rightarrow> Connection \<Rightarrow> unit os \<Rightarrow> int \<Rightarrow> (ConnectionHandlerResult \<times> Connection) os" where
  "http_after_read e conn reply readresult =
     (if readresult \<ge> int SMALL_BUFFER_SIZE - 1 then ret (CONNECTION_CONTINUE, conn)
      else if readresult = - 1 then
        bindM (gets (env_would_block e)) (\<lambda>b.
        if b then ret (CONNECTION_CONTINUE, conn) else ret (CONNECTION_ERROR, conn))
      else if readresult = 0 then ret (CONNECTION_ERROR, conn)
      else seqM reply (ret (CONNECTION_DONE, conn)))"

definition http_handler ::
    "env \<Rightarrow> string \<Rightarrow> Connection \<Rightarrow> (ConnectionHandlerResult \<times> Connection) os" where
  "http_handler e maildomain conn =
     (if \<not> live conn then ret (CONNECTION_DONE, conn)
      else bindM (sys_read e (clientsocket conn) SMALL_BUFFER_SIZE) (\<lambda>(readresult, buffer).
        http_after_read e conn
          (sys_dprintf (clientsocket conn) (httpmsg_redirect_https maildomain)) readresult))"

definition https_handler :: "env \<Rightarrow> Connection \<Rightarrow> (ConnectionHandlerResult \<times> Connection) os" where
  "https_handler e conn =
     (if \<not> live conn then ret (CONNECTION_DONE, conn)
      else bindM (sys_ssl_accept e (sslconn conn)) (\<lambda>r.
        if r \<le> 0 then ret (CONNECTION_ERROR, conn)
        else bindM (sys_ssl_read e (sslconn conn) SMALL_BUFFER_SIZE) (\<lambda>(readresult, buffer).
          http_after_read e conn (sys_ssl_write (sslconn conn) nocontentresponse) readresult)))"

end
