(* ===== verification/Handlers.thy ===== *)
theory Handlers
  imports Smtp Http
begin

text \<open>
  The contract the five connection handlers share, and its proof for each of them. A handler
  gets a connection that owns its resources, and gives back a connection that owns its
  resources; it never touches what other connections own, never closes the client socket, and
  a fault is possible only in the situations \<open>hazard\<close> names: a client line or a mail domain
  longer than the fixed reply buffers allow, or TLS that is asked for but not available.
\<close>

section \<open>The contract\<close>

text \<open>
  \<open>hello_word\<close> is the word a HELO or EHLO line carries. A line is harmless when the longest
  reply built from it fits the 256-byte buffer of \<open>smtp_send_msg\<close>; the word is then shorter
  than the 255 bytes of \<open>mailclientdomain\<close> as well.
\<close>

definition hello_word :: "char list \<Rightarrow> string" where
  "hello_word bs = word_of (drop 5 (read_buffer (take SMALL_BUFFER_SIZE bs)))"

definition hello_ok :: "string \<Rightarrow> char list \<Rightarrow> bool" where
  "hello_ok maildomain bs \<longleftrightarrow> length maildomain + length (hello_word bs) \<le> 203"

definition polite :: "env \<Rightarrow> string \<Rightarrow> bool" where
  "polite e maildomain \<longleftrightarrow>
     length maildomain \<le> 237 \<and>
     (\<forall>w fd bs. env_read e w fd = Some bs \<longrightarrow> hello_ok maildomain bs) \<and>
     (\<forall>w s bs. env_ssl_read e w s = Inr bs \<longrightarrow> hello_ok maildomain bs)"

definition tls_ready :: "env \<Rightarrow> nat option \<Rightarrow> bool" where
  "tls_ready e sslctx \<longleftrightarrow> sslctx \<noteq> None \<and> (\<forall>w. finite (ssls w) \<longrightarrow> env_ssl_new e w \<noteq> None)"

definition hazard :: "env \<Rightarrow> string \<Rightarrow> nat option \<Rightarrow> fault \<Rightarrow> bool" where
  "hazard e maildomain sslctx f \<longleftrightarrow>
     f = Out_of_bounds \<and> \<not> polite e maildomain \<or> f = Null_pointer \<and> \<not> tls_ready e sslctx"

definition env_ok :: "env \<Rightarrow> bool" where
  "env_ok e \<longleftrightarrow> fresh_heap e \<and> fresh_ssls e \<and> ssl_read_minus1 e"

text \<open>Where TLS is in use or about to be, there is a TLS object.\<close>

definition conn_ready :: "Connection \<Rightarrow> bool" where
  "conn_ready c \<longleftrightarrow>
     (conn_type c \<in> {SMTPS_CONNECTION, HTTPS_CONNECTION} \<longrightarrow> sslconn c \<noteq> None) \<and>
     (conn_state c = MAIL_CONNECTION_EXPECT_TLS_NEG \<longrightarrow> sslconn c \<noteq> None)"

definition handler_post ::
    "Connection \<Rightarrow> world \<Rightarrow> ConnectionHandlerResult \<Rightarrow> Connection \<Rightarrow> world \<Rightarrow> bool" where
  "handler_post c w r c' w' \<longleftrightarrow>
     clientsocket c' = clientsocket c \<and> conn_type c' = conn_type c \<and> live c' = live c \<and>
     fds w' = fds w \<and> frame c w w' \<and> finite (ssls w') \<and>
     conn_owns c' w' \<and> conn_ready c' \<and> length (mailclientdomain c') = DOMAIN_MAX_SIZE \<and>
     (r = CONNECTION_CONTINUE \<longrightarrow> buffer_ok c' w') \<and>
     (sslconn c' = sslconn c \<or> (\<exists>s. sslconn c' = Some s \<and> s \<notin> ssls w)) \<and>
     (messagebuffer c' = None \<or> messagebuffer c' = messagebuffer c \<or>
        (\<exists>a. messagebuffer c' = Some a \<and> heap w a = None))"

locale connection_handler =
  fixes handler :: "env \<Rightarrow> string \<Rightarrow> nat option \<Rightarrow> Connection \<Rightarrow> handled os"
    and kind :: ConnectionType
  assumes handler_contract:
    "env_ok e \<Longrightarrow> conn_ok c w \<Longrightarrow> conn_ready c \<Longrightarrow> finite (ssls w) \<Longrightarrow> conn_type c = kind \<Longrightarrow>
     wp (handler e maildomain sslctx c) (\<lambda>(r, c') w'. handler_post c w r c' w')
       (hazard e maildomain sslctx) w"
begin

text \<open>With polite clients and TLS at hand, a handler always returns.\<close>

lemma handler_returns:
  assumes "env_ok e" and "conn_ok c w" and "conn_ready c" and "finite (ssls w)" and "conn_type c = kind"
    and "polite e maildomain" and "tls_ready e sslctx"
  shows "\<exists>r c' w'. handler e maildomain sslctx c w = Inr ((r, c'), w') \<and> handler_post c w r c' w'"
proof -
  have "wp (handler e maildomain sslctx c) (\<lambda>(r, c') w'. handler_post c w r c' w') no_fault w"
    by (rule wp_mono [OF handler_contract [OF assms(1-5)]]) (use assms(6,7) in \<open>auto simp: hazard_def\<close>)
  then show ?thesis by (auto elim!: wp_no_faultE)
qed

end

section \<open>Common steps\<close>

lemma handler_post_same:
  assumes "conn_ok c w" and "conn_ready c" and "finite (ssls w)" and "quiet w w'"
  shows "handler_post c w r c w'"
proof -
  have "conn_ok c w'" using assms(1) quiet_conn_ok [OF assms(4)] by simp
  then show ?thesis
    using assms quiet_frame [OF assms(4), of c]
    by (simp add: handler_post_def conn_ok_def buffer_ok_def quiet_simps)
qed

lemma conn_ok_state: "conn_ok (c\<lparr>conn_state := s\<rparr>) w = conn_ok c w"
  by (simp add: conn_ok_def conn_owns_def buffer_ok_def)

lemma handler_post_state:
  assumes "conn_ok c w" and "conn_ready c" and "finite (ssls w)" and "quiet w w'"
    and "s = MAIL_CONNECTION_EXPECT_TLS_NEG \<longrightarrow> sslconn c \<noteq> None"
  shows "handler_post c w r (c\<lparr>conn_state := s\<rparr>) w'"
proof -
  have "conn_ok (c\<lparr>conn_state := s\<rparr>) w'"
    using assms(1) quiet_conn_ok [OF assms(4)] by (simp add: conn_ok_state)
  then show ?thesis
    using assms quiet_frame [OF assms(4), of c]
    by (simp add: handler_post_def conn_ok_def buffer_ok_def quiet_simps conn_ready_def)
qed

text \<open>Sending a text of at most 256 bytes on a connection that owns its objects never faults.\<close>

lemma wp_send:
  assumes "conn_owns c w" and "length text \<le> 256 \<or> E Out_of_bounds"
    and "\<And>w'. quiet w w' \<Longrightarrow> Q () w'"
  shows "wp (smtp_send_msg c text) Q E w"
  using assms by (auto simp: smtp_send_msg_def Let_def wp_rules conn_owns_def)

lemma wp_send_then:
  assumes "conn_owns c w" and "length text \<le> 256 \<or> E Out_of_bounds"
    and "\<And>w'. quiet w w' \<Longrightarrow> Q x w'"
  shows "wp (seqM (smtp_send_msg c text) (ret x)) Q E w"
  unfolding wp_seqM by (rule wp_send [where E = E, OF assms(1,2)]) (simp add: wp_ret assms(3))

section \<open>Collecting message data\<close>

text \<open>The bytes of the message received so far.\<close>

definition message :: "Connection \<Rightarrow> world \<Rightarrow> char list" where
  "message c w = take (unat (messagebufferend c)) (old_block (messagebuffer c) w)"

lemma data_sizes:
  assumes "buffer_ok c w"
  defines "n \<equiv> unat (alloccount c)"
  shows "unat (alloccount c + 1) = Suc n"
    and "unat ((alloccount c + 1) * of_nat SMALL_BUFFER_SIZE + 1 :: size_t) = Suc n * 1024 + 1"
    and "(alloccount c + 1) * of_nat SMALL_BUFFER_SIZE + 1 > (of_nat ESMTP_SIZE :: size_t) \<longleftrightarrow> n = 10239"
proof -
  have n: "n \<le> 10239" using assms by (simp add: buffer_ok_def)
  show a: "unat (alloccount c + 1) = Suc n"
    unfolding n_def by (rule unat_Suc_less [of _ 10240]) (use n n_def in auto)
  have "unat (((alloccount c + 1) * 1024 + 1) :: size_t) = (Suc n * 1024 + 1) mod 2 ^ 64"
    unfolding unat_word_ariths a by (simp add: mod_simps n_def)
  moreover have "Suc n * 1024 + 1 < 2 ^ 64" using n by simp
  ultimately show b: "unat ((alloccount c + 1) * of_nat SMALL_BUFFER_SIZE + 1 :: size_t) = Suc n * 1024 + 1"
    by (simp add: SMALL_BUFFER_SIZE_def)
  show "(alloccount c + 1) * of_nat SMALL_BUFFER_SIZE + 1 > (of_nat ESMTP_SIZE :: size_t) \<longleftrightarrow> n = 10239"
    unfolding word_less_nat_alt b using n by (auto simp: ESMTP_SIZE_def)
qed

lemma conn_state_id: "c\<lparr>conn_state := conn_state c\<rparr> = (c :: Connection)"
  by simp

lemma wp_store_data:
  assumes p: "messagebuffer c = Some a" "heap w a = Some g" and own: "conn_owns c w"
    and r: "unat r \<le> length buffer" "unat (messagebufferend c + r) = off + unat r"
    and off: "off = unat (messagebufferend c)" and fit: "off + unat r < length g"
  defines "bs \<equiv> take (unat r) buffer" and "c3 \<equiv> c\<lparr>messagebufferend := messagebufferend c + r\<rparr>"
    and "found \<equiv> sublist end_mark (cstr (take off g @ take (unat r) buffer))"
  shows "wp (smtp_store_data c buffer r)
           (\<lambda>(res, c') w'. \<exists>b. quiet (w\<lparr>heap := (heap w)(a \<mapsto> b)\<rparr>) w' \<and> length b = length g \<and>
              take (off + unat r) b = take off g @ bs \<and>
              res = (if found then CONNECTION_RESET else CONNECTION_CONTINUE) \<and>
              c' = c3\<lparr>conn_state := if found then MAIL_CONNECTION_GREETED else conn_state c\<rparr>)
           no_fault w"
proof -
  define b1 where "b1 = take off g @ bs @ drop (off + unat r) g"
  define b2 where "b2 = take (off + unat r) b1 @ NUL # drop (Suc (off + unat r)) b1"
  have len: "length bs = unat r" using r by (simp add: bs_def)
  have l1: "length b1 = length g" and t1: "take (off + unat r) b1 = take off g @ bs"
    using fit len by (simp_all add: b1_def)
  have l2: "length b2 = length g" and t2: "take (off + unat r) b2 = take off g @ bs"
    using fit l1 len by (simp_all add: b2_def t1)
  have c2: "found_crlf_end b2 = Some found"
    unfolding found_def bs_def [symmetric]
    using found_crlf_end_sublist [of b2] cstr_upto_NUL [of "take off g @ bs"]
    by (simp add: b2_def t1 has_nul_def)
  have own2: "conn_owns (c3\<lparr>conn_state := st\<rparr>) (w\<lparr>heap := (heap w)(a \<mapsto> b2)\<rparr>)" for st
    using own p by (auto simp: conn_owns_def c3_def)
  have c3: "messagebuffer c3 = Some a" "unat (messagebufferend c3) = off + unat r"
    "conn_state c = conn_state c3"
    using p r by (simp_all add: c3_def)
  show ?thesis
    unfolding smtp_store_data_def Let_def bs_def [symmetric] c3_def [symmetric]
    using p r fit l1 l2 t2 c2 len c3 off [symmetric]
    by (simp add: wp_seqM [of "sys_store _ _ _"] wp_seqM [of "guardM _ _"] wp_bindM wp_guardM
          wp_sys_store wp_sys_load b1_def [symmetric] b2_def [symmetric] wp_ret conn_state_id)
       (auto intro!: wp_send_then own2 exI [of _ b2] simp: fixed_msgs)
qed

text \<open>
  One chunk of message data: the size limit, the allocation, the copy, and the search for the
  end of the message. \<open>r\<close> bytes of \<open>buffer\<close> are new.
\<close>

definition data_post ::
    "Connection \<Rightarrow> world \<Rightarrow> char list \<Rightarrow> ConnectionHandlerResult \<Rightarrow> Connection \<Rightarrow> world \<Rightarrow> bool" where
  "data_post c w bytes r c' w' \<longleftrightarrow>
     (unat (alloccount c) = 10239 \<longrightarrow> r = CONNECTION_RESET \<and> conn_state c' = conn_state c) \<and>
     (unat (alloccount c) < 10239 \<longrightarrow>
        (messagebuffer c' = None \<longrightarrow> r = CONNECTION_ERROR) \<and>
        (messagebuffer c' \<noteq> None \<longrightarrow>
           message c' w' = message c w @ bytes \<and>
           (if sublist end_mark (cstr (message c' w'))
            then r = CONNECTION_RESET \<and> conn_state c' = MAIL_CONNECTION_GREETED
            else r = CONNECTION_CONTINUE \<and> conn_state c' = conn_state c)))"

lemma data_stored_post:
  assumes ok: "conn_ok c w" "conn_ready c" "finite (ssls w)"
    and fresh: "heap w a = None \<or> messagebuffer c = Some a"
    and w': "quiet (w\<lparr>heap := (drop_ptr (messagebuffer c) (heap w))(a \<mapsto> b)\<rparr>) w'"
    and n: "unat (alloccount c) < 10239"
    and b: "length b = Suc (unat (alloccount c)) * 1024 + 1"
    and used: "unat en \<le> Suc (unat (alloccount c)) * 1024"
    and st: "st = MAIL_CONNECTION_EXPECT_TLS_NEG \<longrightarrow> st = conn_state c"
  shows "handler_post c w res (c\<lparr>alloccount := alloccount c + 1, messagebuffer := Some a,
           messagebufferend := en, conn_state := st\<rparr>) w'"
proof -
  have bok: "buffer_ok c w" and own: "conn_owns c w" using ok(1) by (simp_all add: conn_ok_def)
  note q = quiet_simps [OF w', simplified]
  have "frame c w w'"
    using fresh by (auto simp: frame_def q drop_ptr_def split: option.splits)
  then show ?thesis
    using own bok ok(2,3) fresh n b used st data_sizes(1) [OF bok]
    by (auto simp: handler_post_def conn_owns_def conn_ready_def buffer_ok_def old_block_def q
          SMALL_BUFFER_SIZE_def)
qed

lemma heap_emit_commute: "(emit ev w)\<lparr>heap := h\<rparr> = emit ev (w\<lparr>heap := h\<rparr>)"
  by (simp add: emit_def)

lemma handle_data_too_large:
  assumes ok: "conn_ok c w" "conn_ready c" "finite (ssls w)" and full: "unat (alloccount c) = 10239"
  shows "wp (smtp_handle_data e c buffer r)
           (\<lambda>(res, c') w'. handler_post c w res c' w' \<and> data_post c w bytes res c' w') no_fault w"
proof -
  let ?c1 = "c\<lparr>alloccount := alloccount c + 1\<rparr>"
  have own: "conn_owns c w" and bok: "buffer_ok c w" using ok(1) by (simp_all add: conn_ok_def)
  have own1: "conn_owns ?c1 w" using own by (simp add: conn_owns_def)
  have "handler_post c w CONNECTION_RESET ?c1 w'" if "quiet w w'" for w'
    using own bok ok that quiet_frame [OF that, of c]
    by (auto simp: handler_post_def conn_owns_def conn_ready_def buffer_ok_def quiet_simps)
  then show ?thesis
    using full data_sizes [OF bok] own1 unfolding smtp_handle_data_def Let_def
    by (simp add: wp_if) (rule wp_send_then; simp add: data_post_def fixed_msgs)
qed

lemma handle_data_no_memory:
  assumes ok: "conn_ok c w" "conn_ready c" "finite (ssls w)" and n: "unat (alloccount c) < 10239"
    and fail: "env_realloc e w (messagebuffer c) (Suc (unat (alloccount c)) * 1024 + 1) = None"
  shows "wp (smtp_handle_data e c buffer r)
           (\<lambda>(res, c') w'. handler_post c w res c' w' \<and> data_post c w bytes res c' w') no_fault w"
proof -
  let ?c2 = "c\<lparr>alloccount := alloccount c + 1, messagebuffer := None\<rparr>"
  have own: "conn_owns c w" and bok: "buffer_ok c w" using ok(1) by (simp_all add: conn_ok_def)
  have own2: "conn_owns ?c2 w" using own by (simp add: conn_owns_def)
  have valid: "valid_ptr (messagebuffer c) w"
    using own by (auto simp: valid_ptr_def conn_owns_def split: option.splits)
  have "handler_post c w CONNECTION_ERROR ?c2 w'" if "quiet w w'" for w'
    using own bok ok that quiet_frame [OF that, of c]
    by (auto simp: handler_post_def conn_owns_def conn_ready_def buffer_ok_def quiet_simps)
  then show ?thesis
    using n fail data_sizes [OF bok] own2 valid unfolding smtp_handle_data_def Let_def
    by (simp add: wp_if wp_bindM wp_sys_realloc wp_seqM [of "sys_log _ _"] wp_sys_log)
       (rule wp_send_then; simp add: data_post_def fixed_msgs)
qed

text \<open>The world and the connection after the buffer has grown to \<open>g\<close> at address \<open>a\<close>.\<close>

lemma stored_post:
  assumes ok: "conn_ok c w" "conn_ready c" "finite (ssls w)" and n: "unat (alloccount c) < 10239"
    and fresh: "heap w a = None \<or> messagebuffer c = Some a"
    and en: "unat (messagebufferend c + r) = unat (messagebufferend c) + unat r" "unat r \<le> 1024"
    and g: "take (unat (messagebufferend c)) g = message c w" "length g = Suc (unat (alloccount c)) * 1024 + 1"
    and q: "quiet (w\<lparr>heap := (drop_ptr (messagebuffer c) (heap w))(a \<mapsto> b)\<rparr>) w'" "length b = length g"
      "take (unat (messagebufferend c) + unat r) b = take (unat (messagebufferend c)) g @ bytes"
    and st: "st = MAIL_CONNECTION_EXPECT_TLS_NEG \<longrightarrow> st = conn_state c"
    and c': "c' = c\<lparr>alloccount := alloccount c + 1, messagebuffer := Some a,
                    messagebufferend := messagebufferend c + r, conn_state := st\<rparr>"
  shows "handler_post c w res c' w' \<and> message c' w' = message c w @ bytes"
proof
  have "unat (messagebufferend c) \<le> unat (alloccount c) * 1024"
    using ok(1) by (simp add: conn_ok_def buffer_ok_def SMALL_BUFFER_SIZE_def)
  then have used: "unat (messagebufferend c + r) \<le> Suc (unat (alloccount c)) * 1024"
    using en by simp
  show "handler_post c w res c' w'"
    unfolding c' by (rule data_stored_post [OF ok fresh q(1) n _ used st]) (use q(2) g(2) in simp)
  have "old_block (Some a) w' = b" using quiet_simps(6) [OF q(1)] by (simp add: old_block_def)
  then show "message c' w' = message c w @ bytes"
    using q(3) en(1) g(1) by (simp add: message_def c')
qed

lemma handle_data_stored:
  assumes ok: "conn_ok c w" "conn_ready c" "finite (ssls w)" and n: "unat (alloccount c) < 10239"
    and e: "fresh_heap e"
    and buf: "length buffer = SMALL_BUFFER_SIZE" "unat r \<le> SMALL_BUFFER_SIZE"
    and a: "env_realloc e w (messagebuffer c) (Suc (unat (alloccount c)) * 1024 + 1) = Some a"
  shows "wp (smtp_handle_data e c buffer r)
           (\<lambda>(res, c') w'. handler_post c w res c' w' \<and> data_post c w (take (unat r) buffer) res c' w')
           no_fault w"
proof -
  let ?p = "messagebuffer c" and ?bs = "take (unat r) buffer" and ?used = "unat (messagebufferend c)"
  define sz where "sz = Suc (unat (alloccount c)) * 1024 + 1"
  define g where "g = grown e w (old_block ?p w) sz"
  define w1 where "w1 = emit (Ev_realloc ?p sz (Some a)) (w\<lparr>heap := (drop_ptr ?p (heap w))(a \<mapsto> g)\<rparr>)"
  define c2 where "c2 = c\<lparr>alloccount := alloccount c + 1, messagebuffer := Some a\<rparr>"
  have own: "conn_owns c w" and bok: "buffer_ok c w" using ok(1) by (simp_all add: conn_ok_def)
  have valid: "valid_ptr ?p w" using own by (auto simp: valid_ptr_def conn_owns_def split: option.splits)
  have size: "unat ((alloccount c + 1) * of_nat SMALL_BUFFER_SIZE + 1 :: size_t) = sz"
    and small: "\<not> (alloccount c + 1) * of_nat SMALL_BUFFER_SIZE + 1 > (of_nat ESMTP_SIZE :: size_t)"
    using data_sizes [OF bok] n by (simp_all add: sz_def)
  have use: "?used \<le> unat (alloccount c) * 1024"
    and len: "length (old_block ?p w) = (if ?p = None then 0 else unat (alloccount c) * 1024 + 1)"
    and none: "?p = None \<longrightarrow> unat (alloccount c) = 0"
    using bok by (simp_all add: buffer_ok_def SMALL_BUFFER_SIZE_def)
  have r: "unat r \<le> length buffer" "unat r \<le> 1024" using buf by (simp_all add: SMALL_BUFFER_SIZE_def)
  have en: "unat (messagebufferend c + r) = ?used + unat r"
    by (rule unat_plus_simple) (use use r n in simp)
  have g: "take ?used g = message c w" "length g = Suc (unat (alloccount c)) * 1024 + 1"
    unfolding message_def g_def by (rule take_grown, use use len none in \<open>auto simp: sz_def split: if_splits\<close>)
  have fresh: "heap w a = None \<or> ?p = Some a" using fresh_heap_realloc [OF e a] .
  note stored = stored_post [OF ok n fresh en r(2) g]
  have c2_end: "messagebufferend c2 = messagebufferend c" and c2_st: "conn_state c2 = conn_state c"
    by (simp_all add: c2_def)
  have pre: "messagebuffer c2 = Some a" "heap w1 a = Some g" "conn_owns c2 w1"
    "unat (messagebufferend c2 + r) = ?used + unat r" "?used = unat (messagebufferend c2)"
    "?used + unat r < length g"
    using own r en use g(2) by (auto simp: c2_def w1_def conn_owns_def)
  have "wp (smtp_store_data c2 buffer r)
          (\<lambda>(res, c') w'. handler_post c w res c' w' \<and> data_post c w ?bs res c' w') no_fault w1"
  proof (rule wp_mono [OF wp_store_data [OF pre(1-3) r(1) pre(4-6)]], goal_cases)
    case (1 x w')
    obtain res c' where x: "x = (res, c')" by (cases x)
    let ?found = "sublist end_mark (cstr (take ?used g @ ?bs))"
    define st where "st = (if ?found then MAIL_CONNECTION_GREETED else conn_state c)"
    obtain b where b: "quiet (w\<lparr>heap := (drop_ptr ?p (heap w))(a \<mapsto> b)\<rparr>) w'" "length b = length g"
        "take (?used + unat r) b = take ?used g @ ?bs"
      and res: "res = (if ?found then CONNECTION_RESET else CONNECTION_CONTINUE)"
      and c': "c' = c2\<lparr>messagebufferend := messagebufferend c + r, conn_state := st\<rparr>"
      using 1 unfolding x by (auto simp: st_def w1_def heap_emit_commute c2_end c2_st)
    have post: "handler_post c w res c' w' \<and> message c' w' = message c w @ ?bs"
      by (rule stored [OF b, of st]) (simp_all add: st_def c' c2_def)
    then show ?case
      using n res g(1) unfolding x by (auto simp: data_post_def c' c2_def st_def)
  qed simp
  then show ?thesis
    using size small valid a [folded sz_def] unfolding smtp_handle_data_def Let_def
    by (simp add: wp_if wp_bindM wp_sys_realloc g_def [symmetric] w1_def [symmetric] c2_def [symmetric])
qed

lemma wp_handle_data:
  assumes "conn_ok c w" "conn_ready c" "finite (ssls w)" "fresh_heap e"
    and "length buffer = SMALL_BUFFER_SIZE" "unat r \<le> SMALL_BUFFER_SIZE"
  shows "wp (smtp_handle_data e c buffer r)
           (\<lambda>(res, c') w'. handler_post c w res c' w' \<and> data_post c w (take (unat r) buffer) res c' w')
           no_fault w"
proof (cases "unat (alloccount c) = 10239")
  case True
  then show ?thesis using assms by (intro handle_data_too_large)
next
  case False
  then have "unat (alloccount c) < 10239"
    using assms(1) by (simp add: conn_ok_def buffer_ok_def)
  then show ?thesis
    using assms
    by (cases "env_realloc e w (messagebuffer c) (Suc (unat (alloccount c)) * 1024 + 1)")
       (intro handle_data_no_memory handle_data_stored; assumption)+
qed

section \<open>Commands\<close>

lemma handler_post_update:
  assumes "conn_ok c w" and "conn_ready c" and "finite (ssls w)" and "quiet w w'"
    and "length d = DOMAIN_MAX_SIZE"
    and "s = MAIL_CONNECTION_EXPECT_TLS_NEG \<longrightarrow> sslconn c \<noteq> None"
  shows "handler_post c w r (c\<lparr>mailclientdomain := d, conn_state := s\<rparr>) w'"
  using assms quiet_frame [OF assms(4), of c]
  by (auto simp: handler_post_def conn_ok_def conn_owns_def buffer_ok_def old_block_def quiet_simps
        conn_ready_def)

lemma handler_post_domain:
  assumes "conn_ok c w" and "conn_ready c" and "finite (ssls w)" and "quiet w w'"
    and "length d = DOMAIN_MAX_SIZE"
  shows "handler_post c w r (c\<lparr>mailclientdomain := d\<rparr>) w'"
  using assms quiet_frame [OF assms(4), of c]
  by (auto simp: handler_post_def conn_ok_def conn_owns_def buffer_ok_def old_block_def quiet_simps
        conn_ready_def)

lemma wp_hello:
  assumes ok: "conn_ok c w" "conn_ready c" "finite (ssls w)" and nul: "NUL \<in> set prm"
    and msg: "\<And>client. length (msg client) = k + length client"
    and short: "length (word_of prm) < 255 \<and> k + length (word_of prm) \<le> 256 \<or> E Out_of_bounds"
  shows "wp (smtp_hello msg c prm) (\<lambda>(r, c') w'. handler_post c w r c' w') E w"
proof -
  let ?arr = "mailclientdomain c" and ?wd = "word_of prm"
  have own: "conn_owns c w" and len: "length ?arr = 255"
    using ok(1) by (simp_all add: conn_ok_def buffer_ok_def DOMAIN_MAX_SIZE_def)
  have ends: "\<exists>c \<in> set prm. ends_word c" using nul by (auto simp: ends_word_def)
  have own': "conn_owns (c\<lparr>mailclientdomain := d, conn_state := s\<rparr>) w" for d s
    using own by (simp add: conn_owns_def)
  consider (fits) "length ?wd < 255" | (exact) "length ?wd = 255" | (long) "255 < length ?wd" by linarith
  then show ?thesis
  proof cases
    case fits
    define arr where "arr = ?wd @ NUL # drop (length ?wd + 1) ?arr"
    have mv: "move_domain_loop prm 0 255 ?arr = Inr (0, arr)"
      using move_domain_fits [of prm 0 255 ?arr] ends fits len by (simp add: arr_def)
    have arr: "has_nul arr" "cstr arr = ?wd" "length arr = DOMAIN_MAX_SIZE"
      using fits len NUL_notin_word_of by (auto simp: arr_def has_nul_def DOMAIN_MAX_SIZE_def)
    have fit: "length (msg ?wd) \<le> 256 \<or> E Out_of_bounds" using short msg [of ?wd] by auto
    have post: "handler_post c w CONNECTION_CONTINUE
        (c\<lparr>mailclientdomain := arr, conn_state := MAIL_CONNECTION_GREETED\<rparr>) w'" if "quiet w w'" for w'
      by (rule handler_post_update [OF ok that arr(3)]) simp
    have eq: "smtp_hello msg c prm =
            seqM (smtp_send_msg (c\<lparr>mailclientdomain := arr, conn_state := MAIL_CONNECTION_GREETED\<rparr>) (msg ?wd))
            (ret (CONNECTION_CONTINUE, c\<lparr>mailclientdomain := arr, conn_state := MAIL_CONNECTION_GREETED\<rparr>))"
      using mv arr
      by (intro ext) (simp add: smtp_hello_def move_client_mail_domain_def client_domain_def
            DOMAIN_MAX_SIZE_def bindM_def seqM_def guardM_def Let_def)
    show ?thesis
      unfolding eq by (rule wp_send_then [where E = E, OF own' [of MAIL_CONNECTION_GREETED arr] fit]) (simp add: post)
  next
    case exact
    then have "move_domain_loop prm 0 255 ?arr = Inl Out_of_bounds" and "E Out_of_bounds"
      using ends len short by (auto intro!: move_domain_exact)
    then show ?thesis
      by (simp add: smtp_hello_def move_client_mail_domain_def wp_bindM wp_throw DOMAIN_MAX_SIZE_def)
  next
    case long
    have "\<exists>d. move_domain_loop prm 0 255 ?arr = Inr (1, d) \<and> length d = length ?arr"
      by (rule move_domain_too_long) (simp_all add: len long)
    then obtain d where d: "move_domain_loop prm 0 255 ?arr = Inr (1, d)" "length d = 255"
      unfolding len by blast
    have "handler_post c w CONNECTION_CONTINUE (c\<lparr>mailclientdomain := d\<rparr>) w'" if "quiet w w'" for w'
      by (rule handler_post_domain [OF ok that]) (simp add: d DOMAIN_MAX_SIZE_def)
    then show ?thesis
      unfolding smtp_hello_def move_client_mail_domain_def
      using d own
      by (simp add: wp_bindM wp_ret DOMAIN_MAX_SIZE_def)
         (rule wp_send_then, simp_all add: conn_owns_def fixed_msgs)
  qed
qed

lemma wp_starttls:
  assumes ok: "conn_ok c w" "conn_ready c" "finite (ssls w)" and e: "fresh_ssls e"
    and tls: "tls_ready e sslctx \<or> E Null_pointer"
  defines "c1 \<equiv> c\<lparr>conn_state := MAIL_CONNECTION_EXPECT_TLS_NEG\<rparr>"
  shows "wp (seqM (smtp_send_msg c1 msg_accept_starttls)
              (bindM (sys_ssl_new e sslctx) (\<lambda>s.
               seqM (sys_ssl_set_fd (sslconn (c1\<lparr>sslconn := s\<rparr>)) (clientsocket (c1\<lparr>sslconn := s\<rparr>)))
               (ret (CONNECTION_CONTINUE, c1\<lparr>sslconn := s\<rparr>)))))
           (\<lambda>(r, c') w'. handler_post c w r c' w') E w"
  unfolding wp_seqM [of "smtp_send_msg _ _"]
proof (rule wp_send)
  show "conn_owns c1 w" using ok(1) by (simp add: c1_def conn_ok_def conn_owns_def)
  show "length msg_accept_starttls \<le> 256 \<or> E Out_of_bounds" by (simp add: fixed_msgs)
  fix w1
  assume q: "quiet w w1"
  have fin: "finite (ssls w1)" using ok(3) by (simp add: quiet_simps [OF q])
  have ok1: "conn_ok c w1" using ok(1) by (simp add: quiet_conn_ok [OF q])
  have "handler_post c w CONNECTION_CONTINUE (c1\<lparr>sslconn := Some s\<rparr>)
          (emit ev (emit ev' (w1\<lparr>ssls := insert s (ssls w1)\<rparr>)))" if "env_ssl_new e w1 = Some s" for s ev ev'
    using ok1 ok(2) fin fresh_ssls_new [OF e that] quiet_simps [OF q]
    by (auto simp: handler_post_def c1_def conn_ok_def conn_owns_def conn_ready_def buffer_ok_def
          frame_def old_block_def)
  then show "wp (bindM (sys_ssl_new e sslctx) (\<lambda>s.
       seqM (sys_ssl_set_fd (sslconn (c1\<lparr>sslconn := s\<rparr>)) (clientsocket (c1\<lparr>sslconn := s\<rparr>)))
       (ret (CONNECTION_CONTINUE, c1\<lparr>sslconn := s\<rparr>)))) (\<lambda>(r, c') w'. handler_post c w r c' w') E w1"
    using tls fin by (auto simp: wp_rules tls_ready_def split: option.splits)
qed

lemma NUL_in_params:
  assumes "length bytes < SMALL_BUFFER_SIZE" and "k \<le> strlen (read_buffer bytes)"
  shows "NUL \<in> set (drop k (read_buffer bytes))"
proof -
  let ?b = "read_buffer bytes"
  have "has_nul ?b" using assms(1) by (simp add: read_buffer_def has_nul_def)
  then have b: "?b = cstr ?b @ NUL # drop (Suc (strlen ?b)) ?b" by (rule has_nul_split)
  have "drop k ?b = drop k (cstr ?b) @ NUL # drop (Suc (strlen ?b)) ?b"
    using assms(2) by (subst b) (simp add: strlen_def)
  then show ?thesis by simp
qed

text \<open>The switch over the command, for a line of \<open>bytes\<close> that left room for a NUL.\<close>

lemma wp_handle_command:
  assumes ok: "conn_ok c w" "conn_ready c" "finite (ssls w)" and e: "fresh_ssls e"
    and len: "length bytes < SMALL_BUFFER_SIZE"
    and fit: "hello_ok maildomain bytes \<or> E Out_of_bounds"
    and tls: "tls_ready e sslctx \<or> E Null_pointer"
  shows "wp (smtp_handle_command e maildomain sslctx c (read_buffer bytes))
           (\<lambda>(r, c') w'. handler_post c w r c' w') E w"
proof -
  let ?b = "read_buffer bytes"
  have own: "conn_owns c w" using ok(1) by (simp add: conn_ok_def)
  have own': "conn_owns (c\<lparr>conn_state := s\<rparr>) w" for s using own by (simp add: conn_owns_def)
  have reply: "wp (seqM (smtp_send_msg c reply_text) (ret (r, c))) (\<lambda>(r, c') w'. handler_post c w r c' w') E w"
    if "length reply_text \<le> 256" for reply_text r
    by (rule wp_send_then [where E = E, OF own]) (use that handler_post_same [OF ok] in auto)
  have reply': "wp (seqM (smtp_send_msg (c\<lparr>conn_state := s\<rparr>) reply_text) (ret (r, c\<lparr>conn_state := s\<rparr>)))
      (\<lambda>(r, c') w'. handler_post c w r c' w') E w"
    if "length reply_text \<le> 256" "s \<noteq> MAIL_CONNECTION_EXPECT_TLS_NEG" for reply_text r s
    by (rule wp_send_then [where E = E, OF own']) (use that handler_post_state [OF ok] in auto)
  have word: "word_of (drop 5 ?b) = hello_word bytes"
    using len by (simp add: hello_word_def)
  have hello: "wp (smtp_hello msg c (drop 5 ?b)) (\<lambda>(r, c') w'. handler_post c w r c' w') E w"
    if "5 \<le> strlen ?b" "\<And>client. length (msg client) = k + length client" "k \<le> 53 + length maildomain"
    for msg k
    by (rule wp_hello [OF ok NUL_in_params [OF len that(1)] that(2)])
       (use fit that(3) in \<open>auto simp: hello_ok_def word\<close>)
  note starttls = wp_starttls [where E = E, OF ok e tls]
  show ?thesis
  proof (cases "parse_client_command ?b")
    case None
    then show ?thesis using reply by (simp add: smtp_handle_command_def fixed_msgs)
  next
    case (Some cmd)
    note bound = parse_param_bound [OF Some]
    have p5: "param cmd = Some 5" if "command cmd \<in> {SMTP_HELO, SMTP_EHLO}"
      using parse_Some_table [OF Some] that by (auto simp: command_table_def)
    show ?thesis
    proof (cases "command cmd")
      case SMTP_HELO
      then show ?thesis
        using Some bound p5 hello [of msg_accept_hello 12]
        by (simp add: smtp_handle_command_def msg_accept_hello_def)
    next
      case SMTP_EHLO
      then show ?thesis
        using Some bound p5 hello [of "msg_accept_ehello maildomain" "53 + length maildomain"]
        by (simp add: smtp_handle_command_def msg_accept_ehello_def)
    next
      case SMTP_STARTTLS
      then show ?thesis using Some starttls by (simp add: smtp_handle_command_def Let_def)
    next
      case SMTP_NOOP
      then show ?thesis
        using Some handler_post_same [OF ok] by (simp add: smtp_handle_command_def wp_ret)
    qed (use Some reply reply' in \<open>simp_all add: smtp_handle_command_def Let_def fixed_msgs\<close>)
  qed
qed

section \<open>The five handlers\<close>

abbreviation handled_ok :: "Connection \<Rightarrow> world \<Rightarrow> handled \<Rightarrow> world \<Rightarrow> bool" where
  "handled_ok c w \<equiv> \<lambda>(r, c') w'. handler_post c w r c' w'"

lemma handler_post_via_quiet:
  assumes "quiet w w1" and "handler_post c w1 r c' w'"
  shows "handler_post c w r c' w'"
  using assms(2) quiet_simps [OF assms(1)]
  by (auto simp: handler_post_def frame_def)

text \<open>A program that runs after calls which only left a trace.\<close>

lemma wp_after_quiet:
  assumes "quiet w w1" and "wp m (handled_ok c w1) E w1"
  shows "wp m (handled_ok c w) E w1"
  using assms(2) by (rule wp_mono) (use handler_post_via_quiet [OF assms(1)] in auto)

lemma wp_tls_negotiation:
  assumes ok: "conn_ok c w" "conn_ready c" "finite (ssls w)"
    and st: "conn_state c = MAIL_CONNECTION_EXPECT_TLS_NEG"
  shows "wp (smtp_tls_negotiation e c) (handled_ok c w) E w"
proof -
  obtain s where s: "sslconn c = Some s" "s \<in> ssls w"
    using ok st by (auto simp: conn_ready_def conn_ok_def conn_owns_def)
  show ?thesis
    using s handler_post_same [OF ok] handler_post_state [OF ok, where s = MAIL_CONNECTION_EXPECT_ANY]
    by (simp add: smtp_tls_negotiation_def wp_rules)
qed

lemma unat_of_length: "n < 2 ^ 64 \<Longrightarrow> unat (word_of_int (int n) :: size_t) = n"
  by (simp add: unat_of_nat take_bit_nat_def)

lemma wp_smtp_received:
  assumes e: "env_ok e" and ok: "conn_ok c w" "conn_ready c" "finite (ssls w)"
    and len: "length bytes \<le> SMALL_BUFFER_SIZE"
    and short: "conn_state c = MAIL_CONNECTION_EXPECT_DATA \<or> length bytes < SMALL_BUFFER_SIZE - 1"
    and fit: "hello_ok maildomain bytes \<or> E Out_of_bounds"
    and tls: "tls_ready e sslctx \<or> E Null_pointer"
  shows "wp (if conn_state c = MAIL_CONNECTION_EXPECT_DATA then
               smtp_handle_data e c (read_buffer bytes) (word_of_int (int (length bytes)))
             else smtp_handle_command e maildomain sslctx c (read_buffer bytes))
           (handled_ok c w) E w"
proof (cases "conn_state c = MAIL_CONNECTION_EXPECT_DATA")
  case True
  have "unat (word_of_int (int (length bytes)) :: size_t) = length bytes"
    using len by (intro unat_of_length) (simp add: SMALL_BUFFER_SIZE_def)
  moreover have "length (read_buffer bytes) = SMALL_BUFFER_SIZE"
    using len by (simp add: read_buffer_def)
  ultimately have "wp (smtp_handle_data e c (read_buffer bytes) (word_of_int (int (length bytes))))
      (\<lambda>(res, c') w'. handler_post c w res c' w' \<and>
         data_post c w (take (unat (word_of_int (int (length bytes)) :: size_t)) (read_buffer bytes)) res c' w')
      no_fault w"
    using e len by (intro wp_handle_data [OF ok]) (simp_all add: env_ok_def)
  then have "wp (smtp_handle_data e c (read_buffer bytes) (word_of_int (int (length bytes))))
      (handled_ok c w) E w"
    by (rule wp_mono) auto
  then show ?thesis using True by simp
next
  case False
  then have "length bytes < SMALL_BUFFER_SIZE" using short by auto
  then have "wp (smtp_handle_command e maildomain sslctx c (read_buffer bytes)) (handled_ok c w) E w"
    by (intro wp_handle_command [where E = E, OF ok _ _ fit tls]) (use e in \<open>simp_all add: env_ok_def\<close>)
  then show ?thesis using False by simp
qed

text \<open>What follows the read, for every result a read can have.\<close>

definition smtp_after_read ::
    "env \<Rightarrow> string \<Rightarrow> nat option \<Rightarrow> Connection \<Rightarrow> int \<times> char list \<Rightarrow> handled os" where
  "smtp_after_read e maildomain sslctx conn = (\<lambda>(readresult, bytes).
        if readresult \<ge> int SMALL_BUFFER_SIZE - 1 \<and> conn_state conn \<noteq> MAIL_CONNECTION_EXPECT_DATA then
          seqM (smtp_send_msg conn msg_reject_too_long) (ret (CONNECTION_ERROR, conn))
        else if readresult = - 1 then
          bindM (gets (env_would_block e)) (\<lambda>b.
          if b then ret (CONNECTION_CONTINUE, conn)
          else seqM (sys_log LOG_ERR (''%s'' @ [LF])) (ret (CONNECTION_ERROR, conn)))
        else if readresult = 0 then ret (CONNECTION_ERROR, conn)
        else if conn_state conn = MAIL_CONNECTION_EXPECT_DATA then
          smtp_handle_data e conn (read_buffer bytes) (word_of_int readresult)
        else smtp_handle_command e maildomain sslctx conn (read_buffer bytes))"

lemma wp_smtp_after_read_nothing:
  assumes ok: "conn_ok c w" "conn_ready c" "finite (ssls w)" and r: "r = - 1 \<or> r = 0"
  shows "wp (smtp_after_read e maildomain sslctx c (r, bs)) (handled_ok c w) E w"
  using r handler_post_same [OF ok]
  by (auto simp: smtp_after_read_def wp_rules SMALL_BUFFER_SIZE_def)

lemma wp_smtp_after_read:
  assumes e: "env_ok e" and ok: "conn_ok c w" "conn_ready c" "finite (ssls w)"
    and len: "length bytes \<le> SMALL_BUFFER_SIZE"
    and fit: "hello_ok maildomain bytes \<or> E Out_of_bounds"
    and tls: "tls_ready e sslctx \<or> E Null_pointer"
  shows "wp (smtp_after_read e maildomain sslctx c (int (length bytes), bytes)) (handled_ok c w) E w"
proof (cases "length bytes \<ge> SMALL_BUFFER_SIZE - 1 \<and> conn_state c \<noteq> MAIL_CONNECTION_EXPECT_DATA")
  case True
  have own: "conn_owns c w" using ok(1) by (simp add: conn_ok_def)
  have "wp (seqM (smtp_send_msg c msg_reject_too_long) (ret (CONNECTION_ERROR, c))) (handled_ok c w) E w"
    by (rule wp_send_then [where E = E, OF own])
       (simp_all add: fixed_msgs handler_post_same [OF ok])
  then show ?thesis using True by (simp add: smtp_after_read_def SMALL_BUFFER_SIZE_def)
next
  case False
  show ?thesis
  proof (cases "bytes = []")
    case True
    then show ?thesis using wp_smtp_after_read_nothing [OF ok] by simp
  next
    case ne: False
    then show ?thesis
      using wp_smtp_received [where E = E, OF e ok len _ fit tls] False
      by (auto simp: smtp_after_read_def)
  qed
qed

lemma smtp_handler_reads:
  assumes "live c" and "conn_state c \<noteq> MAIL_CONNECTION_OPENED"
    and "conn_state c \<noteq> MAIL_CONNECTION_EXPECT_TLS_NEG"
  shows "smtp_handler e maildomain sslctx c =
           bindM (smtp_receive_msg e c SMALL_BUFFER_SIZE) (smtp_after_read e maildomain sslctx c)"
  using assms by (simp add: smtp_handler_def smtp_after_read_def split_def)

lemma wp_smtp_receive:
  assumes e: "env_ok e" and ok: "conn_ok c w" "conn_ready c" "finite (ssls w)"
  shows "wp (bindM (smtp_receive_msg e c SMALL_BUFFER_SIZE) (smtp_after_read e maildomain sslctx c))
           (handled_ok c w) (hazard e maildomain sslctx) w"
proof -
  let ?E = "hazard e maildomain sslctx"
  have tls: "tls_ready e sslctx \<or> ?E Null_pointer" by (auto simp: hazard_def)
  have some: "wp (smtp_after_read e maildomain sslctx c (int (length (take SMALL_BUFFER_SIZE bs)),
                take SMALL_BUFFER_SIZE bs)) (handled_ok c w) ?E (emit ev w)"
    if "hello_ok maildomain bs \<or> ?E Out_of_bounds" for bs ev
  proof (rule wp_after_quiet)
    have fit: "hello_ok maildomain (take SMALL_BUFFER_SIZE bs) \<or> ?E Out_of_bounds"
      using that by (simp add: hello_ok_def hello_word_def)
    show "wp (smtp_after_read e maildomain sslctx c (int (length (take SMALL_BUFFER_SIZE bs)),
        take SMALL_BUFFER_SIZE bs)) (handled_ok c (emit ev w)) ?E (emit ev w)"
      by (rule wp_smtp_after_read [where E = "?E", OF e _ _ _ _ fit tls]) (simp_all add: ok)
  qed simp
  have none: "wp (smtp_after_read e maildomain sslctx c (r, bs)) (handled_ok c w) ?E (emit ev w)"
    if "r = - 1 \<or> r = 0" for r bs ev
    by (rule wp_after_quiet) (use ok that in \<open>simp_all add: wp_smtp_after_read_nothing\<close>)
  show ?thesis
  proof (cases "sslconn c")
    case None
    have "hello_ok maildomain bs \<or> ?E Out_of_bounds" if "env_read e w (clientsocket c) = Some bs" for bs
      using that by (auto simp: hazard_def polite_def)
    then show ?thesis
      using None some none
      by (simp add: smtp_receive_msg_def wp_bindM wp_sys_read split: option.splits)
  next
    case (Some s)
    have "hello_ok maildomain bs \<or> ?E Out_of_bounds" if "env_ssl_read e w s = Inr bs" for bs
      using that by (auto simp: hazard_def polite_def)
    moreover have "min r 0 = - 1 \<or> min r 0 = 0" if "env_ssl_read e w s = Inl r" for r
      using e that by (auto simp: env_ok_def ssl_read_minus1_def min_def dest!: spec)
    moreover have "s \<in> ssls w" using ok(1) Some by (simp add: conn_ok_def conn_owns_def)
    ultimately show ?thesis
      using Some some none
      by (simp add: smtp_receive_msg_def wp_bindM wp_sys_ssl_read split: sum.splits)
  qed
qed

interpretation smtp_h: connection_handler smtp_handler SMTP_CONNECTION
proof unfold_locales
  fix e c w maildomain sslctx
  assume e: "env_ok e" and ok: "conn_ok c w" "conn_ready c" "finite (ssls w)"
  let ?E = "hazard e maildomain sslctx"
  have own: "conn_owns c w" using ok(1) by (simp add: conn_ok_def)
  consider "\<not> live c" | "live c" "conn_state c = MAIL_CONNECTION_OPENED"
    | "live c" "conn_state c = MAIL_CONNECTION_EXPECT_TLS_NEG"
    | "live c" "conn_state c \<noteq> MAIL_CONNECTION_OPENED" "conn_state c \<noteq> MAIL_CONNECTION_EXPECT_TLS_NEG"
    by blast
  then show "wp (smtp_handler e maildomain sslctx c) (handled_ok c w) ?E w"
  proof cases
    case 1
    then show ?thesis using handler_post_same [OF ok] by (simp add: smtp_handler_def wp_ret)
  next
    case 2
    have "length (msg_accept_connection maildomain) \<le> 256 \<or> ?E Out_of_bounds"
      by (auto simp: msg_accept_connection_def hazard_def polite_def)
    then have "wp (seqM (smtp_send_msg c (msg_accept_connection maildomain))
        (ret (CONNECTION_CONTINUE, c\<lparr>conn_state := MAIL_CONNECTION_EXPECT_ANY\<rparr>))) (handled_ok c w) ?E w"
      by (rule wp_send_then [where E = "?E", OF own]) (simp add: handler_post_state [OF ok])
    then show ?thesis using 2 by (simp add: smtp_handler_def)
  next
    case 3
    then show ?thesis using wp_tls_negotiation [OF ok] by (simp add: smtp_handler_def)
  next
    case 4
    then show ?thesis using wp_smtp_receive [OF e ok] by (simp add: smtp_handler_reads)
  qed
qed

lemma ssl_object:
  assumes "conn_ok c w" "conn_ready c" "conn_type c \<in> {SMTPS_CONNECTION, HTTPS_CONNECTION}"
  obtains s where "sslconn c = Some s" "s \<in> ssls w"
  using assms by (auto simp: conn_ok_def conn_owns_def conn_ready_def)

interpretation smtps_h: connection_handler "\<lambda>e _ _. smtps_handler e" SMTPS_CONNECTION
proof unfold_locales
  fix e c w maildomain sslctx
  assume ok: "conn_ok c w" "conn_ready c" "finite (ssls w)" and "conn_type c = SMTPS_CONNECTION"
  then obtain s where "sslconn c = Some s" "s \<in> ssls w" by (auto elim: ssl_object)
  then show "wp (smtps_handler e c) (handled_ok c w) (hazard e maildomain sslctx) w"
    using handler_post_same [OF ok]
    by (simp add: smtps_handler_def smtp_send_msg_def Let_def wp_rules fixed_msgs)
qed

interpretation starttls_h: connection_handler "\<lambda>e _ _. starttls_handler e" STARTTLS_CONNECTION
proof unfold_locales
  fix e c w maildomain sslctx
  assume ok: "conn_ok c w" "conn_ready c" "finite (ssls w)"
  have "wp (seqM (smtp_send_msg c msg_reject_starttls) (ret (CONNECTION_DONE, c)))
          (handled_ok c w) (hazard e maildomain sslctx) w"
    by (rule wp_send_then) (use ok in \<open>simp_all add: conn_ok_def fixed_msgs handler_post_same [OF ok]\<close>)
  then show "wp (starttls_handler e c) (handled_ok c w) (hazard e maildomain sslctx) w"
    using handler_post_same [OF ok] by (simp add: starttls_handler_def wp_ret)
qed

interpretation http_h: connection_handler "\<lambda>e maildomain _. http_handler e maildomain" HTTP_CONNECTION
proof unfold_locales
  fix e c w maildomain sslctx
  assume ok: "conn_ok c w" "conn_ready c" "finite (ssls w)"
  then show "wp (http_handler e maildomain c) (handled_ok c w) (hazard e maildomain sslctx) w"
    using handler_post_same [OF ok]
    by (simp add: http_handler_def http_after_read_def wp_rules split: option.splits)
qed

interpretation https_h: connection_handler "\<lambda>e _ _. https_handler e" HTTPS_CONNECTION
proof unfold_locales
  fix e c w maildomain sslctx
  assume ok: "conn_ok c w" "conn_ready c" "finite (ssls w)" and "conn_type c = HTTPS_CONNECTION"
  then obtain s where "sslconn c = Some s" "s \<in> ssls w" by (auto elim: ssl_object)
  then show "wp (https_handler e c) (handled_ok c w) (hazard e maildomain sslctx) w"
    using handler_post_same [OF ok]
    by (simp add: https_handler_def http_after_read_def wp_rules split: sum.splits)
qed

section \<open>The protocol\<close>

text \<open>
  The sequence of commands SMTP allows, as one table: what a command does to the state of a
  connection and what the handler reports. \<open>n\<close> is the length of the word after HELO and EHLO.
\<close>

fun smtp_protocol ::
    "ConnectionState \<Rightarrow> SMTPCommand \<Rightarrow> nat \<Rightarrow> ConnectionHandlerResult \<times> ConnectionState" where
  "smtp_protocol st SMTP_QUIT n = (CONNECTION_DONE, st)"
| "smtp_protocol st SMTP_RSET n = (CONNECTION_RESET, st)"
| "smtp_protocol st SMTP_DATA n = (CONNECTION_CONTINUE, MAIL_CONNECTION_EXPECT_DATA)"
| "smtp_protocol st SMTP_HELO n =
     (CONNECTION_CONTINUE, if n < DOMAIN_MAX_SIZE then MAIL_CONNECTION_GREETED else st)"
| "smtp_protocol st SMTP_EHLO n =
     (CONNECTION_CONTINUE, if n < DOMAIN_MAX_SIZE then MAIL_CONNECTION_GREETED else st)"
| "smtp_protocol st SMTP_MAIL n =
     (CONNECTION_CONTINUE,
      if st = MAIL_CONNECTION_EXPECT_ANY then st else MAIL_CONNECTION_MAILING)"
| "smtp_protocol st SMTP_RCPT n =
     (CONNECTION_CONTINUE,
      if st \<in> {MAIL_CONNECTION_MAILING, MAIL_CONNECTION_RCPT} then MAIL_CONNECTION_RCPT else st)"
| "smtp_protocol st SMTP_STARTTLS n = (CONNECTION_CONTINUE, MAIL_CONNECTION_EXPECT_TLS_NEG)"
| "smtp_protocol st _ n = (CONNECTION_CONTINUE, st)"

lemma wp_reply_any:
  "(\<And>w'. Q x w') \<Longrightarrow> wp (seqM (smtp_send_msg c reply) (ret x)) Q (\<lambda>_. True) w"
  by (auto simp: smtp_send_msg_def Let_def wp_rules split: option.splits)

lemma wp_hello_state:
  assumes "length (mailclientdomain c) = DOMAIN_MAX_SIZE" and "NUL \<in> set prm"
  shows "wp (smtp_hello msg c prm)
     (\<lambda>(r, c') _. r = CONNECTION_CONTINUE \<and>
        conn_state c' = (if length (word_of prm) < DOMAIN_MAX_SIZE then MAIL_CONNECTION_GREETED
                         else conn_state c)) (\<lambda>_. True) w"
proof -
  let ?arr = "mailclientdomain c"
  have len: "length ?arr = 255" and ends: "\<exists>c \<in> set prm. ends_word c"
    using assms by (auto simp: DOMAIN_MAX_SIZE_def ends_word_def)
  have loop: "move_domain_loop prm 0 255 ?arr = Inl Out_of_bounds" if "length (word_of prm) = 255"
    using ends len that by (intro move_domain_exact) simp_all
  have long: "\<exists>d. move_domain_loop prm 0 255 ?arr = Inr (1, d) \<and> length d = length ?arr" if "255 < length (word_of prm)"
    using len that by (intro move_domain_too_long) simp_all
  have fits: "\<exists>d. move_domain_loop prm 0 255 ?arr = Inr (0, d)" if "length (word_of prm) < 255"
    using ends len that by (subst move_domain_fits) simp_all
  consider "length (word_of prm) < 255" | "length (word_of prm) = 255" | "255 < length (word_of prm)" by linarith
  then show ?thesis
  proof cases
    case 1
    then show ?thesis
      using fits unfolding smtp_hello_def move_client_mail_domain_def
      by (auto simp: wp_bindM wp_ret DOMAIN_MAX_SIZE_def client_domain_def Let_def wp_seqM [of "guardM _ _"]
            wp_guardM intro!: wp_reply_any)
  next
    case 2
    then show ?thesis
      using loop by (simp add: smtp_hello_def move_client_mail_domain_def wp_bindM wp_throw DOMAIN_MAX_SIZE_def)
  next
    case 3
    then show ?thesis
      using long unfolding smtp_hello_def move_client_mail_domain_def
      by (auto simp: wp_bindM wp_ret DOMAIN_MAX_SIZE_def intro!: wp_reply_any)
  qed
qed

lemma wp_protocol:
  assumes cmd: "parse_client_command (read_buffer bytes) = Some cmd"
    and len: "length bytes < SMALL_BUFFER_SIZE" and dom: "length (mailclientdomain c) = DOMAIN_MAX_SIZE"
  shows "wp (smtp_handle_command e maildomain sslctx c (read_buffer bytes))
     (\<lambda>(r, c') _. (r, conn_state c') = smtp_protocol (conn_state c) (command cmd) (length (hello_word bytes)))
     (\<lambda>_. True) w"
proof -
  let ?b = "read_buffer bytes"
  have word: "word_of (drop 5 ?b) = hello_word bytes" using len by (simp add: hello_word_def)
  have p5: "param cmd = Some 5" if "command cmd \<in> {SMTP_HELO, SMTP_EHLO}"
    using parse_Some_table [OF cmd] that by (auto simp: command_table_def)
  have hello: "wp (smtp_hello msg c (drop 5 ?b)) (\<lambda>(r, c') _. r = CONNECTION_CONTINUE \<and>
        conn_state c' = (if length (hello_word bytes) < DOMAIN_MAX_SIZE then MAIL_CONNECTION_GREETED
                         else conn_state c)) (\<lambda>_. True) w"
    if "command cmd \<in> {SMTP_HELO, SMTP_EHLO}" for msg
    using wp_hello_state [OF dom NUL_in_params [OF len, of 5], of msg w] p5 [OF that] that
      parse_param_bound [OF cmd] by (auto simp: word)
  show ?thesis
    using cmd p5 hello
    by (cases "command cmd")
       (simp_all add: smtp_handle_command_def Let_def wp_reply_any wp_ret wp_rules wp_seqM [of "smtp_send_msg _ _"]
          smtp_send_msg_def split: option.splits)
qed

end
