(* ===== verification/Trace.thy ===== *)
theory Trace
  imports Conn_Queue Handlers
begin

text \<open>
  The trace of the world only grows: a function that returns has left every call it made in the
  trace. \<open>grows k m\<close> says that a returning run of \<open>m\<close> added at least \<open>k\<close> calls. The loop of the
  master service uses it to show that it makes progress in every round.
\<close>

definition grows :: "nat \<Rightarrow> 'a os \<Rightarrow> bool" where
  "grows k m \<longleftrightarrow> (\<forall>w x w'. m w = Inr (x, w') \<longrightarrow> length (trace w) + k \<le> length (trace w'))"

named_theorems grows_intros

lemma growsI: "(\<And>w x w'. m w = Inr (x, w') \<Longrightarrow> length (trace w) + k \<le> length (trace w')) \<Longrightarrow> grows k m"
  by (simp add: grows_def)

lemma growsD: "grows k m \<Longrightarrow> m w = Inr (x, w') \<Longrightarrow> length (trace w) + k \<le> length (trace w')"
  by (auto simp: grows_def)

lemma grows_weaken: "grows k m \<Longrightarrow> j \<le> k \<Longrightarrow> grows j m"
  by (fastforce simp: grows_def)

lemma bindM_InrE:
  assumes "bindM m f w = Inr (y, w2)"
  obtains x w1 where "m w = Inr (x, w1)" and "f x w1 = Inr (y, w2)"
  using assms by (auto simp: bindM_def split: sum.splits)

lemma grows_bind_first: "grows k m \<Longrightarrow> (\<And>x. grows 0 (f x)) \<Longrightarrow> grows k (bindM m f)"
  by (rule growsI, erule bindM_InrE) (fastforce simp: grows_def)

lemma grows_basic [grows_intros]:
  "grows 0 (ret x)" "grows 0 (throw f)" "grows 0 (gets h)" "grows 0 (guardM b f)"
  by (auto simp: grows_def guardM_def)

lemma grows_bindM [grows_intros]: "grows 0 m \<Longrightarrow> (\<And>x. grows 0 (f x)) \<Longrightarrow> grows 0 (bindM m f)"
  by (rule grows_bind_first)

lemma grows_seqM [grows_intros]: "grows 0 m \<Longrightarrow> grows 0 n \<Longrightarrow> grows 0 (seqM m n)"
  unfolding seqM_def by (rule grows_bindM)

lemma grows_whenM [grows_intros]: "grows 0 m \<Longrightarrow> grows 0 (whenM b m)"
  by (simp add: whenM_def grows_basic)

lemma trace_fd [simp]: "trace (open_fd fd w) = trace w" "trace (close_fd fd w) = trace w"
  by (simp_all add: open_fd_def close_fd_def)

lemmas sys_defs = sys_log_def sys_time_def sys_mutex_init_def sys_mutex_lock_def
  sys_mutex_unlock_def sys_accept_def sys_close_def sys_read_def sys_dprintf_def sys_realloc_def
  sys_free_def sys_store_def sys_load_def with_ssl_def sys_ssl_new_def sys_ssl_set_fd_def
  sys_ssl_accept_def sys_ssl_want_io_def sys_ssl_read_def sys_ssl_write_def sys_ssl_free_def

lemma grows_os [grows_intros]:
  "grows 0 (sys_log l s)" "grows 0 (sys_time e)" "grows 0 sys_mutex_init"
  "grows 0 (sys_mutex_unlock e)" "grows 0 (sys_accept e fd)" "grows 0 (sys_close fd)"
  "grows 0 (sys_read e fd n)" "grows 0 (sys_dprintf fd s)"
  by (auto simp: grows_def sys_defs Let_def)

lemma grows_lock: "grows 1 (sys_mutex_lock e)"
  by (auto simp: grows_def sys_defs)

lemma grows_memory [grows_intros]:
  "grows 0 (sys_realloc e p n)" "grows 0 (sys_free p)" "grows 0 (sys_store p off bs)" "grows 0 (sys_load p)"
  by (auto simp: grows_def sys_defs split: option.splits if_splits)

lemma grows_ssl [grows_intros]:
  "grows 0 (sys_ssl_new e c)" "grows 0 (sys_ssl_set_fd p fd)" "grows 0 (sys_ssl_accept e p)"
  "grows 0 (sys_ssl_want_io e p)" "grows 0 (sys_ssl_read e p n)" "grows 0 (sys_ssl_write p bs)"
  "grows 0 (sys_ssl_free p)"
  by (auto simp: grows_def sys_defs Let_def split: option.splits if_splits)

section \<open>The handlers and the queue\<close>

lemma grows_send [grows_intros]: "grows 0 (smtp_send_msg c s)"
  by (auto simp: smtp_send_msg_def Let_def intro!: grows_intros)

lemma grows_data: "grows 0 (smtp_handle_data e c b r)"
  by (auto simp: smtp_handle_data_def smtp_store_data_def Let_def intro!: grows_intros split: option.splits)

lemma grows_move: "grows 0 (move_client_mail_domain p c m)"
  by (auto simp: move_client_mail_domain_def intro!: grows_intros split: sum.splits)

lemma grows_hello: "grows 0 (smtp_hello msg c p)"
  by (auto simp: smtp_hello_def client_domain_def Let_def intro!: grows_intros grows_move)

lemma grows_command: "grows 0 (smtp_handle_command e d x c b)"
  by (auto simp: smtp_handle_command_def Let_def intro!: grows_intros grows_hello
        split: option.splits SMTPCommand.splits)

lemma grows_smtp: "grows 0 (smtp_handler e d x c)"
  by (auto simp: smtp_handler_def smtp_tls_negotiation_def smtp_receive_msg_def
        intro!: grows_intros grows_data grows_command)

lemma grows_tls_handlers: "grows 0 (smtps_handler e c)" "grows 0 (starttls_handler e c)"
  by (auto simp: smtps_handler_def starttls_handler_def intro!: grows_intros)

lemma grows_http: "grows 0 (http_handler e d c)" "grows 0 (https_handler e c)"
  by (auto simp: http_handler_def https_handler_def http_after_read_def intro!: grows_intros)

lemma grows_enqueue: "grows 0 (conn_queue_enqueue e q c)"
  unfolding conn_queue_enqueue_def
  by (rule grows_bindM [OF grows_weaken [OF grows_lock]])
     (auto simp: Let_def intro!: grows_intros)

lemma grows_dequeue: "grows 1 (conn_queue_dequeue e q c)"
  unfolding conn_queue_dequeue_def
  by (rule grows_bind_first [OF grows_lock])
     (auto simp: Let_def queue_pop_def intro!: grows_intros)

lemma grows_life_cycle:
  "grows 0 (connection_init e x c)" "grows 0 (reset_connection c)" "grows 0 (connection_deinit c)"
  by (auto simp: connection_init_def reset_connection_def connection_deinit_def Let_def
        intro!: grows_intros split: SSL_STRATEGY.splits)

end
