(* ===== verification/Dns.thy ===== *)
theory Dns
  imports Connections
begin

text \<open>
  The mail domain, \<open>src/dns.c\<close>: a static array of 255 bytes that \<open>dns_init\<close> fills from the
  environment variable \<open>MAIL_DOMAIN\<close> and \<open>get_mail_domain\<close> hands out.
\<close>

section \<open>Initialisation\<close>

text \<open>The static array before \<open>dns_init\<close> ran.\<close>

definition maildomain_zero :: "char list" where
  "maildomain_zero = replicate DOMAIN_MAX_SIZE NUL"

text \<open>\<open>get_mail_domain\<close> returns the array; its users print the string in it.\<close>

definition get_mail_domain :: "char list \<Rightarrow> string" where
  "get_mail_domain maildomain = cstr maildomain"

text \<open>
  \<open>snprintf(dst, n, "%s", src)\<close> for an array \<open>dst\<close> of at least \<open>n > 0\<close> bytes: as much of the
  string as fits with its NUL; the rest of the array stays.
\<close>

definition snprintf_s :: "char list \<Rightarrow> nat \<Rightarrow> string \<Rightarrow> char list" where
  "snprintf_s dst n src = (let s = take (n - 1) (cstr src) in s @ NUL # drop (length s + 1) dst)"

definition dns_init :: "env \<Rightarrow> char list \<Rightarrow> (int \<times> char list) os" where
  "dns_init e maildomain =
     bindM (gets (\<lambda>w. env_getenv e w ''MAIL_DOMAIN'')) (\<lambda>domain.
     case domain of
       None \<Rightarrow> seqM (sys_log LOG_WARNING ''Cannot find a valid mail domain.'') (ret (1, maildomain))
     | Some domain \<Rightarrow>
         let domainlen = strlen domain in
         if domainlen = 0 then
           seqM (sys_log LOG_WARNING ''Cannot find a valid mail domain.'') (ret (1, maildomain))
         else if domainlen > DOMAIN_MAX_SIZE - 1 then
           seqM (sys_log LOG_WARNING ''Mail domain too long.'') (ret (1, maildomain))
         else ret (0, snprintf_s maildomain DOMAIN_MAX_SIZE domain))"

section \<open>What it guarantees\<close>

definition domain_array :: "char list \<Rightarrow> bool" where
  "domain_array d \<longleftrightarrow> length d = DOMAIN_MAX_SIZE \<and> has_nul d"

lemma domain_array_zero: "domain_array maildomain_zero"
  by (simp add: domain_array_def maildomain_zero_def DOMAIN_MAX_SIZE_def has_nul_def)

lemma domain_array_length: "domain_array d \<Longrightarrow> length (get_mail_domain d) < 255"
  using strlen_less [of d] by (simp add: domain_array_def get_mail_domain_def strlen_def DOMAIN_MAX_SIZE_def)

lemma snprintf_fits:
  assumes "length dst = n" and "strlen src < n"
  shows "length (snprintf_s dst n src) = n \<and> has_nul (snprintf_s dst n src) \<and>
         cstr (snprintf_s dst n src) = cstr src"
  using assms by (simp add: snprintf_s_def strlen_def has_nul_def Let_def)

definition valid_domain :: "string option \<Rightarrow> bool" where
  "valid_domain d \<longleftrightarrow> (\<exists>s. d = Some s \<and> 0 < strlen s \<and> strlen s \<le> 254)"

lemma wp_dns_init:
  assumes "domain_array d"
  shows "wp (dns_init e d)
           (\<lambda>(r, d') w'. quiet w w' \<and> domain_array d' \<and>
              (case env_getenv e w ''MAIL_DOMAIN'' of
                 None \<Rightarrow> r = 1 \<and> d' = d
               | Some s \<Rightarrow>
                   if 0 < strlen s \<and> strlen s \<le> 254 then r = 0 \<and> get_mail_domain d' = cstr s
                   else r = 1 \<and> d' = d)) no_fault w"
proof (cases "env_getenv e w ''MAIL_DOMAIN''")
  case None
  then show ?thesis using assms by (simp add: dns_init_def wp_rules)
next
  case (Some s)
  have "domain_array (snprintf_s d DOMAIN_MAX_SIZE s) \<and> get_mail_domain (snprintf_s d DOMAIN_MAX_SIZE s) = cstr s"
    if "strlen s \<le> 254"
    using snprintf_fits [of d DOMAIN_MAX_SIZE s] assms that
    by (simp add: domain_array_def get_mail_domain_def DOMAIN_MAX_SIZE_def)
  then show ?thesis
    using assms Some by (auto simp: dns_init_def wp_rules Let_def DOMAIN_MAX_SIZE_def)
qed

end
