(* ===== verification/Master.thy ===== *)
theory Master
  imports Comm Trace Dns
begin

text \<open>
  The master service, \<open>src/master.c\<close>: accepting connections, giving each queued connection to
  its handler, and the loop that does both until a stop is requested. The global variables of
  \<open>femail.c\<close>, \<open>dns.c\<close> and \<open>master.c\<close> are the record \<open>femail\<close>.

  \<open>handle_connection\<close> declares a \<open>Connection\<close> without initialising it; the bytes that are on
  the stack at that moment are the parameter \<open>stack\<close>.
\<close>

section \<open>Global state\<close>

record femail =
  stop_signal :: int
  smtpctx :: smtpcontext
  smtpsctx :: smtpscontext
  starttlsctx :: starttlscontext
  httpctx :: httpcontext
  httpsctx :: httpscontext
  sslctx :: "nat option"
  maildomain :: "char list"
  connqueue :: ConnectionQueue

definition request_stop :: "femail \<Rightarrow> femail os" where
  "request_stop g =
     seqM (sys_log LOG_NOTICE ''Stop requested on master service.'') (ret (g\<lparr>stop_signal := 1\<rparr>))"

text \<open>
  \<open>is_stopped\<close> reads the flag the signal handler sets. Signals arrive at any time; one that has
  arrived is seen at the next poll, so that is where the handler runs.
\<close>

definition is_stopped :: "env \<Rightarrow> femail \<Rightarrow> (bool \<times> femail) os" where
  "is_stopped e g =
     bindM (gets (env_signalled e)) (\<lambda>s.
     bindM (if s then request_stop g else ret g) (\<lambda>g.
     ret (stop_signal g \<noteq> 0, g)))"

section \<open>Accepting\<close>

datatype ACCEPT_STATE =
    ACCEPT_CONTENT
  | ACCEPT_UNBLOCK
  | ACCEPT_ERROR

definition get_accept_state :: "env \<Rightarrow> int \<Rightarrow> ACCEPT_STATE os" where
  "get_accept_state e acceptresult =
     (if acceptresult = - 1 then
        bindM (gets (env_would_block e)) (\<lambda>b.
        if b then ret ACCEPT_UNBLOCK else ret ACCEPT_ERROR)
      else ret ACCEPT_CONTENT)"

definition enqueue_or_drop :: "env \<Rightarrow> string \<Rightarrow> femail \<Rightarrow> Connection \<Rightarrow> femail os" where
  "enqueue_or_drop e msg g conn =
     bindM (conn_queue_enqueue e (connqueue g) conn) (\<lambda>(r, q).
     let g = g\<lparr>connqueue := q\<rparr> in
     if r \<noteq> 0 then
       seqM (sys_log LOG_ERR msg) (seqM (connection_deinit conn) (ret g))
     else ret g)"

definition handle_connection ::
    "env \<Rightarrow> (world \<Rightarrow> Connection) \<Rightarrow> femail \<Rightarrow> ConnectionType \<Rightarrow> int \<Rightarrow> SSL_STRATEGY \<Rightarrow>
     (int \<times> femail) os" where
  "handle_connection e stack g ty client strat =
     bindM (get_accept_state e client) (\<lambda>st.
     case st of
       ACCEPT_UNBLOCK \<Rightarrow> ret (0, g)
     | ACCEPT_ERROR \<Rightarrow> ret (1, g)
     | ACCEPT_CONTENT \<Rightarrow>
         bindM (gets stack) (\<lambda>conn.
         let conn = conn\<lparr>conn_type := ty, clientsocket := client, sslstrat := strat\<rparr> in
         bindM (connection_init e (sslctx g) conn) (\<lambda>conn.
         bindM (enqueue_or_drop e ''Failed to enqueue a connection. rejecting...'' g conn) (\<lambda>g.
         ret (0, g)))))"

section \<open>Processing\<close>

definition run_handler :: "env \<Rightarrow> femail \<Rightarrow> Connection \<Rightarrow> handled os" where
  "run_handler e g conn =
     (case conn_type conn of
        SMTP_CONNECTION \<Rightarrow> smtp_handler e (get_mail_domain (maildomain g)) (sslctx g) conn
      | SMTPS_CONNECTION \<Rightarrow> smtps_handler e conn
      | STARTTLS_CONNECTION \<Rightarrow> starttls_handler e conn
      | HTTP_CONNECTION \<Rightarrow> http_handler e (get_mail_domain (maildomain g)) conn
      | HTTPS_CONNECTION \<Rightarrow> https_handler e conn)"

definition settle_connection :: "env \<Rightarrow> femail \<Rightarrow> handled \<Rightarrow> femail os" where
  "settle_connection e g = (\<lambda>(result, conn).
     case result of
       CONNECTION_CONTINUE \<Rightarrow>
         enqueue_or_drop e ''Failed to renqueue a connection. dropping...'' g conn
     | CONNECTION_RESET \<Rightarrow>
         bindM (reset_connection conn) (\<lambda>conn.
         enqueue_or_drop e ''Failed to renqueue a reset connection. dropping...'' g conn)
     | CONNECTION_DONE \<Rightarrow> seqM (connection_deinit conn) (ret g)
     | CONNECTION_ERROR \<Rightarrow>
         seqM (sys_log LOG_ERR ''Received an error while handling a connection.'')
         (seqM (connection_deinit conn) (ret g)))"

definition process_connection :: "env \<Rightarrow> femail \<Rightarrow> femail os" where
  "process_connection e g =
     bindM (conn_queue_dequeue e (connqueue g) zero_connection) (\<lambda>(r, q, conn).
     let g = g\<lparr>connqueue := q\<rparr> in
     if r \<noteq> 0 then ret g
     else bindM (run_handler e g conn) (settle_connection e g))"

section \<open>The loop\<close>

definition accept_on ::
    "env \<Rightarrow> (world \<Rightarrow> Connection) \<Rightarrow> string \<Rightarrow> ConnectionType \<Rightarrow> SSL_STRATEGY \<Rightarrow> int \<Rightarrow> femail \<Rightarrow> femail os" where
  "accept_on e stack msg ty strat sock g =
     bindM (sys_accept e sock) (\<lambda>client.
     bindM (handle_connection e stack g ty client strat) (\<lambda>(r, g).
     seqM (whenM (r \<noteq> 0) (sys_log LOG_ERR msg)) (ret g)))"

text \<open>One of the five blocks of the loop body: both sockets of a service, if it is active.\<close>

definition accept_service ::
    "env \<Rightarrow> (world \<Rightarrow> Connection) \<Rightarrow> string \<Rightarrow> ConnectionType \<Rightarrow> SSL_STRATEGY \<Rightarrow>
     'c netcontext_scheme \<Rightarrow> femail \<Rightarrow> femail os" where
  "accept_service e stack tag ty strat ctx g =
     (if active ctx then
        bindM (accept_on e stack (tag @ '': Failed to handle connection on IPv4.'') ty strat (socket4 ctx) g)
          (accept_on e stack (tag @ '': Failed to handle connection on IPv6.'') ty strat (socket6 ctx))
      else ret g)"

definition master_iteration :: "env \<Rightarrow> (world \<Rightarrow> Connection) \<Rightarrow> femail \<Rightarrow> femail os" where
  "master_iteration e stack g =
     bindM (accept_service e stack ''SMTP'' SMTP_CONNECTION
              (if starttls (smtpctx g) then OPPORTUNISTIC_TLS else NO_SSL) (smtpctx g) g) (\<lambda>g.
     bindM (accept_service e stack ''SMTPS'' SMTPS_CONNECTION IMPLICIT_TLS (smtpsctx g) g) (\<lambda>g.
     bindM (accept_service e stack ''StartTLS'' STARTTLS_CONNECTION OPPORTUNISTIC_TLS (starttlsctx g) g) (\<lambda>g.
     bindM (accept_service e stack ''HTTP'' HTTP_CONNECTION NO_SSL (httpctx g) g) (\<lambda>g.
     bindM (accept_service e stack ''HTTPS'' HTTPS_CONNECTION IMPLICIT_TLS (httpsctx g) g) (\<lambda>g.
     process_connection e g)))))"

text \<open>
  The \<open>while\<close> loop with fuel: \<open>Some g\<close> when a stop request ended it, \<open>None\<close> when it is still
  running after the given number of polls.
\<close>

fun master_loop :: "nat \<Rightarrow> env \<Rightarrow> (world \<Rightarrow> Connection) \<Rightarrow> femail \<Rightarrow> femail option os" where
  "master_loop 0 e stack g = ret None"
| "master_loop (Suc n) e stack g =
     bindM (is_stopped e g) (\<lambda>(stopped, g).
     if stopped then ret (Some g)
     else bindM (master_iteration e stack g) (master_loop n e stack))"

definition start_master_service ::
    "nat \<Rightarrow> env \<Rightarrow> (world \<Rightarrow> Connection) \<Rightarrow> femail \<Rightarrow> femail option os" where
  "start_master_service n e stack g =
     seqM (sys_log LOG_INFO ''Starting master service...'')
     (bindM (conn_queue_init (connqueue g)) (\<lambda>(r, q).
      let g = g\<lparr>connqueue := q\<rparr> in
      if r \<noteq> 0 then
        seqM (sys_log LOG_ERR ''Couldn't initialize the mail connection queue.'') (ret (Some g))
      else
        bindM (master_loop n e stack g) (\<lambda>res.
        case res of
          None \<Rightarrow> ret None
        | Some g \<Rightarrow> seqM (sys_log LOG_INFO ''Master service stopped successfully.'') (ret (Some g)))))"

section \<open>The pool of connections\<close>

text \<open>
  \<open>pool B S X L w\<close>: the queued connections \<open>L\<close> own their resources, share none, and account for
  every descriptor that was not open before the loop (\<open>B\<close>); the listening sockets \<open>S\<close> still
  listen and the TLS contexts \<open>X\<close> are alive. \<open>holding B S X c L w\<close>: the same while \<open>c\<close> is out of the queue, its message buffer
  possibly to be discarded.
\<close>

definition sockets_of :: "Connection list \<Rightarrow> int set" where
  "sockets_of L = clientsocket ` set L"

definition pool :: "int set \<Rightarrow> int set \<Rightarrow> nat set \<Rightarrow> Connection list \<Rightarrow> world \<Rightarrow> bool" where
  "pool B S X L w \<longleftrightarrow>
     finite (ssls w) \<and> (\<forall>d \<in> set L. conn_ok d w \<and> conn_ready d) \<and> sorted_wrt apart L \<and>
     fds w = B \<union> sockets_of L \<and> B \<inter> sockets_of L = {} \<and> S \<subseteq> B \<inter> listening w \<and> ssl_ctxs w = X"

definition holding :: "int set \<Rightarrow> int set \<Rightarrow> nat set \<Rightarrow> Connection \<Rightarrow> Connection list \<Rightarrow> world \<Rightarrow> bool" where
  "holding B S X c L w \<longleftrightarrow>
     finite (ssls w) \<and> (\<forall>d \<in> set L. conn_ok d w \<and> conn_ready d \<and> apart c d) \<and> sorted_wrt apart L \<and>
     fds w = B \<union> sockets_of (c # L) \<and> B \<inter> sockets_of (c # L) = {} \<and> S \<subseteq> B \<inter> listening w \<and> ssl_ctxs w = X \<and>
     conn_owns c w \<and> conn_ready c \<and> length (mailclientdomain c) = DOMAIN_MAX_SIZE"

lemma pool_take:
  "pool B S X (c # L) w \<Longrightarrow> holding B S X c L w \<and> conn_ok c w"
  by (auto simp: pool_def holding_def conn_ok_def buffer_ok_def)

lemma pool_quiet: "quiet w w' \<Longrightarrow> pool B S X L w' = pool B S X L w"
  by (simp add: pool_def quiet_conn_ok quiet_simps)

lemma conn_owns_quiet: "quiet w w' \<Longrightarrow> conn_owns c w' = conn_owns c w"
  by (simp add: conn_owns_def quiet_simps)

lemma holding_quiet: "quiet w w' \<Longrightarrow> holding B S X c L w' = holding B S X c L w"
  by (simp add: holding_def quiet_conn_ok conn_owns_quiet quiet_simps)

lemma pool_emit [simp]: "pool B S X L (emit ev w) = pool B S X L w"
  by (rule pool_quiet) simp

lemma holding_emit [simp]: "holding B S X c L (emit ev w) = holding B S X c L w"
  by (rule holding_quiet) simp

text \<open>Only ownership matters, so refreshing the time stamp keeps everything.\<close>

lemma refresh_simps [simp]:
  "conn_owns (c\<lparr>timerefreshed := t\<rparr>) w = conn_owns c w"
  "buffer_ok (c\<lparr>timerefreshed := t\<rparr>) w = buffer_ok c w"
  "conn_ok (c\<lparr>timerefreshed := t\<rparr>) w = conn_ok c w"
  "conn_ready (c\<lparr>timerefreshed := t\<rparr>) = conn_ready c"
  "apart (c\<lparr>timerefreshed := t\<rparr>) d = apart c d"
  "apart d (c\<lparr>timerefreshed := t\<rparr>) = apart d c"
  by (simp_all add: conn_ok_def conn_owns_def buffer_ok_def conn_ready_def apart_def)

lemma holding_put:
  assumes "holding B S X c L w" and "buffer_ok c w"
  shows "pool B S X (L @ [c\<lparr>timerefreshed := t\<rparr>]) w"
  using assms
  by (auto simp: pool_def holding_def conn_ok_def sorted_wrt_append apart_sym sockets_of_def)

lemma holding_handler:
  assumes h: "holding B S X c L w" and p: "handler_post c w r c' w'"
  shows "holding B S X c' L w'"
proof -
  have fr: "frame c w w'" using p by (simp add: handler_post_def)
  have "conn_ok d w' \<and> conn_ready d \<and> apart c' d" if "d \<in> set L" for d
  proof -
    have d: "conn_ok d w" "conn_ready d" "apart c d" using h that by (simp_all add: holding_def)
    then have "conn_owns d w" by (simp add: conn_ok_def)
    then have "apart c' d"
      using d(3) p by (auto simp: apart_def handler_post_def conn_owns_def)
    then show ?thesis using frame_conn_ok [OF fr d(3,1)] d(2) by simp
  qed
  moreover have "S \<subseteq> listening w' \<and> ssl_ctxs w' = X"
    using h fr by (auto simp: holding_def frame_def sockets_of_def)
  ultimately show ?thesis
    using h p by (auto simp: holding_def handler_post_def sockets_of_def)
qed

lemma holding_drop:
  assumes h: "holding B S X c L w"
  shows "wp (connection_deinit c) (\<lambda>_ w'. pool B S X L w') no_fault w"
proof (rule wp_mono [OF wp_connection_deinit], goal_cases)
  case 1
  show ?case using h by (simp add: holding_def)
next
  case (2 c' w')
  have "conn_ok d w' \<and> conn_ready d" if "d \<in> set L" for d
    using h that 2 frame_conn_ok [of c w w' d] by (simp add: holding_def)
  moreover have "clientsocket c \<notin> B \<union> sockets_of L"
    using h by (auto simp: holding_def sockets_of_def apart_def)
  moreover have "S \<subseteq> listening w' \<and> ssl_ctxs w' = X"
    using h 2 by (auto simp: holding_def frame_def sockets_of_def)
  ultimately show ?case
    using h 2 by (auto simp: holding_def pool_def sockets_of_def)
qed simp

lemma holding_reset:
  assumes h: "holding B S X c L w"
  shows "wp (reset_connection c)
    (\<lambda>c' w'. holding B S X c' L w' \<and> buffer_ok c' w' \<and> clientsocket c' = clientsocket c \<and>
       conn_type c' = conn_type c) no_fault w"
proof (rule wp_mono [OF wp_reset_connection], goal_cases)
  case 1
  show ?case using h by (simp add: holding_def)
next
  case 2
  show ?case using h by (simp add: holding_def)
next
  case (3 c' w')
  have "conn_ok d w' \<and> conn_ready d \<and> apart c' d" if "d \<in> set L" for d
  proof -
    have d: "conn_ok d w" "conn_ready d" "apart c d" using h that by (simp_all add: holding_def)
    then have "apart c' d" using 3 by (auto simp: apart_def)
    then show ?thesis using frame_conn_ok [of c w w' d] 3 d by simp
  qed
  moreover have "S \<subseteq> listening w' \<and> ssl_ctxs w' = X"
    using h 3 by (auto simp: holding_def frame_def sockets_of_def)
  moreover have "conn_ready c'" using h 3 by (auto simp: holding_def conn_ready_def)
  ultimately show ?case
    using h 3 by (auto simp: holding_def sockets_of_def conn_ok_def buffer_ok_def)
qed simp

section \<open>Storing and dropping\<close>

text \<open>
  The loop's invariant: a well-formed queue over a sound pool. \<open>same_setup\<close> says that nothing
  but the queue changed.
\<close>

definition same_setup :: "femail \<Rightarrow> femail \<Rightarrow> bool" where
  "same_setup g g' \<longleftrightarrow> (\<exists>q. g' = g\<lparr>connqueue := q\<rparr>)"

definition master_ok :: "int set \<Rightarrow> int set \<Rightarrow> nat set \<Rightarrow> femail \<Rightarrow> world \<Rightarrow> bool" where
  "master_ok B S X g w \<longleftrightarrow> queue_inv (connqueue g) \<and> pool B S X (queue_contents (connqueue g)) w"

lemma same_setup_simps:
  assumes "same_setup g g'"
  shows "smtpctx g' = smtpctx g" "smtpsctx g' = smtpsctx g" "starttlsctx g' = starttlsctx g"
    "httpctx g' = httpctx g" "httpsctx g' = httpsctx g" "sslctx g' = sslctx g"
    "maildomain g' = maildomain g" "stop_signal g' = stop_signal g"
  using assms by (auto simp: same_setup_def)

lemma same_setup_refl [simp]: "same_setup g g"
  unfolding same_setup_def by (rule exI [of _ "connqueue g"]) simp

lemma same_setup_queue [simp]: "same_setup g (g\<lparr>connqueue := q\<rparr>)"
  by (auto simp: same_setup_def)

lemma same_setup_trans: "same_setup g g1 \<Longrightarrow> same_setup g1 g2 \<Longrightarrow> same_setup g g2"
  by (auto simp: same_setup_def)

abbreviation kept :: "int set \<Rightarrow> int set \<Rightarrow> nat set \<Rightarrow> femail \<Rightarrow> femail \<Rightarrow> world \<Rightarrow> bool" where
  "kept B S X g \<equiv> \<lambda>g' w'. same_setup g g' \<and> master_ok B S X g' w'"

text \<open>What happens to the queue \<open>L\<close> when \<open>c\<close> is settled: dropped, or put at the end.\<close>

definition settled :: "Connection \<Rightarrow> Connection list \<Rightarrow> Connection list \<Rightarrow> bool" where
  "settled c L M \<longleftrightarrow>
     M = L \<or> (\<exists>c'. M = L @ [c'] \<and> clientsocket c' = clientsocket c \<and> conn_type c' = conn_type c)"

abbreviation settled_ok ::
    "int set \<Rightarrow> int set \<Rightarrow> nat set \<Rightarrow> femail \<Rightarrow> Connection \<Rightarrow> femail \<Rightarrow> world \<Rightarrow> bool" where
  "settled_ok B S X g c \<equiv> \<lambda>g' w'. same_setup g g' \<and> master_ok B S X g' w' \<and>
     settled c (queue_contents (connqueue g)) (queue_contents (connqueue g'))"

lemma settled_cong:
  "clientsocket c' = clientsocket c \<Longrightarrow> conn_type c' = conn_type c \<Longrightarrow> settled c' L M = settled c L M"
  by (simp add: settled_def)

lemma wp_enqueue_or_drop:
  assumes m: "mutex_works e" and inv: "queue_inv (connqueue g)"
    and h: "holding B S X c (queue_contents (connqueue g)) w" "buffer_ok c w"
  shows "wp (enqueue_or_drop e msg g c) (settled_ok B S X g c) no_fault w"
  unfolding enqueue_or_drop_def wp_bindM
proof (rule wp_mono [OF wp_conn_queue_enqueue [OF m inv]], goal_cases)
  case (1 x w1)
  obtain r q where x: "x = (r, q)" by (cases x)
  have q: "quiet w w1" using 1 x by simp
  show ?case
  proof (cases "unat (q_count (connqueue g)) < 512")
    case True
    then obtain t where "r = 0" "queue_inv q"
      "queue_contents q = queue_contents (connqueue g) @ [c\<lparr>timerefreshed := t\<rparr>]"
      using 1 x by auto
    then show ?thesis
      using holding_put [OF h, of t] pool_quiet [OF q]
      by (simp add: x wp_ret master_ok_def settled_def)
  next
    case False
    then have r: "r = 1" "q = connqueue g" using 1 x by auto
    have "holding B S X c (queue_contents (connqueue g)) (emit ev w1)" for ev
      using h(1) holding_quiet [OF q] by simp
    note drop = holding_drop [OF this]
    show ?thesis
      unfolding x using r inv
      by (simp add: wp_seqM wp_ret wp_sys_log)
         (rule wp_mono [OF drop], auto simp: master_ok_def settled_def wp_ret)
  qed
qed simp

lemma wp_settle:
  assumes m: "mutex_works e" and inv: "queue_inv (connqueue g)"
    and h: "holding B S X c (queue_contents (connqueue g)) w"
    and b: "r = CONNECTION_CONTINUE \<longrightarrow> buffer_ok c w"
  shows "wp (settle_connection e g (r, c)) (settled_ok B S X g c) no_fault w"
proof (cases r)
  case CONNECTION_CONTINUE
  then show ?thesis using wp_enqueue_or_drop [OF m inv h] b by (simp add: settle_connection_def)
next
  case CONNECTION_RESET
  then show ?thesis
    unfolding settle_connection_def
    by (simp add: wp_bindM) (rule wp_mono [OF holding_reset [OF h]],
        auto intro!: wp_mono [OF wp_enqueue_or_drop [OF m inv]] simp: settled_def)
next
  case CONNECTION_DONE
  then show ?thesis
    unfolding settle_connection_def using inv
    by (simp add: wp_seqM wp_ret) (rule wp_mono [OF holding_drop [OF h]], auto simp: master_ok_def settled_def wp_ret)
next
  case CONNECTION_ERROR
  have "holding B S X c (queue_contents (connqueue g)) (emit ev w)" for ev using h by simp
  note drop = holding_drop [OF this]
  show ?thesis
    unfolding settle_connection_def using inv CONNECTION_ERROR
    by (simp add: wp_seqM wp_ret wp_sys_log) (rule wp_mono [OF drop], auto simp: master_ok_def settled_def wp_ret)
qed

section \<open>Processing keeps the pool\<close>

abbreviation risk :: "env \<Rightarrow> femail \<Rightarrow> fault \<Rightarrow> bool" where
  "risk e g \<equiv> hazard e (get_mail_domain (maildomain g)) (sslctx g)"

lemma wp_run_handler:
  assumes "env_ok e" and "conn_ok c w" and "conn_ready c" and "finite (ssls w)"
  shows "wp (run_handler e g c) (handled_ok c w) (risk e g) w"
  using smtp_h.handler_contract [OF assms] smtps_h.handler_contract [OF assms]
    starttls_h.handler_contract [OF assms] http_h.handler_contract [OF assms]
    https_h.handler_contract [OF assms]
  by (cases "conn_type c") (simp_all add: run_handler_def)

text \<open>The oldest connection is taken out and settled; the others keep their places.\<close>

abbreviation processed_ok ::
    "int set \<Rightarrow> int set \<Rightarrow> nat set \<Rightarrow> femail \<Rightarrow> femail \<Rightarrow> world \<Rightarrow> bool" where
  "processed_ok B S X g \<equiv> \<lambda>g' w'. same_setup g g' \<and> master_ok B S X g' w' \<and>
     (case queue_contents (connqueue g) of
        [] \<Rightarrow> queue_contents (connqueue g') = []
      | c # L \<Rightarrow> settled c L (queue_contents (connqueue g')))"

lemma wp_process_connection:
  assumes e: "env_ok e" "mutex_works e" and ok: "master_ok B S X g w"
  shows "wp (process_connection e g) (processed_ok B S X g) (risk e g) w"
  unfolding process_connection_def wp_bindM [of "conn_queue_dequeue _ _ _"]
proof (rule wp_mono [OF wp_conn_queue_dequeue [OF e(2)]], goal_cases)
  case 1
  show ?case using ok by (simp add: master_ok_def)
next
  case (2 x w1)
  obtain r q c where x: "x = (r, q, c)" by (cases x)
  have q: "quiet w w1" using 2 x by simp
  have p: "pool B S X (queue_contents (connqueue g)) w1"
    using ok pool_quiet [OF q] by (simp add: master_ok_def)
  show ?case
  proof (cases "queue_contents (connqueue g)")
    case Nil
    then show ?thesis using 2 p ok by (simp add: x wp_ret master_ok_def)
  next
    case (Cons d L)
    then have d: "r = 0" "queue_inv q" "c = d" "queue_contents q = L" using 2 x by simp_all
    have h: "holding B S X d L w1" and okd: "conn_ok d w1" using pool_take p Cons by simp_all
    then have "conn_ready d" "finite (ssls w1)" by (simp_all add: holding_def)
    note run = wp_run_handler [OF e(1) okd this, of "g\<lparr>connqueue := q\<rparr>"]
    have "wp (settle_connection e (g\<lparr>connqueue := q\<rparr>) (r', c')) (processed_ok B S X g) (risk e g) w'"
      if "handler_post d w1 r' c' w'" for r' c' w'
    proof (rule wp_mono [OF wp_settle [OF e(2)]])
      have "settled c' L M = settled d L M" for M
        using that by (intro settled_cong) (simp_all add: handler_post_def)
      then show "processed_ok B S X g g' w''" if "settled_ok B S X (g\<lparr>connqueue := q\<rparr>) c' g' w''" for g' w''
        using that Cons d by (auto intro: same_setup_trans [OF same_setup_queue])
      show "queue_inv (connqueue (g\<lparr>connqueue := q\<rparr>))" using d by simp
      show "holding B S X c' (queue_contents (connqueue (g\<lparr>connqueue := q\<rparr>))) w'"
        using holding_handler [OF h that] d by simp
      show "r' = CONNECTION_CONTINUE \<longrightarrow> buffer_ok c' w'" using that by (simp add: handler_post_def)
    qed simp
    then show ?thesis
      unfolding x using d run by (auto simp: wp_bindM Let_def elim!: wp_mono)
  qed
qed simp

section \<open>Accepting keeps the pool\<close>

text \<open>
  What \<open>handle_connection\<close> needs of the stack bytes its local variable starts from: the pointer
  \<open>sslconn\<close> happens to be null.
\<close>

definition clean_stack :: "(world \<Rightarrow> Connection) \<Rightarrow> bool" where
  "clean_stack stack \<longleftrightarrow>
     (\<forall>w. sslconn (stack w) = None \<and> length (mailclientdomain (stack w)) = DOMAIN_MAX_SIZE)"

text \<open>A connection on a new socket, with no TLS object or a new one, and no message buffer.\<close>

lemma holding_new:
  assumes p: "pool B S X L w" and new: "clientsocket c \<notin> fds w" "0 \<le> clientsocket c"
    and c: "messagebuffer c = None" "conn_ready c" "length (mailclientdomain c) = DOMAIN_MAX_SIZE"
    and ssl: "set_option (sslconn c) \<inter> ssls w = {}"
    and w': "fds w' = insert (clientsocket c) (fds w)" "ssls w' = set_option (sslconn c) \<union> ssls w"
      "heap w' = heap w" "listening w' = listening w" "ssl_ctxs w' = ssl_ctxs w"
  shows "holding B S X c L w'"
proof -
  have "conn_ok d w' \<and> conn_ready d \<and> apart c d" if "d \<in> set L" for d
  proof -
    have d: "conn_ok d w" "conn_ready d" using p that by (simp_all add: pool_def)
    moreover have "old_block (messagebuffer d) w' = old_block (messagebuffer d) w"
      by (rule old_block_cong) (simp add: w')
    moreover have "apart c d"
      using d(1) new c(1) ssl by (auto simp: apart_def conn_ok_def conn_owns_def)
    ultimately show ?thesis
      by (auto simp: conn_ok_def conn_owns_def buffer_ok_def w')
  qed
  then show ?thesis
    using p new c ssl w' by (auto simp: holding_def pool_def sockets_of_def conn_owns_def)
qed

definition strat_fits :: "ConnectionType \<Rightarrow> SSL_STRATEGY \<Rightarrow> bool" where
  "strat_fits ty strat \<longleftrightarrow> (ty \<in> {SMTPS_CONNECTION, HTTPS_CONNECTION} \<longrightarrow> strat = IMPLICIT_TLS)"

text \<open>The fields that do not depend on TLS, as \<open>connection_init\<close> leaves them.\<close>

definition opened_state :: "ConnectionType \<Rightarrow> ConnectionState" where
  "opened_state ty = (if ty \<in> {HTTP_CONNECTION, HTTPS_CONNECTION} then HTTP_CONNECTION_OPENED
                      else MAIL_CONNECTION_OPENED)"

definition tick :: "env \<Rightarrow> world \<Rightarrow> world" where
  "tick e w = emit (Ev_time (env_time e w)) w"

abbreviation two_ticks :: "env \<Rightarrow> world \<Rightarrow> world" where
  "two_ticks e w \<equiv> tick e (tick e w)"

lemma wp_init_fields:
  "wp (connection_init e ctx c)
     (\<lambda>c' w'. clientsocket c' = clientsocket c \<and> conn_type c' = conn_type c \<and> live c' \<and>
        conn_state c' = opened_state (conn_type c) \<and>
        mailclientdomain c' = mailclientdomain c \<and> alloccount c' = 0 \<and> messagebufferend c' = 0 \<and>
        messagebuffer c' = None \<and> fds w' = fds w \<and> heap w' = heap w \<and> listening w' = listening w \<and>
        ssl_ctxs w' = ssl_ctxs w \<and>
        (if sslstrat c = IMPLICIT_TLS
         then sslconn c' \<noteq> None \<and> sslconn c' = env_ssl_new e (two_ticks e w) \<and>
              ssls w' = set_option (sslconn c') \<union> ssls w
         else sslconn c' = sslconn c \<and> ssls w' = ssls w))
     (\<lambda>f. f = Null_pointer \<and> sslstrat c = IMPLICIT_TLS \<and>
        (ctx = None \<or> env_ssl_new e (two_ticks e w) = None)) w"
  by (cases "sslstrat c"; cases "conn_type c")
     (auto simp: connection_init_def wp_rules Let_def opened_state_def tick_def split: option.splits)

lemma wp_connection_init:
  assumes p: "pool B S X L w" and new: "clientsocket c \<notin> fds w" "0 \<le> clientsocket c"
    and c: "sslconn c = None" "length (mailclientdomain c) = DOMAIN_MAX_SIZE"
    and fits: "strat_fits (conn_type c) (sslstrat c)" and e: "fresh_ssls e"
    and w1: "fds w1 = insert (clientsocket c) (fds w)" "ssls w1 = ssls w" "heap w1 = heap w"
      "listening w1 = listening w" "ssl_ctxs w1 = ssl_ctxs w"
    and tls: "tls_ready e ctx \<or> E Null_pointer"
  shows "wp (connection_init e ctx c) (\<lambda>c' w'. holding B S X c' L w' \<and> buffer_ok c' w') E w1"
proof (rule wp_mono [OF wp_init_fields], goal_cases)
  case (1 c' w')
  have "set_option (sslconn c') \<inter> ssls w = {}"
    using 1 c w1 by (auto simp: tick_def dest: fresh_ssls_new [OF e] split: if_splits)
  moreover have "conn_ready c'"
    using 1 fits by (auto simp: conn_ready_def strat_fits_def opened_state_def split: if_splits)
  moreover have "ssls w' = set_option (sslconn c') \<union> ssls w"
    using 1 c w1 by (auto split: if_splits)
  ultimately have "holding B S X c' L w'"
    using 1 new c w1 by (intro holding_new [OF p]) simp_all
  moreover have "buffer_ok c' w'" using 1 c by (simp add: buffer_ok_def old_block_def)
  ultimately show ?case by blast
next
  case (2 f)
  have "finite (ssls (two_ticks e w1))" using p w1 by (simp add: pool_def tick_def)
  then show ?case using 2 tls by (auto simp: tls_ready_def)
qed

lemma wp_handle_connection:
  assumes e: "fresh_ssls e" "mutex_works e" "clean_stack stack" and ok: "master_ok B S X g w"
    and new: "client = - 1 \<or> 0 \<le> client \<and> client \<notin> fds w" and fits: "strat_fits ty strat"
  shows "wp (handle_connection e stack g ty client strat) (\<lambda>(r, g'). kept B S X g g') (risk e g)
           (emit ev (open_fd client w))"
proof (cases "client = - 1")
  case True
  then show ?thesis
    using ok by (simp add: handle_connection_def get_accept_state_def wp_rules open_fd_def master_ok_def)
next
  case False
  let ?w1 = "emit ev (open_fd client w)"
  define c where "c = (stack ?w1)\<lparr>conn_type := ty, clientsocket := client, sslstrat := strat\<rparr>"
  have p: "pool B S X (queue_contents (connqueue g)) w" and inv: "queue_inv (connqueue g)"
    using ok by (simp_all add: master_ok_def)
  have "wp (connection_init e (sslctx g) c)
      (\<lambda>c' w'. holding B S X c' (queue_contents (connqueue g)) w' \<and> buffer_ok c' w') (risk e g) ?w1"
    by (rule wp_connection_init [where E = "risk e g", OF p])
       (use False new fits e in \<open>auto simp: c_def clean_stack_def open_fd_def hazard_def\<close>)
  then have "wp (connection_init e (sslctx g) c) (\<lambda>c'. wp (enqueue_or_drop e msg g c') (kept B S X g) (risk e g))
      (risk e g) ?w1" for msg
    by (rule wp_mono)
       (auto intro!: wp_mono [OF wp_enqueue_or_drop [OF e(2) inv]])
  then show ?thesis
    using False by (simp add: handle_connection_def get_accept_state_def wp_eta wp_gets c_def)
qed

lemma wp_accept_on:
  assumes e: "fresh_ssls e" "mutex_works e" "fresh_fds e" "clean_stack stack"
    and ok: "master_ok B S X g w" and fits: "strat_fits ty strat"
  shows "wp (accept_on e stack msg ty strat sock g) (kept B S X g) (risk e g) w"
proof -
  have new: "env_accept e w sock = - 1 \<or> 0 \<le> env_accept e w sock \<and> env_accept e w sock \<notin> fds w"
    using e(3) by (simp add: fresh_fds_def)
  show ?thesis
    unfolding accept_on_def
    by (simp add: wp_bindM wp_sys_accept)
       (rule wp_mono [OF wp_handle_connection [OF e(1,2,4) ok new fits]],
        auto simp: wp_rules master_ok_def)
qed

section \<open>A round of the loop\<close>

text \<open>What the loop relies on, beside the clients' good manners and TLS being available.\<close>

definition server_env :: "env \<Rightarrow> (world \<Rightarrow> Connection) \<Rightarrow> bool" where
  "server_env e stack \<longleftrightarrow> env_ok e \<and> fresh_fds e \<and> mutex_works e \<and> clean_stack stack"

lemma risk_same: "same_setup g g' \<Longrightarrow> risk e g' = risk e g"
  by (simp add: same_setup_simps)

text \<open>Programs that keep the invariant and the setup compose.\<close>

lemma wp_kept_bind:
  assumes "wp m (kept B S X g) (risk e g) w"
    and "\<And>g1 w1. same_setup g g1 \<Longrightarrow> master_ok B S X g1 w1 \<Longrightarrow> wp (f g1) (kept B S X g1) (risk e g1) w1"
  shows "wp (bindM m f) (kept B S X g) (risk e g) w"
  unfolding wp_bindM
proof (rule wp_mono [OF assms(1)])
  fix g1 w1 assume "same_setup g g1 \<and> master_ok B S X g1 w1"
  then show "wp (f g1) (kept B S X g) (risk e g) w1"
    using assms(2) [of g1 w1] by (auto simp: risk_same elim!: wp_mono intro: same_setup_trans)
qed

lemma wp_accept_service:
  assumes e: "server_env e stack" and ok: "master_ok B S X g w" and fits: "strat_fits ty strat"
  shows "wp (accept_service e stack tag ty strat ctx g) (kept B S X g) (risk e g) w"
proof -
  have on: "wp (accept_on e stack msg ty strat sock g1) (kept B S X g1) (risk e g1) w1"
    if "master_ok B S X g1 w1" for msg sock g1 w1
    using e that fits by (intro wp_accept_on) (simp_all add: server_env_def env_ok_def)
  show ?thesis
    using ok on by (auto simp: accept_service_def wp_ret intro!: wp_kept_bind)
qed

lemma wp_master_iteration:
  assumes e: "server_env e stack" and ok: "master_ok B S X g w"
  shows "wp (master_iteration e stack g) (kept B S X g) (risk e g) w"
proof -
  have proc: "wp (process_connection e g1) (kept B S X g1) (risk e g1) w1" if "master_ok B S X g1 w1" for g1 w1
    by (rule wp_mono [OF wp_process_connection]) (use e that in \<open>auto simp: server_env_def\<close>)
  show ?thesis
    unfolding master_iteration_def
    by (intro wp_kept_bind wp_accept_service [OF e] proc ok) (assumption | simp add: strat_fits_def)+
qed

text \<open>Polling for a stop request.\<close>

lemma wp_is_stopped:
  "wp (is_stopped e g)
     (\<lambda>(b, g') w'. quiet w w' \<and> b = (stop_signal g' \<noteq> 0) \<and>
        g' = g\<lparr>stop_signal := if env_signalled e w then 1 else stop_signal g\<rparr>) no_fault w"
  by (simp add: is_stopped_def request_stop_def wp_rules)

text \<open>\<open>configured g g'\<close>: the queue and the stop flag are all that changed.\<close>

definition configured :: "femail \<Rightarrow> femail \<Rightarrow> bool" where
  "configured g g' \<longleftrightarrow> g' = g\<lparr>connqueue := connqueue g', stop_signal := stop_signal g'\<rparr>"

lemma configured_refl [simp]: "configured g g"
  by (simp add: configured_def)

lemma configured_step:
  assumes "same_setup (g\<lparr>stop_signal := s\<rparr>) g'"
  shows "configured g g'"
  using assms by (cases g; cases g') (auto simp: configured_def same_setup_def)

lemma configured_trans: "configured g g1 \<Longrightarrow> configured g1 g2 \<Longrightarrow> configured g g2"
  by (cases g; cases g1; cases g2) (auto simp: configured_def)

lemma configured_stop [simp]: "configured g (g\<lparr>stop_signal := s\<rparr>)"
  by (rule configured_step) (rule same_setup_refl)

lemma configured_risk: "configured g g' \<Longrightarrow> risk e g' = risk e g"
  by (cases g; cases g') (auto simp: configured_def)

lemma master_ok_stop [simp]: "master_ok B S X (g\<lparr>stop_signal := s\<rparr>) w = master_ok B S X g w"
  by (simp add: master_ok_def)

lemma master_ok_quiet: "quiet w w' \<Longrightarrow> master_ok B S X g w' = master_ok B S X g w"
  by (simp add: master_ok_def pool_quiet)

lemma wp_master_loop:
  assumes e: "server_env e stack"
  shows "master_ok B S X g w \<Longrightarrow>
    wp (master_loop n e stack g)
      (\<lambda>res w'. \<forall>g'. res = Some g' \<longrightarrow> configured g g' \<and> stop_signal g' \<noteq> 0 \<and> master_ok B S X g' w')
      (risk e g) w"
proof (induction n arbitrary: g w)
  case 0
  then show ?case by (simp add: wp_def)
next
  case (Suc n)
  show ?case
    unfolding master_loop.simps wp_bindM [of "is_stopped _ _"]
  proof (rule wp_mono [OF wp_is_stopped], goal_cases)
    case (1 x w1)
    obtain b g1 where x: "x = (b, g1)" by (cases x)
    have ok1: "master_ok B S X g1 w1" and conf: "configured g g1"
      using 1 x Suc.prems master_ok_quiet [of w w1] by auto
    have b: "b \<longleftrightarrow> stop_signal g1 \<noteq> 0" using 1 x by auto
    have "wp (bindM (master_iteration e stack g1) (master_loop n e stack))
        (\<lambda>res w'. \<forall>g'. res = Some g' \<longrightarrow> configured g g' \<and> stop_signal g' \<noteq> 0 \<and> master_ok B S X g' w')
        (risk e g1) w1"
      unfolding wp_bindM
    proof (rule wp_mono [OF wp_master_iteration [OF e ok1]])
      fix g2 w2 assume g2: "same_setup g1 g2 \<and> master_ok B S X g2 w2"
      then have conf2: "configured g1 g2"
        using configured_step [of "stop_signal g1" g1 g2] by simp
      show "wp (master_loop n e stack g2)
          (\<lambda>res w'. \<forall>g'. res = Some g' \<longrightarrow> configured g g' \<and> stop_signal g' \<noteq> 0 \<and> master_ok B S X g' w')
          (risk e g1) w2"
        using Suc.IH [of g2 w2] g2 configured_risk [OF conf2]
        by (auto elim!: wp_mono intro: configured_trans [OF configured_trans [OF conf conf2]])
    qed
    then show ?case
      unfolding x using ok1 conf b configured_risk [OF conf] by (simp add: wp_ret)
  qed simp
qed

section \<open>Progress\<close>

lemma grows_enqueue_or_drop: "grows 0 (enqueue_or_drop e msg g c)"
  by (auto simp: enqueue_or_drop_def Let_def intro!: grows_intros grows_enqueue grows_life_cycle)

lemma grows_accept_service: "grows 0 (accept_service e stack tag ty strat ctx g)"
  by (auto simp: accept_service_def accept_on_def handle_connection_def get_accept_state_def Let_def
        intro!: grows_intros grows_enqueue_or_drop grows_life_cycle split: ACCEPT_STATE.splits)

lemma grows_process: "grows 1 (process_connection e g)"
  unfolding process_connection_def
  by (rule grows_bind_first [OF grows_dequeue])
     (auto simp: run_handler_def settle_connection_def Let_def
        intro!: grows_intros grows_smtp grows_tls_handlers grows_http grows_enqueue_or_drop grows_life_cycle
        split: ConnectionType.splits ConnectionHandlerResult.splits)

lemma grows_bind_second: "grows 0 m \<Longrightarrow> (\<And>x. grows k (f x)) \<Longrightarrow> grows k (bindM m f)"
  by (rule growsI, erule bindM_InrE) (fastforce simp: grows_def)

lemma grows_iteration: "grows 1 (master_iteration e stack g)"
  unfolding master_iteration_def
  by (intro grows_bind_second grows_accept_service grows_process)

text \<open>A stop request that has arrived once \<open>N\<close> calls have been made.\<close>

definition signal_by :: "env \<Rightarrow> nat \<Rightarrow> bool" where
  "signal_by e N \<longleftrightarrow> (\<forall>w. N \<le> length (trace w) \<longrightarrow> env_signalled e w)"

lemma grows_is_stopped: "grows 0 (is_stopped e g)"
  by (auto simp: is_stopped_def request_stop_def intro!: grows_intros)

lemma loop_ends:
  assumes e: "signal_by e N"
  shows "N \<le> length (trace w) + n \<Longrightarrow> master_loop (Suc n) e stack g w = Inr (res, w') \<Longrightarrow> res \<noteq> None"
proof (induction n arbitrary: g w)
  case 0
  then have "env_signalled e w" using e by (simp add: signal_by_def)
  then show ?case using 0 by (auto simp: is_stopped_def request_stop_def bindM_def seqM_def sys_log_def)
next
  case (Suc n)
  obtain b g1 w1 where p: "is_stopped e g w = Inr ((b, g1), w1)"
    using wp_is_stopped [of e g w] by (auto elim!: wp_no_faultE)
  have w1: "length (trace w) \<le> length (trace w1)"
    using growsD [OF grows_is_stopped p] by simp
  show ?case
  proof (cases b)
    case True
    then show ?thesis using Suc.prems p by (auto simp del: master_loop.simps simp: master_loop.simps(2) [of "Suc n"])
  next
    case False
    obtain g2 w2 where it: "master_iteration e stack g1 w1 = Inr (g2, w2)"
      and rest: "master_loop (Suc n) e stack g2 w2 = Inr (res, w')"
      using Suc.prems(2) p False unfolding master_loop.simps(2) [of "Suc n"]
      by (auto elim!: bindM_InrE simp del: master_loop.simps)
    have "length (trace w1) + 1 \<le> length (trace w2)" by (rule growsD [OF grows_iteration it])
    then show ?thesis using Suc.IH [OF _ rest] Suc.prems(1) w1 by simp
  qed
qed

lemma wp_start_master:
  assumes e: "server_env e stack" and p: "pool B S X [] w"
  shows "wp (start_master_service n e stack g)
    (\<lambda>res w'. \<forall>g'. res = Some g' \<longrightarrow> configured g g' \<and> stop_signal g' \<noteq> 0 \<and> master_ok B S X g' w')
    (risk e g) w"
proof -
  define w1 where "w1 = emit Ev_mutex_init (emit (Ev_log LOG_INFO ''Starting master service...'') w)"
  define q where "q = (connqueue g)\<lparr>q_count := 0, q_head := 0, q_tail := 0,
    q_data := replicate (unat CONNECTION_QUEUE_CAPACITY) zero_connection\<rparr>"
  have "queue_inv q" "queue_contents q = []"
    by (simp_all add: q_def queue_inv_def queue_contents_def CONNECTION_QUEUE_CAPACITY_def)
  then have ok: "master_ok B S X (g\<lparr>connqueue := q\<rparr>) w1" using p by (simp add: master_ok_def w1_def)
  have conf: "configured g (g\<lparr>connqueue := q\<rparr>)" by (simp add: configured_def)
  show ?thesis
    unfolding start_master_service_def conn_queue_init_def
    by (simp add: wp_seqM wp_bindM wp_sys_log wp_sys_mutex_init wp_ret q_def [symmetric] w1_def [symmetric])
       (rule wp_mono [OF wp_master_loop [OF e ok]],
        auto simp: wp_rules master_ok_def split: option.splits intro: configured_trans [OF conf])
qed

lemma master_returns:
  assumes e: "server_env e stack" and p: "pool B S X [] w" and sig: "signal_by e N"
    and good: "polite e (get_mail_domain (maildomain g))" "tls_ready e (sslctx g)"
  shows "\<exists>g' w'. start_master_service (Suc N) e stack g w = Inr (Some g', w') \<and>
           configured g g' \<and> stop_signal g' \<noteq> 0 \<and> master_ok B S X g' w'"
proof -
  have "wp (start_master_service (Suc N) e stack g)
      (\<lambda>res w'. \<forall>g'. res = Some g' \<longrightarrow> configured g g' \<and> stop_signal g' \<noteq> 0 \<and> master_ok B S X g' w')
      no_fault w"
    by (rule wp_mono [OF wp_start_master [OF e p]]) (use good in \<open>auto simp: hazard_def\<close>)
  then obtain res w' where r: "start_master_service (Suc N) e stack g w = Inr (res, w')"
    and post: "\<forall>g'. res = Some g' \<longrightarrow> configured g g' \<and> stop_signal g' \<noteq> 0 \<and> master_ok B S X g' w'"
    by (rule wp_no_faultE)
  have never: "master_loop (Suc N) e stack g1 w1 \<noteq> Inr (None, w2)" for g1 w1 w2
    using loop_ends [OF sig, of w1 N stack g1 None w2] by (auto simp del: master_loop.simps)
  have "res \<noteq> None"
    using r unfolding start_master_service_def conn_queue_init_def
    by (auto simp: seqM_def Let_def never simp del: master_loop.simps elim!: bindM_InrE
        split: option.splits)
  then show ?thesis using r post by auto
qed

section \<open>The service as a state machine\<close>

text \<open>
  \<open>serving e stack g0 w0 g w\<close>: the loop that started in \<open>(g0, w0)\<close> can be at its head in
  \<open>(g, w)\<close>. A state of the machine is sound when the invariant holds and the next round either
  completes or faults for a reason \<open>risk\<close> names.
\<close>

inductive serving :: "env \<Rightarrow> (world \<Rightarrow> Connection) \<Rightarrow> femail \<Rightarrow> world \<Rightarrow> femail \<Rightarrow> world \<Rightarrow> bool"
  for e stack g0 w0 where
  serving_start: "serving e stack g0 w0 g0 w0"
| serving_round: "serving e stack g0 w0 g w \<Longrightarrow> is_stopped e g w = Inr ((False, g1), w1) \<Longrightarrow>
    master_iteration e stack g1 w1 = Inr (g2, w2) \<Longrightarrow> serving e stack g0 w0 g2 w2"

inductive_cases serving_roundE: "serving e stack g0 w0 g w"

lemma is_stopped_keeps:
  assumes "is_stopped e g w = Inr ((b, g1), w1)"
  shows "quiet w w1 \<and> configured g g1 \<and> (master_ok B S X g w \<longrightarrow> master_ok B S X g1 w1)"
  using wp_Inr [OF wp_is_stopped assms] master_ok_quiet by auto

lemma serving_keeps:
  assumes "serving e stack g0 w0 g w" and e: "server_env e stack" and ok: "master_ok B S X g0 w0"
  shows "configured g0 g \<and> master_ok B S X g w"
  using assms(1)
proof induction
  case serving_start
  then show ?case using ok by simp
next
  case (serving_round g w g1 w1 g2 w2)
  have g1: "configured g g1" "master_ok B S X g1 w1"
    using is_stopped_keeps [OF serving_round.hyps(2)] serving_round.IH by auto
  have "same_setup g1 g2" "master_ok B S X g2 w2"
    using wp_Inr [OF wp_master_iteration [OF e g1(2)] serving_round.hyps(3)] by simp_all
  then show ?case
    using configured_trans serving_round.IH g1(1) configured_step [of "stop_signal g1" g1 g2]
    by (metis femail.surjective femail.update_convs(1))
qed

end
