(* ===== verification/Femail.thy ===== *)
theory Femail
  imports Master
begin

text \<open>
  The program, \<open>src/femail.c\<close>: \<open>main\<close> reads the mail domain, builds the TLS context, starts the
  five services, runs the master service until a stop is requested, and stops the services. The
  function is split at its own paragraphs. While the master thread runs, the main thread only
  waits for it, so running the service in place of \<open>pthread_join\<close> is what happens up to the
  order of two log lines.
\<close>

section \<open>Build constants and initial state\<close>

record build =
  APP_NAME :: string
  VERSION_RELEASE :: int
  VERSION_UPDATE :: int
  VERSION_PATCH :: int
  VERSION_TAG :: string
  DEBUG :: bool

definition NAMEVERSION_SIZE :: nat where "NAMEVERSION_SIZE = 1024"

text \<open>\<open>%d\<close> of \<open>printf\<close>.\<close>

fun digits :: "nat \<Rightarrow> string" where
  "digits n = (if n < 10 then [char_of (48 + n)] else digits (n div 10) @ [char_of (48 + n mod 10)])"

declare digits.simps [simp del]

definition format_d :: "int \<Rightarrow> string" where
  "format_d i = (if i < 0 then CHR ''-'' # digits (nat (- i)) else digits (nat i))"

definition nameversion :: "build \<Rightarrow> char list" where
  "nameversion b =
     snprintf_s (replicate NAMEVERSION_SIZE NUL) NAMEVERSION_SIZE
       (APP_NAME b @ '' Version '' @ format_d (VERSION_RELEASE b) @ ''.'' @
        format_d (VERSION_UPDATE b) @ ''.'' @ format_d (VERSION_PATCH b) @ VERSION_TAG b)"

definition zero_queue :: ConnectionQueue where
  "zero_queue = \<lparr>q_count = 0, q_head = 0, q_tail = 0,
     q_data = replicate (unat CONNECTION_QUEUE_CAPACITY) zero_connection\<rparr>"

definition zero_femail :: femail where
  "zero_femail = \<lparr>stop_signal = 0, smtpctx = zero_smtpcontext, smtpsctx = zero_netcontext,
     starttlsctx = zero_netcontext, httpctx = zero_netcontext, httpsctx = zero_netcontext,
     sslctx = None, maildomain = maildomain_zero, connqueue = zero_queue\<rparr>"

section \<open>TLS\<close>

text \<open>\<open>sprintf\<close> into one of the two 256-byte file name buffers.\<close>

definition format_path :: "string \<Rightarrow> string \<Rightarrow> string os" where
  "format_path domain extn =
     (let path = ''/usr/local/share/ca-certificates/'' @ domain @ extn in
      seqM (guardM (length path < 256) Out_of_bounds) (ret path))"

definition load_certificate :: "env \<Rightarrow> string \<Rightarrow> nat option \<Rightarrow> nat option os" where
  "load_certificate e certfile ctx =
     bindM (sys_use_cert e ctx certfile) (\<lambda>r.
     if r \<le> 0 then
       seqM (sys_ctx_free ctx)
       (seqM (sys_log LOG_ERR ''Failed to load the server certificate chain file'') (ret None))
     else ret ctx)"

definition load_private_key :: "env \<Rightarrow> string \<Rightarrow> nat option \<Rightarrow> nat option os" where
  "load_private_key e privfile ctx =
     bindM (sys_use_key e ctx privfile) (\<lambda>r.
     if r \<le> 0 then
       seqM (sys_ctx_free ctx)
       (seqM (sys_log LOG_ERR ''Failed to load the server private key file'') (ret None))
     else ret ctx)"

definition configure_sessions :: "nat option \<Rightarrow> unit os" where
  "configure_sessions ctx =
     whenM (ctx \<noteq> None)
       (seqM (sys_ctx_set ''session_id_context'' ctx)
       (seqM (sys_ctx_set ''session_cache_mode'' ctx)
       (seqM (sys_ctx_set ''sess_cache_size'' ctx)
       (seqM (sys_ctx_set ''timeout'' ctx)
             (sys_ctx_set ''verify'' ctx)))))"

definition setup_tls :: "env \<Rightarrow> femail \<Rightarrow> femail os" where
  "setup_tls e g =
     bindM (sys_ctx_new e) (\<lambda>ctx.
     seqM (sys_ctx_set ''options'' ctx)
     (bindM (format_path (get_mail_domain (maildomain g)) ''.crt'') (\<lambda>certfile.
      bindM (format_path (get_mail_domain (maildomain g)) ''.key'') (\<lambda>privfile.
      bindM (load_certificate e certfile ctx) (\<lambda>ctx.
      bindM (load_private_key e privfile ctx) (\<lambda>ctx.
      seqM (configure_sessions ctx) (ret (g\<lparr>sslctx := ctx\<rparr>))))))))"

section \<open>Services\<close>

definition report :: "int \<Rightarrow> loglevel \<Rightarrow> string \<Rightarrow> unit os" where
  "report r l msg = whenM (r \<noteq> 0) (sys_log l msg)"

definition start_services :: "env \<Rightarrow> femail \<Rightarrow> femail os" where
  "start_services e g =
     bindM (start_smtp e (sslctx g) (smtpctx g)) (\<lambda>(r, c). let g = g\<lparr>smtpctx := c\<rparr> in
     seqM (report r LOG_CRIT ''failed to start SMTP service.'')
     (bindM (start_smtps e (sslctx g) (smtpsctx g)) (\<lambda>(r, c). let g = g\<lparr>smtpsctx := c\<rparr> in
     seqM (report r LOG_CRIT ''failed to start SMTPS service.'')
     (bindM (start_starttls e (sslctx g) (starttlsctx g)) (\<lambda>(r, c). let g = g\<lparr>starttlsctx := c\<rparr> in
     seqM (report r LOG_CRIT ''failed to start STARTTLS service.'')
     (bindM (start_http e (httpctx g)) (\<lambda>(r, c). let g = g\<lparr>httpctx := c\<rparr> in
     seqM (report r LOG_ERR ''failed to start HTTP service.'')
     (bindM (start_https e (sslctx g) (httpsctx g)) (\<lambda>(r, c). let g = g\<lparr>httpsctx := c\<rparr> in
     seqM (report r LOG_ERR ''failed to start HTTPS service.'')
     (ret g))))))))))"

definition stop_services :: "femail \<Rightarrow> femail os" where
  "stop_services g =
     bindM (stop_smtp (smtpctx g)) (\<lambda>c. let g = g\<lparr>smtpctx := c\<rparr> in
     bindM (stop_smtps (smtpsctx g)) (\<lambda>c. let g = g\<lparr>smtpsctx := c\<rparr> in
     bindM (stop_starttls (starttlsctx g)) (\<lambda>c. let g = g\<lparr>starttlsctx := c\<rparr> in
     bindM (stop_http (httpctx g)) (\<lambda>c. let g = g\<lparr>httpctx := c\<rparr> in
     bindM (stop_https (httpsctx g)) (\<lambda>c. ret (g\<lparr>httpsctx := c\<rparr>))))))"

section \<open>Main\<close>

text \<open>
  The result is \<open>Some\<close> of the exit status and the final globals, or \<open>None\<close> when the master
  service is still running after \<open>n\<close> polls.
\<close>

definition serve :: "nat \<Rightarrow> env \<Rightarrow> (world \<Rightarrow> Connection) \<Rightarrow> femail \<Rightarrow> (int \<times> femail) option os" where
  "serve n e stack g =
     bindM (sys_thread_create e) (\<lambda>r.
     if r \<noteq> 0 then seqM (sys_log LOG_ERR ''Unable to start master thread.'') (throw Abort)
     else
       seqM (sys_log LOG_INFO ''%s is currently running and operational.'')
       (bindM (start_master_service n e stack g) (\<lambda>res.
        case res of
          None \<Rightarrow> ret None
        | Some g \<Rightarrow>
            seqM (sys_log LOG_INFO ''Stopping Femail...'')
            (bindM (stop_services g) (\<lambda>g.
             seqM (sys_ctx_free (sslctx g))
             (seqM (sys_log LOG_INFO ''Successfully stopped Femail.'')
             (ret (Some (0, g)))))))))"

definition main_services ::
    "nat \<Rightarrow> env \<Rightarrow> (world \<Rightarrow> Connection) \<Rightarrow> femail \<Rightarrow> (int \<times> femail) option os" where
  "main_services n e stack g =
     bindM (start_services e g) (\<lambda>g.
     seqM (check_communications (smtpctx g) (smtpsctx g) (starttlsctx g))
     (seqM (sys_signal ''SIGINT'')
     (seqM (sys_signal ''SIGTERM'')
     (serve n e stack g))))"

definition main_domain ::
    "nat \<Rightarrow> env \<Rightarrow> (world \<Rightarrow> Connection) \<Rightarrow> femail \<Rightarrow> (int \<times> femail) option os" where
  "main_domain n e stack g =
     bindM (dns_init e (maildomain g)) (\<lambda>(r, d).
     let g = g\<lparr>maildomain := d\<rparr> in
     if r \<noteq> 0 then
       seqM (sys_log LOG_ERR ''No MAIL_DOMAIN environment variable provided.'') (ret (Some (1, g)))
     else
       seqM (sys_log LOG_INFO (''Running as '' @ get_mail_domain d @ ''.''))
       (bindM (setup_tls e g) (main_services n e stack)))"

definition femail_main ::
    "nat \<Rightarrow> env \<Rightarrow> (world \<Rightarrow> Connection) \<Rightarrow> build \<Rightarrow> (int \<times> femail) option os" where
  "femail_main n e stack b =
     seqM (sys_log LOG_INFO ''Starting Femail...'')
     (seqM (whenM (DEBUG b) (sys_log LOG_WARNING ''Running in debugging mode.''))
     (main_domain n e stack zero_femail))"

section \<open>The TLS context\<close>

lemma wp_format_path:
  "wp (format_path d extn) Q E w =
     (if 33 + length d + length extn < 256
      then Q (''/usr/local/share/ca-certificates/'' @ d @ extn) w else E Out_of_bounds)"
  by (simp add: format_path_def wp_rules)

text \<open>Both files load: the context is there and alive.\<close>

definition tls_files_ok :: "env \<Rightarrow> bool" where
  "tls_files_ok e \<longleftrightarrow> (\<forall>w. env_ctx_new e w \<noteq> None) \<and> (\<forall>w f. env_use_cert e w f > 0) \<and> (\<forall>w f. env_use_key e w f > 0)"

lemma wp_setup_tls:
  assumes "tls_files_ok e"
  shows "wp (setup_tls e g)
    (\<lambda>g' w'. g' = g\<lparr>sslctx := sslctx g'\<rparr> \<and> sslctx g' \<noteq> None \<and>
        ssl_ctxs w' = set_option (sslctx g') \<union> ssl_ctxs w \<and> fds w' = fds w \<and> listening w' = listening w \<and> ssls w' = ssls w \<and> heap w' = heap w)
    (\<lambda>f. f = Out_of_bounds \<and> length (get_mail_domain (maildomain g)) > 218) w"
proof -
  obtain x where x: "env_ctx_new e w = Some x" using assms by (auto simp: tls_files_ok_def dest: spec [of _ w])
  have pos: "env_use_cert e w f > 0" "env_use_key e w f > 0" for w f
    using assms by (auto simp: tls_files_ok_def)
  have "\<not> env_use_cert e w f \<le> 0" "\<not> env_use_key e w f \<le> 0" for w f
    using pos [of w f] by simp_all
  then show ?thesis
    by (simp add: setup_tls_def load_certificate_def load_private_key_def configure_sessions_def
          wp_rules wp_format_path x)
qed

section \<open>Starting and stopping all services\<close>

definition socks :: "'c netcontext_scheme \<Rightarrow> int set" where
  "socks c = {socket4 c, socket6 c} - {- 1}"

definition listeners :: "femail \<Rightarrow> int set" where
  "listeners g = socks (smtpctx g) \<union> socks (smtpsctx g) \<union> socks (starttlsctx g) \<union>
     socks (httpctx g) \<union> socks (httpsctx g)"

text \<open>\<open>adds D w w'\<close>: exactly the descriptors \<open>D\<close> are new, and they listen.\<close>

definition adds :: "int set \<Rightarrow> world \<Rightarrow> world \<Rightarrow> bool" where
  "adds D w w' \<longleftrightarrow>
     fds w' = fds w \<union> D \<and> D \<inter> fds w = {} \<and> D \<subseteq> listening w' \<and> same_others {} w w'"

lemma service_up_adds:
  "service_up port r (active c) (socket4 c) (socket6 c) w w' \<Longrightarrow> adds (socks c) w w'"
  by (auto simp: service_up_def adds_def socks_def)

lemma adds_trans:
  assumes "adds D w w1" and "adds D' w1 w2"
  shows "adds (D \<union> D') w w2"
  using assms unfolding adds_def same_others_def by auto

lemma adds_emit [simp]: "adds D w (emit ev w') = adds D w w'"
  by (simp add: adds_def same_others_def)

lemma adds_refl: "adds {} w w"
  by (simp add: adds_def same_others_def)

lemma wp_started:
  assumes up: "wp m (\<lambda>(r, c) w'. service_up port r (active c) (socket4 c) (socket6 c) w1 w') no_fault w1"
    and before: "adds D w w1"
    and next_: "\<And>c w'. adds (D \<union> socks c) w w' \<Longrightarrow> wp (n c) Q no_fault w'"
  shows "wp (bindM m (\<lambda>(r, c). seqM (report r l msg) (n c))) Q no_fault w1"
  unfolding wp_bindM
proof (rule wp_mono [OF up], goal_cases)
  case (1 x w2)
  obtain r c where x: "x = (r, c)" by (cases x)
  have "adds (socks c) w1 w2" using 1 x service_up_adds by auto
  then have "adds (D \<union> socks c) w w2" by (rule adds_trans [OF before])
  then show ?case using x next_ by (simp add: report_def wp_seqM wp_whenM wp_sys_log)
qed simp

lemma wp_start_services:
  assumes e: "fresh_fds e" and tls: "sslctx g \<noteq> None"
    and off: "\<not> active (smtpctx g)" "\<not> active (smtpsctx g)" "\<not> active (starttlsctx g)"
      "\<not> active (httpctx g)" "\<not> active (httpsctx g)"
  shows "wp (start_services e g)
    (\<lambda>g' w'. adds (listeners g') w w' \<and> sslctx g' = sslctx g \<and> maildomain g' = maildomain g) no_fault w"
proof -
  have x: "True \<longrightarrow> sslctx g \<noteq> None" "False \<longrightarrow> sslctx g \<noteq> None" using tls by simp_all
  show ?thesis
    unfolding start_services_def Let_def
    apply simp
    apply (rule wp_started [OF smtp_svc.start_inactive [OF e off(1) x(2)] adds_refl])
    apply simp
    apply (erule wp_started [OF smtps_svc.start_inactive [OF e off(2) x(1)]])
    apply simp
    apply (erule wp_started [OF starttls_svc.start_inactive [OF e off(3) x(1)]])
    apply simp
    apply (erule wp_started [OF http_svc.start_inactive [OF e off(4) x(2)]])
    apply simp
    apply (erule wp_started [OF https_svc.start_inactive [OF e off(5) x(1)]])
    apply (simp add: wp_ret listeners_def)
    done
qed

text \<open>\<open>removes D w w'\<close>: exactly the descriptors \<open>D\<close> were closed.\<close>

definition removes :: "int set \<Rightarrow> world \<Rightarrow> world \<Rightarrow> bool" where
  "removes D w w' \<longleftrightarrow> fds w' = fds w - D \<and> ssl_ctxs w' = ssl_ctxs w"

lemma removes_refl: "removes {} w w"
  by (simp add: removes_def)

lemma wp_stopped:
  assumes down: "wp m (\<lambda>c w'. \<not> active c \<and> socket4 c = - 1 \<and> socket6 c = - 1 \<and>
      service_down (socket4 c0) (socket6 c0) w1 w') no_fault w1"
    and before: "removes D w w1"
    and next_: "\<And>c w'. removes (D \<union> socks c0) w w' \<Longrightarrow> \<not> active c \<Longrightarrow> socks c = {} \<Longrightarrow>
      wp (n c) Q no_fault w'"
  shows "wp (bindM m n) Q no_fault w1"
  unfolding wp_bindM
proof (rule wp_mono [OF down], goal_cases)
  case (1 c w2)
  have "removes (D \<union> socks c0) w w2"
    using before 1 by (auto simp: removes_def service_down_def same_others_def socks_def)
  then show ?case using next_ 1 by (simp add: socks_def)
qed simp

lemma wp_stop_services:
  "wp (stop_services g)
    (\<lambda>g' w'. removes (listeners g) w w' \<and> listeners g' = {} \<and> sslctx g' = sslctx g \<and>
       connqueue g' = connqueue g \<and> stop_signal g' = stop_signal g) no_fault w"
  unfolding stop_services_def Let_def
  apply simp
  apply (rule wp_stopped [OF smtp_svc.stop_closes removes_refl])
  apply simp
  apply (erule wp_stopped [OF smtps_svc.stop_closes])
  apply simp
  apply (erule wp_stopped [OF starttls_svc.stop_closes])
  apply simp
  apply (erule wp_stopped [OF http_svc.stop_closes])
  apply simp
  apply (erule wp_stopped [OF https_svc.stop_closes])
  apply (simp add: wp_ret listeners_def)
  done

section \<open>A whole run\<close>

text \<open>
  A world in which the server can run: the domain is set and short enough for the file names,
  certificate and key load, the master thread starts, the clients are polite, and a stop request
  arrives by the time \<open>N\<close> calls have been made.
\<close>

definition runnable :: "env \<Rightarrow> (world \<Rightarrow> Connection) \<Rightarrow> string \<Rightarrow> nat \<Rightarrow> bool" where
  "runnable e stack d N \<longleftrightarrow>
     server_env e stack \<and> tls_files_ok e \<and> tls_ready e (Some 0) \<and> polite e d \<and> signal_by e N \<and>
     (\<forall>w. env_getenv e w ''MAIL_DOMAIN'' = Some d) \<and> NUL \<notin> set d \<and> 0 < length d \<and> length d \<le> 218 \<and>
     (\<forall>w. env_thread_create e w = 0)"

text \<open>Exit status 0: every listening socket is closed again, and what is left open are the sockets
  of the connections that were still queued.\<close>

definition stopped_cleanly :: "int set \<Rightarrow> nat set \<Rightarrow> (int \<times> femail) option \<Rightarrow> world \<Rightarrow> bool" where
  "stopped_cleanly F X res w' \<longleftrightarrow>
     (\<exists>g'. res = Some (0, g') \<and> stop_signal g' \<noteq> 0 \<and> listeners g' = {} \<and>
       fds w' = F \<union> sockets_of (queue_contents (connqueue g')) \<and> ssl_ctxs w' \<subseteq> X)"

lemma wp_serve:
  assumes e: "server_env e stack" "signal_by e N" "polite e (get_mail_domain (maildomain g))"
      "tls_ready e (sslctx g)" "\<forall>w. env_thread_create e w = 0"
    and w: "finite (ssls w)" "listeners g \<subseteq> fds w" "listeners g \<subseteq> listening w"
      "set_option (sslctx g) \<subseteq> ssl_ctxs w"
  shows "wp (serve (Suc N) e stack g)
    (stopped_cleanly (fds w - listeners g) (ssl_ctxs w - set_option (sslctx g))) no_fault w"
proof -
  let ?post = "stopped_cleanly (fds w - listeners g) (ssl_ctxs w - set_option (sslctx g))"
  define w1 where "w1 = emit (Ev_log LOG_INFO ''%s is currently running and operational.'')
    (emit (Ev_thread_create 0) w)"
  have "pool (fds w) (listeners g) (ssl_ctxs w) [] w1"
    using w by (simp add: pool_def w1_def sockets_of_def)
  then obtain g1 w2 where run: "start_master_service (Suc N) e stack g w1 = Inr (Some g1, w2)"
    and conf: "configured g g1" and stop: "stop_signal g1 \<noteq> 0"
    and ok: "master_ok (fds w) (listeners g) (ssl_ctxs w) g1 w2"
    using master_returns [OF e(1) _ e(2-4)] by blast
  have g1: "listeners g1 = listeners g" "sslctx g1 = sslctx g"
    using conf by (cases g; cases g1; simp add: configured_def listeners_def)+
  have w2: "fds w2 = fds w \<union> sockets_of (queue_contents (connqueue g1))" "ssl_ctxs w2 = ssl_ctxs w"
    and apart: "fds w \<inter> sockets_of (queue_contents (connqueue g1)) = {}"
    using ok by (simp_all add: master_ok_def pool_def)
  have "wp (bindM (stop_services g1) (\<lambda>g. seqM (sys_ctx_free (sslctx g))
         (seqM (sys_log LOG_INFO ''Successfully stopped Femail.'') (ret (Some (0, g)))))) ?post no_fault
       (emit (Ev_log LOG_INFO ''Stopping Femail...'') w2)"
    unfolding wp_bindM
    by (rule wp_mono [OF wp_stop_services])
       (use g1 w2 w stop apart in \<open>auto simp: removes_def wp_rules stopped_cleanly_def split: option.splits\<close>)
  then show ?thesis
    using e(5) unfolding serve_def
    by (simp add: wp_bindM [of "sys_thread_create e"] wp_bindM [of "start_master_service _ _ _ _"]
          wp_seqM [of "sys_log _ _"] wp_sys_thread_create wp_sys_log w1_def [symmetric] wp_run [where m = "start_master_service (Suc N) e stack g" and w = w1, OF run])
qed

lemma wp_run_services:
  assumes r: "runnable e stack d N" and w: "finite (ssls w)"
    and g: "get_mail_domain (maildomain g) = d" "sslctx g \<noteq> None" "set_option (sslctx g) \<subseteq> ssl_ctxs w"
    and off: "\<not> active (smtpctx g)" "\<not> active (smtpsctx g)" "\<not> active (starttlsctx g)"
      "\<not> active (httpctx g)" "\<not> active (httpsctx g)"
  shows "wp (main_services (Suc N) e stack g)
      (stopped_cleanly (fds w) (ssl_ctxs w - set_option (sslctx g))) (\<lambda>f. f = Abort) w"
  unfolding main_services_def wp_bindM
proof (rule wp_mono [OF wp_start_services [OF _ g(2) off]], goal_cases)
  case 1
  show ?case using r by (simp add: runnable_def server_env_def)
next
  case (2 g' w')
  let ?w = "emit (Ev_signal_handler ''SIGTERM'') (emit (Ev_signal_handler ''SIGINT'') w')"
  have add: "adds (listeners g') w w'" and g': "sslctx g' = sslctx g" "maildomain g' = maildomain g"
    using 2 by simp_all
  have tls: "tls_ready e (sslctx g)" using r g(2) by (auto simp: runnable_def tls_ready_def)
  have same: "ssls w' = ssls w" "ssl_ctxs w' = ssl_ctxs w" "fds w' - listeners g' = fds w"
    "listeners g' \<subseteq> fds w'" "listeners g' \<subseteq> listening w'"
    using add by (auto simp: adds_def same_others_def)
  have "wp (serve (Suc N) e stack g')
      (stopped_cleanly (fds ?w - listeners g') (ssl_ctxs ?w - set_option (sslctx g'))) no_fault ?w"
    by (rule wp_serve)
       (use r w g g' same tls in \<open>auto simp: runnable_def\<close>)
  then have "wp (serve (Suc N) e stack g')
      (stopped_cleanly (fds w) (ssl_ctxs w - set_option (sslctx g))) (\<lambda>f. f = Abort) ?w"
    by (rule wp_mono) (use same g' in simp_all)
  then show ?case by (simp add: check_communications_def wp_seqM wp_rules)
qed simp

lemma stopped_cleanly_mono: "stopped_cleanly F X res w \<Longrightarrow> X \<subseteq> Y \<Longrightarrow> stopped_cleanly F Y res w"
  by (auto simp: stopped_cleanly_def)

lemma wp_after_dns:
  assumes r: "runnable e stack d N" and w: "finite (ssls w)" and dom: "get_mail_domain m = d"
  shows "wp (bindM (setup_tls e (zero_femail\<lparr>maildomain := m\<rparr>)) (main_services (Suc N) e stack))
      (stopped_cleanly (fds w) (ssl_ctxs w)) (\<lambda>f. f = Abort) w"
  unfolding wp_bindM [of "setup_tls _ _"]
proof (rule wp_mono [OF wp_setup_tls], goal_cases)
  case 1
  show ?case using r by (simp add: runnable_def)
next
  case (2 g w')
  then have g: "g = zero_femail\<lparr>maildomain := m, sslctx := sslctx g\<rparr>"
    and ctx: "sslctx g \<noteq> None" "set_option (sslctx g) \<subseteq> ssl_ctxs w'"
    and w': "ssl_ctxs w' - set_option (sslctx g) \<subseteq> ssl_ctxs w" "fds w' = fds w" "finite (ssls w')"
    using w by auto
  have off: "\<not> active (smtpctx g)" "\<not> active (smtpsctx g)" "\<not> active (starttlsctx g)"
      "\<not> active (httpctx g)" "\<not> active (httpsctx g)" "get_mail_domain (maildomain g) = d"
    using dom by (subst g, simp add: zero_femail_def zero_smtpcontext_def zero_netcontext_def)+
  show ?case
    by (rule wp_mono [OF wp_run_services [OF r w'(3) off(6) ctx off(1-5)]])
       (use w' stopped_cleanly_mono in auto)
next
  case (3 f)
  then show ?case using r dom by (auto simp: runnable_def)
qed

lemma wp_main_domain:
  assumes r: "runnable e stack d N" and w: "finite (ssls w)"
  shows "wp (main_domain (Suc N) e stack zero_femail) (stopped_cleanly (fds w) (ssl_ctxs w)) (\<lambda>f. f = Abort) w"
  unfolding main_domain_def wp_bindM [of "dns_init _ _"]
proof (rule wp_mono [OF wp_dns_init], goal_cases)
  case 1
  show ?case by (simp add: zero_femail_def domain_array_zero)
next
  case (2 xm w')
  obtain x m where xm: "xm = (x, m)" by (cases xm)
  have "NUL \<notin> set d" using r by (simp add: runnable_def)
  then have "cstr d = d" using cstr_append [of d "[]"] by (simp add: cstr_def)
  then have m: "x = 0" "get_mail_domain m = d" "quiet w w'"
    using 2 r by (auto simp: xm runnable_def strlen_def)
  have "finite (ssls (emit ev w'))" for ev using w quiet_simps [OF m(3)] by simp
  note rest = wp_after_dns [OF r this m(2)]
  show ?case
    using rest quiet_simps [OF m(3)] m(1) by (simp add: xm wp_seqM [of "sys_log _ _"] wp_sys_log)
qed simp

lemma wp_femail_main:
  assumes r: "runnable e stack d N" and w: "finite (ssls w)"
  shows "wp (femail_main (Suc N) e stack b) (stopped_cleanly (fds w) (ssl_ctxs w)) (\<lambda>f. f = Abort) w"
proof -
  have "wp (main_domain (Suc N) e stack zero_femail) (stopped_cleanly (fds w) (ssl_ctxs w)) (\<lambda>f. f = Abort) w1"
    if "quiet w w1" for w1
    using wp_main_domain [OF r, of w1] w quiet_simps [OF that] by simp
  then show ?thesis by (simp add: femail_main_def wp_seqM wp_whenM wp_sys_log)
qed

text \<open>Without a usable \<open>MAIL_DOMAIN\<close> the program exits with status 1 and has opened nothing.\<close>

lemma wp_no_domain:
  assumes "\<forall>w. \<not> valid_domain (env_getenv e w ''MAIL_DOMAIN'')"
  shows "wp (femail_main n e stack b) (\<lambda>res w'. \<exists>g. res = Some (1, g) \<and> quiet w w') no_fault w"
proof -
  have "wp (main_domain n e stack zero_femail) (\<lambda>res w'. \<exists>g. res = Some (1, g) \<and> quiet w w') no_fault w1"
    if "quiet w w1" for w1
    unfolding main_domain_def wp_bindM [of "dns_init _ _"]
  proof (rule wp_mono [OF wp_dns_init], goal_cases)
    case 1
    show ?case by (simp add: zero_femail_def domain_array_zero)
  next
    case (2 xm w')
    have "\<not> valid_domain (env_getenv e w1 ''MAIL_DOMAIN'')" using assms by blast
    then have "fst xm = 1"
      using 2 by (auto simp: valid_domain_def split: option.splits if_splits)
    moreover have "quiet w w'" using 2 quiet_trans [OF that, of w'] by (auto split: prod.splits)
    ultimately show ?case by (simp add: wp_rules split_beta)
  qed simp
  then show ?thesis by (simp add: femail_main_def wp_seqM wp_whenM wp_sys_log)
qed

end
