(* ===== verification/Demo.thy ===== *)
theory Demo
  imports Femail
begin

text \<open>
  A concrete world for the examples: descriptors 3 to 12 are handed out in order, the heap has
  one block, TLS objects are numbered, clients say NOOP, and a stop request arrives once 40 calls
  have been made. It meets every condition the development puts on an \<open>env\<close>.
\<close>

definition demo_fd :: "world \<Rightarrow> int" where
  "demo_fd w = (if 3 \<notin> fds w then 3 else if 4 \<notin> fds w then 4 else if 5 \<notin> fds w then 5
     else if 6 \<notin> fds w then 6 else if 7 \<notin> fds w then 7 else if 8 \<notin> fds w then 8
     else if 9 \<notin> fds w then 9 else if 10 \<notin> fds w then 10 else if 11 \<notin> fds w then 11
     else if 12 \<notin> fds w then 12 else - 1)"

definition demo_ssl :: "world \<Rightarrow> nat option" where
  "demo_ssl w = (if finite (ssls w) then Some (Suc (Max (insert 0 (ssls w)))) else None)"

definition demo_env :: env where
  "demo_env = \<lparr>env_socket = (\<lambda>w _. demo_fd w), env_setsockopt = (\<lambda>_ _ _. 0),
     env_bind = (\<lambda>_ _ _ _. 0), env_listen = (\<lambda>_ _. 0), env_accept = (\<lambda>w _. demo_fd w),
     env_read = (\<lambda>_ _. Some (''NOOP'' @ CRLF)), env_would_block = (\<lambda>_. False),
     env_ssl_new = demo_ssl, env_ssl_accept = (\<lambda>_ _. 1), env_ssl_want_io = (\<lambda>_ _. False),
     env_ssl_read = (\<lambda>_ _. Inl (- 1)),
     env_realloc = (\<lambda>w p _. if heap w 0 = None \<or> p = Some 0 then Some 0 else None),
     env_junk = (\<lambda>_ _. CHR ''?''), env_time = (\<lambda>_. 1000), env_lock = (\<lambda>_. 0),
     env_unlock = (\<lambda>_. 0), env_getenv = (\<lambda>_ _. Some ''mail.example''), env_ctx_new = (\<lambda>_. Some 0),
     env_use_cert = (\<lambda>_ _. 1), env_use_key = (\<lambda>_ _. 1), env_use_key_null = (\<lambda>_ _. Some 0),
     env_thread_create = (\<lambda>_. 0), env_signalled = (\<lambda>w. 40 \<le> length (trace w))\<rparr>"

definition demo_world :: world where
  "demo_world = \<lparr>fds = {0, 1, 2}, bound_to = Map.empty, listening = {}, ssls = {}, ssl_ctxs = {},
     heap = Map.empty, trace = []\<rparr>"

definition demo_stack :: "world \<Rightarrow> Connection" where
  "demo_stack w = zero_connection"

definition demo_build :: build where
  "demo_build = \<lparr>APP_NAME = ''Femail'', VERSION_RELEASE = 0, VERSION_UPDATE = 0, VERSION_PATCH = 0,
     VERSION_TAG = ''-rc'', DEBUG = False\<rparr>"

text \<open>The connection on descriptor 2 that the examples use, greeted, without TLS.\<close>

definition demo_conn :: Connection where
  "demo_conn = zero_connection\<lparr>live := True, clientsocket := 2, conn_state := MAIL_CONNECTION_GREETED\<rparr>"

lemma demo_conn_ok: "conn_ok demo_conn demo_world" "conn_ready demo_conn"
  by (simp_all add: demo_conn_def zero_connection_def conn_ok_def conn_owns_def buffer_ok_def
        conn_ready_def old_block_def demo_world_def)

lemma demo_world_sel [simp]:
  "fds demo_world = {0, 1, 2}" "bound_to demo_world = Map.empty" "listening demo_world = {}"
  "ssls demo_world = {}" "ssl_ctxs demo_world = {}" "heap demo_world = Map.empty" "trace demo_world = []"
  by (simp_all add: demo_world_def)

lemma demo_fd_fresh: "demo_fd w = - 1 \<or> 0 \<le> demo_fd w \<and> demo_fd w \<notin> fds w"
  by (simp add: demo_fd_def)

lemma demo_fresh_fds: "fresh_fds demo_env"
  using demo_fd_fresh by (simp add: fresh_fds_def demo_env_def)

lemma demo_ssl_fresh: "demo_ssl w = Some s \<Longrightarrow> s \<notin> ssls w"
  using Max_ge [of "insert 0 (ssls w)" s]
  by (cases "finite (ssls w)") (fastforce simp: demo_ssl_def)+

lemma demo_env_ok: "env_ok demo_env"
  using demo_ssl_fresh
  by (auto simp: env_ok_def fresh_heap_def fresh_ssls_def ssl_read_minus1_def demo_env_def split: if_splits)

lemma demo_mutex: "mutex_works demo_env"
  by (simp add: mutex_works_def demo_env_def)

lemma demo_clean: "clean_stack demo_stack"
  by (simp add: clean_stack_def demo_stack_def zero_connection_def)

lemma demo_server: "server_env demo_env demo_stack"
  by (simp add: server_env_def demo_env_ok demo_fresh_fds demo_mutex demo_clean)

lemma demo_tls: "tls_ready demo_env (Some x)"
  by (simp add: tls_ready_def demo_env_def demo_ssl_def)

lemma demo_polite: "length d \<le> 198 \<Longrightarrow> polite demo_env d"
  by (simp add: polite_def demo_env_def hello_ok_def hello_word_def read_buffer_def word_of_def
        SMALL_BUFFER_SIZE_def ends_word_def)

lemma demo_files: "tls_files_ok demo_env"
  by (simp add: tls_files_ok_def demo_env_def)

lemma demo_signal: "signal_by demo_env 40"
  by (simp add: signal_by_def demo_env_def)

lemma demo_runnable: "runnable demo_env demo_stack ''mail.example'' 40"
  by (simp add: runnable_def demo_server demo_files demo_tls demo_polite demo_signal)
     (simp add: demo_env_def)

lemma demo_queue: "queue_inv zero_queue" "queue_contents zero_queue = []"
  by (simp_all add: zero_queue_def queue_inv_def queue_contents_def CONNECTION_QUEUE_CAPACITY_def)

end
