(* ===== verification/Bh_Leb128.thy ===== *)
theory Bh_Leb128
  imports Prelude
begin

unbundle bit_operations_syntax

text \<open>
  The LEB128 reader of the WebAssembly runtime,
  \<open>wamr/core/shared/utils/bh_leb128.c\<close>. The buffer is the list of the bytes from \<open>buf\<close> to
  \<open>buf_end\<close>; for a buffer inside the address space the wrap-around test on the pointer never
  fires, and the second test is that a byte is left. \<open>result\<close> is a 64-bit word, and every shift
  is written as the code has it.

  \<open>uleb\<close> and \<open>sleb\<close> are the encodings of the WebAssembly specification; the reader is shown to
  invert both.
\<close>

section \<open>The reader\<close>

datatype bh_leb_read_status =
    BH_LEB_READ_SUCCESS u64 nat      \<comment> \<open>the value and the offset behind it\<close>
  | BH_LEB_READ_TOO_LONG
  | BH_LEB_READ_OVERFLOW
  | BH_LEB_READ_UNEXPECTED_END

text \<open>The loop: the last byte, the result, the shift and the offset, or an error.\<close>

fun leb_loop ::
    "u8 list \<Rightarrow> nat \<Rightarrow> u64 \<Rightarrow> nat \<Rightarrow> nat \<Rightarrow> bh_leb_read_status + (u8 \<times> u64 \<times> nat \<times> nat)" where
  "leb_loop buf maxbits result shift bcnt =
     (if bcnt + 1 > (maxbits + 6) div 7 then Inl BH_LEB_READ_TOO_LONG
      else case buf of
        [] \<Rightarrow> Inl BH_LEB_READ_UNEXPECTED_END
      | byte # buf' \<Rightarrow>
          let result' = result OR push_bit shift (ucast byte AND 0x7f) in
          if byte AND 0x80 = 0 then Inr (byte, result', shift + 7, bcnt + 1)
          else leb_loop buf' maxbits result' (shift + 7) (bcnt + 1))"

declare leb_loop.simps [simp del]

definition sign_extend :: "u8 \<Rightarrow> u64 \<Rightarrow> nat \<Rightarrow> u64" where
  "sign_extend byte result shift =
     (if byte AND 0x40 \<noteq> 0 then result OR push_bit shift (NOT 0) else result)"

definition bh_leb_read :: "u8 list \<Rightarrow> nat \<Rightarrow> bool \<Rightarrow> bh_leb_read_status" where
  "bh_leb_read buf maxbits sign =
     (case leb_loop buf maxbits 0 0 0 of
        Inl err \<Rightarrow> err
      | Inr (byte, result, shift, offset) \<Rightarrow>
          if \<not> sign \<and> maxbits = 32 \<and> shift \<ge> maxbits then
            (if byte AND 0xf0 \<noteq> 0 then BH_LEB_READ_OVERFLOW else BH_LEB_READ_SUCCESS result offset)
          else if sign \<and> maxbits = 32 then
            (if shift < maxbits then BH_LEB_READ_SUCCESS (sign_extend byte result shift) offset
             else
               let sign_bit_set = (byte AND 0x8 \<noteq> 0); top_bits = byte AND 0xf0 in
               if sign_bit_set \<and> top_bits \<noteq> 0x70 \<or> \<not> sign_bit_set \<and> top_bits \<noteq> 0
               then BH_LEB_READ_OVERFLOW else BH_LEB_READ_SUCCESS result offset)
          else if sign \<and> maxbits = 64 then
            (if shift < maxbits then BH_LEB_READ_SUCCESS (sign_extend byte result shift) offset
             else
               let sign_bit_set = (byte AND 0x1 \<noteq> 0); top_bits = byte AND 0xfe in
               if sign_bit_set \<and> top_bits \<noteq> 0x7e \<or> \<not> sign_bit_set \<and> top_bits \<noteq> 0
               then BH_LEB_READ_OVERFLOW else BH_LEB_READ_SUCCESS result offset)
          else BH_LEB_READ_SUCCESS result offset)"

section \<open>Values of byte strings\<close>

text \<open>The value of a group of bytes: seven bits each, least significant first.\<close>

fun leb_value :: "u8 list \<Rightarrow> nat" where
  "leb_value [] = 0"
| "leb_value (b # bs) = unat b mod 128 + 128 * leb_value bs"

text \<open>Bytes with the continuation bit, and one without it at the end.\<close>

definition leb_group :: "u8 list \<Rightarrow> bool" where
  "leb_group bs \<longleftrightarrow> bs \<noteq> [] \<and> (\<forall>b \<in> set (butlast bs). 128 \<le> unat b) \<and> unat (last bs) < 128"

lemma or_shifted:
  fixes r c :: u64
  assumes "unat r < 2 ^ s"
  shows "r OR push_bit s c = r + c * 2 ^ s"
proof -
  have "take_bit s r AND push_bit s c = 0"
    by (rule bit_eqI) (auto simp: bit_simps)
  moreover have "take_bit s r = r"
    using assms by (simp add: word_unat_eq_iff unsigned_take_bit_eq take_bit_nat_eq_self)
  ultimately have "r AND push_bit s c = 0" by simp
  then show ?thesis
    using disjunctive_add_eq_or [of r "push_bit s c"] by (simp add: push_bit_eq_mult)
qed

lemma and_low7: "n AND 127 = n mod 128" for n :: nat
  using take_bit_eq_mask [of 7 n] by (simp add: take_bit_eq_mod mask_eq_exp_minus_1)

lemma unat_byte: "unat (b :: u8) < 256"
  using unsigned_less [where ?'a = nat, of b] by simp

lemma low7: "(ucast b :: u64) AND 0x7f = of_nat (unat (b :: u8) mod 128)"
proof -
  have "unat b < 2 ^ 64" using unat_byte [of b] by simp
  then have "take_bit 64 (unat b) = unat b" by (simp add: take_bit_nat_eq_self)
  then show ?thesis
    by (simp add: word_unat_eq_iff unsigned_and_eq unsigned_ucast_eq and_low7 unat_of_nat take_bit_nat_eq_self)
qed

lemma bit_byte: "bit (b :: u8) k \<longleftrightarrow> odd (unat b div 2 ^ k)"
proof -
  have "bit (unat b) k \<longleftrightarrow> bit b k" by (simp add: bit_unsigned_iff)
  then show ?thesis by (simp add: bit_iff_odd)
qed

lemma odd_top: "n < 2 * m \<Longrightarrow> odd (n div m) \<longleftrightarrow> m \<le> n" for n m :: nat
  using div_nat_eqI [of m 1 n] by (cases "n < m") auto

lemma continuation_bit: "(b :: u8) AND 0x80 = 0 \<longleftrightarrow> unat b < 128"
  using and_exp_eq_0_iff_not_bit [of b 7] unat_byte [of b] odd_top [of "unat b" 128]
  by (auto simp: bit_byte)

lemma sign_bit: "unat b < 128 \<Longrightarrow> (b :: u8) AND 0x40 \<noteq> 0 \<longleftrightarrow> 64 \<le> unat b"
  using and_exp_eq_0_iff_not_bit [of b 6] odd_top [of "unat b" 64] by (simp add: bit_byte)

section \<open>What the loop computes\<close>

lemma unat_of_nat64: "n < 2 ^ 64 \<Longrightarrow> unat (of_nat n :: u64) = n"
  by (simp add: unat_of_nat take_bit_nat_eq_self)

lemma unat_group_less:
  fixes r :: u64
  assumes "unat r < 2 ^ s" and "c < 128" and "s + 7 \<le> 63"
  shows "unat (r + of_nat c * 2 ^ s) < 2 ^ (s + 7)"
proof -
  have "c * 2 ^ s \<le> 127 * 2 ^ s" using assms(2) by (intro mult_le_mono1) simp
  then have "unat r + c * 2 ^ s < 2 ^ s + 127 * 2 ^ s" using assms(1) by linarith
  then have sum: "unat r + c * 2 ^ s < 2 ^ (s + 7)" by (simp add: power_add)
  also have "(2 :: nat) ^ (s + 7) \<le> 2 ^ 63" using assms(3) by (intro power_increasing) simp_all
  finally have le: "unat r + c * 2 ^ s < 2 ^ 63" .
  have "unat (of_nat (c * 2 ^ s) :: u64) = c * 2 ^ s"
    using le by (intro unat_of_nat64) simp
  then show ?thesis
    using sum le unat_plus_simple [of r "of_nat (c * 2 ^ s)"] by simp
qed

lemma leb_loop_group:
  assumes "leb_group bs" and "k + length bs \<le> (maxbits + 6) div 7"
    and "s + 7 * length bs \<le> 70" and "unat r < 2 ^ s"
  shows "leb_loop (bs @ rest) maxbits r s k =
           Inr (last bs, r + of_nat (leb_value bs) * 2 ^ s, s + 7 * length bs, k + length bs)"
  using assms
proof (induction bs arbitrary: r s k)
  case Nil
  then show ?case by (simp add: leb_group_def)
next
  case (Cons b bs)
  let ?r = "r + of_nat (unat b mod 128) * 2 ^ s"
  have step: "r OR push_bit s ((ucast b :: u64) AND 0x7f) = ?r"
    unfolding low7 using Cons.prems(4) by (rule or_shifted)
  show ?case
  proof (cases "bs = []")
    case True
    then have "unat b < 128" using Cons.prems(1) by (simp add: leb_group_def)
    then show ?thesis
      using True Cons.prems(2) step by (simp add: leb_loop.simps [of "b # rest"] continuation_bit)
  next
    case False
    then have b: "128 \<le> unat b" and g: "leb_group bs"
      using Cons.prems(1) by (auto simp: leb_group_def)
    have s: "s + 7 \<le> 63" using Cons.prems(3) False by (cases bs) auto
    have "unat ?r < 2 ^ (s + 7)"
      by (rule unat_group_less) (use Cons.prems(4) s in simp_all)
    then have ih: "leb_loop (bs @ rest) maxbits ?r (s + 7) (k + 1) =
        Inr (last bs, ?r + of_nat (leb_value bs) * 2 ^ (s + 7), s + 7 + 7 * length bs, k + 1 + length bs)"
      using Cons.prems(2,3) by (intro Cons.IH [OF g]) simp_all
    have "?r + of_nat (leb_value bs) * 2 ^ (s + 7) = r + of_nat (leb_value (b # bs)) * 2 ^ s"
      by (simp add: power_add algebra_simps)
    then show ?thesis
      using False Cons.prems(2) step b ih by (simp add: leb_loop.simps [of "b # bs @ rest"] continuation_bit)
  qed
qed

section \<open>Encodings\<close>

fun uleb :: "nat \<Rightarrow> u8 list" where
  "uleb n = (if n < 128 then [of_nat n] else of_nat (128 + n mod 128) # uleb (n div 128))"

declare uleb.simps [simp del]

lemma unat_small: "n < 256 \<Longrightarrow> unat (of_nat n :: u8) = n"
  by (simp add: unat_of_nat take_bit_nat_eq_self)

lemma uleb_group: "leb_group (uleb n) \<and> leb_value (uleb n) = n"
proof (induction n rule: uleb.induct)
  case (1 n)
  show ?case
  proof (cases "n < 128")
    case True
    then show ?thesis by (simp add: uleb.simps [of n] leb_group_def unat_small)
  next
    case False
    have r: "(128 + n mod 128) mod 128 = n mod 128" by simp
    have "unat (of_nat (128 + n mod 128) :: u8) = 128 + n mod 128" by (rule unat_small) simp
    then show ?thesis
      using False 1 r by (auto simp: uleb.simps [of n] leb_group_def)
  qed
qed

lemma uleb_length: "n < 128 ^ Suc j \<Longrightarrow> length (uleb n) \<le> Suc j"
proof (induction j arbitrary: n)
  case 0
  then show ?case by (simp add: uleb.simps [of n])
next
  case (Suc j)
  then have "n div 128 < 128 ^ Suc j" by (simp add: less_mult_imp_div_less mult.commute)
  then show ?case using Suc.IH by (simp add: uleb.simps [of n])
qed

lemma uleb_last: "unat (last (uleb n)) = n div 128 ^ (length (uleb n) - 1)"
proof (induction n rule: uleb.induct)
  case (1 n)
  show ?case
  proof (cases "n < 128")
    case True
    then show ?thesis by (simp add: uleb.simps [of n] unat_small)
  next
    case False
    have ne: "uleb (n div 128) \<noteq> []" using uleb_group [of "n div 128"] by (simp add: leb_group_def)
    then obtain m where m: "length (uleb (n div 128)) = Suc m" by (cases "uleb (n div 128)") auto
    show ?thesis
      using False 1 ne m by (simp add: uleb.simps [of n] div_mult2_eq)
  qed
qed

text \<open>The unsigned reader inverts the unsigned encoding, whatever bytes follow.\<close>

lemma uleb_loop:
  assumes "length (uleb n) \<le> (maxbits + 6) div 7" and "maxbits \<le> 64"
  shows "leb_loop (uleb n @ rest) maxbits 0 0 0 =
           Inr (last (uleb n), of_nat n, 7 * length (uleb n), length (uleb n))"
proof -
  have "length (uleb n) \<le> 10" using assms by linarith
  then show ?thesis
    using leb_loop_group [of "uleb n" 0 maxbits 0 0 rest] uleb_group [of n] assms by simp
qed

lemma read_uleb64: "n < 2 ^ 64 \<Longrightarrow>
    bh_leb_read (uleb n @ rest) 64 False = BH_LEB_READ_SUCCESS (of_nat n) (length (uleb n))"
  using uleb_loop [of n 64 rest] uleb_length [of n 9] by (simp add: bh_leb_read_def)

lemma byte_of_unat: "(of_nat (unat b) :: u8) = b"
  by simp

lemma top_bits_u32: "unat (b :: u8) < 16 \<Longrightarrow> b AND 0xf0 = 0"
proof -
  assume "unat b < 16"
  moreover have "list_all (\<lambda>v. (of_nat v :: u8) AND 0xf0 = 0) [0..<16]" by code_simp
  ultimately have "(of_nat (unat b) :: u8) AND 0xf0 = 0" by (simp add: list_all_iff del: of_nat_unat)
  then show ?thesis by simp
qed

lemma read_uleb32:
  assumes n: "n < 2 ^ 32"
  shows "bh_leb_read (uleb n @ rest) 32 False = BH_LEB_READ_SUCCESS (of_nat n) (length (uleb n))"
proof -
  have len: "length (uleb n) \<le> 5" using uleb_length [of n 4] n by simp
  have "last (uleb n) AND 0xf0 = 0" if "32 \<le> 7 * length (uleb n)"
  proof -
    have "length (uleb n) = 5" using that len by simp
    then have "unat (last (uleb n)) = n div 2 ^ 28" using uleb_last [of n] by simp
    also have "\<dots> < 16" using n by (simp add: less_mult_imp_div_less)
    finally show ?thesis by (rule top_bits_u32)
  qed
  then show ?thesis
    using uleb_loop [of n 32 rest] len by (simp add: bh_leb_read_def)
qed

subsection \<open>Signed\<close>

function sleb :: "int \<Rightarrow> u8 list" where
  "sleb i =
     (if i div 128 = 0 \<and> i mod 128 < 64 \<or> i div 128 = - 1 \<and> 64 \<le> i mod 128
      then [of_nat (nat (i mod 128))]
      else of_nat (128 + nat (i mod 128)) # sleb (i div 128))"
  by pat_completeness auto
termination
proof (relation "measure (\<lambda>i. nat \<bar>i\<bar>)")
  fix i :: int
  assume stop: "\<not> (i div 128 = 0 \<and> i mod 128 < 64 \<or> i div 128 = - 1 \<and> 64 \<le> i mod 128)"
  show "(i div 128, i) \<in> measure (\<lambda>i. nat \<bar>i\<bar>)"
  proof -
    define q m where "q = i div 128" and "m = i mod 128"
    have i: "i = 128 * q + m" "0 \<le> m" "m < 128" by (simp_all add: q_def m_def)
    have "q \<noteq> 0 \<or> 64 \<le> m" "q \<noteq> - 1 \<or> m < 64" using stop by (auto simp: q_def m_def)
    then have "\<bar>q\<bar> < \<bar>i\<bar>" using i by linarith
    then show ?thesis by (simp add: q_def)
  qed
qed simp

declare sleb.simps [simp del]

text \<open>A number of \<open>k\<close> groups is its remainder modulo \<open>128 ^ k\<close>, in two's complement.\<close>

lemma sleb_group:
  "leb_group (sleb i) \<and> int (leb_value (sleb i)) = i mod 128 ^ length (sleb i) \<and>
   (64 \<le> unat (last (sleb i)) \<longleftrightarrow> i < 0) \<and>
   - (128 ^ length (sleb i)) \<le> 2 * i \<and> 2 * i < 128 ^ length (sleb i)"
proof (induction i rule: sleb.induct)
  case (1 i)
  let ?stop = "i div 128 = 0 \<and> i mod 128 < 64 \<or> i div 128 = - 1 \<and> 64 \<le> i mod 128"
  show ?case
  proof (cases ?stop)
    case True
    have "unat (of_nat (nat (i mod 128)) :: u8) = nat (i mod 128)" by (rule unat_small) (simp add: nat_less_iff)
    then show ?thesis
      using True by (auto simp: sleb.simps [of i] leb_group_def nat_less_iff le_nat_iff) presburger
  next
    case False
    have b: "unat (of_nat (128 + nat (i mod 128)) :: u8) = 128 + nat (i mod 128)"
      by (rule unat_small) (simp add: nat_less_iff)
    have m: "(128 + nat (i mod 128)) mod 128 = nat (i mod 128)" by (simp add: nat_less_iff)
    have m': "nat (i mod 128) mod 128 = nat (i mod 128)" by (simp add: nat_less_iff)
    note ih = 1 [OF False]
    have ne: "sleb (i div 128) \<noteq> []" using ih by (simp add: leb_group_def)
    define q L where "q = i div 128" and "L = length (sleb q)"
    have sl: "sleb i = of_nat (128 + nat (i mod 128)) # sleb q"
      using False by (simp add: sleb.simps [of i] q_def)
    have i: "i = 128 * q + i mod 128" "0 \<le> i mod 128" "i mod 128 < 128" by (simp_all add: q_def)
    have q: "- (128 ^ L) \<le> 2 * q" "2 * q < 128 ^ L" using ih by (simp_all add: q_def L_def)
    have "even ((128 :: int) ^ L)" using ne by (simp add: L_def q_def)
    then obtain k :: int where k: "128 ^ L = 2 * k" by (rule evenE)
    have bounds: "- (128 ^ Suc L) \<le> 2 * i" "2 * i < 128 ^ Suc L" using i q k by simp_all
    have "int (leb_value (sleb i)) = i mod 128 + 128 * (q mod 128 ^ L)"
      using ih m b by (simp add: sl q_def L_def)
    also have "\<dots> = i mod 128 ^ Suc L" by (simp add: q_def zmod_zmult2_eq)
    finally have v: "int (leb_value (sleb i)) = i mod 128 ^ Suc L" .
    have neg: "q < 0 \<longleftrightarrow> i < 0" using i by auto
    show ?thesis
      using ih ne b v bounds neg m' unfolding sl by (simp add: leb_group_def L_def q_def)
  qed
qed

lemma sleb_length: "- (64 * 128 ^ j) \<le> i \<Longrightarrow> i < 64 * 128 ^ j \<Longrightarrow> length (sleb i) \<le> Suc j"
proof (induction j arbitrary: i)
  case 0
  then have "i div 128 = 0 \<and> i mod 128 < 64 \<or> i div 128 = - 1 \<and> 64 \<le> i mod 128"
    by simp presburger
  then show ?case by (simp add: sleb.simps [of i])
next
  case (Suc j)
  have "- (64 * 128 ^ j) \<le> i div 128" "i div 128 < 64 * 128 ^ j"
    using Suc.prems by (simp_all add: algebra_simps)
  then show ?case using Suc.IH by (simp add: sleb.simps [of i])
qed

lemma sleb_last: "unat (last (sleb i)) = nat ((i div 128 ^ (length (sleb i) - 1)) mod 128)"
proof (induction i rule: sleb.induct)
  case (1 i)
  let ?stop = "i div 128 = 0 \<and> i mod 128 < 64 \<or> i div 128 = - 1 \<and> 64 \<le> i mod 128"
  show ?case
  proof (cases ?stop)
    case True
    have "unat (of_nat (nat (i mod 128)) :: u8) = nat (i mod 128)" by (rule unat_small) (simp add: nat_less_iff)
    then show ?thesis using True by (simp add: sleb.simps [of i])
  next
    case False
    have ne: "sleb (i div 128) \<noteq> []" using sleb_group [of "i div 128"] by (simp add: leb_group_def)
    then obtain m where m: "length (sleb (i div 128)) = Suc m" by (cases "sleb (i div 128)") auto
    have sl: "sleb i = of_nat (128 + nat (i mod 128)) # sleb (i div 128)"
      using False by (simp add: sleb.simps [of i])
    show ?thesis
      using 1 [OF False] ne m unfolding sl by (simp add: zdiv_zmult2_eq)
  qed
qed

lemma sleb_loop:
  assumes "length (sleb i) \<le> (maxbits + 6) div 7" and "maxbits \<le> 64"
  shows "leb_loop (sleb i @ rest) maxbits 0 0 0 =
           Inr (last (sleb i), word_of_int (i mod 128 ^ length (sleb i)), 7 * length (sleb i), length (sleb i))"
proof -
  have "length (sleb i) \<le> 10" using assms by linarith
  moreover have "(of_nat (leb_value (sleb i)) :: u64) = word_of_int (i mod 128 ^ length (sleb i))"
    using sleb_group [of i] by (metis of_int_of_nat_eq)
  ultimately show ?thesis
    using leb_loop_group [of "sleb i" 0 maxbits 0 0 rest] sleb_group [of i] assms by simp
qed

text \<open>Extending the sign of the groups read so far gives the number itself.\<close>

lemma sign_extend_sleb:
  assumes "7 * length (sleb i) < 64"
  shows "sign_extend (last (sleb i)) (word_of_int (i mod 128 ^ length (sleb i))) (7 * length (sleb i)) =
         word_of_int i"
proof -
  define S where "S = 7 * length (sleb i)"
  have p: "(128 :: int) ^ length (sleb i) = 2 ^ S" by (simp add: S_def power_mult)
  have g: "leb_group (sleb i)" "64 \<le> unat (last (sleb i)) \<longleftrightarrow> i < 0" "- (2 ^ S) \<le> 2 * i" "2 * i < 2 ^ S"
    using sleb_group [of i] by (simp_all add: p)
  have neg: "last (sleb i) AND 0x40 \<noteq> 0 \<longleftrightarrow> i < 0"
    using g sign_bit [of "last (sleb i)"] by (simp add: leb_group_def)
  show ?thesis
  proof (cases "i < 0")
    case False
    then show ?thesis using g(4) neg by (simp add: sign_extend_def p S_def [symmetric])
  next
    case True
    have m: "i mod 2 ^ S = i + 2 ^ S"
      using True g(3) by (smt (verit) mod_add_self2 mod_pos_pos_trivial)
    have "(2 :: int) ^ S < 2 ^ 64" using assms by (intro power_strict_increasing) (simp_all add: S_def)
    then have "i mod 2 ^ S < 2 ^ 64" using True m by linarith
    then have "unat (word_of_int (i mod 2 ^ S) :: u64) = nat (i mod 2 ^ S)"
      by (simp add: unat_eq_nat_uint uint_word_of_int)
    then have small: "unat (word_of_int (i mod 2 ^ S) :: u64) < 2 ^ S" by (simp add: nat_less_iff)
    have "(word_of_int (i mod 2 ^ S) :: u64) OR push_bit S (NOT 0) = word_of_int (i mod 2 ^ S) + - 1 * 2 ^ S"
      using or_shifted [OF small, of "NOT 0"] by simp
    also have "\<dots> = word_of_int i" unfolding m by simp
    finally show ?thesis using True neg by (simp add: sign_extend_def p S_def [symmetric])
  qed
qed

lemma word_of_int_mod:
  "LENGTH('n::len) \<le> k \<Longrightarrow> (word_of_int (i mod 2 ^ k) :: 'n word) = word_of_int i"
  by (simp add: word_of_int_eq_iff take_bit_eq_mod mod_mod_cancel le_imp_power_dvd)

lemma ucast_word_of_int: "(ucast (word_of_int i :: u64) :: u32) = word_of_int i"
proof -
  have "(ucast (word_of_int i :: u64) :: u32) = word_of_int (i mod 2 ^ 64)"
    by (simp add: ucast_eq uint_word_of_int)
  also have "\<dots> = word_of_int i" by (rule word_of_int_mod) simp
  finally show ?thesis .
qed

lemma byte_0: "unat (b :: u8) = 0 \<Longrightarrow> b = 0"
  and byte_127: "unat (b :: u8) = 127 \<Longrightarrow> b = 127"
  by (simp_all add: word_unat_eq_iff)

lemma last_byte_cases:
  assumes "unat (b :: u8) = nat (q mod 128)" and "- 8 \<le> q" and "q < 8"
  shows "(b AND 0x8 \<noteq> 0 \<longrightarrow> b AND 0xf0 = 0x70) \<and> (b AND 0x8 = 0 \<longrightarrow> b AND 0xf0 = 0)"
proof -
  have q: "q \<in> set [-8..7]" using assms(2,3) by (simp only: set_upto atLeastAtMost_iff) auto
  have "b = word_of_int (q mod 128)" using byte_of_unat [of b] unfolding assms(1) by simp
  moreover have all: "list_all (\<lambda>q. (word_of_int (q mod 128) AND 0x8 \<noteq> (0 :: u8) \<longrightarrow>
      word_of_int (q mod 128) AND 0xf0 = (0x70 :: u8)) \<and>
      (word_of_int (q mod 128) AND 0x8 = (0 :: u8) \<longrightarrow> word_of_int (q mod 128) AND 0xf0 = (0 :: u8))) [-8..7]"
    by code_simp
  moreover note bspec [OF all [unfolded list_all_iff] q]
  ultimately show ?thesis by (simp only:)
qed

lemma read_sleb32:
  assumes i: "- (2 ^ 31) \<le> i" "i < 2 ^ 31"
  shows "\<exists>r. bh_leb_read (sleb i @ rest) 32 True = BH_LEB_READ_SUCCESS r (length (sleb i)) \<and>
             (ucast r :: u32) = word_of_int i"
proof -
  have len: "length (sleb i) \<le> 5" using sleb_length [of 4 i] i by simp
  note loop = sleb_loop [of i 32 rest]
  show ?thesis
  proof (cases "length (sleb i) = 5")
    case False
    then have "length (sleb i) < 5" using len by simp
    then show ?thesis
      using loop sign_extend_sleb [of i] by (simp add: bh_leb_read_def ucast_word_of_int)
  next
    case True
    have "- 8 \<le> i div 2 ^ 28" "i div 2 ^ 28 < 8" using i by (simp_all add: algebra_simps)
    moreover have "unat (last (sleb i)) = nat ((i div 2 ^ 28) mod 128)" using sleb_last [of i] True by simp
    ultimately have byte: "(last (sleb i) AND 0x8 \<noteq> 0 \<longrightarrow> last (sleb i) AND 0xf0 = 0x70) \<and>
        (last (sleb i) AND 0x8 = 0 \<longrightarrow> last (sleb i) AND 0xf0 = 0)"
      by (intro last_byte_cases)
    have "(ucast (word_of_int (i mod 2 ^ 35) :: u64) :: u32) = word_of_int i"
      unfolding ucast_word_of_int by (rule word_of_int_mod) simp
    then show ?thesis using True loop byte by (auto simp: bh_leb_read_def Let_def)
  qed
qed

lemma read_sleb64:
  assumes i: "- (2 ^ 63) \<le> i" "i < 2 ^ 63"
  shows "bh_leb_read (sleb i @ rest) 64 True = BH_LEB_READ_SUCCESS (word_of_int i) (length (sleb i))"
proof -
  have len: "length (sleb i) \<le> 10" using sleb_length [of 9 i] i by simp
  note loop = sleb_loop [of i 64 rest]
  show ?thesis
  proof (cases "length (sleb i) = 10")
    case False
    then have "length (sleb i) < 10" using len by simp
    then show ?thesis
      using loop sign_extend_sleb [of i] by (simp add: bh_leb_read_def)
  next
    case True
    have "- 1 \<le> i div 2 ^ 63" "i div 2 ^ 63 < 1" using i by (simp_all add: algebra_simps)
    then have "i div 2 ^ 63 = 0 \<or> i div 2 ^ 63 = - 1" by linarith
    moreover have "unat (last (sleb i)) = nat ((i div 2 ^ 63) mod 128)" using sleb_last [of i] True by simp
    ultimately have "unat (last (sleb i)) = 0 \<or> unat (last (sleb i)) = 127" by auto
    then have byte: "last (sleb i) = 0 \<or> last (sleb i) = 127"
      by (elim disjE) (simp_all add: byte_0 byte_127)
    have "(word_of_int (i mod 2 ^ 70) :: u64) = word_of_int i" by (rule word_of_int_mod) simp
    then have "leb_loop (sleb i @ rest) 64 0 0 0 = Inr (last (sleb i), word_of_int i, 70, 10)"
      using True loop by simp
    with byte show ?thesis
      using True by (elim disjE) (simp_all add: bh_leb_read_def)
  qed
qed

section \<open>Every input\<close>

text \<open>The reader consumes between one byte and the bound, and never more than there are.\<close>

lemma leb_loop_bound:
  "leb_loop buf maxbits r s k = Inr (b, r', s', k') \<Longrightarrow>
   k < k' \<and> k' \<le> (maxbits + 6) div 7 \<and> k' \<le> k + length buf \<and> s' + 7 * k = s + 7 * k' \<and>
   unat b < 128"
proof (induction buf maxbits r s k rule: leb_loop.induct)
  case (1 buf maxbits r s k)
  show ?case
  proof (cases buf)
    case Nil
    then show ?thesis using 1(2) by (simp add: leb_loop.simps [of "[]"] split: if_splits)
  next
    case (Cons byte buf')
    have fits: "\<not> k + 1 > (maxbits + 6) div 7"
      using 1(2) by (auto simp: leb_loop.simps [of buf] split: if_splits)
    show ?thesis
    proof (cases "byte AND 0x80 = 0")
      case True
      then show ?thesis
        using 1(2) fits Cons continuation_bit [of byte] by (auto simp: leb_loop.simps [of "byte # buf'"])
    next
      case False
      then have "leb_loop buf' maxbits (r OR push_bit s (ucast byte AND 0x7f)) (s + 7) (k + 1) =
          Inr (b, r', s', k')"
        using 1(2) fits Cons by (simp add: leb_loop.simps [of "byte # buf'"])
      then show ?thesis using 1(1) [OF fits Cons refl False] Cons by auto
    qed
  qed
qed

lemma leb_loop_Inl: "leb_loop buf maxbits r s k = Inl e \<Longrightarrow> e \<noteq> BH_LEB_READ_SUCCESS v n"
proof (induction buf arbitrary: r s k)
  case Nil
  then show ?case by (auto simp: leb_loop.simps [of "[]"] split: if_splits)
next
  case (Cons byte buf)
  then show ?case by (auto simp: leb_loop.simps [of "byte # buf"] Let_def split: if_splits)
qed

lemma bh_leb_read_bound:
  "bh_leb_read buf maxbits sign = BH_LEB_READ_SUCCESS r n \<Longrightarrow>
   0 < n \<and> n \<le> (maxbits + 6) div 7 \<and> n \<le> length buf"
  by (auto simp: bh_leb_read_def Let_def dest!: leb_loop_bound dest: leb_loop_Inl split: sum.splits if_splits)

text \<open>Too many continuation bytes and a missing end are told apart.\<close>

lemma leb_loop_error:
  assumes "\<forall>b \<in> set buf. 128 \<le> unat b"
  shows "leb_loop buf maxbits r s k =
    Inl (if k + length buf < (maxbits + 6) div 7 then BH_LEB_READ_UNEXPECTED_END else BH_LEB_READ_TOO_LONG)"
  using assms
proof (induction buf arbitrary: r s k)
  case Nil
  then show ?case by (simp add: leb_loop.simps [of "[]"])
next
  case (Cons b buf)
  then have "b AND 0x80 \<noteq> 0" using continuation_bit [of b] by simp
  then show ?case using Cons by (simp add: leb_loop.simps [of "b # buf"])
qed

end
