(* ===== verification/Bh_Bitmap.thy ===== *)
theory Bh_Bitmap
  imports Prelude
begin

unbundle bit_operations_syntax

text \<open>
  The fixed-size bitmap of the WebAssembly runtime, \<open>wamr/core/shared/utils/bh_bitmap.h\<close> and
  \<open>bh_bitmap.c\<close>. It implements a set of indices between \<open>begin_index\<close> and \<open>end_index\<close>;
  \<open>index_set\<close> is the interface, and the bitmap is an instance of it. An assertion that fails is a
  fault.
\<close>

section \<open>The bitmap\<close>

record bh_bitmap =
  begin_index :: u64
  end_index :: u64
  bits :: "u8 list"

definition UINT32_MAX :: u32 where "UINT32_MAX = - 1"

text \<open>
  The header of the structure is two pointers (16 bytes). \<open>malloc n\<close> tells whether an allocation
  of \<open>n\<close> bytes succeeds.
\<close>

definition bh_bitmap_new :: "(u32 \<Rightarrow> bool) \<Rightarrow> u64 \<Rightarrow> u32 \<Rightarrow> bh_bitmap option" where
  "bh_bitmap_new malloc first bitnum =
     (let bitmap_size = (bitnum + 7) div 8;
          total_size = 16 + bitmap_size in
      if bitnum > UINT32_MAX - 7 \<or> total_size < 16 \<or> total_size - 16 \<noteq> bitmap_size then None
      else if malloc total_size then
        Some \<lparr>begin_index = first, end_index = first + ucast bitnum,
              bits = replicate (unat bitmap_size) 0\<rparr>
      else None)"

definition bh_bitmap_is_in_range :: "bh_bitmap \<Rightarrow> u64 \<Rightarrow> bool" where
  "bh_bitmap_is_in_range b n \<longleftrightarrow> n \<ge> begin_index b \<and> n < end_index b"

text \<open>The byte that holds bit \<open>n\<close>; reading or writing outside the array is a fault.\<close>

definition with_byte :: "bh_bitmap \<Rightarrow> u64 \<Rightarrow> (nat \<Rightarrow> nat \<Rightarrow> 'a) \<Rightarrow> fault + 'a" where
  "with_byte b n f =
     (let idx = n - begin_index b in
      if \<not> bh_bitmap_is_in_range b n then Inl Abort
      else if unat (idx div 8) < length (bits b) then Inr (f (unat (idx div 8)) (unat (idx mod 8)))
      else Inl Out_of_bounds)"

definition bh_bitmap_get_bit :: "bh_bitmap \<Rightarrow> u64 \<Rightarrow> fault + u8" where
  "bh_bitmap_get_bit b n = with_byte b n (\<lambda>i k. drop_bit k (bits b ! i) AND 1)"

definition bh_bitmap_set_bit :: "bh_bitmap \<Rightarrow> u64 \<Rightarrow> fault + bh_bitmap" where
  "bh_bitmap_set_bit b n =
     with_byte b n (\<lambda>i k. b\<lparr>bits := (bits b)[i := bits b ! i OR push_bit k 1]\<rparr>)"

definition bh_bitmap_clear_bit :: "bh_bitmap \<Rightarrow> u64 \<Rightarrow> fault + bh_bitmap" where
  "bh_bitmap_clear_bit b n =
     with_byte b n (\<lambda>i k. b\<lparr>bits := (bits b)[i := bits b ! i AND NOT (push_bit k 1)]\<rparr>)"

section \<open>Sets of indices\<close>

text \<open>
  What a client of the bitmap relies on: in range, operations return; a bit that is set is in the
  set, and setting and clearing change just that bit.
\<close>

locale index_set =
  fixes inv :: "'b \<Rightarrow> bool"
    and range :: "'b \<Rightarrow> 'i set"
    and elems :: "'b \<Rightarrow> 'i set"
    and get :: "'b \<Rightarrow> 'i \<Rightarrow> fault + u8"
    and set_it :: "'b \<Rightarrow> 'i \<Rightarrow> fault + 'b"
    and clear_it :: "'b \<Rightarrow> 'i \<Rightarrow> fault + 'b"
  assumes get_elems: "inv b \<Longrightarrow> i \<in> range b \<Longrightarrow> get b i = Inr (if i \<in> elems b then 1 else 0)"
    and set_elems: "inv b \<Longrightarrow> i \<in> range b \<Longrightarrow>
      \<exists>b'. set_it b i = Inr b' \<and> inv b' \<and> range b' = range b \<and> elems b' = insert i (elems b)"
    and clear_elems: "inv b \<Longrightarrow> i \<in> range b \<Longrightarrow>
      \<exists>b'. clear_it b i = Inr b' \<and> inv b' \<and> range b' = range b \<and> elems b' = elems b - {i}"
    and out_of_range: "inv b \<Longrightarrow> i \<notin> range b \<Longrightarrow> get b i = Inl Abort \<and> set_it b i = Inl Abort \<and> clear_it b i = Inl Abort"
begin

lemma get_after_set:
  assumes "inv b" and "i \<in> range b" and "j \<in> range b"
  shows "\<exists>b'. set_it b i = Inr b' \<and> get b' j = (if i = j then Inr 1 else get b j)"
proof -
  obtain b' where "set_it b i = Inr b'" "inv b'" "range b' = range b" "elems b' = insert i (elems b)"
    using set_elems [OF assms(1,2)] by blast
  then show ?thesis using get_elems [of b' j] get_elems [OF assms(1,3)] assms(3) by auto
qed

lemma get_after_clear:
  assumes "inv b" and "i \<in> range b" and "j \<in> range b"
  shows "\<exists>b'. clear_it b i = Inr b' \<and> get b' j = (if i = j then Inr 0 else get b j)"
proof -
  obtain b' where "clear_it b i = Inr b'" "inv b'" "range b' = range b" "elems b' = elems b - {i}"
    using clear_elems [OF assms(1,2)] by blast
  then show ?thesis using get_elems [of b' j] get_elems [OF assms(1,3)] assms(3) by auto
qed

text \<open>Any sequence of settings inside the range puts exactly those indices into the set.\<close>

lemma set_all:
  assumes "inv b" and "set is \<subseteq> range b"
  shows "\<exists>b'. foldl (\<lambda>r i. case r of Inl f \<Rightarrow> Inl f | Inr b \<Rightarrow> set_it b i) (Inr b) is = Inr b' \<and>
           inv b' \<and> range b' = range b \<and> elems b' = elems b \<union> set is"
  using assms
proof (induction "is" arbitrary: b)
  case Nil
  then show ?case by simp
next
  case (Cons i "is")
  obtain b1 where b1: "set_it b i = Inr b1" "inv b1" "range b1 = range b" "elems b1 = insert i (elems b)"
    using set_elems [of b i] Cons.prems by auto
  obtain b' where "foldl (\<lambda>r i. case r of Inl f \<Rightarrow> Inl f | Inr b \<Rightarrow> set_it b i) (Inr b1) is = Inr b'"
    "inv b'" "range b' = range b1" "elems b' = elems b1 \<union> set is"
    using Cons.IH [OF b1(2)] Cons.prems b1(3) by auto
  then show ?case using b1 by auto
qed

end

section \<open>The bitmap is a set of indices\<close>

definition bitmap_ok :: "bh_bitmap \<Rightarrow> bool" where
  "bitmap_ok b \<longleftrightarrow>
     begin_index b \<le> end_index b \<and> unat (end_index b - begin_index b) \<le> 8 * length (bits b)"

definition bitmap_range :: "bh_bitmap \<Rightarrow> u64 set" where
  "bitmap_range b = {n. begin_index b \<le> n \<and> n < end_index b}"

definition pos :: "bh_bitmap \<Rightarrow> u64 \<Rightarrow> nat" where
  "pos b n = unat (n - begin_index b)"

definition bitmap_elems :: "bh_bitmap \<Rightarrow> u64 set" where
  "bitmap_elems b = {n \<in> bitmap_range b. bit (bits b ! (pos b n div 8)) (pos b n mod 8)}"

lemma with_byte_in_range:
  assumes "bitmap_ok b" and "n \<in> bitmap_range b"
  shows "with_byte b n f = Inr (f (pos b n div 8) (pos b n mod 8))" and "pos b n div 8 < length (bits b)"
proof -
  have r: "begin_index b \<le> n" "n < end_index b" using assms(2) by (simp_all add: bitmap_range_def)
  have "unat (n - begin_index b) = unat n - unat (begin_index b)"
    using r(1) by (simp add: unat_sub)
  moreover have "unat (end_index b - begin_index b) = unat (end_index b) - unat (begin_index b)"
    using assms(1) by (simp add: unat_sub bitmap_ok_def)
  ultimately have "pos b n < unat (end_index b - begin_index b)"
    using r by (simp add: pos_def word_less_nat_alt word_le_nat_alt)
  then have "pos b n < length (bits b) * 8" using assms(1) by (simp add: bitmap_ok_def)
  then show len: "pos b n div 8 < length (bits b)" by (rule less_mult_imp_div_less)
  have "unat ((n - begin_index b) div 8) = pos b n div 8" "unat ((n - begin_index b) mod 8) = pos b n mod 8"
    by (simp_all add: pos_def unat_div unat_mod)
  then show "with_byte b n f = Inr (f (pos b n div 8) (pos b n mod 8))"
    using r len by (simp add: with_byte_def Let_def bh_bitmap_is_in_range_def)
qed

lemma with_byte_out_of_range: "n \<notin> bitmap_range b \<Longrightarrow> with_byte b n f = Inl Abort"
  by (auto simp: with_byte_def bitmap_range_def bh_bitmap_is_in_range_def Let_def)

lemma pos_inj: "pos b n = pos b m \<Longrightarrow> n = m"
  by (metis diff_add_cancel pos_def word_unat_eq_iff)

lemma get_bit_value: "drop_bit k (w :: u8) AND 1 = (if bit w k then 1 else 0)"
  using bit_iff_and_drop_bit_eq_1 [of w k] by (auto simp: and_one_eq)

text \<open>Changing one bit of the array changes one element.\<close>

lemma elems_update:
  assumes ok: "bitmap_ok b" and n: "n \<in> bitmap_range b"
    and w: "\<And>k. bit w k \<longleftrightarrow> (if k = pos b n mod 8 then v else bit (bits b ! (pos b n div 8)) k)"
  defines "b' \<equiv> b\<lparr>bits := (bits b)[pos b n div 8 := w]\<rparr>"
  shows "bitmap_ok b' \<and> bitmap_range b' = bitmap_range b \<and>
         bitmap_elems b' = (if v then insert n (bitmap_elems b) else bitmap_elems b - {n})"
proof -
  have range: "bitmap_range b' = bitmap_range b" and p: "pos b' m = pos b m" for m
    by (simp_all add: b'_def bitmap_range_def pos_def)
  have "bit (bits b' ! (pos b m div 8)) (pos b m mod 8) \<longleftrightarrow>
      (if m = n then v else bit (bits b ! (pos b m div 8)) (pos b m mod 8))" if m: "m \<in> bitmap_range b" for m
  proof (cases "pos b m div 8 = pos b n div 8")
    case True
    then have "pos b m mod 8 = pos b n mod 8 \<longleftrightarrow> m = n"
      by (metis div_mult_mod_eq pos_inj)
    then show ?thesis
      using True w with_byte_in_range(2) [OF ok n] by (auto simp: b'_def)
  next
    case False
    then show ?thesis by (auto simp: b'_def)
  qed
  moreover have "bitmap_ok b'" using ok by (simp add: bitmap_ok_def b'_def)
  ultimately show ?thesis
    using range n by (auto simp: bitmap_elems_def p split: if_splits)
qed

lemma set_bit_word: "bit (w OR push_bit j 1) k \<longleftrightarrow> (if k = j then j < 8 else bit w k)" for w :: u8
  by (auto simp: bit_simps dest: bit_imp_le_length)

lemma clear_bit_word: "bit (w AND NOT (push_bit j 1)) k \<longleftrightarrow> (if k = j then False else bit w k)" for w :: u8
  by (auto simp: bit_simps dest: bit_imp_le_length)

interpretation bitmap: index_set bitmap_ok bitmap_range bitmap_elems
  bh_bitmap_get_bit bh_bitmap_set_bit bh_bitmap_clear_bit
proof unfold_locales
  fix b n assume ok: "bitmap_ok b" and n: "n \<in> bitmap_range b"
  note byte = with_byte_in_range(1) [OF ok n]
  show "bh_bitmap_get_bit b n = Inr (if n \<in> bitmap_elems b then 1 else 0)"
    using n by (simp add: bh_bitmap_get_bit_def byte get_bit_value bitmap_elems_def)
  show "\<exists>b'. bh_bitmap_set_bit b n = Inr b' \<and> bitmap_ok b' \<and> bitmap_range b' = bitmap_range b \<and>
      bitmap_elems b' = insert n (bitmap_elems b)"
    using elems_update [OF ok n, of "bits b ! (pos b n div 8) OR push_bit (pos b n mod 8) 1" True]
    unfolding set_bit_word bh_bitmap_set_bit_def byte by simp
  show "\<exists>b'. bh_bitmap_clear_bit b n = Inr b' \<and> bitmap_ok b' \<and> bitmap_range b' = bitmap_range b \<and>
      bitmap_elems b' = bitmap_elems b - {n}"
    using elems_update [OF ok n, of "bits b ! (pos b n div 8) AND NOT (push_bit (pos b n mod 8) 1)" False]
    unfolding clear_bit_word bh_bitmap_clear_bit_def byte by simp
next
  fix b n assume "n \<notin> bitmap_range b"
  then show "bh_bitmap_get_bit b n = Inl Abort \<and> bh_bitmap_set_bit b n = Inl Abort \<and> bh_bitmap_clear_bit b n = Inl Abort"
    by (simp add: bh_bitmap_get_bit_def bh_bitmap_set_bit_def bh_bitmap_clear_bit_def with_byte_out_of_range)
qed

text \<open>A new bitmap is well formed and empty; the overflow tests are what makes it well formed.\<close>

lemma bitmap_new_ok:
  assumes new: "bh_bitmap_new malloc first bitnum = Some b" and room: "unat first + unat bitnum < 2 ^ 64"
  shows "bitmap_ok b \<and> bitmap_elems b = {} \<and>
         bitmap_range b = {n. first \<le> n \<and> unat n < unat first + unat bitnum}"
proof -
  have big: "unat bitnum \<le> 2 ^ 32 - 8"
    using new by (auto simp: bh_bitmap_new_def Let_def UINT32_MAX_def word_less_nat_alt split: if_splits)
  have b: "begin_index b = first" "end_index b = first + ucast bitnum"
    "bits b = replicate (unat ((bitnum + 7) div 8)) 0"
    using new by (auto simp: bh_bitmap_new_def Let_def split: if_splits)
  have "unat (bitnum + 7) = unat bitnum + 7"
    using big unat_plus_simple [of bitnum 7] by simp
  then have len: "length (bits b) = (unat bitnum + 7) div 8" using b by (simp add: unat_div)
  have uc: "unat (ucast bitnum :: u64) = unat bitnum"
    using big by (simp add: unsigned_ucast_eq take_bit_nat_eq_self)
  then have e: "unat (end_index b) = unat first + unat bitnum"
    using room unat_plus_simple [of first "ucast bitnum"] b by simp
  have le: "begin_index b \<le> end_index b" using e b by (simp add: word_le_nat_alt)
  have "unat (end_index b - begin_index b) = unat bitnum" using le e b(1) by (simp add: unat_sub)
  then have ok: "bitmap_ok b" using le len by (simp add: bitmap_ok_def)
  have "bitmap_elems b = {}"
    using with_byte_in_range(2) [OF ok] b(3) by (auto simp: bitmap_elems_def)
  moreover have "bitmap_range b = {n. first \<le> n \<and> unat n < unat first + unat bitnum}"
    using e b(1) by (auto simp: bitmap_range_def word_less_nat_alt)
  ultimately show ?thesis using ok by blast
qed

end
