(* ===== verification/Bh_Vector.thy ===== *)
theory Bh_Vector
  imports Prelude
begin

text \<open>
  The growing array of the WebAssembly runtime, \<open>wamr/core/shared/utils/bh_vector.c\<close>. Its memory is
  the list of its slots, each of \<open>size_elem\<close> bytes; every copy of the code moves whole slots. A
  null vector or buffer is \<open>None\<close>, and \<open>malloc n\<close> tells whether an allocation of \<open>n\<close> bytes succeeds.
  The lock is taken and given back around each change and has no effect in one thread; whether
  there is one is a flag.

  The vector is shown to be a list: \<open>growing_array\<close> is the interface, and the vector implements it.
  Inserting is characterised as the code does it, behind the given index.
\<close>

section \<open>The vector\<close>

type_synonym elem = "u8 list"

record Vector =
  max_elems :: size_t
  vdata :: "elem list option"
  num_elems :: size_t
  size_elem :: size_t
  vlock :: bool

definition zero_vector :: Vector where
  "zero_vector = \<lparr>max_elems = 0, vdata = None, num_elems = 0, size_elem = 0, vlock = False\<rparr>"

definition U32_MAX :: size_t where "U32_MAX = 0xffffffff"

definition alloc_vector_data :: "(u32 \<Rightarrow> bool) \<Rightarrow> size_t \<Rightarrow> size_t \<Rightarrow> elem list option" where
  "alloc_vector_data malloc len esize =
     (let total_size = esize * len in
      if len > U32_MAX \<or> esize > U32_MAX \<or> total_size > U32_MAX then None
      else if malloc (ucast total_size) then Some (replicate (unat len) (replicate (unat esize) 0))
      else None)"

text \<open>\<open>None\<close> is the result false.\<close>

definition extend_vector :: "(u32 \<Rightarrow> bool) \<Rightarrow> Vector \<Rightarrow> size_t \<Rightarrow> Vector option" where
  "extend_vector malloc v len =
     (if len \<le> max_elems v then Some v
      else
        let len = (if len < max_elems v * 3 div 2 then max_elems v * 3 div 2 else len) in
        case alloc_vector_data malloc len (size_elem v) of
          None \<Rightarrow> None
        | Some d \<Rightarrow>
            let old = (case vdata v of None \<Rightarrow> [] | Some x \<Rightarrow> x) in
            Some (v\<lparr>vdata := Some (old @ drop (length old) d), max_elems := len\<rparr>))"

definition bh_vector_destroy :: "Vector option \<Rightarrow> bool \<times> Vector option" where
  "bh_vector_destroy v = (case v of None \<Rightarrow> (False, None) | Some v \<Rightarrow> (True, Some zero_vector))"

text \<open>
  \<open>lock_ok\<close> and \<open>init_ok\<close>: the mutex could be allocated and initialised, when one is asked for.
\<close>

definition bh_vector_init ::
    "(u32 \<Rightarrow> bool) \<Rightarrow> bool \<Rightarrow> bool \<Rightarrow> Vector option \<Rightarrow> size_t \<Rightarrow> size_t \<Rightarrow> bool \<Rightarrow> bool \<times> Vector option" where
  "bh_vector_init malloc lock_ok init_ok v init_length esize use_lock =
     (case v of
        None \<Rightarrow> (False, None)
      | Some v \<Rightarrow>
          let init_length = (if init_length = 0 then 4 else init_length) in
          case alloc_vector_data malloc init_length esize of
            None \<Rightarrow> (False, Some (v\<lparr>vdata := None\<rparr>))
          | Some d \<Rightarrow>
              let v = v\<lparr>vdata := Some d, size_elem := esize, max_elems := init_length, num_elems := 0,
                        vlock := False\<rparr> in
              if use_lock then
                (if \<not> lock_ok then (False, snd (bh_vector_destroy (Some v)))
                 else if \<not> init_ok then (False, snd (bh_vector_destroy (Some v)))
                 else (True, Some (v\<lparr>vlock := True\<rparr>)))
              else (True, Some v))"

text \<open>Writing a slot and reading one; outside the allocated slots this is a fault.\<close>

definition put_slot :: "Vector \<Rightarrow> nat \<Rightarrow> elem \<Rightarrow> fault + Vector" where
  "put_slot v i x =
     (case vdata v of
        None \<Rightarrow> Inl Null_pointer
      | Some d \<Rightarrow> if i < length d then Inr (v\<lparr>vdata := Some (d[i := take (unat (size_elem v)) x])\<rparr>)
                  else Inl Out_of_bounds)"

definition get_slot :: "Vector \<Rightarrow> nat \<Rightarrow> fault + elem" where
  "get_slot v i =
     (case vdata v of
        None \<Rightarrow> Inl Null_pointer
      | Some d \<Rightarrow> if i < length d then Inr (d ! i) else Inl Out_of_bounds)"

definition bh_vector_set :: "Vector option \<Rightarrow> u32 \<Rightarrow> elem option \<Rightarrow> fault + (bool \<times> Vector option)" where
  "bh_vector_set vector index elem_buf =
     (case (vector, elem_buf) of
        (Some v, Some x) \<Rightarrow>
          if unat index \<ge> unat (num_elems v) then Inr (False, Some v)
          else map_sum id (\<lambda>v. (True, Some v)) (put_slot v (unat index) x)
      | _ \<Rightarrow> Inr (False, vector))"

text \<open>The element comes back when the call succeeds; \<open>elem_buf\<close> tells that the buffer is not null.\<close>

definition bh_vector_get :: "Vector option \<Rightarrow> u32 \<Rightarrow> bool \<Rightarrow> fault + elem option" where
  "bh_vector_get vector index elem_buf =
     (case vector of
        None \<Rightarrow> Inr None
      | Some v \<Rightarrow>
          if \<not> elem_buf then Inr None
          else if unat index \<ge> unat (num_elems v) then Inr None
          else map_sum id Some (get_slot v (unat index)))"

fun vector_insert_loop :: "elem list \<Rightarrow> nat \<Rightarrow> nat \<Rightarrow> nat \<Rightarrow> elem list \<times> nat" where
  "vector_insert_loop d p i index =
     (if i > index then vector_insert_loop (d[p := d ! (p - 1)]) (p - 1) (i - 1) index else (d, p))"

declare vector_insert_loop.simps [simp del]

definition bh_vector_insert ::
    "(u32 \<Rightarrow> bool) \<Rightarrow> Vector option \<Rightarrow> u32 \<Rightarrow> elem option \<Rightarrow> fault + (bool \<times> Vector option)" where
  "bh_vector_insert malloc vector index elem_buf =
     (case (vector, elem_buf) of
        (Some v, Some x) \<Rightarrow>
          if unat index \<ge> unat (num_elems v) then Inr (False, Some v)
          else (case extend_vector malloc v (num_elems v + 1) of
            None \<Rightarrow> Inr (False, Some v)
          | Some v \<Rightarrow>
             (case vdata v of
                None \<Rightarrow> Inl Null_pointer
              | Some d \<Rightarrow>
                  if unat (num_elems v) < length d then
                    let (d, p) = vector_insert_loop d (unat (num_elems v)) (unat (num_elems v) - 1) (unat index) in
                    map_sum id (\<lambda>v. (True, Some (v\<lparr>num_elems := num_elems v + 1\<rparr>)))
                      (put_slot (v\<lparr>vdata := Some d\<rparr>) p x)
                  else Inl Out_of_bounds))
      | _ \<Rightarrow> Inr (False, vector))"

definition bh_vector_append ::
    "(u32 \<Rightarrow> bool) \<Rightarrow> Vector option \<Rightarrow> elem option \<Rightarrow> fault + (bool \<times> Vector option)" where
  "bh_vector_append malloc vector elem_buf =
     (case (vector, elem_buf) of
        (Some v, Some x) \<Rightarrow>
          (case extend_vector malloc v (num_elems v + 1) of
             None \<Rightarrow> Inr (False, Some v)
           | Some v \<Rightarrow>
               map_sum id (\<lambda>v. (True, Some (v\<lparr>num_elems := num_elems v + 1\<rparr>)))
                 (put_slot v (unat (num_elems v)) x))
      | _ \<Rightarrow> Inr (False, vector))"

function vector_remove_loop :: "elem list \<Rightarrow> nat \<Rightarrow> nat \<Rightarrow> nat \<Rightarrow> elem list" where
  "vector_remove_loop d p i n = (if i < n then vector_remove_loop (d[p := d ! (p + 1)]) (p + 1) (i + 1) n else d)"
  by pat_completeness auto
termination by (relation "measure (\<lambda>(d, p, i, n). n - i)") auto

declare vector_remove_loop.simps [simp del]

text \<open>The removed element is what an \<open>old_elem_buf\<close> receives.\<close>

definition bh_vector_remove :: "Vector option \<Rightarrow> u32 \<Rightarrow> fault + (elem option \<times> Vector option)" where
  "bh_vector_remove vector index =
     (case vector of
        None \<Rightarrow> Inr (None, None)
      | Some v \<Rightarrow>
          if unat index \<ge> unat (num_elems v) then Inr (None, Some v)
          else (case vdata v of
            None \<Rightarrow> Inl Null_pointer
          | Some d \<Rightarrow>
              if unat (num_elems v) \<le> length d then
                Inr (Some (d ! unat index),
                     Some (v\<lparr>vdata := Some (vector_remove_loop d (unat index) (unat index) (unat (num_elems v) - 1)),
                             num_elems := num_elems v - 1\<rparr>))
              else Inl Out_of_bounds))"

definition bh_vector_size :: "Vector option \<Rightarrow> size_t" where
  "bh_vector_size vector = (case vector of None \<Rightarrow> 0 | Some v \<Rightarrow> num_elems v)"

section \<open>Invariant and contents\<close>

definition vec_ok :: "Vector \<Rightarrow> bool" where
  "vec_ok v \<longleftrightarrow>
     (case vdata v of None \<Rightarrow> False
      | Some d \<Rightarrow> length d = unat (max_elems v) \<and> (\<forall>x \<in> set d. length x = unat (size_elem v))) \<and>
     unat (num_elems v) \<le> unat (max_elems v) \<and> unat (max_elems v) \<le> 2 ^ 32 - 1"

definition contents :: "Vector \<Rightarrow> elem list" where
  "contents v = take (unat (num_elems v)) (the (vdata v))"

lemma length_contents: "vec_ok v \<Longrightarrow> length (contents v) = unat (num_elems v)"
  by (auto simp: vec_ok_def contents_def split: option.splits)

lemma alloc_facts:
  assumes "alloc_vector_data malloc len esize = Some d"
  shows "length d = unat len" and "\<forall>x \<in> set d. length x = unat esize" and "unat len \<le> 2 ^ 32 - 1"
  using assms by (auto simp: alloc_vector_data_def Let_def U32_MAX_def word_less_nat_alt split: if_splits)

lemma extend_facts:
  assumes ok: "vec_ok v" and ext: "extend_vector malloc v len = Some v'"
  shows "vec_ok v' \<and> contents v' = contents v \<and> num_elems v' = num_elems v \<and> size_elem v' = size_elem v \<and>
         unat len \<le> unat (max_elems v')"
proof (cases "len \<le> max_elems v")
  case True
  then show ?thesis using ok ext by (simp add: extend_vector_def word_le_nat_alt)
next
  case False
  define len' where "len' = (if len < max_elems v * 3 div 2 then max_elems v * 3 div 2 else len)"
  obtain old where old: "vdata v = Some old" "length old = unat (max_elems v)"
    "\<forall>x \<in> set old. length x = unat (size_elem v)" "unat (num_elems v) \<le> unat (max_elems v)"
    using ok by (auto simp: vec_ok_def split: option.splits)
  obtain d where d: "alloc_vector_data malloc len' (size_elem v) = Some d"
    and v': "v' = v\<lparr>vdata := Some (old @ drop (length old) d), max_elems := len'\<rparr>"
    using False ext old(1) by (auto simp: extend_vector_def Let_def len'_def split: option.splits)
  have "len \<le> len'" by (auto simp: len'_def intro: order.strict_implies_order)
  then have le: "unat len \<le> unat len'" "unat (max_elems v) \<le> unat len'"
    using False by (simp_all add: word_le_nat_alt)
  show ?thesis
    using old le alloc_facts [OF d]
    by (auto simp: vec_ok_def contents_def v' dest: in_set_dropD)
qed

section \<open>Slots\<close>

lemma put_slot_facts:
  assumes "vec_ok v" and "i < unat (max_elems v)" and "unat (size_elem v) \<le> length x"
  obtains d where "vdata v = Some d" and "i < length d"
    and "put_slot v i x = Inr (v\<lparr>vdata := Some (d[i := take (unat (size_elem v)) x])\<rparr>)"
  using assms by (auto simp: vec_ok_def put_slot_def split: option.splits)

lemma vec_ok_update:
  assumes "vec_ok v" and "length x = unat (size_elem v)" and "vdata v = Some d" and "n \<le> max_elems v"
  shows "vec_ok (v\<lparr>vdata := Some (d[i := x]), num_elems := n\<rparr>)"
  using assms by (auto simp: vec_ok_def word_le_nat_alt dest: set_update_subset_insert [THEN subsetD])

lemma unat_num_plus:
  assumes "vec_ok v"
  shows "unat (num_elems v + 1) = Suc (unat (num_elems v))"
  using assms by (intro unat_Suc_less [of _ "2 ^ 32"]) (auto simp: vec_ok_def)

section \<open>Operations\<close>

lemma bh_vector_get_contents:
  assumes "vec_ok v"
  shows "bh_vector_get (Some v) index True =
    Inr (if unat index < length (contents v) then Some (contents v ! unat index) else None)"
  using assms by (auto simp: bh_vector_get_def get_slot_def vec_ok_def contents_def split: option.splits)

lemma bh_vector_append_contents:
  assumes ok: "vec_ok v" and x: "length x = unat (size_elem v)"
  shows "case extend_vector malloc v (num_elems v + 1) of
      None \<Rightarrow> bh_vector_append malloc (Some v) (Some x) = Inr (False, Some v)
    | Some _ \<Rightarrow> \<exists>v'. bh_vector_append malloc (Some v) (Some x) = Inr (True, Some v') \<and> vec_ok v' \<and>
        contents v' = contents v @ [x] \<and> size_elem v' = size_elem v"
proof (cases "extend_vector malloc v (num_elems v + 1)")
  case None
  then show ?thesis by (simp add: bh_vector_append_def)
next
  case (Some v1)
  note e = extend_facts [OF ok Some]
  have n: "unat (num_elems v1 + 1) = Suc (unat (num_elems v1))" using e by (intro unat_num_plus) simp
  have room: "unat (num_elems v1) < unat (max_elems v1)" using e unat_num_plus [OF ok] by simp
  obtain d where d: "vdata v1 = Some d" "unat (num_elems v1) < length d"
    "put_slot v1 (unat (num_elems v1)) x = Inr (v1\<lparr>vdata := Some (d[unat (num_elems v1) := x])\<rparr>)"
    using put_slot_facts [of v1 "unat (num_elems v1)" x] e x room by auto
  let ?v' = "v1\<lparr>vdata := Some (d[unat (num_elems v1) := x]), num_elems := num_elems v1 + 1\<rparr>"
  have "vec_ok ?v'" using e x d(1) room by (intro vec_ok_update) (simp_all add: word_le_nat_alt n)
  moreover have "contents ?v' = contents v1 @ [x]"
    using d n by (simp add: contents_def take_Suc_conv_app_nth)
  ultimately show ?thesis
    using Some d e by (simp add: bh_vector_append_def)
qed

lemma bh_vector_set_contents:
  assumes ok: "vec_ok v" and x: "length x = unat (size_elem v)"
  shows "if unat index < length (contents v)
    then \<exists>v'. bh_vector_set (Some v) index (Some x) = Inr (True, Some v') \<and> vec_ok v' \<and>
           contents v' = (contents v)[unat index := x] \<and> size_elem v' = size_elem v
    else bh_vector_set (Some v) index (Some x) = Inr (False, Some v)"
proof (cases "unat index < unat (num_elems v)")
  case False
  then show ?thesis using ok by (simp add: bh_vector_set_def length_contents)
next
  case True
  have "unat index < unat (max_elems v)" using ok True by (simp add: vec_ok_def)
  then obtain d where d: "vdata v = Some d" "unat index < length d"
    "put_slot v (unat index) x = Inr (v\<lparr>vdata := Some (d[unat index := x])\<rparr>)"
    using put_slot_facts [OF ok, of "unat index" x] x by auto
  let ?v' = "v\<lparr>vdata := Some (d[unat index := x])\<rparr>"
  have "vec_ok ?v'" using vec_ok_update [OF ok x d(1), of "num_elems v"] ok by (simp add: vec_ok_def word_le_nat_alt)
  moreover have "contents ?v' = (contents v)[unat index := x]"
    using d by (simp add: contents_def take_update_swap)
  ultimately show ?thesis using True ok d by (simp add: bh_vector_set_def length_contents)
qed

subsection \<open>Removing\<close>

lemma vector_remove_loop_nth:
  "n < length d \<Longrightarrow> i \<le> n \<Longrightarrow>
   length (vector_remove_loop d i i n) = length d \<and>
   (\<forall>j < length d. vector_remove_loop d i i n ! j = (if i \<le> j \<and> j < n then d ! (j + 1) else d ! j))"
proof (induction "n - i" arbitrary: d i)
  case 0
  then show ?case by (auto simp: vector_remove_loop.simps)
next
  case (Suc k)
  let ?d = "d[i := d ! (i + 1)]"
  have "vector_remove_loop d i i n = vector_remove_loop ?d (i + 1) (i + 1) n"
    using Suc.hyps(2) by (subst vector_remove_loop.simps) auto
  moreover have "length (vector_remove_loop ?d (i + 1) (i + 1) n) = length ?d \<and>
     (\<forall>j < length ?d. vector_remove_loop ?d (i + 1) (i + 1) n ! j = (if i + 1 \<le> j \<and> j < n then ?d ! (j + 1) else ?d ! j))"
    using Suc.hyps(2) Suc.prems by (intro Suc.hyps(1)) auto
  ultimately show ?case
    using Suc.hyps(2) Suc.prems by (auto simp: nth_list_update)
qed

text \<open>The elements stay in the vector's slots: every slot holds an old slot.\<close>

lemma vec_ok_slots:
  assumes ok: "vec_ok v" and d: "vdata v = Some d" and len: "length d' = length d"
    and slots: "set d' \<subseteq> set d" and n: "n \<le> max_elems v"
  shows "vec_ok (v\<lparr>vdata := Some d', num_elems := n\<rparr>)"
  using assms by (auto simp: vec_ok_def word_le_nat_alt)

lemma set_by_nth:
  assumes "\<And>j. j < length d' \<Longrightarrow> \<exists>k < length d. d' ! j = d ! k"
  shows "set d' \<subseteq> set d"
  using assms by (metis in_set_conv_nth subsetI)

lemma bh_vector_remove_contents:
  assumes ok: "vec_ok v"
  shows "if unat index < length (contents v)
    then \<exists>v'. bh_vector_remove (Some v) index = Inr (Some (contents v ! unat index), Some v') \<and> vec_ok v' \<and>
           contents v' = take (unat index) (contents v) @ drop (Suc (unat index)) (contents v) \<and>
           size_elem v' = size_elem v
    else bh_vector_remove (Some v) index = Inr (None, Some v)"
proof (cases "unat index < unat (num_elems v)")
  case False
  then show ?thesis using ok by (simp add: bh_vector_remove_def length_contents)
next
  case True
  obtain d where d: "vdata v = Some d" "length d = unat (max_elems v)" "unat (num_elems v) \<le> length d"
    using ok by (auto simp: vec_ok_def split: option.splits)
  let ?i = "unat index" let ?n = "unat (num_elems v)"
  let ?d = "vector_remove_loop d ?i ?i (?n - 1)"
  let ?v = "v\<lparr>vdata := Some ?d, num_elems := num_elems v - 1\<rparr>"
  have loop: "length ?d = length d"
    "j < length d \<Longrightarrow> ?d ! j = (if ?i \<le> j \<and> j < ?n - 1 then d ! (j + 1) else d ! j)" for j
    using vector_remove_loop_nth [of "?n - 1" d ?i] True d(3) by auto
  have n1: "unat (num_elems v - 1) = ?n - 1" using True by (intro unat_minus_one) auto
  have "set ?d \<subseteq> set d"
  proof (rule set_by_nth)
    fix j assume "j < length ?d"
    then show "\<exists>k < length d. ?d ! j = d ! k"
      using loop d(3) by (intro exI [of _ "if ?i \<le> j \<and> j < ?n - 1 then j + 1 else j"]) auto
  qed
  then have "vec_ok ?v" using d n1 by (intro vec_ok_slots [OF ok d(1) loop(1)]) (auto simp: word_le_nat_alt)
  moreover have "contents ?v = take ?i (contents v) @ drop (Suc ?i) (contents v)"
    using True d loop n1 by (intro nth_equalityI) (auto simp: contents_def nth_append)
  ultimately show ?thesis
    using True d ok by (simp add: bh_vector_remove_def length_contents contents_def)
qed

subsection \<open>Inserting\<close>

lemma vector_insert_loop_nth:
  "Suc i < length d \<Longrightarrow> index \<le> i \<Longrightarrow>
   snd (vector_insert_loop d (Suc i) i index) = Suc index \<and>
   length (fst (vector_insert_loop d (Suc i) i index)) = length d \<and>
   (\<forall>j < length d. fst (vector_insert_loop d (Suc i) i index) ! j =
      (if Suc index < j \<and> j \<le> Suc i then d ! (j - 1) else d ! j))"
proof (induction "i - index" arbitrary: d i)
  case 0
  then show ?case by (auto simp: vector_insert_loop.simps)
next
  case (Suc k)
  let ?d = "d[Suc i := d ! i]"
  obtain i' where i': "i = Suc i'" using Suc.hyps(2) by (cases i) auto
  have step: "vector_insert_loop d (Suc i) i index = vector_insert_loop ?d (Suc i') i' index"
    using Suc.hyps(2) i' by (subst vector_insert_loop.simps) auto
  have "snd (vector_insert_loop ?d (Suc i') i' index) = Suc index \<and>
     length (fst (vector_insert_loop ?d (Suc i') i' index)) = length ?d \<and>
     (\<forall>j < length ?d. fst (vector_insert_loop ?d (Suc i') i' index) ! j =
        (if Suc index < j \<and> j \<le> Suc i' then ?d ! (j - 1) else ?d ! j))"
    using Suc.hyps(2) Suc.prems i' by (intro Suc.hyps(1)) auto
  then show ?case
    using Suc.prems i' Suc.hyps(2) unfolding step by (auto simp: nth_list_update)
qed

text \<open>Inserting puts the element one place behind the given index.\<close>

lemma bh_vector_insert_contents:
  assumes ok: "vec_ok v" and x: "length x = unat (size_elem v)"
    and i: "unat index < length (contents v)"
  shows "case extend_vector malloc v (num_elems v + 1) of
      None \<Rightarrow> bh_vector_insert malloc (Some v) index (Some x) = Inr (False, Some v)
    | Some _ \<Rightarrow> \<exists>v'. bh_vector_insert malloc (Some v) index (Some x) = Inr (True, Some v') \<and> vec_ok v' \<and>
        contents v' = take (Suc (unat index)) (contents v) @ x # drop (Suc (unat index)) (contents v) \<and>
        size_elem v' = size_elem v"
proof (cases "extend_vector malloc v (num_elems v + 1)")
  case None
  then show ?thesis using i ok by (simp add: bh_vector_insert_def length_contents)
next
  case (Some v1)
  note e = extend_facts [OF ok Some]
  let ?i = "unat index" let ?n = "unat (num_elems v1)"
  have in1: "?i < ?n" using i ok e by (simp add: length_contents)
  have n: "unat (num_elems v1 + 1) = Suc ?n" using e by (intro unat_num_plus) simp
  have room: "?n < unat (max_elems v1)" using e unat_num_plus [OF ok] by simp
  obtain d where d: "vdata v1 = Some d" "length d = unat (max_elems v1)"
    using e by (auto simp: vec_ok_def split: option.splits)
  obtain d' p where dp: "vector_insert_loop d ?n (?n - 1) ?i = (d', p)" by (cases "vector_insert_loop d ?n (?n - 1) ?i") auto
  have loop: "p = Suc ?i" "length d' = length d"
    "j < length d \<Longrightarrow> d' ! j = (if Suc ?i < j \<and> j \<le> ?n then d ! (j - 1) else d ! j)" for j
    using vector_insert_loop_nth [of "?n - 1" d ?i] in1 room d dp by auto
  have slots: "set d' \<subseteq> set d"
  proof (rule set_by_nth)
    fix j assume "j < length d'"
    then show "\<exists>k < length d. d' ! j = d ! k"
      using loop by (intro exI [of _ "if Suc ?i < j \<and> j \<le> ?n then j - 1 else j"]) auto
  qed
  let ?v' = "v1\<lparr>vdata := Some (d'[Suc ?i := x]), num_elems := num_elems v1 + 1\<rparr>"
  have "vec_ok (v1\<lparr>vdata := Some d'\<rparr>)"
    using e d loop(2) slots by (auto simp: vec_ok_def)
  then have "vec_ok ?v'"
    using vec_ok_update [of "v1\<lparr>vdata := Some d'\<rparr>" x d' "num_elems v1 + 1"] e x room n
    by (simp add: word_le_nat_alt)
  moreover have "contents ?v' = take (Suc ?i) (contents v1) @ x # drop (Suc ?i) (contents v1)"
    using d loop in1 room n
    by (auto simp: contents_def nth_append nth_Cons' nth_list_update intro!: nth_equalityI [where ys = "_ @ _ # _"]
        arg_cong [of _ _ "nth d"])
  ultimately show ?thesis
    using Some d e x dp loop in1 room
    by (simp add: bh_vector_insert_def put_slot_def)
qed

section \<open>Growing arrays\<close>

text \<open>
  What a client relies on, with the contents as a list: a lookup reads the list, a store changes
  one place, an append that succeeds adds at the end, a failed call changes nothing.
\<close>

locale growing_array =
  fixes inv :: "'v \<Rightarrow> bool"
    and fits :: "'v \<Rightarrow> 'e \<Rightarrow> bool"
    and items :: "'v \<Rightarrow> 'e list"
    and get_at :: "'v \<Rightarrow> u32 \<Rightarrow> fault + 'e option"
    and set_at :: "'v \<Rightarrow> u32 \<Rightarrow> 'e \<Rightarrow> fault + (bool \<times> 'v)"
    and add :: "'v \<Rightarrow> 'e \<Rightarrow> fault + (bool \<times> 'v)"
    and remove_at :: "'v \<Rightarrow> u32 \<Rightarrow> fault + ('e option \<times> 'v)"
  assumes get_items: "inv v \<Longrightarrow> get_at v i = Inr (if unat i < length (items v) then Some (items v ! unat i) else None)"
    and set_items: "inv v \<Longrightarrow> fits v x \<Longrightarrow> \<exists>b v'. set_at v i x = Inr (b, v') \<and> inv v' \<and> fits v' = fits v \<and>
          b = (unat i < length (items v)) \<and> items v' = (items v)[unat i := x]"
    and add_items: "inv v \<Longrightarrow> fits v x \<Longrightarrow> \<exists>b v'. add v x = Inr (b, v') \<and> inv v' \<and> fits v' = fits v \<and>
          items v' = (if b then items v @ [x] else items v)"
    and remove_items: "inv v \<Longrightarrow> \<exists>r v'. remove_at v i = Inr (r, v') \<and> inv v' \<and> fits v' = fits v \<and>
          r = (if unat i < length (items v) then Some (items v ! unat i) else None) \<and>
          items v' = (if unat i < length (items v) then take (unat i) (items v) @ drop (Suc (unat i)) (items v) else items v)"
begin

definition step :: "fault + (bool list \<times> 'v) \<Rightarrow> 'e \<Rightarrow> fault + (bool list \<times> 'v)" where
  "step r x = (case r of Inl f \<Rightarrow> Inl f | Inr (bs, v) \<Rightarrow> map_sum id (map_prod (\<lambda>b. bs @ [b]) id) (add v x))"

text \<open>A run of appends keeps, in order, exactly the elements whose call succeeded.\<close>

lemma add_all:
  assumes "inv v" and "\<forall>x \<in> set xs. fits v x"
  shows "\<exists>bs v'. foldl step (Inr (cs, v)) xs = Inr (cs @ bs, v') \<and> length bs = length xs \<and> inv v' \<and>
           items v' = items v @ map snd (filter fst (zip bs xs))"
  using assms
proof (induction xs arbitrary: v cs)
  case Nil
  then show ?case by simp
next
  case (Cons x xs)
  obtain b v1 where v1: "add v x = Inr (b, v1)" "inv v1" "fits v1 = fits v"
    "items v1 = (if b then items v @ [x] else items v)"
    using add_items [of v x] Cons.prems by auto
  obtain bs v' where "foldl step (Inr ((cs @ [b]), v1)) xs = Inr ((cs @ [b]) @ bs, v')" "length bs = length xs"
    "inv v'" "items v' = items v1 @ map snd (filter fst (zip bs xs))"
    using Cons.IH [OF v1(2), of "cs @ [b]"] Cons.prems v1(3) by auto
  then show ?case
    using v1 step_def [of "Inr (cs, v)" x] by (intro exI [of _ "b # bs"] exI [of _ v']) auto
qed

lemma get_after_set:
  assumes "inv v" and "fits v x" and "unat i < length (items v)"
  shows "\<exists>v'. set_at v i x = Inr (True, v') \<and> get_at v' j = (if i = j then Inr (Some x) else get_at v j)"
proof -
  obtain v' where v': "set_at v i x = Inr (True, v')" "inv v'" "items v' = (items v)[unat i := x]"
    using set_items [OF assms(1,2), of i] assms(3) by auto
  then show ?thesis
    using assms(3) by (auto simp: get_items [OF v'(2)] get_items [OF assms(1)] nth_list_update word_unat_eq_iff)
qed

lemma remove_after_add:
  assumes "inv v" and "fits v x" and "add v x = Inr (True, v')" and "length (items v) = unat i"
  shows "\<exists>v''. remove_at v' i = Inr (Some x, v'') \<and> items v'' = items v"
proof -
  have "inv v'" "items v' = items v @ [x]"
    using add_items [OF assms(1,2)] assms(3) by auto
  then show ?thesis using remove_items [of v' i] assms(4) [symmetric] by auto
qed

end

text \<open>The operations on a vector that is not null, with its buffer given.\<close>

definition vector_get :: "Vector \<Rightarrow> u32 \<Rightarrow> fault + elem option" where
  "vector_get v i = bh_vector_get (Some v) i True"

definition vector_set :: "Vector \<Rightarrow> u32 \<Rightarrow> elem \<Rightarrow> fault + (bool \<times> Vector)" where
  "vector_set v i x = map_sum id (map_prod id the) (bh_vector_set (Some v) i (Some x))"

definition vector_append :: "(u32 \<Rightarrow> bool) \<Rightarrow> Vector \<Rightarrow> elem \<Rightarrow> fault + (bool \<times> Vector)" where
  "vector_append malloc v x = map_sum id (map_prod id the) (bh_vector_append malloc (Some v) (Some x))"

definition vector_remove :: "Vector \<Rightarrow> u32 \<Rightarrow> fault + (elem option \<times> Vector)" where
  "vector_remove v i = map_sum id (map_prod id the) (bh_vector_remove (Some v) i)"

definition vec_fits :: "Vector \<Rightarrow> elem \<Rightarrow> bool" where
  "vec_fits v x \<longleftrightarrow> length x = unat (size_elem v)"

interpretation vector: growing_array vec_ok vec_fits contents vector_get vector_set
  "vector_append malloc" vector_remove for malloc
proof unfold_locales
  fix v :: Vector and x i assume ok: "vec_ok v"
  show "vector_get v i = Inr (if unat i < length (contents v) then Some (contents v ! unat i) else None)"
    by (simp add: vector_get_def bh_vector_get_contents [OF ok])
  show "\<exists>r v'. vector_remove v i = Inr (r, v') \<and> vec_ok v' \<and> vec_fits v' = vec_fits v \<and>
      r = (if unat i < length (contents v) then Some (contents v ! unat i) else None) \<and>
      contents v' = (if unat i < length (contents v)
        then take (unat i) (contents v) @ drop (Suc (unat i)) (contents v) else contents v)"
    using bh_vector_remove_contents [OF ok, of i] ok
    by (auto simp: vector_remove_def vec_fits_def fun_eq_iff split: if_splits)
  assume x: "vec_fits v x"
  show "\<exists>b v'. vector_set v i x = Inr (b, v') \<and> vec_ok v' \<and> vec_fits v' = vec_fits v \<and>
      b = (unat i < length (contents v)) \<and> contents v' = (contents v)[unat i := x]"
    using bh_vector_set_contents [OF ok, of x i] ok x
    by (auto simp: vector_set_def vec_fits_def fun_eq_iff list_update_beyond split: if_splits)
  show "\<exists>b v'. vector_append malloc v x = Inr (b, v') \<and> vec_ok v' \<and> vec_fits v' = vec_fits v \<and>
      contents v' = (if b then contents v @ [x] else contents v)"
    using bh_vector_append_contents [OF ok, of x malloc] ok x
    by (auto simp: vector_append_def vec_fits_def fun_eq_iff split: option.splits)
qed

text \<open>A new vector is an empty array.\<close>

lemma bh_vector_init_ok:
  assumes "bh_vector_init malloc lock_ok init_ok (Some v0) n esize use_lock = (True, Some v)"
  shows "vec_ok v \<and> contents v = [] \<and> size_elem v = esize \<and> vlock v = use_lock"
proof -
  define n' where "n' = (if n = 0 then 4 else n)"
  obtain d where d: "alloc_vector_data malloc n' esize = Some d"
    using assms by (auto simp: bh_vector_init_def Let_def n'_def split: option.splits)
  then show ?thesis
    using assms alloc_facts [OF d]
    by (auto simp: bh_vector_init_def Let_def n'_def [symmetric] vec_ok_def contents_def split: if_splits)
qed

end
