(* ===== verification/Bh_Hashmap.thy ===== *)
theory Bh_Hashmap
  imports Prelude
begin

text \<open>
  The chained hash map of the WebAssembly runtime, \<open>wamr/core/shared/utils/bh_hashmap.c\<close>. A bucket
  is the list of its elements in chain order; a null map or key is \<open>None\<close>. The hash and equality
  functions are fields of the map, as in the code. What the destroy functions are called with and
  which elements are freed is recorded as a list of events.

  \<open>hash_key\<close> is what the map needs of a key type. Under it the map implements a finite map from
  keys to values. The key functions of the runtime's own maps (external references, wait
  addresses, thread handles) are instances.
\<close>

section \<open>The map\<close>

record ('k, 'v) HashMap =
  msize :: u32
  mlock :: bool
  hash_func :: "'k \<Rightarrow> u32"
  key_equal_func :: "'k \<Rightarrow> 'k \<Rightarrow> bool"
  key_destroy_func :: bool
  value_destroy_func :: bool
  elements :: "('k \<times> 'v) list list"

datatype ('k, 'v) hm_event = Destroy_key 'k | Destroy_value 'v | Free_elem 'k

definition HASH_MAP_MIN_SIZE :: u32 where "HASH_MAP_MIN_SIZE = 4"
definition HASH_MAP_MAX_SIZE :: u32 where "HASH_MAP_MAX_SIZE = 65536"

text \<open>
  \<open>hash_func\<close> and \<open>key_equal_func\<close> may be null. \<open>malloc n\<close> tells whether \<open>n\<close> bytes can be
  allocated, \<open>mutex_size\<close> is the size of a mutex and \<open>init_ok\<close> whether initialising it succeeds. The
  fields before the array of buckets take 48 bytes, a pointer takes 8.
\<close>

definition bh_hash_map_create ::
    "(u32 \<Rightarrow> bool) \<Rightarrow> u32 \<Rightarrow> bool \<Rightarrow> u32 \<Rightarrow> bool \<Rightarrow> ('k \<Rightarrow> u32) option \<Rightarrow> ('k \<Rightarrow> 'k \<Rightarrow> bool) option \<Rightarrow>
     bool \<Rightarrow> bool \<Rightarrow> ('k, 'v) HashMap option" where
  "bh_hash_map_create malloc mutex_size init_ok msz use_lock hf eqf kd vd =
     (let msz = (if msz < HASH_MAP_MIN_SIZE then HASH_MAP_MIN_SIZE else msz) in
      if msz > HASH_MAP_MAX_SIZE then None
      else (case (hf, eqf) of
        (Some h, Some eq) \<Rightarrow>
          let total_size = (48 :: u64) + 8 * ucast msz + (if use_lock then ucast mutex_size else 0) in
          if \<not> malloc (ucast total_size) then None
          else if use_lock \<and> \<not> init_ok then None
          else Some \<lparr>msize = msz, mlock = use_lock, hash_func = h, key_equal_func = eq,
                     key_destroy_func = kd, value_destroy_func = vd, elements = replicate (unat msz) []\<rparr>
      | _ \<Rightarrow> None))"

definition bucket_index :: "('k, 'v) HashMap \<Rightarrow> 'k \<Rightarrow> nat" where
  "bucket_index m k = unat (hash_func m k mod msize m)"

text \<open>The chain walk that insertion, lookup and update share: is there an element with this key?\<close>

fun find_elem :: "('k \<Rightarrow> bool) \<Rightarrow> ('k \<times> 'v) list \<Rightarrow> ('k \<times> 'v) option" where
  "find_elem p [] = None"
| "find_elem p (e # es) = (if p (fst e) then Some e else find_elem p es)"

fun update_elem :: "('k \<Rightarrow> bool) \<Rightarrow> 'v \<Rightarrow> ('k \<times> 'v) list \<Rightarrow> ('k \<times> 'v) list" where
  "update_elem p v [] = []"
| "update_elem p v (e # es) = (if p (fst e) then (fst e, v) # es else e # update_elem p v es)"

fun remove_elem :: "('k \<Rightarrow> bool) \<Rightarrow> ('k \<times> 'v) list \<Rightarrow> ('k \<times> 'v) list" where
  "remove_elem p [] = []"
| "remove_elem p (e # es) = (if p (fst e) then es else e # remove_elem p es)"

definition bh_hash_map_insert ::
    "bool \<Rightarrow> ('k, 'v) HashMap option \<Rightarrow> 'k option \<Rightarrow> 'v \<Rightarrow> bool \<times> ('k, 'v) HashMap option" where
  "bh_hash_map_insert malloc_ok hmap key v =
     (case (hmap, key) of
        (Some m, Some k) \<Rightarrow>
          let i = bucket_index m k; b = elements m ! i in
          (case find_elem (\<lambda>k'. key_equal_func m k' k) b of
             Some _ \<Rightarrow> (False, Some m)
           | None \<Rightarrow>
               if \<not> malloc_ok then (False, Some m)
               else (True, Some (m\<lparr>elements := (elements m)[i := (k, v) # b]\<rparr>)))
      | _ \<Rightarrow> (False, hmap))"

text \<open>A lookup that finds nothing returns the null pointer, \<open>None\<close>.\<close>

definition bh_hash_map_find :: "('k, 'v) HashMap option \<Rightarrow> 'k option \<Rightarrow> 'v option" where
  "bh_hash_map_find hmap key =
     (case (hmap, key) of
        (Some m, Some k) \<Rightarrow>
          map_option snd (find_elem (\<lambda>k'. key_equal_func m k' k) (elements m ! bucket_index m k))
      | _ \<Rightarrow> None)"

text \<open>The old value is what \<open>p_old_value\<close> receives, when it is not null.\<close>

definition bh_hash_map_update ::
    "('k, 'v) HashMap option \<Rightarrow> 'k option \<Rightarrow> 'v \<Rightarrow> bool \<times> 'v option \<times> ('k, 'v) HashMap option" where
  "bh_hash_map_update hmap key v =
     (case (hmap, key) of
        (Some m, Some k) \<Rightarrow>
          let i = bucket_index m k; b = elements m ! i; p = (\<lambda>k'. key_equal_func m k' k) in
          (case find_elem p b of
             None \<Rightarrow> (False, None, Some m)
           | Some e \<Rightarrow> (True, Some (snd e), Some (m\<lparr>elements := (elements m)[i := update_elem p v b]\<rparr>)))
      | _ \<Rightarrow> (False, None, hmap))"

definition bh_hash_map_remove ::
    "('k, 'v) HashMap option \<Rightarrow> 'k option \<Rightarrow> bool \<times> ('k \<times> 'v) option \<times> ('k, 'v) HashMap option" where
  "bh_hash_map_remove hmap key =
     (case (hmap, key) of
        (Some m, Some k) \<Rightarrow>
          let i = bucket_index m k; b = elements m ! i; p = (\<lambda>k'. key_equal_func m k' k) in
          (case find_elem p b of
             None \<Rightarrow> (False, None, Some m)
           | Some e \<Rightarrow> (True, Some e, Some (m\<lparr>elements := (elements m)[i := remove_elem p b]\<rparr>)))
      | _ \<Rightarrow> (False, None, hmap))"

definition destroy_elem :: "('k, 'v) HashMap \<Rightarrow> 'k \<times> 'v \<Rightarrow> ('k, 'v) hm_event list" where
  "destroy_elem m e =
     (if key_destroy_func m then [Destroy_key (fst e)] else []) @
     (if value_destroy_func m then [Destroy_value (snd e)] else []) @ [Free_elem (fst e)]"

function destroy_from :: "('k, 'v) HashMap \<Rightarrow> nat \<Rightarrow> ('k, 'v) hm_event list" where
  "destroy_from m index =
     (if index < unat (msize m)
      then concat (map (destroy_elem m) (elements m ! index)) @ destroy_from m (index + 1) else [])"
  by pat_completeness auto
termination by (relation "measure (\<lambda>(m, index). unat (msize m) - index)") auto

definition bh_hash_map_destroy :: "('k, 'v) HashMap option \<Rightarrow> bool \<times> ('k, 'v) hm_event list" where
  "bh_hash_map_destroy hmap = (case hmap of None \<Rightarrow> (False, []) | Some m \<Rightarrow> (True, destroy_from m 0))"

definition bh_hash_map_get_struct_size :: "u32 \<Rightarrow> ('k, 'v) HashMap \<Rightarrow> u32" where
  "bh_hash_map_get_struct_size mutex_size m = 48 + 8 * msize m + (if mlock m then mutex_size else 0)"

definition bh_hash_map_get_elem_struct_size :: u32 where
  "bh_hash_map_get_elem_struct_size = 24"

text \<open>The calls of the callback, in order; it may not change the map.\<close>

function traverse_from :: "('k, 'v) HashMap \<Rightarrow> ('k \<Rightarrow> 'v \<Rightarrow> 's \<Rightarrow> 's) \<Rightarrow> nat \<Rightarrow> 's \<Rightarrow> 's" where
  "traverse_from m callback index user_data =
     (if index < unat (msize m)
      then traverse_from m callback (index + 1)
             (fold (\<lambda>e. callback (fst e) (snd e)) (elements m ! index) user_data)
      else user_data)"
  by pat_completeness auto
termination by (relation "measure (\<lambda>(m, c, index, s). unat (msize m) - index)") auto

definition bh_hash_map_traverse ::
    "('k, 'v) HashMap option \<Rightarrow> ('k \<Rightarrow> 'v \<Rightarrow> 's \<Rightarrow> 's) option \<Rightarrow> 's \<Rightarrow> bool \<times> 's" where
  "bh_hash_map_traverse hmap callback user_data =
     (case (hmap, callback) of
        (Some m, Some c) \<Rightarrow> (True, traverse_from m c 0 user_data)
      | _ \<Rightarrow> (False, user_data))"

declare destroy_from.simps [simp del] traverse_from.simps [simp del]

section \<open>Well-formed maps\<close>

text \<open>
  Every bucket holds keys of its own index, no two of them equal for the key function; there is at
  least one bucket, so that no index is computed modulo zero.
\<close>

definition hm_ok :: "('k, 'v) HashMap \<Rightarrow> bool" where
  "hm_ok m \<longleftrightarrow>
     0 < unat (msize m) \<and> length (elements m) = unat (msize m) \<and>
     (\<forall>i < length (elements m).
        (\<forall>e \<in> set (elements m ! i). bucket_index m (fst e) = i) \<and>
        sorted_wrt (\<lambda>e e'. \<not> key_equal_func m (fst e) (fst e')) (elements m ! i))"

lemma bucket_index_less: "hm_ok m \<Longrightarrow> bucket_index m k < length (elements m)"
  by (simp add: hm_ok_def bucket_index_def unat_mod)

lemma bucket_index_elements [simp]: "bucket_index (m\<lparr>elements := es\<rparr>) k = bucket_index m k"
  by (simp add: bucket_index_def)

lemma hm_ok_update:
  assumes "hm_ok m" and "i < length (elements m)" and "\<forall>e \<in> set b. bucket_index m (fst e) = i"
    and "sorted_wrt (\<lambda>e e'. \<not> key_equal_func m (fst e) (fst e')) b"
  shows "hm_ok (m\<lparr>elements := (elements m)[i := b]\<rparr>)"
  using assms by (auto simp: hm_ok_def nth_list_update)

text \<open>The finite map a hash map stands for.\<close>

definition stands_for :: "('k, 'v) HashMap \<Rightarrow> 'k \<Rightarrow> 'v option" where
  "stands_for m = (\<lambda>k. bh_hash_map_find (Some m) (Some k))"

text \<open>A new map is well formed and empty.\<close>

lemma bh_hash_map_create_ok:
  assumes "bh_hash_map_create malloc mutex_size init_ok msz use_lock hf eqf kd vd = Some m"
  shows "hm_ok m \<and> concat (elements m) = [] \<and> hf = Some (hash_func m) \<and> eqf = Some (key_equal_func m) \<and>
         4 \<le> unat (msize m) \<and> unat (msize m) \<le> 65536"
  using assms
  by (auto simp: bh_hash_map_create_def hm_ok_def Let_def HASH_MAP_MIN_SIZE_def HASH_MAP_MAX_SIZE_def
      word_less_nat_alt split: option.splits if_splits)

subsection \<open>Chains\<close>

lemma find_elem_iff: "find_elem p b = None \<longleftrightarrow> (\<forall>e \<in> set b. \<not> p (fst e))"
  by (induction b) auto

lemma find_elem_Some: "find_elem p b = Some e \<Longrightarrow> e \<in> set b \<and> p (fst e)"
  by (induction b) (auto split: if_splits)

lemma set_remove_elem: "set (remove_elem p b) \<subseteq> set b"
  by (induction b) auto

lemma fst_update_elem: "map fst (update_elem p v b) = map fst b"
  by (induction b) auto

lemma sorted_wrt_fst: "sorted_wrt (\<lambda>e e'. P (fst e) (fst e')) b = sorted_wrt P (map fst b)"
  by (simp add: sorted_wrt_map)

lemma sorted_remove_elem: "sorted_wrt P b \<Longrightarrow> sorted_wrt P (remove_elem p b)"
  by (induction b) (use set_remove_elem in \<open>auto split: if_splits\<close>)

lemma update_elem_None: "find_elem p b = None \<Longrightarrow> update_elem p v b = b"
  by (induction b) (auto split: if_splits)

section \<open>The contract\<close>

text \<open>
  What the map asks of a key type: equality of keys is an equivalence, and equal keys have the same
  hash.
\<close>

locale hash_key =
  fixes hash :: "'k \<Rightarrow> u32" and same :: "'k \<Rightarrow> 'k \<Rightarrow> bool"
  assumes same_refl: "same k k"
    and same_sym: "same k k' \<Longrightarrow> same k' k"
    and same_trans: "same k k' \<Longrightarrow> same k' k'' \<Longrightarrow> same k k''"
    and same_hash: "same k k' \<Longrightarrow> hash k = hash k'"
begin

definition uses :: "('k, 'v) HashMap \<Rightarrow> bool" where
  "uses m \<longleftrightarrow> hm_ok m \<and> hash_func m = hash \<and> key_equal_func m = same"

lemma same_bucket: "uses m \<Longrightarrow> same k k' \<Longrightarrow> bucket_index m k = bucket_index m k'"
  using same_hash by (simp add: uses_def bucket_index_def)

lemma same_cong: "same k k' \<Longrightarrow> same x k \<longleftrightarrow> same x k'"
  using same_sym same_trans by blast

lemma same_left: "same k k' \<Longrightarrow> same k x \<longleftrightarrow> same k' x"
  using same_sym same_trans by blast

lemma lookup_bucket:
  "uses m \<Longrightarrow> stands_for m k = map_option snd (find_elem (\<lambda>x. same x k) (elements m ! bucket_index m k))"
  by (simp add: uses_def stands_for_def bh_hash_map_find_def)

lemma bucket_sorted:
  assumes "uses m"
  shows "sorted_wrt (\<lambda>e e'. \<not> same (fst e) (fst e')) (elements m ! bucket_index m k)"
    and "\<forall>e \<in> set (elements m ! bucket_index m k). bucket_index m (fst e) = bucket_index m k"
  using assms bucket_index_less [of m k] unfolding uses_def hm_ok_def by metis+

lemma uses_update:
  assumes "uses m" and "\<forall>e \<in> set b. bucket_index m (fst e) = bucket_index m k"
    and "sorted_wrt (\<lambda>e e'. \<not> same (fst e) (fst e')) b"
  shows "uses (m\<lparr>elements := (elements m)[bucket_index m k := b]\<rparr>)"
  using assms hm_ok_update [of m "bucket_index m k" b] bucket_index_less [of m k] by (simp add: uses_def)

text \<open>A chain that changes at one key only changes lookups of that key.\<close>

lemma lookup_update:
  assumes m: "uses m" and m': "uses (m\<lparr>elements := (elements m)[bucket_index m k := b]\<rparr>)"
    and at: "\<And>k'. map_option snd (find_elem (\<lambda>x. same x k') b) =
      (if same k k' then r else map_option snd (find_elem (\<lambda>x. same x k') (elements m ! bucket_index m k)))"
  shows "stands_for (m\<lparr>elements := (elements m)[bucket_index m k := b]\<rparr>) k' = (if same k k' then r else stands_for m k')"
  using at [of k'] same_bucket [OF m, of k k'] bucket_index_less [of m k] m
  by (auto simp: lookup_bucket [OF m] lookup_bucket [OF m'] nth_list_update uses_def)

lemma insert_lookup:
  assumes m: "uses m"
  shows "case stands_for m k of
      Some _ \<Rightarrow> bh_hash_map_insert malloc_ok (Some m) (Some k) v = (False, Some m)
    | None \<Rightarrow> if malloc_ok then
        \<exists>m'. bh_hash_map_insert malloc_ok (Some m) (Some k) v = (True, Some m') \<and> uses m' \<and>
          (\<forall>k'. stands_for m' k' = (if same k k' then Some v else stands_for m k'))
        else bh_hash_map_insert malloc_ok (Some m) (Some k) v = (False, Some m)"
proof (cases "find_elem (\<lambda>x. same x k) (elements m ! bucket_index m k)")
  case (Some e)
  then show ?thesis using m by (simp add: lookup_bucket bh_hash_map_insert_def Let_def uses_def)
next
  case None
  let ?b = "elements m ! bucket_index m k"
  let ?m = "m\<lparr>elements := (elements m)[bucket_index m k := (k, v) # ?b]\<rparr>"
  have "\<forall>e \<in> set ?b. \<not> same k (fst e)" using None same_sym by (auto simp: find_elem_iff)
  then have m': "uses ?m" using bucket_sorted [OF m] by (intro uses_update [OF m]) auto
  have "stands_for ?m k' = (if same k k' then Some v else stands_for m k')" for k'
    by (rule lookup_update [OF m m']) simp
  moreover have "stands_for m k = None" using None by (simp add: lookup_bucket [OF m])
  ultimately show ?thesis
    using None m m' by (simp add: bh_hash_map_insert_def uses_def Let_def)
qed

lemma find_update_elem:
  "find_elem (\<lambda>x. same x k) b \<noteq> None \<Longrightarrow>
   map_option snd (find_elem (\<lambda>x. same x k') (update_elem (\<lambda>x. same x k) v b)) =
   (if same k k' then Some v else map_option snd (find_elem (\<lambda>x. same x k') b))"
proof (induction b)
  case (Cons e b)
  then show ?case
    using same_cong [of k k' "fst e"] same_left [of "fst e" k k'] by (cases "same (fst e) k") auto
qed simp

lemma update_lookup:
  assumes m: "uses m"
  shows "case stands_for m k of
      None \<Rightarrow> bh_hash_map_update (Some m) (Some k) v = (False, None, Some m)
    | Some old \<Rightarrow> \<exists>m'. bh_hash_map_update (Some m) (Some k) v = (True, Some old, Some m') \<and> uses m' \<and>
        (\<forall>k'. stands_for m' k' = (if same k k' then Some v else stands_for m k'))"
proof (cases "find_elem (\<lambda>x. same x k) (elements m ! bucket_index m k)")
  case None
  then show ?thesis using m by (simp add: lookup_bucket bh_hash_map_update_def Let_def uses_def)
next
  case (Some e)
  let ?b = "elements m ! bucket_index m k"
  let ?b' = "update_elem (\<lambda>x. same x k) v ?b"
  let ?m = "m\<lparr>elements := (elements m)[bucket_index m k := ?b']\<rparr>"
  have keys: "map fst ?b' = map fst ?b" by (rule fst_update_elem)
  have "\<forall>x \<in> set (map fst ?b'). bucket_index m x = bucket_index m k"
    unfolding keys using bucket_sorted(2) [OF m] by simp
  then have "\<forall>e \<in> set ?b'. bucket_index m (fst e) = bucket_index m k" by simp
  then have m': "uses ?m"
    using bucket_sorted(1) [OF m]
    by (intro uses_update [OF m]) (simp_all add: sorted_wrt_fst [of "\<lambda>x y. \<not> same x y"] keys)
  have "stands_for ?m k' = (if same k k' then Some v else stands_for m k')" for k'
    by (rule lookup_update [OF m m']) (simp add: find_update_elem Some)
  moreover have "stands_for m k = Some (snd e)" using Some by (simp add: lookup_bucket [OF m])
  ultimately show ?thesis
    using Some m m' by (simp add: bh_hash_map_update_def uses_def Let_def)
qed

lemma find_remove_elem:
  "sorted_wrt (\<lambda>e e'. \<not> same (fst e) (fst e')) b \<Longrightarrow>
   map_option snd (find_elem (\<lambda>x. same x k') (remove_elem (\<lambda>x. same x k) b)) =
   (if same k k' then None else map_option snd (find_elem (\<lambda>x. same x k') b))"
proof (induction b)
  case (Cons e b)
  show ?case
  proof (cases "same (fst e) k")
    case True
    have "\<not> same (fst e') k" if "e' \<in> set b" for e'
    proof
      assume "same (fst e') k"
      then have "same (fst e) (fst e')" using True same_sym same_trans by blast
      then show False using Cons.prems that by simp
    qed
    then have "find_elem (\<lambda>x. same x k) b = None" by (simp add: find_elem_iff)
    then show ?thesis
      using True same_cong [of k k'] same_left [of "fst e" k k'] by (auto simp: find_elem_iff)
  next
    case False
    then show ?thesis using Cons same_cong [of k k' "fst e"] by auto
  qed
qed simp

lemma remove_lookup:
  assumes m: "uses m"
  shows "case stands_for m k of
      None \<Rightarrow> bh_hash_map_remove (Some m) (Some k) = (False, None, Some m)
    | Some old \<Rightarrow> \<exists>k0 m'. bh_hash_map_remove (Some m) (Some k) = (True, Some (k0, old), Some m') \<and> same k0 k \<and>
        uses m' \<and> (\<forall>k'. stands_for m' k' = (if same k k' then None else stands_for m k'))"
proof (cases "find_elem (\<lambda>x. same x k) (elements m ! bucket_index m k)")
  case None
  then show ?thesis using m by (simp add: lookup_bucket bh_hash_map_remove_def Let_def uses_def)
next
  case (Some e)
  let ?b = "elements m ! bucket_index m k"
  let ?b' = "remove_elem (\<lambda>x. same x k) ?b"
  let ?m = "m\<lparr>elements := (elements m)[bucket_index m k := ?b']\<rparr>"
  note b = bucket_sorted [OF m, of k]
  have m': "uses ?m"
    using b set_remove_elem [of "\<lambda>x. same x k" ?b] by (intro uses_update [OF m]) (auto intro: sorted_remove_elem)
  have "stands_for ?m k' = (if same k k' then None else stands_for m k')" for k'
    by (rule lookup_update [OF m m']) (simp add: find_remove_elem [OF b(1)])
  moreover have "stands_for m k = Some (snd e)" using Some by (simp add: lookup_bucket [OF m])
  ultimately show ?thesis
    using Some find_elem_Some [OF Some] m m'
    by (cases e) (simp add: bh_hash_map_remove_def uses_def Let_def)
qed

text \<open>What was inserted comes back, and only once: the second insertion of the same key fails.\<close>

lemma insert_find_remove:
  assumes m: "uses m" and free: "stands_for m k = None" and kk: "same k k'"
  shows "\<exists>m'. bh_hash_map_insert True (Some m) (Some k) v = (True, Some m') \<and>
    bh_hash_map_find (Some m') (Some k') = Some v \<and>
    bh_hash_map_insert True (Some m') (Some k') w = (False, Some m') \<and>
    (\<exists>k0 m''. bh_hash_map_remove (Some m') (Some k') = (True, Some (k0, v), Some m'') \<and> stands_for m'' = stands_for m)"
proof -
  obtain m' where m': "bh_hash_map_insert True (Some m) (Some k) v = (True, Some m')" "uses m'"
    "\<forall>x. stands_for m' x = (if same k x then Some v else stands_for m x)"
    using insert_lookup [OF m, where k = k and malloc_ok = True and v = v] free by auto
  then have found: "stands_for m' k' = Some v" using kk by simp
  obtain k0 m'' where m'': "bh_hash_map_remove (Some m') (Some k') = (True, Some (k0, v), Some m'')"
    "\<forall>x. stands_for m'' x = (if same k' x then None else stands_for m' x)"
    using remove_lookup [OF m'(2), of k'] found by auto
  have "stands_for m x = None" if "same k x" for x
    using free same_bucket [OF m that] same_cong [OF that]
    by (simp add: lookup_bucket [OF m])
  then have "stands_for m'' x = stands_for m x" for x
    using m'(3) m''(2) same_left [OF kk, of x] by simp
  then have "stands_for m'' = stands_for m" by (rule ext)
  then show ?thesis
    using m'(1) m''(1) found insert_lookup [OF m'(2), where k = k' and malloc_ok = True and v = w] by (auto simp: stands_for_def)
qed

end

section \<open>Walking over all elements\<close>

lemma destroy_from_elements:
  "length (elements m) = unat (msize m) \<Longrightarrow>
   destroy_from m i = concat (map (destroy_elem m) (concat (drop i (elements m))))"
proof (induction "length (elements m) - i" arbitrary: i)
  case 0
  then show ?case by (simp add: destroy_from.simps)
next
  case (Suc n)
  then have "drop i (elements m) = elements m ! i # drop (Suc i) (elements m)"
    by (intro Cons_nth_drop_Suc [symmetric]) simp
  then show ?case using Suc by (subst destroy_from.simps) auto
qed

lemma traverse_from_elements:
  "length (elements m) = unat (msize m) \<Longrightarrow>
   traverse_from m c i s = fold (\<lambda>e. c (fst e) (snd e)) (concat (drop i (elements m))) s"
proof (induction "length (elements m) - i" arbitrary: i s)
  case 0
  then show ?case by (simp add: traverse_from.simps)
next
  case (Suc n)
  then have "drop i (elements m) = elements m ! i # drop (Suc i) (elements m)"
    by (intro Cons_nth_drop_Suc [symmetric]) simp
  then show ?case using Suc by (subst traverse_from.simps) auto
qed

lemma bh_hash_map_traverse_elements:
  "hm_ok m \<Longrightarrow>
   bh_hash_map_traverse (Some m) (Some c) s = (True, fold (\<lambda>e. c (fst e) (snd e)) (concat (elements m)) s)"
  by (simp add: bh_hash_map_traverse_def traverse_from_elements hm_ok_def)

lemma bh_hash_map_destroy_elements:
  "hm_ok m \<Longrightarrow>
   bh_hash_map_destroy (Some m) = (True, concat (map (destroy_elem m) (concat (elements m))))"
  by (simp add: bh_hash_map_destroy_def destroy_from_elements hm_ok_def)

section \<open>The keys of the runtime\<close>

text \<open>
  A key is a pointer-sized word. External references and thread handles compare the low 32 bits,
  wait addresses compare whole pointers.
\<close>

definition wasm_externref_hash :: "u64 \<Rightarrow> u32" where
  "wasm_externref_hash key = ucast key"

definition wasm_externref_equal :: "u64 \<Rightarrow> u64 \<Rightarrow> bool" where
  "wasm_externref_equal key1 key2 \<longleftrightarrow> (ucast key1 :: u32) = ucast key2"

definition wait_address_hash :: "u64 \<Rightarrow> u32" where
  "wait_address_hash address = ucast address"

definition wait_address_equal :: "u64 \<Rightarrow> u64 \<Rightarrow> bool" where
  "wait_address_equal h1 h2 \<longleftrightarrow> h1 = h2"

definition thread_handle_hash :: "u64 \<Rightarrow> u32" where
  "thread_handle_hash handle = ucast handle"

definition thread_handle_equal :: "u64 \<Rightarrow> u64 \<Rightarrow> bool" where
  "thread_handle_equal h1 h2 \<longleftrightarrow> (ucast h1 :: u32) = ucast h2"

interpretation externref: hash_key wasm_externref_hash wasm_externref_equal
  by unfold_locales (auto simp: wasm_externref_hash_def wasm_externref_equal_def)

interpretation wait_address: hash_key wait_address_hash wait_address_equal
  by unfold_locales (auto simp: wait_address_hash_def wait_address_equal_def)

interpretation thread_handle: hash_key thread_handle_hash thread_handle_equal
  by unfold_locales (auto simp: thread_handle_hash_def thread_handle_equal_def)

end
