(* ===== verification/Bh_List.thy ===== *)
theory Bh_List
  imports Prelude
begin

text \<open>
  The intrusive linked list of the WebAssembly runtime, \<open>wamr/core/shared/utils/bh_list.c\<close>. The
  links live in the elements, so the state has a heap: the \<open>next\<close> field of every element, by
  address. Address 0 is the null pointer, a null list is \<open>None\<close>. The loops follow pointers and may
  run forever on a cyclic heap: they are partial functions, and \<open>None\<close> means that they do not return.

  A heap and a list represent a sequence of addresses; on such a heap every loop returns, and each
  operation is the one on sequences (\<open>link_list\<close> is the interface, with the runtime's list as its
  instance). Insertion is in front.
\<close>

section \<open>The list\<close>

type_synonym ptr = u64
type_synonym links = "ptr \<Rightarrow> ptr"

record bh_list =
  head_next :: ptr
  len :: u32

datatype bh_list_status = BH_LIST_SUCCESS | BH_LIST_ERROR

definition bh_list_init :: "bh_list option \<Rightarrow> bh_list_status \<times> bh_list option" where
  "bh_list_init l =
     (case l of None \<Rightarrow> (BH_LIST_ERROR, None)
      | Some l \<Rightarrow> (BH_LIST_SUCCESS, Some (l\<lparr>head_next := 0, len := 0\<rparr>)))"

partial_function (option) list_exist_loop :: "links \<Rightarrow> ptr \<Rightarrow> ptr \<Rightarrow> bool option" where
  "list_exist_loop nxt elem p =
     (if p \<noteq> 0 \<and> p \<noteq> elem then list_exist_loop nxt elem (nxt p) else Some (p \<noteq> 0))"

definition bh_list_is_elem_exist :: "links \<Rightarrow> bh_list option \<Rightarrow> ptr \<Rightarrow> bool option" where
  "bh_list_is_elem_exist nxt l elem =
     (case l of None \<Rightarrow> Some False
      | Some l \<Rightarrow> if elem = 0 then Some False else list_exist_loop nxt elem (head_next l))"

text \<open>\<open>debug\<close> is \<open>BH_DEBUG != 0\<close>: then inserting an element twice fails an assertion.\<close>

definition bh_list_insert ::
    "bool \<Rightarrow> links \<Rightarrow> bh_list option \<Rightarrow> ptr \<Rightarrow> (fault + bh_list_status \<times> links \<times> bh_list option) option" where
  "bh_list_insert debug nxt l elem =
     (case l of
        None \<Rightarrow> Some (Inr (BH_LIST_ERROR, nxt, None))
      | Some li \<Rightarrow>
          if elem = 0 then Some (Inr (BH_LIST_ERROR, nxt, Some li))
          else (case (if debug then bh_list_is_elem_exist nxt l elem else Some False) of
            None \<Rightarrow> None
          | Some True \<Rightarrow> Some (Inl Abort)
          | Some False \<Rightarrow>
              Some (Inr (BH_LIST_SUCCESS, nxt(elem := head_next li),
                         Some (li\<lparr>head_next := elem, len := len li + 1\<rparr>)))))"

partial_function (option) list_remove_loop ::
    "links \<Rightarrow> bh_list \<Rightarrow> ptr \<Rightarrow> ptr \<Rightarrow> ptr \<Rightarrow> (bh_list_status \<times> links \<times> bh_list) option" where
  "list_remove_loop nxt l elem prev cur =
     (if cur = 0 then Some (BH_LIST_ERROR, nxt, l)
      else if cur = elem then
        (if prev \<noteq> 0 then Some (BH_LIST_SUCCESS, nxt(prev := nxt cur), l\<lparr>len := len l - 1\<rparr>)
         else Some (BH_LIST_SUCCESS, nxt, l\<lparr>head_next := nxt cur, len := len l - 1\<rparr>))
      else list_remove_loop nxt l elem cur (nxt cur))"

definition bh_list_remove ::
    "links \<Rightarrow> bh_list option \<Rightarrow> ptr \<Rightarrow> (bh_list_status \<times> links \<times> bh_list option) option" where
  "bh_list_remove nxt l elem =
     (case l of
        None \<Rightarrow> Some (BH_LIST_ERROR, nxt, None)
      | Some li \<Rightarrow>
          if elem = 0 then Some (BH_LIST_ERROR, nxt, Some li)
          else map_option (\<lambda>(s, nxt, li). (s, nxt, Some li)) (list_remove_loop nxt li elem 0 (head_next li)))"

definition bh_list_length :: "bh_list option \<Rightarrow> u32" where
  "bh_list_length l = (case l of None \<Rightarrow> 0 | Some l \<Rightarrow> len l)"

definition bh_list_first_elem :: "bh_list option \<Rightarrow> ptr" where
  "bh_list_first_elem l = (case l of None \<Rightarrow> 0 | Some l \<Rightarrow> head_next l)"

definition bh_list_elem_next :: "links \<Rightarrow> ptr \<Rightarrow> ptr" where
  "bh_list_elem_next nxt node = (if node \<noteq> 0 then nxt node else 0)"

section \<open>Sequences in the heap\<close>

primrec chain :: "links \<Rightarrow> ptr \<Rightarrow> ptr list \<Rightarrow> bool" where
  "chain nxt p [] \<longleftrightarrow> p = 0"
| "chain nxt p (x # xs) \<longleftrightarrow> p = x \<and> x \<noteq> 0 \<and> chain nxt (nxt x) xs"

definition represents :: "links \<Rightarrow> bh_list \<Rightarrow> ptr list \<Rightarrow> bool" where
  "represents nxt l xs \<longleftrightarrow> chain nxt (head_next l) xs \<and> distinct xs \<and> len l = of_nat (length xs)"

lemma chain_nonnull: "chain nxt p xs \<Longrightarrow> 0 \<notin> set xs"
  by (induction xs arbitrary: p) auto

lemma chain_upd: "a \<notin> set xs \<Longrightarrow> chain (nxt(a := b)) p xs = chain nxt p xs"
  by (induction xs arbitrary: p) auto

lemma chain_unique: "chain nxt p xs \<Longrightarrow> chain nxt p ys \<Longrightarrow> xs = ys"
proof (induction xs arbitrary: p ys)
  case Nil
  then show ?case by (cases ys) auto
next
  case (Cons x xs)
  then show ?case by (cases ys) auto
qed

lemma represents_unique: "represents nxt l xs \<Longrightarrow> represents nxt l ys \<Longrightarrow> xs = ys"
  using chain_unique by (auto simp: represents_def)

text \<open>On a chain the loops return.\<close>

lemma list_exist_loop_chain: "chain nxt p xs \<Longrightarrow> elem \<noteq> 0 \<Longrightarrow> list_exist_loop nxt elem p = Some (elem \<in> set xs)"
proof (induction xs arbitrary: p)
  case Nil
  then show ?case by (subst list_exist_loop.simps) simp
next
  case (Cons x xs)
  then show ?case by (subst list_exist_loop.simps) auto
qed

lemma list_remove_loop_absent:
  "chain nxt cur xs \<Longrightarrow> elem \<notin> set xs \<Longrightarrow> elem \<noteq> 0 \<Longrightarrow>
   list_remove_loop nxt l elem prev cur = Some (BH_LIST_ERROR, nxt, l)"
proof (induction xs arbitrary: prev cur)
  case Nil
  then show ?case by (subst list_remove_loop.simps) simp
next
  case (Cons x xs)
  then show ?case by (subst list_remove_loop.simps) auto
qed

text \<open>Removing a present element: its predecessor, or the head, is linked to its successor.\<close>

definition unlink :: "links \<Rightarrow> bh_list \<Rightarrow> ptr \<Rightarrow> ptr \<Rightarrow> links \<times> bh_list" where
  "unlink nxt l q elem =
     (if q \<noteq> 0 then (nxt(q := nxt elem), l\<lparr>len := len l - 1\<rparr>)
      else (nxt, l\<lparr>head_next := nxt elem, len := len l - 1\<rparr>))"

lemma list_remove_loop_present:
  "chain nxt cur (xs @ elem # ys) \<Longrightarrow> elem \<notin> set xs \<Longrightarrow>
   list_remove_loop nxt l elem prev cur = Some (BH_LIST_SUCCESS, unlink nxt l (last (prev # xs)) elem)"
proof (induction xs arbitrary: prev cur)
  case Nil
  then show ?case by (subst list_remove_loop.simps) (simp add: unlink_def)
next
  case (Cons x xs)
  then have "list_remove_loop nxt l elem x (nxt x) = Some (BH_LIST_SUCCESS, unlink nxt l (last (x # xs)) elem)"
    by (intro Cons.IH) auto
  with Cons.prems show ?case by (subst list_remove_loop.simps) auto
qed

text \<open>Linking around an element takes it out of the chain.\<close>

lemma chain_unlink:
  "chain nxt p (xs @ elem # ys) \<Longrightarrow> distinct (xs @ elem # ys) \<Longrightarrow> xs \<noteq> [] \<Longrightarrow>
   chain (nxt(last xs := nxt elem)) p (xs @ ys)"
proof (induction xs arbitrary: p)
  case (Cons x xs)
  show ?case
  proof (cases "xs = []")
    case True
    then show ?thesis using Cons.prems by (auto simp: chain_upd simp del: fun_upd_apply) simp
  next
    case False
    then have "last xs \<in> set xs" by simp
    then have "x \<noteq> last xs" using Cons.prems(2) by auto
    then show ?thesis using Cons False by simp
  qed
qed simp

lemma chain_tail: "chain nxt p (xs @ elem # ys) \<Longrightarrow> chain nxt (nxt elem) ys"
  by (induction xs arbitrary: p) auto

lemma represents_unlink:
  assumes rep: "represents nxt l (xs @ elem # ys)" and u: "unlink nxt l (last (0 # xs)) elem = (nxt', l')"
  shows "represents nxt' l' (xs @ ys)"
proof (cases "xs = []")
  case True
  then show ?thesis using rep u by (auto simp: represents_def unlink_def)
next
  case False
  then have "last xs \<noteq> 0"
    using rep chain_nonnull [of nxt "head_next l" "xs @ elem # ys"] last_in_set [OF False]
    unfolding represents_def by (metis Un_iff set_append)
  then show ?thesis
    using rep u False chain_unlink [of nxt "head_next l" xs elem ys] by (auto simp: represents_def unlink_def)
qed

section \<open>Operations on the sequence\<close>

lemma bh_list_init_empty: "represents nxt (l\<lparr>head_next := 0, len := 0\<rparr>) []"
  by (simp add: represents_def)

lemma bh_list_insert_front:
  assumes rep: "represents nxt l xs" and "elem \<noteq> 0" and "elem \<notin> set xs"
  shows "\<exists>nxt' l'. bh_list_insert debug nxt (Some l) elem = Some (Inr (BH_LIST_SUCCESS, nxt', Some l')) \<and>
           represents nxt' l' (elem # xs)"
  using assms list_exist_loop_chain [of nxt "head_next l" xs elem]
  by (auto simp: bh_list_insert_def bh_list_is_elem_exist_def represents_def chain_upd)

lemma bh_list_insert_twice:
  assumes "represents nxt l xs" and "elem \<noteq> 0" and "elem \<in> set xs"
  shows "bh_list_insert True nxt (Some l) elem = Some (Inl Abort)"
  using assms list_exist_loop_chain [of nxt "head_next l" xs elem]
  by (auto simp: bh_list_insert_def bh_list_is_elem_exist_def represents_def)

lemma bh_list_remove_present:
  assumes rep: "represents nxt l xs" and "elem \<in> set xs"
  shows "\<exists>nxt' l'. bh_list_remove nxt (Some l) elem = Some (BH_LIST_SUCCESS, nxt', Some l') \<and>
           represents nxt' l' (remove1 elem xs)"
proof -
  obtain ys zs where xs: "xs = ys @ elem # zs" "elem \<notin> set ys" using assms(2) split_list_first by metis
  obtain nxt' l' where u: "unlink nxt l (last (0 # ys)) elem = (nxt', l')" by fastforce
  have "elem \<noteq> 0" using rep chain_nonnull assms(2) by (auto simp: represents_def)
  moreover have "list_remove_loop nxt l elem 0 (head_next l) = Some (BH_LIST_SUCCESS, nxt', l')"
    using list_remove_loop_present [of nxt "head_next l" ys elem zs l 0] rep xs u by (simp add: represents_def)
  moreover have "represents nxt' l' (remove1 elem xs)"
    using represents_unlink [OF _ u, of zs] rep xs by (simp add: remove1_append)
  ultimately show ?thesis by (simp add: bh_list_remove_def)
qed

lemma bh_list_remove_absent:
  assumes "represents nxt l xs" and "elem \<notin> set xs"
  shows "bh_list_remove nxt (Some l) elem = Some (BH_LIST_ERROR, nxt, Some l)"
  using assms list_remove_loop_absent [of nxt "head_next l" xs elem l 0]
  by (simp add: bh_list_remove_def represents_def)

subsection \<open>Walking\<close>

text \<open>
  A walk with \<open>bh_list_first_elem\<close> and \<open>bh_list_elem_next\<close>, as the clients of the list write it, of at
  most \<open>n\<close> elements.
\<close>

fun walk :: "links \<Rightarrow> nat \<Rightarrow> ptr \<Rightarrow> ptr list" where
  "walk nxt 0 p = []"
| "walk nxt (Suc n) p = (if p = 0 then [] else p # walk nxt n (bh_list_elem_next nxt p))"

lemma walk_chain: "chain nxt p xs \<Longrightarrow> length xs \<le> n \<Longrightarrow> walk nxt n p = xs"
proof (induction xs arbitrary: p n)
  case Nil
  then show ?case by (cases n) auto
next
  case (Cons x xs)
  then show ?case by (cases n) (auto simp: bh_list_elem_next_def)
qed

lemma walk_represents:
  assumes "represents nxt l xs" and "length xs < 2 ^ 32"
  shows "walk nxt (unat (bh_list_length (Some l))) (bh_list_first_elem (Some l)) = xs"
proof -
  have "unat (len l) = length xs"
    using assms by (simp add: represents_def unsigned_of_nat take_bit_nat_eq_self)
  then show ?thesis
    using assms(1) by (simp add: represents_def bh_list_length_def bh_list_first_elem_def walk_chain)
qed

section \<open>The contract\<close>

text \<open>
  A link list as its clients see it: the state represents a sequence of distinct elements,
  insertion puts a new element in front, removal takes out the one occurrence.
\<close>

locale link_list =
  fixes rep :: "'s \<Rightarrow> 'e list \<Rightarrow> bool"
    and node :: "'e \<Rightarrow> bool"
    and ins :: "'s \<Rightarrow> 'e \<Rightarrow> 's option"
    and rem :: "'s \<Rightarrow> 'e \<Rightarrow> 's option"
  assumes rep_distinct: "rep s xs \<Longrightarrow> distinct xs"
    and ins_front: "rep s xs \<Longrightarrow> node x \<Longrightarrow> x \<notin> set xs \<Longrightarrow> \<exists>s'. ins s x = Some s' \<and> rep s' (x # xs)"
    and rem_present: "rep s xs \<Longrightarrow> x \<in> set xs \<Longrightarrow> \<exists>s'. rem s x = Some s' \<and> rep s' (remove1 x xs)"
    and rem_absent: "rep s xs \<Longrightarrow> x \<notin> set xs \<Longrightarrow> rem s x = None"
begin

lemma ins_all:
  "rep s xs \<Longrightarrow> list_all node ys \<Longrightarrow> distinct ys \<Longrightarrow> set ys \<inter> set xs = {} \<Longrightarrow>
   \<exists>s'. fold (\<lambda>y r. Option.bind r (\<lambda>s. ins s y)) ys (Some s) = Some s' \<and> rep s' (rev ys @ xs)"
proof (induction ys arbitrary: s xs)
  case (Cons y ys)
  then obtain s1 where s1: "ins s y = Some s1" "rep s1 (y # xs)" using ins_front [of s xs y] by auto
  then show ?case using Cons.IH [of s1 "y # xs"] Cons.prems by auto
qed simp

lemma ins_rem:
  assumes "rep s xs" and "node x" and "x \<notin> set xs"
  shows "\<exists>s' s''. ins s x = Some s' \<and> rem s' x = Some s'' \<and> rep s'' xs \<and> rem s'' x = None"
proof -
  obtain s' where s': "ins s x = Some s'" "rep s' (x # xs)" using ins_front [OF assms] by auto
  then obtain s'' where "rem s' x = Some s''" "rep s'' xs" using rem_present [of s' "x # xs" x] by auto
  then show ?thesis using s' rem_absent assms(3) by blast
qed

end

text \<open>The runtime's list, in a build without the debug check; a failure is \<open>None\<close>.\<close>

definition list_ins :: "links \<times> bh_list \<Rightarrow> ptr \<Rightarrow> (links \<times> bh_list) option" where
  "list_ins s x =
     (case bh_list_insert False (fst s) (Some (snd s)) x of
        Some (Inr (BH_LIST_SUCCESS, nxt, Some l)) \<Rightarrow> Some (nxt, l) | _ \<Rightarrow> None)"

definition list_rem :: "links \<times> bh_list \<Rightarrow> ptr \<Rightarrow> (links \<times> bh_list) option" where
  "list_rem s x =
     (case bh_list_remove (fst s) (Some (snd s)) x of
        Some (BH_LIST_SUCCESS, nxt, Some l) \<Rightarrow> Some (nxt, l) | _ \<Rightarrow> None)"

interpretation rt_list: link_list "\<lambda>s. represents (fst s) (snd s)" "\<lambda>p. p \<noteq> 0" list_ins list_rem
proof unfold_locales
  fix s xs and x :: ptr assume rep: "represents (fst s) (snd s) xs"
  show "distinct xs" using rep by (simp add: represents_def)
  show "\<exists>s'. list_ins s x = Some s' \<and> represents (fst s') (snd s') (x # xs)" if "x \<noteq> 0" "x \<notin> set xs"
    using bh_list_insert_front [OF rep that, of False] by (auto simp: list_ins_def)
  show "\<exists>s'. list_rem s x = Some s' \<and> represents (fst s') (snd s') (remove1 x xs)" if "x \<in> set xs"
    using bh_list_remove_present [OF rep that] by (auto simp: list_rem_def)
  show "list_rem s x = None" if "x \<notin> set xs"
    using bh_list_remove_absent [OF rep that] by (simp add: list_rem_def)
qed

end
