(* ===== verification/Bh_Queue.thy ===== *)
theory Bh_Queue
  imports Prelude Fifo
begin

text \<open>
  The message queue of the WebAssembly runtime, \<open>wamr/core/shared/utils/bh_queue.c\<close>. The doubly
  linked nodes from head to tail are a list; the null head is the empty list. What is freed is
  recorded as a list of events. Other threads post messages and ask the loop to end while a
  reader waits: an explicit list of actions that happen during each wait.

  Pointers to payloads are words, 0 is null.
\<close>

section \<open>Messages\<close>

record bh_queue_node =
  tag :: "16 word"
  nlen :: u32
  body :: u64
  msg_cleaner :: bool          \<comment> \<open>there is a cleaner\<close>

datatype qevent =
    Clean_body u64             \<comment> \<open>the cleaner is called with the payload\<close>
  | Free_body u64
  | Free_node bh_queue_node

definition bh_message_payload :: "bh_queue_node \<Rightarrow> u64" where "bh_message_payload message = body message"
definition bh_message_payload_len :: "bh_queue_node \<Rightarrow> u32" where "bh_message_payload_len message = nlen message"
definition bh_message_type :: "bh_queue_node \<Rightarrow> int" where "bh_message_type message = int (unat (tag message))"

definition bh_new_msg :: "bool \<Rightarrow> 16 word \<Rightarrow> u64 \<Rightarrow> u32 \<Rightarrow> bool \<Rightarrow> bh_queue_node option" where
  "bh_new_msg malloc_ok t b l handler =
     (if malloc_ok then Some \<lparr>tag = t, nlen = l, body = b, msg_cleaner = handler\<rparr> else None)"

definition bh_free_msg :: "bh_queue_node \<Rightarrow> qevent list" where
  "bh_free_msg msg =
     (if msg_cleaner msg then [Clean_body (body msg), Free_node msg]
      else (if body msg \<noteq> 0 \<and> nlen msg \<noteq> 0 then [Free_body (body msg)] else []) @ [Free_node msg])"

section \<open>The queue\<close>

record bh_queue =
  cnt :: u32
  qmax :: u32
  drops :: u32
  nodes :: "bh_queue_node list"
  exit_loop_run :: bool

definition DEFAULT_QUEUE_LENGTH :: u32 where "DEFAULT_QUEUE_LENGTH = 50"

definition bh_queue_create :: "bool \<Rightarrow> bool \<Rightarrow> bool \<Rightarrow> bh_queue option" where
  "bh_queue_create malloc_ok mutex_ok cond_ok =
     (if malloc_ok \<and> mutex_ok \<and> cond_ok
      then Some \<lparr>cnt = 0, qmax = DEFAULT_QUEUE_LENGTH, drops = 0, nodes = [], exit_loop_run = False\<rparr>
      else None)"

fun free_all :: "bh_queue_node list \<Rightarrow> qevent list" where
  "free_all [] = []"
| "free_all (node # rest) = bh_free_msg node @ free_all rest"

definition bh_queue_destroy :: "bh_queue option \<Rightarrow> qevent list" where
  "bh_queue_destroy queue = (case queue of None \<Rightarrow> [] | Some q \<Rightarrow> free_all (nodes q))"

text \<open>
  Posting. On an empty count the list has to be empty, on another count there has to be a tail:
  a queue that is not like this is a fault.
\<close>

definition bh_post_msg2 :: "bh_queue \<Rightarrow> bh_queue_node \<Rightarrow> fault + (bool \<times> bh_queue \<times> qevent list)" where
  "bh_post_msg2 queue msg =
     (if cnt queue \<ge> qmax queue then
        Inr (False, queue\<lparr>drops := drops queue + 1\<rparr>, bh_free_msg msg)
      else if cnt queue = 0 then
        (if nodes queue = [] then Inr (True, queue\<lparr>nodes := [msg], cnt := 1\<rparr>, []) else Inl Abort)
      else if nodes queue = [] then Inl Null_pointer
      else Inr (True, queue\<lparr>nodes := nodes queue @ [msg], cnt := cnt queue + 1\<rparr>, []))"

definition bh_post_msg ::
    "bool \<Rightarrow> bh_queue \<Rightarrow> 16 word \<Rightarrow> u64 \<Rightarrow> u32 \<Rightarrow> fault + (bool \<times> bh_queue \<times> qevent list)" where
  "bh_post_msg malloc_ok queue t b l =
     (case bh_new_msg malloc_ok t b l False of
        None \<Rightarrow> Inr (False, queue\<lparr>drops := drops queue + 1\<rparr>,
                     if l \<noteq> 0 \<and> b \<noteq> 0 then [Free_body b] else [])
      | Some msg \<Rightarrow> bh_post_msg2 queue msg)"

definition bh_queue_exit_loop_run :: "bh_queue option \<Rightarrow> bh_queue option" where
  "bh_queue_exit_loop_run queue = map_option (\<lambda>q. q\<lparr>exit_loop_run := True\<rparr>) queue"

text \<open>What another thread does to the queue while the reader waits.\<close>

datatype action = Post bh_queue_node | Exit

fun act :: "action \<Rightarrow> bh_queue \<times> qevent list \<Rightarrow> fault + (bh_queue \<times> qevent list)" where
  "act (Post m) (q, ev) = map_sum id (\<lambda>(b, q, ev'). (q, ev @ ev')) (bh_post_msg2 q m)"
| "act Exit (q, ev) = Inr (the (bh_queue_exit_loop_run (Some q)), ev)"

fun during_wait :: "action list \<Rightarrow> bh_queue \<times> qevent list \<Rightarrow> fault + (bh_queue \<times> qevent list)" where
  "during_wait [] s = Inr s"
| "during_wait (a # as) s = (case act a s of Inl f \<Rightarrow> Inl f | Inr s' \<Rightarrow> during_wait as s')"

text \<open>Taking the message at the head off the list.\<close>

definition take_msg :: "bh_queue \<Rightarrow> fault + (bh_queue_node option \<times> bh_queue)" where
  "take_msg queue =
     (if cnt queue = 0 then (if nodes queue = [] then Inr (None, queue) else Inl Abort)
      else if cnt queue = 1 then
        (case nodes queue of
           [msg] \<Rightarrow> Inr (Some msg, queue\<lparr>nodes := [], cnt := 0\<rparr>)
         | _ \<Rightarrow> Inl Abort)
      else
        (case nodes queue of
           msg # next # rest \<Rightarrow> Inr (Some msg, queue\<lparr>nodes := next # rest, cnt := cnt queue - 1\<rparr>)
         | _ \<Rightarrow> Inl Null_pointer))"

definition bh_get_msg ::
    "action list \<Rightarrow> bh_queue \<Rightarrow> u64 \<Rightarrow> fault + (bh_queue_node option \<times> bh_queue \<times> qevent list)" where
  "bh_get_msg others queue timeout_us =
     (if cnt queue = 0 then
        (if nodes queue \<noteq> [] then Inl Abort
         else if timeout_us = 0 then Inr (None, queue, [])
         else (case during_wait others (queue, []) of
                 Inl f \<Rightarrow> Inl f
               | Inr (q, ev) \<Rightarrow> map_sum id (\<lambda>(m, q). (m, q, ev)) (take_msg q)))
      else map_sum id (\<lambda>(m, q). (m, q, [])) (take_msg queue))"

definition bh_queue_get_message_count :: "bh_queue option \<Rightarrow> u32" where
  "bh_queue_get_message_count queue = (case queue of None \<Rightarrow> 0 | Some q \<Rightarrow> cnt q)"

text \<open>
  The reader's loop. For each round the script gives what other threads (and the callback) do
  until the reader has its message: while it waits on an empty queue, or before it takes the lock
  of one that is not empty. \<open>None\<close>: the script is used up and the loop still runs. The result has
  the messages in the order the callback got them.
\<close>

definition BHT_WAIT_FOREVER :: u64 where "BHT_WAIT_FOREVER = - 1"

definition get_round :: "action list \<Rightarrow> bh_queue \<Rightarrow> qevent list \<Rightarrow>
    fault + (bh_queue_node option \<times> bh_queue \<times> qevent list)" where
  "get_round others queue ev =
     (case (if cnt queue = 0 then Inr (queue, ev) else during_wait others (queue, ev)) of
        Inl f \<Rightarrow> Inl f
      | Inr (q, ev) \<Rightarrow>
          map_sum id (\<lambda>(m, q, ev'). (m, q, ev @ ev')) (bh_get_msg others q BHT_WAIT_FOREVER))"

type_synonym script = "action list list"

fun loop_run ::
    "script \<Rightarrow> bh_queue \<Rightarrow> bh_queue_node list \<times> qevent list \<Rightarrow>
     fault + (bh_queue \<times> bh_queue_node list \<times> qevent list) option" where
  "loop_run [] queue (handled, ev) =
     (if exit_loop_run queue then Inr (Some (queue, handled, ev)) else Inr None)"
| "loop_run (others # script) queue (handled, ev) =
     (if exit_loop_run queue then Inr (Some (queue, handled, ev))
      else (case get_round others queue ev of
        Inl f \<Rightarrow> Inl f
      | Inr (None, q, ev) \<Rightarrow> loop_run script q (handled, ev)
      | Inr (Some m, q, ev) \<Rightarrow> loop_run script q (handled @ [m], ev @ bh_free_msg m)))"

definition bh_queue_enter_loop_run ::
    "script \<Rightarrow> bh_queue option \<Rightarrow>
     fault + (bh_queue option \<times> bh_queue_node list \<times> qevent list) option" where
  "bh_queue_enter_loop_run script queue =
     (case queue of
        None \<Rightarrow> Inr (Some (None, [], []))
      | Some q \<Rightarrow> map_sum id (map_option (\<lambda>(q, handled, ev). (Some q, handled, ev))) (loop_run script q ([], [])))"

section \<open>A bounded queue\<close>

definition bq_inv :: "bh_queue \<Rightarrow> bool" where
  "bq_inv q \<longleftrightarrow> unat (cnt q) = length (nodes q) \<and> cnt q \<le> qmax q"

lemma bh_queue_create_inv:
  "bh_queue_create malloc_ok mutex_ok cond_ok = Some q \<Longrightarrow> bq_inv q \<and> nodes q = [] \<and> \<not> exit_loop_run q"
  by (auto simp: bh_queue_create_def bq_inv_def split: if_splits)

lemma cnt_zero: "bq_inv q \<Longrightarrow> cnt q = 0 \<longleftrightarrow> nodes q = []"
  by (auto simp: bq_inv_def unat_eq_0)

lemma cnt_less: "bq_inv q \<Longrightarrow> cnt q < qmax q \<longleftrightarrow> length (nodes q) < unat (qmax q)"
  by (simp add: bq_inv_def word_less_nat_alt)

lemma unat_cnt_Suc:
  assumes "bq_inv q" and "cnt q < qmax q"
  shows "unat (cnt q + 1) = Suc (length (nodes q))"
proof -
  have "unat (cnt q + 1) = Suc (unat (cnt q))"
    using assms(2) unat_Suc_less [of "cnt q" "unat (qmax q)"] unsigned_less [of "qmax q"]
    by (simp add: word_less_nat_alt)
  then show ?thesis using assms(1) by (simp add: bq_inv_def)
qed

text \<open>Posting appends below the bound and frees the message at it; it never faults.\<close>

lemma bh_post_msg2_inv:
  assumes inv: "bq_inv q"
  shows "if length (nodes q) < unat (qmax q)
    then \<exists>q'. bh_post_msg2 q m = Inr (True, q', []) \<and> bq_inv q' \<and> nodes q' = nodes q @ [m] \<and>
           qmax q' = qmax q \<and> exit_loop_run q' = exit_loop_run q \<and> drops q' = drops q
    else bh_post_msg2 q m = Inr (False, q\<lparr>drops := drops q + 1\<rparr>, bh_free_msg m)"
proof (cases "cnt q < qmax q")
  case False
  then show ?thesis using cnt_less [OF inv] by (simp add: bh_post_msg2_def not_less)
next
  case True
  have n: "unat (cnt q + 1) = Suc (length (nodes q))" by (rule unat_cnt_Suc [OF inv True])
  have le: "cnt q + 1 \<le> qmax q" using n True inv by (simp add: word_le_nat_alt bq_inv_def word_less_nat_alt)
  show ?thesis
  proof (cases "nodes q = []")
    case empty: True
    then have "cnt q = 0" using cnt_zero [OF inv] by simp
    then show ?thesis using empty True le cnt_less [OF inv] by (auto simp: bh_post_msg2_def bq_inv_def)
  next
    case False
    then have "cnt q \<noteq> 0" using cnt_zero [OF inv] by simp
    then show ?thesis using False True le n cnt_less [OF inv] by (auto simp: bh_post_msg2_def bq_inv_def)
  qed
qed

lemma take_msg_inv:
  assumes inv: "bq_inv q"
  shows "case nodes q of
      [] \<Rightarrow> take_msg q = Inr (None, q)
    | m # ms \<Rightarrow> \<exists>q'. take_msg q = Inr (Some m, q') \<and> bq_inv q' \<and> nodes q' = ms \<and> qmax q' = qmax q \<and>
        exit_loop_run q' = exit_loop_run q \<and> drops q' = drops q"
proof (cases "nodes q")
  case Nil
  then show ?thesis using cnt_zero [OF inv] by (simp add: take_msg_def)
next
  case (Cons m ms)
  have c: "unat (cnt q) = Suc (length ms)" using inv Cons by (simp add: bq_inv_def)
  then have nz: "cnt q \<noteq> 0" by auto
  show ?thesis
  proof (cases ms)
    case Nil
    then have "cnt q = 1" using c by (simp add: word_unat_eq_iff)
    then show ?thesis using Cons Nil by (simp add: take_msg_def bq_inv_def)
  next
    case (Cons m' ms')
    then have ne: "cnt q \<noteq> 1" using c by auto
    have "unat (cnt q - 1) = length ms" using c nz by (subst unat_minus_one) simp_all
    moreover have "cnt q - 1 \<le> qmax q"
      using inv calculation c by (simp add: bq_inv_def word_le_nat_alt)
    ultimately show ?thesis
      using \<open>nodes q = m # ms\<close> Cons nz ne by (simp add: take_msg_def bq_inv_def)
  qed
qed


text \<open>The queue implements the contract that the server's connection queue implements too.\<close>

definition bq_push :: "bh_queue_node \<Rightarrow> bh_queue \<Rightarrow> bh_queue" where
  "bq_push m q = (case bh_post_msg2 q m of Inr (_, q', _) \<Rightarrow> q' | Inl _ \<Rightarrow> q)"

definition bq_pop :: "bh_queue \<Rightarrow> bh_queue_node \<times> bh_queue" where
  "bq_pop q = (case take_msg q of Inr (Some m, q') \<Rightarrow> (m, q') | _ \<Rightarrow> (\<lparr>tag = 0, nlen = 0, body = 0, msg_cleaner = False\<rparr>, q))"

interpretation msg_fifo: bounded_fifo "\<lambda>q. bq_inv q \<and> unat (qmax q) = cap" nodes bq_push bq_pop cap for cap
proof unfold_locales
  fix q m assume q: "bq_inv q \<and> unat (qmax q) = cap"
  show "length (nodes q) \<le> cap" using q by (auto simp: bq_inv_def word_le_nat_alt)
  show "bq_inv (bq_push m q) \<and> unat (qmax (bq_push m q)) = cap" if "length (nodes q) < cap"
    using bh_post_msg2_inv [of q m] q that by (auto simp: bq_push_def)
  show "nodes (bq_push m q) = nodes q @ [m]" if "length (nodes q) < cap"
    using bh_post_msg2_inv [of q m] q that by (auto simp: bq_push_def)
  show "bq_inv (snd (bq_pop q)) \<and> unat (qmax (snd (bq_pop q))) = cap" if "nodes q \<noteq> []"
    using take_msg_inv [of q] q that by (auto simp: bq_pop_def split: list.splits)
  show "fst (bq_pop q) = hd (nodes q)" if "nodes q \<noteq> []"
    using take_msg_inv [of q] q that by (auto simp: bq_pop_def split: list.splits)
  show "nodes (snd (bq_pop q)) = tl (nodes q)" if "nodes q \<noteq> []"
    using take_msg_inv [of q] q that by (auto simp: bq_pop_def split: list.splits)
qed

section \<open>The loop\<close>

fun posted :: "action list \<Rightarrow> bh_queue_node list" where
  "posted [] = []"
| "posted (Post m # as) = m # posted as"
| "posted (Exit # as) = posted as"

lemma posted_append [simp]: "posted (as @ bs) = posted as @ posted bs"
  by (induction as rule: posted.induct) auto

text \<open>While there is room, actions of others append their messages and drop nothing.\<close>

lemma during_wait_room:
  assumes "bq_inv q" and "length (nodes q) + length (posted as) \<le> unat (qmax q)"
  shows "\<exists>q'. during_wait as (q, ev) = Inr (q', ev) \<and> bq_inv q' \<and> nodes q' = nodes q @ posted as \<and>
           qmax q' = qmax q \<and> drops q' = drops q \<and> (exit_loop_run q' \<longleftrightarrow> exit_loop_run q \<or> Exit \<in> set as)"
  using assms
proof (induction as arbitrary: q)
  case Nil
  then show ?case by simp
next
  case (Cons a as)
  show ?case
  proof (cases a)
    case (Post m)
    obtain q1 where q1: "bh_post_msg2 q m = Inr (True, q1, [])" "bq_inv q1" "nodes q1 = nodes q @ [m]"
      "qmax q1 = qmax q" "exit_loop_run q1 = exit_loop_run q" "drops q1 = drops q"
      using bh_post_msg2_inv [OF Cons.prems(1), of m] Cons.prems(2) Post by auto
    then show ?thesis using Cons.IH [OF q1(2)] Cons.prems(2) Post by auto
  next
    case Exit
    then show ?thesis
      using Cons.IH [of "q\<lparr>exit_loop_run := True\<rparr>"] Cons.prems by (auto simp: bh_queue_exit_loop_run_def bq_inv_def)
  qed
qed

definition opt_list :: "'a option \<Rightarrow> 'a list" where
  "opt_list m = (case m of None \<Rightarrow> [] | Some x \<Rightarrow> [x])"

lemma take_msg_list:
  assumes "bq_inv q"
  shows "\<exists>m q'. take_msg q = Inr (m, q') \<and> bq_inv q' \<and> opt_list m @ nodes q' = nodes q \<and> qmax q' = qmax q \<and>
    drops q' = drops q \<and> exit_loop_run q' = exit_loop_run q \<and> (m = None \<longrightarrow> nodes q = [])"
  using take_msg_inv [OF assms] assms by (cases "nodes q") (auto simp: opt_list_def)

lemma loop_run_Cons:
  "loop_run (others # script) queue (handled, ev) =
     (if exit_loop_run queue then Inr (Some (queue, handled, ev))
      else (case get_round others queue ev of
              Inl f \<Rightarrow> Inl f
            | Inr (m, q, ev) \<Rightarrow>
                loop_run script q (handled @ opt_list m, ev @ concat (map bh_free_msg (opt_list m)))))"
  by (auto simp: opt_list_def split: sum.splits option.splits)

text \<open>One round: the head of what is then in the queue is taken, nothing is lost.\<close>

lemma get_round_room:
  assumes inv: "bq_inv q" and room: "length (nodes q) + length (posted as) \<le> unat (qmax q)"
  shows "\<exists>m q'. get_round as q ev = Inr (m, q', ev) \<and> bq_inv q' \<and> qmax q' = qmax q \<and> drops q' = drops q \<and>
    opt_list m @ nodes q' = nodes q @ posted as \<and>
    (exit_loop_run q' \<longleftrightarrow> exit_loop_run q \<or> Exit \<in> set as)"
proof -
  have t: "BHT_WAIT_FOREVER \<noteq> 0" by (simp add: BHT_WAIT_FOREVER_def)
  define e where "e = (if nodes q = [] then [] else ev)"
  obtain q1 where q1: "during_wait as (q, e) = Inr (q1, e)" "bq_inv q1" "nodes q1 = nodes q @ posted as"
      "qmax q1 = qmax q" "drops q1 = drops q" "exit_loop_run q1 \<longleftrightarrow> exit_loop_run q \<or> Exit \<in> set as"
    using during_wait_room [OF inv room, of e] by auto
  obtain m q' where m: "take_msg q1 = Inr (m, q')" "bq_inv q'" "opt_list m @ nodes q' = nodes q1"
      "qmax q' = qmax q1" "drops q' = drops q1" "exit_loop_run q' = exit_loop_run q1"
    using take_msg_list [OF q1(2)] by auto
  have "get_round as q ev = Inr (m, q', ev)"
    using cnt_zero [OF inv] cnt_zero [OF q1(2)] q1(1,3) m(1) t
    by (cases "nodes q = []") (simp_all add: get_round_def bh_get_msg_def e_def)
  then show ?thesis using m q1 by auto
qed

text \<open>
  The loop handles the messages in the order they were posted, frees each after handling it, keeps
  the rest, and returns when it is asked to.
\<close>

lemma loop_run_fifo:
  assumes "bq_inv q" and "length (nodes q) + length (posted (concat script)) \<le> unat (qmax q)"
  shows "case loop_run script q (handled, ev) of
      Inl _ \<Rightarrow> False
    | Inr None \<Rightarrow> \<not> exit_loop_run q \<and> Exit \<notin> set (concat script)
    | Inr (Some (q', handled', ev')) \<Rightarrow>
        bq_inv q' \<and> exit_loop_run q' \<and>
        (\<exists>k ms. k \<le> length script \<and> handled' = handled @ ms \<and>
           ms @ nodes q' = nodes q @ posted (concat (take k script)) \<and>
           ev' = ev @ concat (map bh_free_msg ms))"
  using assms
proof (induction script arbitrary: q handled ev)
  case Nil
  then show ?case by auto
next
  case (Cons as script)
  show ?case
  proof (cases "exit_loop_run q")
    case True
    then show ?thesis using Cons.prems by (auto intro: exI [of _ 0])
  next
    case False
    obtain m q1 where q1: "get_round as q ev = Inr (m, q1, ev)" "bq_inv q1" "qmax q1 = qmax q"
      "opt_list m @ nodes q1 = nodes q @ posted as" "exit_loop_run q1 \<longleftrightarrow> Exit \<in> set as"
      using get_round_room [OF Cons.prems(1), of as ev] Cons.prems(2) False by auto
    have "length (opt_list m @ nodes q1) = length (nodes q @ posted as)" using q1(4) by simp
    then have room: "length (nodes q1) + length (posted (concat script)) \<le> unat (qmax q1)"
      using Cons.prems(2) q1(3) by simp
    define ev1 where "ev1 = ev @ concat (map bh_free_msg (opt_list m))"
    have run: "loop_run (as # script) q (handled, ev) = loop_run script q1 (handled @ opt_list m, ev1)"
      using False q1(1) by (simp add: loop_run_Cons ev1_def del: loop_run.simps)
    note ih = Cons.IH [OF q1(2) room, of "handled @ opt_list m" ev1]
    show ?thesis
    proof (cases "loop_run script q1 (handled @ opt_list m, ev1)")
      case (Inl f)
      then show ?thesis using ih by simp
    next
      case (Inr res)
      show ?thesis
      proof (cases res)
        case None
        then show ?thesis using ih Inr run False q1(5) by simp
      next
        case (Some a)
        obtain q' handled' ev' where a: "a = (q', handled', ev')" by (cases a) auto
        obtain k ms where k: "k \<le> length script" "handled' = (handled @ opt_list m) @ ms"
          "ms @ nodes q' = nodes q1 @ posted (concat (take k script))" "ev' = ev1 @ concat (map bh_free_msg ms)"
          "bq_inv q'" "exit_loop_run q'"
          using ih Inr Some a by auto
        have "(opt_list m @ ms) @ nodes q' = nodes q @ posted (concat (take (Suc k) (as # script)))"
          using k(3) q1(4) by (metis append.assoc concat.simps(2) posted_append take_Suc_Cons)
        then show ?thesis
          using Inr Some a run k
          by (auto simp: ev1_def intro!: exI [of _ "Suc k"] exI [of _ "opt_list m @ ms"])
      qed
    qed
  qed
qed

end
