(* ===== verification/Runtime_Timer.thy ===== *)
theory Runtime_Timer
  imports Prelude "HOL-Library.Multiset"
begin

text \<open>
  The application timers of the WebAssembly runtime, \<open>wamr/core/shared/utils/runtime_timer.c\<close>. The
  linked lists of timers are lists; a pointer to a timer is the timer taken out of its list. Each
  reading of the clock is an argument, in milliseconds since boot; where an operation reads the
  clock an unknown number of times it gets the sequence of readings. Calls of the timer callback
  and of the refresh checker, and freed timers, are recorded as events.
\<close>

section \<open>Clock\<close>

definition bh_get_tick_ms :: "u64 \<Rightarrow> u64" where
  "bh_get_tick_ms boot_us = boot_us div 1000"

text \<open>The elapsed time and the new value of the caller's clock.\<close>

definition bh_get_elpased_ms :: "u64 \<Rightarrow> u32 \<Rightarrow> u32 \<times> u32" where
  "bh_get_elpased_ms boot_us last_system_clock =
     (let now = (ucast (bh_get_tick_ms boot_us) :: u32) in
      (if now < last_system_clock then now + (0xffffffff - last_system_clock) + 1
       else now - last_system_clock, now))"

text \<open>Both branches are the difference modulo the 32-bit clock.\<close>

lemma elapsed_is_difference:
  "bh_get_elpased_ms boot_us prev =
     (ucast (bh_get_tick_ms boot_us) - prev, ucast (bh_get_tick_ms boot_us))"
  by (simp add: bh_get_elpased_ms_def Let_def)

section \<open>Timers\<close>

record app_timer =
  id_of :: u32
  interval :: u32
  expiry :: u64
  is_periodic :: bool

record timer_ctx =
  app_timers :: "app_timer list"
  idle_timers :: "app_timer list"
  free_timers :: "app_timer list"
  max_timer_id :: u32
  pre_allocated :: int
  owner :: u32
  refresh_checker :: bool      \<comment> \<open>there is a checker\<close>

datatype tevent = Timeout u32 u32 | Refresh | Free_timer u32

definition zero_timer :: app_timer where
  "zero_timer = \<lparr>id_of = 0, interval = 0, expiry = 0, is_periodic = False\<rparr>"

text \<open>The search of a list: the timer, the list without it, and whether it was the first.\<close>

fun unlink_timer :: "u32 \<Rightarrow> app_timer list \<Rightarrow> (app_timer \<times> app_timer list \<times> bool) option" where
  "unlink_timer timer_id [] = None"
| "unlink_timer timer_id (t # ts) =
     (if id_of t = timer_id then Some (t, ts, True)
      else map_option (\<lambda>(x, xs, _). (x, t # xs, False)) (unlink_timer timer_id ts))"

definition refresh :: "timer_ctx \<Rightarrow> bool \<Rightarrow> tevent list" where
  "refresh ctx first = (if first \<and> refresh_checker ctx then [Refresh] else [])"

definition remove_timer_from ::
    "timer_ctx \<Rightarrow> u32 \<Rightarrow> bool \<Rightarrow> app_timer option \<times> timer_ctx \<times> tevent list" where
  "remove_timer_from ctx timer_id active_list =
     (case unlink_timer timer_id (if active_list then app_timers ctx else idle_timers ctx) of
        None \<Rightarrow> (None, ctx, [])
      | Some (t, ts, first) \<Rightarrow>
          (Some t, if active_list then ctx\<lparr>app_timers := ts\<rparr> else ctx\<lparr>idle_timers := ts\<rparr>,
           refresh ctx (active_list \<and> first)))"

text \<open>Also tells which list the timer was in.\<close>

definition remove_timer :: "timer_ctx \<Rightarrow> u32 \<Rightarrow> app_timer option \<times> bool \<times> timer_ctx \<times> tevent list" where
  "remove_timer ctx timer_id =
     (case remove_timer_from ctx timer_id True of
        (Some t, ctx', ev) \<Rightarrow> (Some t, True, ctx', ev)
      | (None, _, _) \<Rightarrow>
          let (t, ctx', ev) = remove_timer_from ctx timer_id False in (t, False, ctx', ev))"

text \<open>Insertion by expiry, behind timers of the same expiry; whether it became the first.\<close>

fun link_timer :: "app_timer \<Rightarrow> app_timer list \<Rightarrow> app_timer list" where
  "link_timer timer [] = [timer]"
| "link_timer timer (t # ts) =
     (if expiry timer < expiry t then timer # t # ts else t # link_timer timer ts)"

definition becomes_first :: "app_timer \<Rightarrow> app_timer list \<Rightarrow> bool" where
  "becomes_first timer ts = (case ts of [] \<Rightarrow> True | t # _ \<Rightarrow> expiry timer < expiry t)"

definition reschedule_timer :: "u64 \<Rightarrow> timer_ctx \<Rightarrow> app_timer \<Rightarrow> timer_ctx \<times> tevent list" where
  "reschedule_timer now ctx timer =
     (let timer = timer\<lparr>expiry := now + ucast (interval timer)\<rparr> in
      (ctx\<lparr>app_timers := link_timer timer (app_timers ctx)\<rparr>,
       refresh ctx (becomes_first timer (app_timers ctx))))"

definition release_timer :: "timer_ctx \<Rightarrow> app_timer \<Rightarrow> timer_ctx \<times> tevent list" where
  "release_timer ctx t =
     (if pre_allocated ctx \<noteq> 0 then (ctx\<lparr>free_timers := t # free_timers ctx\<rparr>, [])
      else (ctx, [Free_timer (id_of t)]))"

definition release_timer_list :: "app_timer list \<Rightarrow> app_timer list \<times> tevent list" where
  "release_timer_list ts = ([], map (\<lambda>t. Free_timer (id_of t)) ts)"

text \<open>\<open>malloc k\<close>: the \<open>k\<close>-th allocation of a timer succeeds.\<close>

function prealloc :: "(int \<Rightarrow> bool) \<Rightarrow> int \<Rightarrow> app_timer list \<Rightarrow> app_timer list + app_timer list" where
  "prealloc malloc n ts =
     (if n > 0 then (if malloc n then prealloc malloc (n - 1) (zero_timer # ts) else Inl ts) else Inr ts)"
  by pat_completeness auto
termination by (relation "measure (\<lambda>(m, n, ts). nat n)") auto

declare prealloc.simps [simp del]

definition create_timer_ctx ::
    "bool \<Rightarrow> (int \<Rightarrow> bool) \<Rightarrow> bool \<Rightarrow> bool \<Rightarrow> bool \<Rightarrow> int \<Rightarrow> u32 \<Rightarrow> timer_ctx option \<times> tevent list" where
  "create_timer_ctx ctx_ok malloc cond_ok mutex_ok expiry_checker prealloc_num own =
     (if \<not> ctx_ok then (None, [])
      else (case prealloc malloc prealloc_num [] of
        Inl ts \<Rightarrow> (None, snd (release_timer_list ts))
      | Inr ts \<Rightarrow>
          if \<not> cond_ok \<or> \<not> mutex_ok then (None, snd (release_timer_list ts))
          else (Some \<lparr>app_timers = [], idle_timers = [], free_timers = ts, max_timer_id = 0,
                      pre_allocated = prealloc_num, owner = own, refresh_checker = expiry_checker\<rparr>, [])))"

definition cleanup_app_timers :: "timer_ctx \<Rightarrow> timer_ctx \<times> tevent list" where
  "cleanup_app_timers ctx =
     (ctx\<lparr>app_timers := fst (release_timer_list (app_timers ctx)),
          idle_timers := fst (release_timer_list (idle_timers ctx))\<rparr>,
      snd (release_timer_list (app_timers ctx)) @ snd (release_timer_list (idle_timers ctx)))"

definition destroy_timer_ctx :: "timer_ctx \<Rightarrow> tevent list" where
  "destroy_timer_ctx ctx =
     snd (release_timer_list (free_timers ctx)) @ snd (cleanup_app_timers (ctx\<lparr>free_timers := []\<rparr>))"

definition timer_ctx_get_owner :: "timer_ctx \<Rightarrow> u32" where "timer_ctx_get_owner ctx = owner ctx"

definition add_idle_timer :: "timer_ctx \<Rightarrow> app_timer \<Rightarrow> timer_ctx" where
  "add_idle_timer ctx timer = ctx\<lparr>idle_timers := timer # idle_timers ctx\<rparr>"

section \<open>The application's operations\<close>

definition NO_TIMER :: u32 where "NO_TIMER = - 1"

definition next_timer_id :: "u32 \<Rightarrow> u32" where
  "next_timer_id m = (if m + 1 = NO_TIMER then m + 2 else m + 1)"

definition sys_create_timer ::
    "bool \<Rightarrow> u64 \<Rightarrow> timer_ctx \<Rightarrow> u32 \<Rightarrow> bool \<Rightarrow> bool \<Rightarrow> u32 \<times> timer_ctx \<times> tevent list" where
  "sys_create_timer malloc_ok now ctx ival is_period auto_start =
     (if pre_allocated ctx \<noteq> 0 \<and> free_timers ctx = [] \<or> pre_allocated ctx = 0 \<and> \<not> malloc_ok
      then (NO_TIMER, ctx, [])
      else
        let ctx = (if pre_allocated ctx \<noteq> 0 then ctx\<lparr>free_timers := tl (free_timers ctx)\<rparr> else ctx);
            ctx = ctx\<lparr>max_timer_id := next_timer_id (max_timer_id ctx)\<rparr>;
            timer = zero_timer\<lparr>id_of := max_timer_id ctx, interval := ival, is_periodic := is_period\<rparr> in
        if auto_start then (let (ctx, ev) = reschedule_timer now ctx timer in (id_of timer, ctx, ev))
        else (id_of timer, add_idle_timer ctx timer, []))"

definition sys_timer_cancel :: "timer_ctx \<Rightarrow> u32 \<Rightarrow> bool \<times> timer_ctx \<times> tevent list" where
  "sys_timer_cancel ctx timer_id =
     (case remove_timer ctx timer_id of
        (None, _, ctx, ev) \<Rightarrow> (False, ctx, ev)
      | (Some t, from_active, ctx, ev) \<Rightarrow> (from_active, add_idle_timer ctx t, ev))"

definition sys_timer_destroy :: "timer_ctx \<Rightarrow> u32 \<Rightarrow> bool \<times> timer_ctx \<times> tevent list" where
  "sys_timer_destroy ctx timer_id =
     (case remove_timer ctx timer_id of
        (None, _, ctx, ev) \<Rightarrow> (False, ctx, ev)
      | (Some t, _, ctx, ev) \<Rightarrow> let (ctx, ev') = release_timer ctx t in (True, ctx, ev @ ev'))"

definition sys_timer_restart :: "u64 \<Rightarrow> timer_ctx \<Rightarrow> u32 \<Rightarrow> u32 \<Rightarrow> bool \<times> timer_ctx \<times> tevent list" where
  "sys_timer_restart now ctx timer_id ival =
     (case remove_timer ctx timer_id of
        (None, _, ctx, ev) \<Rightarrow> (False, ctx, ev)
      | (Some t, _, ctx, ev) \<Rightarrow>
          let (ctx, ev') = reschedule_timer now ctx (t\<lparr>interval := ival\<rparr>) in (True, ctx, ev @ ev'))"

section \<open>The timer manager\<close>

text \<open>\<open>tick k\<close> is the \<open>k\<close>-th reading of the clock from here.\<close>

fun handle_expired_timers ::
    "(nat \<Rightarrow> u64) \<Rightarrow> nat \<Rightarrow> timer_ctx \<Rightarrow> app_timer list \<Rightarrow> nat \<times> timer_ctx \<times> tevent list" where
  "handle_expired_timers tick k ctx [] = (k, ctx, [])"
| "handle_expired_timers tick k ctx (t # expired) =
     (let (k', ctx', ev) =
        (if is_periodic t then (let (c, ev) = reschedule_timer (tick k) ctx t in (k + 1, c, ev))
         else (k, add_idle_timer ctx t, []));
        (k'', ctx'', ev') = handle_expired_timers tick k' ctx' expired
      in (k'', ctx'', Timeout (id_of t) (owner ctx) # ev @ ev'))"

definition get_expiry_ms :: "u64 \<Rightarrow> timer_ctx \<Rightarrow> u32" where
  "get_expiry_ms now ctx =
     (case app_timers ctx of
        [] \<Rightarrow> - 1
      | t # _ \<Rightarrow> if expiry t \<ge> now then ucast (expiry t - now) else 0)"

text \<open>The loop over the active list: the expired timers in order, and the rest.\<close>

fun split_expired :: "u64 \<Rightarrow> app_timer list \<Rightarrow> app_timer list \<times> app_timer list" where
  "split_expired now [] = ([], [])"
| "split_expired now (t # ts) =
     (if now \<ge> expiry t then (let (e, r) = split_expired now ts in (t # e, r)) else ([], t # ts))"

definition check_app_timers :: "(nat \<Rightarrow> u64) \<Rightarrow> timer_ctx \<Rightarrow> u32 \<times> timer_ctx \<times> tevent list" where
  "check_app_timers tick ctx =
     (let now = tick 0;
          (expired, rest) = split_expired now (app_timers ctx);
          (k, ctx, ev) = handle_expired_timers tick 1 (ctx\<lparr>app_timers := rest\<rparr>) expired
      in (get_expiry_ms (tick k) ctx, ctx, ev))"

section \<open>Lists of timers\<close>

lemma mset_link_timer [simp]: "mset (link_timer t ts) = add_mset t (mset ts)"
  by (induction ts) auto

lemma length_link_timer [simp]: "length (link_timer t ts) = Suc (length ts)"
  by (induction ts) auto

lemma set_link_timer [simp]: "set (link_timer t ts) = insert t (set ts)"
  by (metis mset_link_timer set_mset_add_mset_insert set_mset_mset)

lemma sorted_link_timer: "sorted (map expiry ts) \<Longrightarrow> sorted (map expiry (link_timer t ts))"
  by (induction ts) auto

lemma hd_link_timer: "\<not> becomes_first t ts \<Longrightarrow> hd (link_timer t ts) = hd ts"
  by (cases ts) (auto simp: becomes_first_def)

lemma unlink_timer_Some:
  "unlink_timer i ts = Some (t, ts', first) \<Longrightarrow>
   \<exists>xs ys. ts = xs @ t # ys \<and> ts' = xs @ ys \<and> id_of t = i \<and> (first \<longleftrightarrow> xs = []) \<and> i \<notin> id_of ` set xs"
proof (induction ts arbitrary: ts' first)
  case (Cons a ts)
  show ?case
  proof (cases "id_of a = i")
    case True
    then show ?thesis using Cons.prems by (intro exI [of _ "[]"] exI [of _ ts]) auto
  next
    case False
    then obtain ts1 f1 where u: "unlink_timer i ts = Some (t, ts1, f1)" "ts' = a # ts1" "\<not> first"
      using Cons.prems by auto
    obtain xs ys where "ts = xs @ t # ys" "ts1 = xs @ ys" "id_of t = i" "i \<notin> id_of ` set xs"
      using Cons.IH [OF u(1)] by auto
    then show ?thesis using u False by (intro exI [of _ "a # xs"] exI [of _ ys]) auto
  qed
qed simp

lemma unlink_timer_None: "unlink_timer i ts = None \<longleftrightarrow> i \<notin> id_of ` set ts"
  by (induction ts) auto

lemma split_expired_while:
  "split_expired now ts = (takeWhile (\<lambda>t. expiry t \<le> now) ts, dropWhile (\<lambda>t. expiry t \<le> now) ts)"
  by (induction ts) auto

text \<open>In a sorted list the expired timers are exactly those that are due.\<close>

lemma while_sorted:
  "sorted (map expiry ts) \<Longrightarrow>
   takeWhile (\<lambda>t. expiry t \<le> now) ts = filter (\<lambda>t. expiry t \<le> now) ts \<and>
   dropWhile (\<lambda>t. expiry t \<le> now) ts = filter (\<lambda>t. \<not> expiry t \<le> now) ts"
proof (induction ts)
  case (Cons a ts)
  have "\<not> expiry t \<le> now" if "\<not> expiry a \<le> now" "t \<in> set ts" for t
    using Cons.prems that by auto
  then show ?case using Cons by (cases "expiry a \<le> now") (simp_all add: filter_False filter_True)
qed simp

section \<open>Invariant\<close>

text \<open>
  The active timers are in the order of their expiry; every timer in use has an id of its own that
  has been given out.
\<close>

definition ids :: "timer_ctx \<Rightarrow> u32 multiset" where
  "ids ctx = mset (map id_of (app_timers ctx)) + mset (map id_of (idle_timers ctx))"

definition ctx_ok :: "timer_ctx \<Rightarrow> bool" where
  "ctx_ok ctx \<longleftrightarrow>
     sorted (map expiry (app_timers ctx)) \<and> (\<forall>i. count (ids ctx) i \<le> 1) \<and>
     (\<forall>i \<in># ids ctx. unat i \<le> unat (max_timer_id ctx)) \<and> max_timer_id ctx \<noteq> NO_TIMER"

text \<open>The number of timers the context holds.\<close>

definition held :: "timer_ctx \<Rightarrow> nat" where
  "held ctx = length (app_timers ctx) + length (idle_timers ctx) + length (free_timers ctx)"

text \<open>What every operation leaves alone.\<close>

definition same_ctx :: "timer_ctx \<Rightarrow> timer_ctx \<Rightarrow> bool" where
  "same_ctx ctx ctx' \<longleftrightarrow> pre_allocated ctx' = pre_allocated ctx \<and> owner ctx' = owner ctx \<and>
     refresh_checker ctx' = refresh_checker ctx"

lemma same_ctx_refl [simp]: "same_ctx ctx ctx" by (simp add: same_ctx_def)

lemma same_ctx_trans: "same_ctx a b \<Longrightarrow> same_ctx b c \<Longrightarrow> same_ctx a c" by (simp add: same_ctx_def)

lemma reschedule_facts:
  assumes "reschedule_timer now ctx t = (ctx', ev)"
  shows "ids ctx' = add_mset (id_of t) (ids ctx)" and "held ctx' = Suc (held ctx)"
    and "sorted (map expiry (app_timers ctx)) \<Longrightarrow> sorted (map expiry (app_timers ctx'))"
    and "max_timer_id ctx' = max_timer_id ctx" and "same_ctx ctx ctx'"
    and "idle_timers ctx' = idle_timers ctx" and "free_timers ctx' = free_timers ctx"
    and "set (app_timers ctx') = insert (t\<lparr>expiry := now + ucast (interval t)\<rparr>) (set (app_timers ctx))"
proof -
  let ?t = "t\<lparr>expiry := now + ucast (interval t)\<rparr>"
  have ctx': "ctx' = ctx\<lparr>app_timers := link_timer ?t (app_timers ctx)\<rparr>"
    using assms by (simp add: reschedule_timer_def Let_def)
  have "mset (map id_of (link_timer ?t (app_timers ctx))) = add_mset (id_of t) (mset (map id_of (app_timers ctx)))"
    by simp
  then show "ids ctx' = add_mset (id_of t) (ids ctx)" by (simp add: ids_def ctx')
  show "held ctx' = Suc (held ctx)" by (simp add: held_def ctx')
qed (use assms in \<open>auto simp: reschedule_timer_def Let_def same_ctx_def sorted_link_timer\<close>)

lemma remove_from_facts:
  assumes "remove_timer_from ctx i b = (Some t, ctx', ev)"
  shows "ids ctx = add_mset i (ids ctx')" and "id_of t = i" and "held ctx = Suc (held ctx')"
    and "sorted (map expiry (app_timers ctx)) \<Longrightarrow> sorted (map expiry (app_timers ctx'))"
    and "max_timer_id ctx' = max_timer_id ctx" and "same_ctx ctx ctx'"
    and "t \<in> set (if b then app_timers ctx else idle_timers ctx)" and "free_timers ctx' = free_timers ctx"
proof -
  let ?l = "if b then app_timers ctx else idle_timers ctx"
  obtain ts first where u: "unlink_timer i ?l = Some (t, ts, first)"
    and ctx': "ctx' = (if b then ctx\<lparr>app_timers := ts\<rparr> else ctx\<lparr>idle_timers := ts\<rparr>)"
    using assms by (auto simp: remove_timer_from_def split: option.splits)
  obtain xs ys where xs: "?l = xs @ t # ys" "ts = xs @ ys" "id_of t = i"
    using unlink_timer_Some [OF u] by auto
  show "id_of t = i" by (rule xs)
  show "ids ctx = add_mset i (ids ctx')" "held ctx = Suc (held ctx')" "max_timer_id ctx' = max_timer_id ctx"
    "same_ctx ctx ctx'" "t \<in> set ?l" "free_timers ctx' = free_timers ctx"
    using xs by (auto simp: ids_def ctx' held_def same_ctx_def split: if_splits)
  show "sorted (map expiry (app_timers ctx'))" if "sorted (map expiry (app_timers ctx))"
    using that xs by (cases b) (auto simp: ctx' sorted_append)
qed

lemma remove_facts:
  assumes "remove_timer ctx i = (Some t, b, ctx', ev)"
  shows "ids ctx = add_mset i (ids ctx')" and "id_of t = i" and "held ctx = Suc (held ctx')"
    and "sorted (map expiry (app_timers ctx)) \<Longrightarrow> sorted (map expiry (app_timers ctx'))"
    and "max_timer_id ctx' = max_timer_id ctx" and "same_ctx ctx ctx'"
    and "t \<in> set (if b then app_timers ctx else idle_timers ctx)" and "free_timers ctx' = free_timers ctx"
proof -
  have r: "remove_timer_from ctx i b = (Some t, ctx', ev)"
    using assms by (auto simp: remove_timer_def split: prod.splits option.splits)
  show "ids ctx = add_mset i (ids ctx')" "id_of t = i" "held ctx = Suc (held ctx')"
    "max_timer_id ctx' = max_timer_id ctx" "same_ctx ctx ctx'"
    "t \<in> set (if b then app_timers ctx else idle_timers ctx)" "free_timers ctx' = free_timers ctx"
    "sorted (map expiry (app_timers ctx)) \<Longrightarrow> sorted (map expiry (app_timers ctx'))"
    using remove_from_facts [OF r] by auto
qed

lemma remove_None:
  assumes "remove_timer ctx i = (None, b, ctx', ev)"
  shows "ctx' = ctx" and "ev = []" and "i \<notin># ids ctx"
  using assms
  by (auto simp: remove_timer_def remove_timer_from_def ids_def unlink_timer_None image_iff
      split: prod.splits option.splits)

lemma add_idle_facts [simp]:
  "ids (add_idle_timer ctx t) = add_mset (id_of t) (ids ctx)"
  "held (add_idle_timer ctx t) = Suc (held ctx)"
  "app_timers (add_idle_timer ctx t) = app_timers ctx"
  "max_timer_id (add_idle_timer ctx t) = max_timer_id ctx"
  "free_timers (add_idle_timer ctx t) = free_timers ctx"
  "idle_timers (add_idle_timer ctx t) = t # idle_timers ctx"
  "owner (add_idle_timer ctx t) = owner ctx"
  "same_ctx ctx (add_idle_timer ctx t)"
  by (simp_all add: add_idle_timer_def ids_def held_def same_ctx_def)

subsection \<open>Every operation keeps the invariant\<close>

text \<open>Taking a timer out and putting one with its id back.\<close>

lemma ctx_ok_swap:
  assumes "ctx_ok ctx" and "ids ctx' = ids ctx" and "max_timer_id ctx' = max_timer_id ctx"
    and "sorted (map expiry (app_timers ctx'))"
  shows "ctx_ok ctx'"
  using assms by (simp add: ctx_ok_def)

lemma ctx_ok_less:
  assumes "ctx_ok ctx" and "ids ctx = add_mset i (ids ctx')" and "max_timer_id ctx' = max_timer_id ctx"
    and "sorted (map expiry (app_timers ctx'))"
  shows "ctx_ok ctx' \<and> i \<notin># ids ctx'"
proof -
  have one: "count (add_mset i (ids ctx')) j \<le> 1" for j using assms(1,2) by (simp add: ctx_ok_def)
  then have "count (ids ctx') j \<le> 1" for j by (metis count_add_mset le_SucI le_trans not_less_eq_eq)
  moreover have "i \<notin># ids ctx'" using one [of i] by (simp add: not_in_iff)
  ultimately show ?thesis using assms by (auto simp: ctx_ok_def)
qed

lemma cancel_ok:
  assumes ok: "ctx_ok ctx" and run: "sys_timer_cancel ctx i = (b, ctx', ev)"
  shows "ctx_ok ctx' \<and> ids ctx' = ids ctx \<and> held ctx' = held ctx \<and> same_ctx ctx ctx' \<and>
    i \<notin> id_of ` set (app_timers ctx') \<and> (b \<longleftrightarrow> i \<in> id_of ` set (app_timers ctx))"
proof (cases "fst (remove_timer ctx i)")
  case None
  then obtain b' c e where r: "remove_timer ctx i = (None, b', c, e)" by (cases "remove_timer ctx i") auto
  note none = remove_None [OF r]
  have "i \<notin> id_of ` set (app_timers ctx)" using none(3) by (auto simp: ids_def)
  then show ?thesis using run r none(1) ok by (simp add: sys_timer_cancel_def)
next
  case (Some t)
  then obtain b' c e where r: "remove_timer ctx i = (Some t, b', c, e)" by (cases "remove_timer ctx i") auto
  note f = remove_facts [OF r]
  have srt: "sorted (map expiry (app_timers ctx))" using ok by (simp add: ctx_ok_def)
  have ctx': "ctx' = add_idle_timer c t" "b = b'" using run r by (simp_all add: sys_timer_cancel_def)
  have gone: "i \<notin># ids c" using ctx_ok_less [OF ok f(1,5) f(4) [OF srt]] by simp
  have ids': "ids ctx' = ids ctx" using f(1,2) by (simp add: ctx')
  have "b' \<longleftrightarrow> i \<in> id_of ` set (app_timers ctx)"
    using f(1,2,7) gone r
    by (auto simp: remove_timer_def remove_timer_from_def unlink_timer_None split: prod.splits option.splits if_splits)
  then show ?thesis
    using ctx_ok_swap [OF ok ids'] f gone srt same_ctx_trans [OF f(6), of ctx']
    by (auto simp: ctx' ids_def)
qed

lemma destroy_ok:
  assumes ok: "ctx_ok ctx" and run: "sys_timer_destroy ctx i = (b, ctx', ev)"
  shows "ctx_ok ctx' \<and> i \<notin># ids ctx' \<and> (b \<longleftrightarrow> i \<in># ids ctx) \<and> same_ctx ctx ctx' \<and>
    (\<forall>j. j \<noteq> i \<longrightarrow> count (ids ctx') j = count (ids ctx) j) \<and> (pre_allocated ctx \<noteq> 0 \<longrightarrow> held ctx' = held ctx)"
proof (cases "fst (remove_timer ctx i)")
  case None
  then obtain b' c e where r: "remove_timer ctx i = (None, b', c, e)" by (cases "remove_timer ctx i") auto
  then show ?thesis using run r remove_None [OF r] ok by (simp add: sys_timer_destroy_def)
next
  case (Some t)
  then obtain b' c e where r: "remove_timer ctx i = (Some t, b', c, e)" by (cases "remove_timer ctx i") auto
  note f = remove_facts [OF r]
  have srt: "sorted (map expiry (app_timers ctx))" using ok by (simp add: ctx_ok_def)
  have ok1: "ctx_ok c \<and> i \<notin># ids c" by (rule ctx_ok_less [OF ok f(1,5) f(4) [OF srt]])
  have ctx': "ctx' = fst (release_timer c t)" and b: "b" using run r by (auto simp: sys_timer_destroy_def split: prod.splits)
  have rel: "ids ctx' = ids c" "app_timers ctx' = app_timers c" "max_timer_id ctx' = max_timer_id c"
    "same_ctx c ctx'" "pre_allocated c \<noteq> 0 \<longrightarrow> held ctx' = Suc (held c)"
    by (auto simp: ctx' release_timer_def ids_def same_ctx_def held_def)
  show ?thesis
    using ok1 rel f b same_ctx_trans [OF f(6) rel(4)] by (auto simp: ctx_ok_def same_ctx_def)
qed

lemma restart_ok:
  assumes ok: "ctx_ok ctx" and run: "sys_timer_restart now ctx i ival = (b, ctx', ev)"
  shows "ctx_ok ctx' \<and> ids ctx' = ids ctx \<and> held ctx' = held ctx \<and> same_ctx ctx ctx' \<and> (b \<longleftrightarrow> i \<in># ids ctx) \<and>
    (b \<longrightarrow> (\<exists>t \<in> set (app_timers ctx'). id_of t = i \<and> interval t = ival \<and> expiry t = now + ucast ival))"
proof (cases "fst (remove_timer ctx i)")
  case None
  then obtain b' c e where r: "remove_timer ctx i = (None, b', c, e)" by (cases "remove_timer ctx i") auto
  then show ?thesis using run r remove_None [OF r] ok by (simp add: sys_timer_restart_def)
next
  case (Some t)
  then obtain b' c e where r: "remove_timer ctx i = (Some t, b', c, e)" by (cases "remove_timer ctx i") auto
  note f = remove_facts [OF r]
  obtain e' where re: "reschedule_timer now c (t\<lparr>interval := ival\<rparr>) = (ctx', e')" and b: "b"
    using run r by (auto simp: sys_timer_restart_def split: prod.splits)
  note g = reschedule_facts [OF re]
  have srt: "sorted (map expiry (app_timers ctx))" using ok by (simp add: ctx_ok_def)
  have ids': "ids ctx' = ids ctx" using f(1,2) g(1) by simp
  have "ctx_ok ctx'" by (rule ctx_ok_swap [OF ok ids']) (use f g srt in auto)
  then show ?thesis
    using ids' f g b same_ctx_trans [OF f(6) g(5)] by auto
qed

lemma next_timer_id_fresh:
  assumes "m \<noteq> NO_TIMER" and "m + 1 \<noteq> NO_TIMER"
  shows "next_timer_id m = m + 1" and "unat (m + 1) = Suc (unat m)"
proof -
  show "next_timer_id m = m + 1" using assms(2) by (simp add: next_timer_id_def)
  have "NO_TIMER = 0xffffffff" by (simp add: NO_TIMER_def)
  then have "unat m \<noteq> 2 ^ 32 - 1" using assms(1) by (auto simp: word_unat_eq_iff)
  then have "Suc (unat m) < 2 ^ 32" using unsigned_less [where ?'a = nat, of m] by simp
  then show "unat (m + 1) = Suc (unat m)" using unat_Suc_less [of m "Suc (unat m)"] by simp
qed

lemma create_ok:
  assumes ok: "ctx_ok ctx" and room: "max_timer_id ctx + 1 \<noteq> NO_TIMER"
    and run: "sys_create_timer malloc_ok now ctx ival per auto = (i, ctx', ev)"
  shows "ctx_ok ctx' \<and> same_ctx ctx ctx' \<and> (pre_allocated ctx \<noteq> 0 \<longrightarrow> held ctx' = held ctx) \<and>
    (if i = NO_TIMER then ctx' = ctx else i \<notin># ids ctx \<and> ids ctx' = add_mset i (ids ctx))"
proof (cases "pre_allocated ctx \<noteq> 0 \<and> free_timers ctx = [] \<or> pre_allocated ctx = 0 \<and> \<not> malloc_ok")
  case True
  then show ?thesis using run ok by (auto simp: sys_create_timer_def)
next
  case False
  have m: "max_timer_id ctx \<noteq> NO_TIMER" using ok by (simp add: ctx_ok_def)
  note fresh = next_timer_id_fresh [OF m room]
  define c0 where "c0 = (if pre_allocated ctx \<noteq> 0 then ctx\<lparr>free_timers := tl (free_timers ctx)\<rparr> else ctx)"
  define c where "c = c0\<lparr>max_timer_id := max_timer_id ctx + 1\<rparr>"
  define t where "t = zero_timer\<lparr>id_of := max_timer_id ctx + 1, interval := ival, is_periodic := per\<rparr>"
  have c: "ids c = ids ctx" "app_timers c = app_timers ctx" "same_ctx ctx c"
    "pre_allocated ctx \<noteq> 0 \<longrightarrow> Suc (held c) = held ctx" "max_timer_id c = max_timer_id ctx + 1"
    using False by (auto simp: c_def c0_def ids_def same_ctx_def held_def neq_Nil_conv)
  have i: "i = max_timer_id ctx + 1" and
    e: "(if auto then fst (reschedule_timer now c t) else add_idle_timer c t) = ctx'"
    using run False fresh(1)
    by (auto simp: sys_create_timer_def c_def c0_def t_def Let_def split: prod.splits if_splits)
  have t: "id_of t = i" by (simp add: t_def i)
  have srt: "sorted (map expiry (app_timers ctx))" using ok by (simp add: ctx_ok_def)
  have "ids ctx' = add_mset i (ids c) \<and> held ctx' = Suc (held c) \<and> max_timer_id ctx' = max_timer_id c \<and>
    same_ctx c ctx' \<and> sorted (map expiry (app_timers ctx'))"
  proof (cases auto)
    case True
    obtain ev' where re: "reschedule_timer now c t = (ctx', ev')"
      using e True by (cases "reschedule_timer now c t") auto
    show ?thesis using reschedule_facts [OF re] t c(2) srt by auto
  next
    case False
    then have "ctx' = add_idle_timer c t" using e by simp
    then show ?thesis using t c(2) srt by simp
  qed
  then have new: "ids ctx' = add_mset i (ids ctx)" "held ctx' = Suc (held c)" "max_timer_id ctx' = i"
    "same_ctx ctx ctx'" "sorted (map expiry (app_timers ctx'))"
    using c i same_ctx_trans [OF c(3), of ctx'] by simp_all
  have notin: "i \<notin># ids ctx" using ok i fresh(2) by (fastforce simp: ctx_ok_def)
  then have "ctx_ok ctx'"
    using new ok i fresh room by (auto simp: ctx_ok_def not_in_iff le_Suc_eq)
  then show ?thesis using new notin c(4) i room by auto
qed

subsection \<open>Expiry\<close>

fun fired :: "tevent list \<Rightarrow> (u32 \<times> u32) list" where
  "fired [] = []"
| "fired (Timeout i o' # ev) = (i, o') # fired ev"
| "fired (_ # ev) = fired ev"

lemma fired_append [simp]: "fired (ev @ ev') = fired ev @ fired ev'"
  by (induction ev rule: fired.induct) auto

lemma fired_refresh [simp]: "fired (refresh ctx b) = []"
  by (simp add: refresh_def)

lemma fired_reschedule: "reschedule_timer now ctx t = (ctx', ev) \<Longrightarrow> fired ev = []"
  by (auto simp: reschedule_timer_def Let_def)

text \<open>What becomes of one expired timer.\<close>

definition expire_one :: "(nat \<Rightarrow> u64) \<Rightarrow> nat \<Rightarrow> timer_ctx \<Rightarrow> app_timer \<Rightarrow> nat \<times> timer_ctx \<times> tevent list" where
  "expire_one tick k ctx t =
     (if is_periodic t then (let (c, ev) = reschedule_timer (tick k) ctx t in (k + 1, c, ev))
      else (k, add_idle_timer ctx t, []))"

lemma expire_one_facts:
  assumes "expire_one tick k ctx t = (k', ctx', ev)"
  shows "ids ctx' = add_mset (id_of t) (ids ctx)" and "held ctx' = Suc (held ctx)"
    and "sorted (map expiry (app_timers ctx)) \<Longrightarrow> sorted (map expiry (app_timers ctx'))"
    and "max_timer_id ctx' = max_timer_id ctx" and "same_ctx ctx ctx'" and "fired ev = []"
    and "idle_timers ctx' = (if is_periodic t then idle_timers ctx else t # idle_timers ctx)"
    and "k' = (if is_periodic t then k + 1 else k)"
    and "mset (map id_of (app_timers ctx')) =
           mset (map id_of (app_timers ctx)) + (if is_periodic t then {#id_of t#} else {#})"
proof -
  have *: "ids ctx' = add_mset (id_of t) (ids ctx) \<and> held ctx' = Suc (held ctx) \<and>
    (sorted (map expiry (app_timers ctx)) \<longrightarrow> sorted (map expiry (app_timers ctx'))) \<and>
    max_timer_id ctx' = max_timer_id ctx \<and> same_ctx ctx ctx' \<and> fired ev = [] \<and>
    idle_timers ctx' = (if is_periodic t then idle_timers ctx else t # idle_timers ctx) \<and>
    k' = (if is_periodic t then k + 1 else k)"
  proof (cases "is_periodic t")
    case True
    then have re: "reschedule_timer (tick k) ctx t = (ctx', ev)" and k: "k' = k + 1"
      using assms by (auto simp: expire_one_def split: prod.splits)
    show ?thesis using True k reschedule_facts [OF re] fired_reschedule [OF re] by auto
  qed (use assms in \<open>auto simp: expire_one_def\<close>)
  then show "ids ctx' = add_mset (id_of t) (ids ctx)" "held ctx' = Suc (held ctx)"
    "sorted (map expiry (app_timers ctx)) \<Longrightarrow> sorted (map expiry (app_timers ctx'))"
    "max_timer_id ctx' = max_timer_id ctx" "same_ctx ctx ctx'" "fired ev = []"
    "idle_timers ctx' = (if is_periodic t then idle_timers ctx else t # idle_timers ctx)"
    "k' = (if is_periodic t then k + 1 else k)" by auto
  then show "mset (map id_of (app_timers ctx')) =
      mset (map id_of (app_timers ctx)) + (if is_periodic t then {#id_of t#} else {#})"
    by (auto simp: ids_def split: if_splits)
qed

lemma handle_expired_Cons:
  assumes "expire_one tick k ctx t = (k1, c1, e1)" and "handle_expired_timers tick k1 c1 ts = (k2, c2, e2)"
  shows "handle_expired_timers tick k ctx (t # ts) = (k2, c2, Timeout (id_of t) (owner ctx) # e1 @ e2)"
  using assms by (auto simp: expire_one_def split: prod.splits if_splits)

lemma handle_expired_facts:
  assumes "handle_expired_timers tick k ctx ts = (k', ctx', ev)"
  shows "ids ctx' = ids ctx + mset (map id_of ts) \<and> held ctx' = held ctx + length ts \<and>
    (sorted (map expiry (app_timers ctx)) \<longrightarrow> sorted (map expiry (app_timers ctx'))) \<and>
    max_timer_id ctx' = max_timer_id ctx \<and> same_ctx ctx ctx' \<and>
    fired ev = map (\<lambda>t. (id_of t, owner ctx)) ts \<and>
    idle_timers ctx' = rev (filter (\<lambda>t. \<not> is_periodic t) ts) @ idle_timers ctx \<and>
    k' = k + length (filter is_periodic ts) \<and>
    mset (map id_of (app_timers ctx')) = mset (map id_of (app_timers ctx)) + mset (map id_of (filter is_periodic ts))"
  using assms
proof (induction ts arbitrary: k ctx ev)
  case Nil
  then show ?case by simp
next
  case (Cons t ts)
  obtain k1 c1 e1 where one: "expire_one tick k ctx t = (k1, c1, e1)" by (cases "expire_one tick k ctx t") auto
  obtain k2 c2 e2 where rest: "handle_expired_timers tick k1 c1 ts = (k2, c2, e2)"
    by (cases "handle_expired_timers tick k1 c1 ts") auto
  have eq: "k' = k2" "ctx' = c2" "ev = Timeout (id_of t) (owner ctx) # e1 @ e2"
    using Cons.prems handle_expired_Cons [OF one rest] by simp_all
  note f = expire_one_facts [OF one]
  have "owner c1 = owner ctx" using f(5) by (simp add: same_ctx_def)
  then show ?case
    using Cons.IH [OF rest [folded eq(1,2)]] f same_ctx_trans [OF f(5), of c2]
    by (cases "is_periodic t") (auto simp: eq)
qed

text \<open>
  A check fires exactly the timers that are due, in the order of their expiry; periodic ones are
  active again, the others idle.
\<close>

lemma check_ok:
  assumes ok: "ctx_ok ctx" and run: "check_app_timers tick ctx = (ms, ctx', ev)"
  defines "due \<equiv> filter (\<lambda>t. expiry t \<le> tick 0) (app_timers ctx)"
  shows "ctx_ok ctx' \<and> ids ctx' = ids ctx \<and> held ctx' = held ctx \<and> same_ctx ctx ctx' \<and>
    fired ev = map (\<lambda>t. (id_of t, owner ctx)) due \<and>
    idle_timers ctx' = rev (filter (\<lambda>t. \<not> is_periodic t) due) @ idle_timers ctx \<and>
    mset (map id_of (app_timers ctx')) =
      mset (map id_of (filter (\<lambda>t. \<not> expiry t \<le> tick 0) (app_timers ctx))) + mset (map id_of (filter is_periodic due)) \<and>
    ms = get_expiry_ms (tick (1 + length (filter is_periodic due))) ctx'"
proof -
  have srt: "sorted (map expiry (app_timers ctx))" using ok by (simp add: ctx_ok_def)
  define rest where "rest = filter (\<lambda>t. \<not> expiry t \<le> tick 0) (app_timers ctx)"
  have split: "split_expired (tick 0) (app_timers ctx) = (due, rest)"
    using while_sorted [OF srt, of "tick 0"] by (simp add: split_expired_while due_def rest_def)
  define c where "c = ctx\<lparr>app_timers := rest\<rparr>"
  obtain k where h: "handle_expired_timers tick 1 c due = (k, ctx', ev)" and ms: "ms = get_expiry_ms (tick k) ctx'"
    using run split by (auto simp: check_app_timers_def Let_def c_def split: prod.splits)
  note f = handle_expired_facts [OF h]
  have "mset (app_timers ctx) = mset due + mset rest"
    using multiset_partition [of "mset (app_timers ctx)" "\<lambda>t. expiry t \<le> tick 0"]
    by (simp add: due_def rest_def)
  then have part: "mset (map id_of (app_timers ctx)) = mset (map id_of rest) + mset (map id_of due)"
    by (simp add: add.commute)
  have len: "length (app_timers ctx) = length rest + length due"
    unfolding rest_def due_def by (metis add.commute sum_length_filter_compl)
  have c: "ids ctx = ids c + mset (map id_of due)" "held ctx = held c + length due" "max_timer_id c = max_timer_id ctx"
    "same_ctx ctx c" "owner c = owner ctx" "idle_timers c = idle_timers ctx" "app_timers c = rest"
    using part len by (simp_all add: c_def ids_def held_def same_ctx_def)
  have "sorted (map expiry rest)" using srt by (simp add: rest_def sorted_filter)
  then have "ctx_ok ctx'" using ctx_ok_swap [OF ok, of ctx'] f c by simp
  then show ?thesis using f c ms same_ctx_trans [OF c(4), of ctx'] by (simp add: rest_def)
qed

section \<open>Runs\<close>

text \<open>
  What an application and the timer manager can do with a context, in any order. A new timer is
  asked for only while an id is left: after 4294967294 timers the code starts again at 0.
\<close>

inductive timer_step :: "timer_ctx \<Rightarrow> timer_ctx \<Rightarrow> bool" where
  step_create: "max_timer_id ctx + 1 \<noteq> NO_TIMER \<Longrightarrow>
    timer_step ctx (fst (snd (sys_create_timer malloc_ok now ctx ival per auto_start)))"
| step_cancel: "timer_step ctx (fst (snd (sys_timer_cancel ctx i)))"
| step_destroy: "timer_step ctx (fst (snd (sys_timer_destroy ctx i)))"
| step_restart: "timer_step ctx (fst (snd (sys_timer_restart now ctx i ival)))"
| step_check: "timer_step ctx (fst (snd (check_app_timers tick ctx)))"

lemma timer_step_ok:
  assumes "timer_step ctx ctx'" and "ctx_ok ctx"
  shows "ctx_ok ctx' \<and> same_ctx ctx ctx' \<and> (pre_allocated ctx \<noteq> 0 \<longrightarrow> held ctx' = held ctx)"
  using assms(1)
proof cases
  case (step_create malloc_ok now ival per auto_start)
  then show ?thesis
    using create_ok [OF assms(2)] by (cases "sys_create_timer malloc_ok now ctx ival per auto_start") auto
next
  case (step_cancel i)
  then show ?thesis using cancel_ok [OF assms(2)] by (cases "sys_timer_cancel ctx i") auto
next
  case (step_destroy i)
  then show ?thesis using destroy_ok [OF assms(2)] by (cases "sys_timer_destroy ctx i") auto
next
  case (step_restart now i ival)
  then show ?thesis using restart_ok [OF assms(2)] by (cases "sys_timer_restart now ctx i ival") auto
next
  case (step_check tick)
  then show ?thesis using check_ok [OF assms(2)] by (cases "check_app_timers tick ctx") auto
qed

lemma timer_run_ok:
  assumes "timer_step\<^sup>*\<^sup>* ctx ctx'" and "ctx_ok ctx"
  shows "ctx_ok ctx' \<and> same_ctx ctx ctx' \<and> (pre_allocated ctx \<noteq> 0 \<longrightarrow> held ctx' = held ctx)"
  using assms(1)
proof (induction rule: rtranclp_induct)
  case base
  then show ?case using assms(2) by simp
next
  case (step c c')
  then show ?case using timer_step_ok [OF step.hyps(2)] by (auto simp: same_ctx_def)
qed

lemma prealloc_length: "prealloc malloc n ts = Inr ts' \<Longrightarrow> length ts' = length ts + nat n"
proof (induction malloc n ts rule: prealloc.induct)
  case (1 malloc n ts)
  then show ?case by (cases "n > 0") (auto simp: prealloc.simps [of malloc n ts] split: if_splits)
qed

lemma create_ctx_ok:
  assumes "create_timer_ctx ctx_ok' malloc cond_ok mutex_ok checker n own = (Some ctx, ev)"
  shows "ctx_ok ctx \<and> held ctx = nat n \<and> pre_allocated ctx = n \<and> ev = []"
  using assms prealloc_length [of malloc n "[]"]
  by (auto simp: create_timer_ctx_def ctx_ok_def ids_def held_def NO_TIMER_def split: sum.splits if_splits)

subsection \<open>Refreshing\<close>

text \<open>
  The manager sleeps until the first timer expires. Whenever an operation of the application
  changes which timer is first, the refresh checker is called.
\<close>

definition first_timer :: "timer_ctx \<Rightarrow> app_timer option" where
  "first_timer ctx = (case app_timers ctx of [] \<Rightarrow> None | t # _ \<Rightarrow> Some t)"

lemma remove_first:
  assumes "remove_timer ctx i = (r, b, ctx', ev)" and "refresh_checker ctx" and "Refresh \<notin> set ev"
  shows "first_timer ctx' = first_timer ctx"
proof (cases r)
  case None
  then show ?thesis using remove_None [of ctx i b ctx' ev] assms(1) by simp
next
  case (Some t)
  then have "remove_timer_from ctx i b = (Some t, ctx', ev)"
    using assms(1) by (auto simp: remove_timer_def split: prod.splits option.splits)
  then show ?thesis
    using assms(2,3)
    by (auto simp: remove_timer_from_def refresh_def first_timer_def neq_Nil_conv split: option.splits if_splits list.splits
        dest!: unlink_timer_Some)
qed

lemma reschedule_first:
  assumes "reschedule_timer now ctx t = (ctx', ev)" and "refresh_checker ctx" and "Refresh \<notin> set ev"
  shows "first_timer ctx' = first_timer ctx"
  using assms
  by (cases "app_timers ctx")
     (auto simp: reschedule_timer_def Let_def refresh_def becomes_first_def first_timer_def split: if_splits)

lemma restart_first:
  assumes "sys_timer_restart now ctx i ival = (b, ctx', ev)" and "refresh_checker ctx" and "Refresh \<notin> set ev"
  shows "first_timer ctx' = first_timer ctx"
proof (cases "fst (remove_timer ctx i)")
  case None
  then obtain b' c e where r: "remove_timer ctx i = (None, b', c, e)" by (cases "remove_timer ctx i") auto
  then show ?thesis using assms remove_None [OF r] by (simp add: sys_timer_restart_def)
next
  case (Some t)
  then obtain b' c e where r: "remove_timer ctx i = (Some t, b', c, e)" by (cases "remove_timer ctx i") auto
  obtain e' where re: "reschedule_timer now c (t\<lparr>interval := ival\<rparr>) = (ctx', e')" "ev = e @ e'"
    using assms(1) r by (auto simp: sys_timer_restart_def split: prod.splits)
  have "refresh_checker c" using remove_facts(6) [OF r] assms(2) by (simp add: same_ctx_def)
  then show ?thesis using remove_first [OF r assms(2)] reschedule_first [OF re(1)] re(2) assms(3) by simp
qed

lemma cancel_first:
  assumes "sys_timer_cancel ctx i = (b, ctx', ev)" and "refresh_checker ctx" and "Refresh \<notin> set ev"
  shows "first_timer ctx' = first_timer ctx"
  using assms remove_first [of ctx i]
  by (auto simp: sys_timer_cancel_def first_timer_def split: prod.splits option.splits)

end
