(* ===== verification/Bh_Common.thy ===== *)
theory Bh_Common
  imports Prelude
begin

unbundle bit_operations_syntax

text \<open>
  The checked memory and string functions of the WebAssembly runtime,
  \<open>wamr/core/shared/utils/bh_common.c\<close>. Memory is a function from addresses to bytes, addresses are
  natural numbers (the objects lie below \<open>2 ^ 64\<close>, so that no pointer wraps), 0 is the null pointer.
  The copy with word alignment reads whole aligned words; it is shown to be the plain copy.
\<close>

section \<open>Memory\<close>

type_synonym mem = "nat \<Rightarrow> u8"

definition copy_bytes :: "mem \<Rightarrow> nat \<Rightarrow> nat \<Rightarrow> nat \<Rightarrow> mem" where
  "copy_bytes m dest src n = (\<lambda>a. if dest \<le> a \<and> a < dest + n then m (src + (a - dest)) else m a)"

definition memset_zero :: "mem \<Rightarrow> nat \<Rightarrow> nat \<Rightarrow> mem" where
  "memset_zero m dest n = (\<lambda>a. if dest \<le> a \<and> a < dest + n then 0 else m a)"

text \<open>\<open>memcpy\<close> may not be used on ranges that overlap, \<open>memmove\<close> may.\<close>

definition disjnt_range :: "nat \<Rightarrow> nat \<Rightarrow> nat \<Rightarrow> nat \<Rightarrow> bool" where
  "disjnt_range a n b k \<longleftrightarrow> n = 0 \<or> k = 0 \<or> a + n \<le> b \<or> b + k \<le> a"

definition memcpy :: "mem \<Rightarrow> nat \<Rightarrow> nat \<Rightarrow> nat \<Rightarrow> fault + mem" where
  "memcpy m dest src n = (if disjnt_range dest n src n then Inr (copy_bytes m dest src n) else Inl Overlap)"

definition memmove :: "mem \<Rightarrow> nat \<Rightarrow> nat \<Rightarrow> nat \<Rightarrow> mem" where
  "memmove m dest src n = copy_bytes m dest src n"

text \<open>\<open>None\<close>: there is no terminator.\<close>

partial_function (option) strlen_from :: "mem \<Rightarrow> nat \<Rightarrow> nat \<Rightarrow> nat option" where
  "strlen_from m p n = (if m (p + n) = 0 then Some n else strlen_from m p (n + 1))"

definition mem_strlen :: "mem \<Rightarrow> nat \<Rightarrow> nat option" where
  "mem_strlen m p = strlen_from m p 0"

section \<open>The functions\<close>

definition align_ptr :: "nat \<Rightarrow> nat \<Rightarrow> nat" where
  "align_ptr src b =
     (let v = (of_nat src :: u64); m = (of_nat b :: u64) - 1 in unat ((v + m) AND NOT m))"

text \<open>
  The inner loops: from \<open>ps\<close> to \<open>stop\<close>, byte by byte out of the word \<open>buff\<close> read at \<open>p\<close>; reading
  beyond the word is a fault.
\<close>

function word_bytes :: "u8 list \<Rightarrow> nat \<Rightarrow> nat \<Rightarrow> nat \<Rightarrow> mem \<Rightarrow> nat \<Rightarrow> fault + (mem \<times> nat)" where
  "word_bytes buff p ps stop m dest =
     (if ps < stop then
        (if ps - p < length buff then word_bytes buff p (ps + 1) stop (m(dest := buff ! (ps - p))) (dest + 1)
         else Inl Out_of_bounds)
      else Inr (m, dest))"
  by pat_completeness auto
termination by (relation "measure (\<lambda>(buff, p, ps, stop, m, dest). stop - ps)") auto

declare word_bytes.simps [simp del]

definition copy_word :: "mem \<Rightarrow> nat \<Rightarrow> nat \<Rightarrow> nat \<Rightarrow> nat \<Rightarrow> nat \<Rightarrow> fault + (mem \<times> nat)" where
  "copy_word m dest src n pb p =
     (let buff = [m p, m (p + 1), m (p + 2), m (p + 3)] in
      if p \<le> src then word_bytes buff p src (min (p + 4) (src + n)) m dest
      else if p \<ge> pb - 4 then word_bytes buff p p (src + n) m dest
      else if p + 4 \<ge> src + n then word_bytes buff p p (src + n) m dest
      else word_bytes buff p p (p + 4) m dest)"

function wa_loop :: "mem \<Rightarrow> nat \<Rightarrow> nat \<Rightarrow> nat \<Rightarrow> nat \<Rightarrow> nat \<Rightarrow> fault + mem" where
  "wa_loop m dest src n pb p =
     (if p < pb then
        (case copy_word m dest src n pb p of
           Inl f \<Rightarrow> Inl f
         | Inr (m', dest') \<Rightarrow> wa_loop m' dest' src n pb (p + 4))
      else Inr m)"
  by pat_completeness auto
termination by (relation "measure (\<lambda>(m, dest, src, n, pb, p). pb - p)") auto

declare wa_loop.simps [simp del]

definition b_memcpy_wa :: "mem \<Rightarrow> nat \<Rightarrow> u32 \<Rightarrow> nat \<Rightarrow> u32 \<Rightarrow> fault + (int \<times> mem)" where
  "b_memcpy_wa m s1 s1max s2 n =
     (let pa = align_ptr s2 4; pb = align_ptr (s2 + unat n) 4 in
      if n = 0 then Inr (0, m)
      else
        let pa = (if pa > s2 then pa - 4 else pa) in
        map_sum id (\<lambda>m. (0, m)) (wa_loop m s1 s2 (unat n) pb pa))"

definition b_memcpy_s :: "mem \<Rightarrow> nat \<Rightarrow> u32 \<Rightarrow> nat \<Rightarrow> u32 \<Rightarrow> fault + (int \<times> mem)" where
  "b_memcpy_s m s1 s1max s2 n =
     (if n = 0 then Inr (0, m)
      else if s1 = 0 then Inr (- 1, m)
      else if s2 = 0 \<or> n > s1max then Inr (- 1, memset_zero m s1 (unat s1max))
      else map_sum id (\<lambda>m. (0, m)) (memcpy m s1 s2 (unat n)))"

definition b_memmove_s :: "mem \<Rightarrow> nat \<Rightarrow> u32 \<Rightarrow> nat \<Rightarrow> u32 \<Rightarrow> int \<times> mem" where
  "b_memmove_s m s1 s1max s2 n =
     (if n = 0 then (0, m)
      else if s1 = 0 then (- 1, m)
      else if s2 = 0 \<or> n > s1max then (- 1, memset_zero m s1 (unat s1max))
      else (0, memmove m s1 s2 (unat n)))"

text \<open>In the string functions, \<open>None\<close> is an argument that is not terminated.\<close>

definition b_strcat_s :: "mem \<Rightarrow> nat \<Rightarrow> u32 \<Rightarrow> nat \<Rightarrow> (fault + (int \<times> mem)) option" where
  "b_strcat_s m s1 s1max s2 =
     (if s1 = 0 \<or> s2 = 0 then Some (Inr (- 1, m))
      else (case (mem_strlen m s1, mem_strlen m s2) of
        (Some l1, Some l2) \<Rightarrow>
          if unat s1max < l1 + l2 + 1 then Some (Inr (- 1, m))
          else Some (map_sum id (\<lambda>m. (0, m)) (memcpy m (s1 + l1) s2 (l2 + 1)))
      | _ \<Rightarrow> None))"

definition b_strcpy_s :: "mem \<Rightarrow> nat \<Rightarrow> u32 \<Rightarrow> nat \<Rightarrow> (fault + (int \<times> mem)) option" where
  "b_strcpy_s m s1 s1max s2 =
     (if s1 = 0 \<or> s2 = 0 then Some (Inr (- 1, m))
      else (case mem_strlen m s2 of
        Some l2 \<Rightarrow>
          if unat s1max < l2 + 1 then Some (Inr (- 1, m))
          else Some (map_sum id (\<lambda>m. (0, m)) (memcpy m s1 s2 (l2 + 1)))
      | None \<Rightarrow> None))"

text \<open>
  \<open>malloc size\<close> is the address of a new block or 0. The size is cut to 32 bits, as in the code. The
  result is the new pointer and the memory.
\<close>

definition strdup_with :: "(u32 \<Rightarrow> nat) \<Rightarrow> mem \<Rightarrow> nat \<Rightarrow> (fault + (nat \<times> mem)) option" where
  "strdup_with malloc m s =
     (if s = 0 then Some (Inr (0, m))
      else (case mem_strlen m s of
        None \<Rightarrow> None
      | Some l \<Rightarrow>
          let sz = (of_nat (l + 1) :: u32); s1 = malloc sz in
          if s1 = 0 then Some (Inr (0, m))
          else Some (map_sum id (\<lambda>(_, m). (s1, m)) (b_memcpy_s m s1 sz s sz))))"

definition bh_strdup :: "(u32 \<Rightarrow> nat) \<Rightarrow> mem \<Rightarrow> nat \<Rightarrow> (fault + (nat \<times> mem)) option" where
  "bh_strdup bh_malloc m s = strdup_with bh_malloc m s"

definition wa_strdup :: "(u32 \<Rightarrow> nat) \<Rightarrow> mem \<Rightarrow> nat \<Rightarrow> (fault + (nat \<times> mem)) option" where
  "wa_strdup wa_malloc m s = strdup_with wa_malloc m s"

section \<open>Alignment\<close>

lemma and_not_3: "unat (w AND NOT 3) = 4 * (unat w div 4)" for w :: u64
  using unat_and_not_mask [of w 2] by (simp add: mask_eq_exp_minus_1)

lemma align_ptr_4: "v + 3 < 2 ^ 64 \<Longrightarrow> align_ptr v 4 = 4 * ((v + 3) div 4)"
proof -
  assume v: "v + 3 < 2 ^ 64"
  have "unat (of_nat v + 3 :: u64) = v + 3"
    using v unat_plus_simple [of "of_nat v :: u64" 3] by (simp add: unsigned_of_nat take_bit_nat_eq_self)
  then show ?thesis using and_not_3 [of "of_nat v + 3"] by (simp add: align_ptr_def)
qed

section \<open>The aligned copy is the copy\<close>

text \<open>One inner loop, from where \<open>k\<close> bytes have been copied.\<close>

lemma word_bytes_copy:
  assumes "p \<le> src + k" and "stop \<le> p + 4" and "src + k \<le> stop"
    and "buff = [m p, m (p + 1), m (p + 2), m (p + 3)]"
  shows "word_bytes buff p (src + k) stop (copy_bytes m dest src k) (dest + k) =
         Inr (copy_bytes m dest src (stop - src), dest + (stop - src))"
  using assms(1,3)
proof (induction "stop - (src + k)" arbitrary: k)
  case 0
  then show ?case by (subst word_bytes.simps) auto
next
  case (Suc j)
  have lt: "src + k < stop" using Suc.hyps(2) by simp
  have idx: "src + k - p < 4" using lt assms(2) Suc.prems(1) by simp
  have "buff ! (src + k - p) = m (src + k)"
  proof -
    define i where "i = src + k - p"
    have "src + k = p + i" "i < 4" using Suc.prems(1) idx by (simp_all add: i_def)
    then have "i = 0 \<or> i = 1 \<or> i = 2 \<or> i = 3" by linarith
    then show ?thesis using \<open>src + k = p + i\<close> assms(4) by (auto simp: numeral_2_eq_2 numeral_3_eq_3)
  qed
  moreover have "(copy_bytes m dest src k)(dest + k := m (src + k)) = copy_bytes m dest src (Suc k)"
    by (auto simp: copy_bytes_def fun_eq_iff)
  moreover have "word_bytes buff p (src + Suc k) stop (copy_bytes m dest src (Suc k)) (dest + Suc k) =
      Inr (copy_bytes m dest src (stop - src), dest + (stop - src))"
    using Suc.hyps(2) Suc.prems lt by (intro Suc.hyps(1)) auto
  ultimately show ?case
    using lt idx assms(4) by (subst word_bytes.simps) simp
qed

text \<open>
  The words that are read lie between the aligned start and the aligned end of the source; the
  destination may not overlap them.
\<close>

lemma copy_bytes_outside: "\<not> (dest \<le> a \<and> a < dest + n) \<Longrightarrow> k \<le> n \<Longrightarrow> copy_bytes m dest src k a = m a"
  by (auto simp: copy_bytes_def)

lemma round_up:
  "x \<le> 4 * ((x + 3) div 4)" "4 * ((x + 3) div 4) < x + 4" "4 dvd 4 * ((x + 3) div 4)" for x :: nat
  by (linarith, linarith, rule dvd_triv_left)

lemma round_down:
  "(if s < 4 * ((s + 3) div 4) then 4 * ((s + 3) div 4) - 4 else 4 * ((s + 3) div 4)) = 4 * (s div 4)"
  for s :: nat
proof -
  define q r where "q = s div 4" and "r = s mod 4"
  have s: "s = 4 * q + r" and r: "r < 4" by (simp_all add: q_def r_def)
  have "(s + 3) div 4 = q + (r + 3) div 4" unfolding s by (simp add: add.assoc)
  moreover have "(r + 3) div 4 = (if r = 0 then 0 else 1)" using r by (simp, linarith)
  ultimately show ?thesis using s r by (auto simp: q_def [symmetric])
qed

lemma copy_word_copy:
  assumes hull: "disjnt_range dest n pa (pb - pa)" and n: "0 < n" and pb: "pb = 4 * ((src + n + 3) div 4)"
    and p: "pa \<le> p" "p < pb" "4 dvd p" and k: "if p \<le> src then k = 0 \<and> src < p + 4 else src + k = p"
  shows "copy_word (copy_bytes m dest src k) (dest + k) src n pb p =
    Inr (copy_bytes m dest src (min (p + 4) (src + n) - src), dest + (min (p + 4) (src + n) - src))"
proof -
  note pb4 = round_up [of "src + n", folded pb]
  have p4: "p + 4 \<le> pb" using p(2,3) pb4(3) by (auto elim!: dvdE)
  have pn: "p < src + n" using p4 pb4(2) by linarith
  have kn: "k \<le> n" using k pn by (auto split: if_splits)
  have same: "copy_bytes m dest src k a = m a" if "p \<le> a" "a < p + 4" for a
    using that hull n p(1) p4 by (intro copy_bytes_outside [OF _ kn]) (auto simp: disjnt_range_def)
  define stop where "stop = min (p + 4) (src + n)"
  have start: "(if p \<le> src then src else p) = src + k" using k by auto
  have "word_bytes [m p, m (p + 1), m (p + 2), m (p + 3)] p (src + k) stop (copy_bytes m dest src k) (dest + k) =
      Inr (copy_bytes m dest src (stop - src), dest + (stop - src))"
    using k n pn by (intro word_bytes_copy) (auto simp: stop_def split: if_splits)
  moreover have "(if p \<le> src then min (p + 4) (src + n) else if p \<ge> pb - 4 then src + n
      else if p + 4 \<ge> src + n then src + n else p + 4) = stop"
    using p4 pb4 by (auto simp: stop_def)
  ultimately show ?thesis
    using start unfolding copy_word_def Let_def stop_def [symmetric]
    by (auto simp: same split: if_splits)
qed

lemma wa_loop_copy:
  assumes hull: "disjnt_range dest n pa (pb - pa)" and n: "0 < n" and pb: "pb = 4 * ((src + n + 3) div 4)"
    and "pa \<le> p" and "p \<le> pb" and "4 dvd p"
    and "if p \<le> src then k = 0 \<and> src < p + 4 else src + k = min p (src + n)"
  shows "wa_loop (copy_bytes m dest src k) (dest + k) src n pb p = Inr (copy_bytes m dest src n)"
  using assms(4-7)
proof (induction "pb - p" arbitrary: p k rule: less_induct)
  case less
  note pb4 = round_up [of "src + n", folded pb]
  show ?case
  proof (cases "p < pb")
    case False
    then have "k = n" using less.prems pb4 n by (auto split: if_splits)
    then show ?thesis using False by (subst wa_loop.simps) simp
  next
    case True
    have pn: "p < src + n"
    proof -
      have "p + 4 \<le> pb" using True less.prems(3) pb4(3) by (auto elim!: dvdE)
      then show ?thesis using pb4(2) by linarith
    qed
    have word: "copy_word (copy_bytes m dest src k) (dest + k) src n pb p =
        Inr (copy_bytes m dest src (min (p + 4) (src + n) - src), dest + (min (p + 4) (src + n) - src))"
      using less.prems True pn by (intro copy_word_copy [OF hull n pb]) (auto split: if_splits)
    have "p + 4 \<le> pb" using True less.prems(3) pb4(3) by (auto elim!: dvdE)
    then have "wa_loop (copy_bytes m dest src (min (p + 4) (src + n) - src)) (dest + (min (p + 4) (src + n) - src)) src n pb (p + 4) =
        Inr (copy_bytes m dest src n)"
      using less.prems True by (intro less.hyps) (auto split: if_splits)
    then show ?thesis using True word by (subst wa_loop.simps) simp
  qed
qed

lemma b_memcpy_wa_copy:
  assumes bound: "s2 + unat n + 3 < 2 ^ 64"
    and hull: "disjnt_range s1 (unat n) (4 * (s2 div 4)) (4 * ((s2 + unat n + 3) div 4) - 4 * (s2 div 4))"
  shows "b_memcpy_wa m s1 s1max s2 n = Inr (0, copy_bytes m s1 s2 (unat n))"
proof (cases "n = 0")
  case True
  then show ?thesis by (auto simp: b_memcpy_wa_def copy_bytes_def fun_eq_iff)
next
  case False
  define pa where "pa = (if align_ptr s2 4 > s2 then align_ptr s2 4 - 4 else align_ptr s2 4)"
  define pb where "pb = 4 * ((s2 + unat n + 3) div 4)"
  have a: "align_ptr s2 4 = 4 * ((s2 + 3) div 4)" "align_ptr (s2 + unat n) 4 = pb"
    using bound by (simp_all add: align_ptr_4 pb_def)
  have pa: "pa = 4 * (s2 div 4)" unfolding pa_def a(1) by (rule round_down)
  have pos: "0 < unat n" using False by (simp add: unat_gt_0)
  have "wa_loop (copy_bytes m s1 s2 0) (s1 + 0) s2 (unat n) pb pa = Inr (copy_bytes m s1 s2 (unat n))"
  proof (rule wa_loop_copy [OF _ pos pb_def])
    show "disjnt_range s1 (unat n) pa (pb - pa)" using hull by (simp add: pa pb_def)
    show "pa \<le> pb" "4 dvd pa" by (simp_all add: pa pb_def) 
    show "if pa \<le> s2 then 0 = 0 \<and> s2 < pa + 4 else s2 + 0 = min pa (s2 + unat n)" unfolding pa by auto
  qed simp
  moreover have "copy_bytes m s1 s2 0 = m" by (auto simp: copy_bytes_def fun_eq_iff)
  ultimately show ?thesis
    using False a(2) by (simp add: b_memcpy_wa_def Let_def pa_def [symmetric])
qed

section \<open>Strings\<close>

definition terminated :: "mem \<Rightarrow> nat \<Rightarrow> nat \<Rightarrow> bool" where
  "terminated m p l \<longleftrightarrow> (\<forall>i < l. m (p + i) \<noteq> 0) \<and> m (p + l) = 0"

definition str_at :: "mem \<Rightarrow> nat \<Rightarrow> nat \<Rightarrow> u8 list" where
  "str_at m p l = map (\<lambda>i. m (p + i)) [0..<l]"

lemma mem_strlen_terminated:
  assumes "terminated m p l"
  shows "mem_strlen m p = Some l"
proof -
  have "strlen_from m p k = Some l" if "k \<le> l" for k
    using that
  proof (induction "l - k" arbitrary: k)
    case 0
    then show ?case using assms by (subst strlen_from.simps) (simp add: terminated_def)
  next
    case (Suc j)
    then show ?case using assms by (subst strlen_from.simps) (auto simp: terminated_def)
  qed
  then show ?thesis by (simp add: mem_strlen_def)
qed

lemma str_at_copy: "l \<le> n \<Longrightarrow> str_at (copy_bytes m dest src n) dest l = str_at m src l"
  by (simp add: str_at_def copy_bytes_def)

lemma terminated_copy: "terminated m src l \<Longrightarrow> terminated (copy_bytes m dest src (Suc l)) dest l"
  by (simp add: terminated_def copy_bytes_def)

text \<open>The copy of a string that fits, and the refusal of one that does not.\<close>

lemma b_strcpy_s_copies:
  assumes str: "terminated m s2 l" and "s1 \<noteq> 0" and "s2 \<noteq> 0" and dis: "disjnt_range s1 (Suc l) s2 (Suc l)"
  shows "if l < unat s1max
    then \<exists>m'. b_strcpy_s m s1 s1max s2 = Some (Inr (0, m')) \<and> terminated m' s1 l \<and> str_at m' s1 l = str_at m s2 l \<and>
           (\<forall>a. a < s1 \<or> s1 + l < a \<longrightarrow> m' a = m a)
    else b_strcpy_s m s1 s1max s2 = Some (Inr (- 1, m))"
  using assms mem_strlen_terminated [OF str] terminated_copy [OF str, of s1] str_at_copy [of l "Suc l" m s1 s2]
  by (auto simp: b_strcpy_s_def memcpy_def copy_bytes_def)

text \<open>Appending a string.\<close>

lemma terminated_append:
  assumes t1: "terminated m s1 l1" and t2: "terminated m s2 l2"
  shows "terminated (copy_bytes m (s1 + l1) s2 (Suc l2)) s1 (l1 + l2) \<and>
    str_at (copy_bytes m (s1 + l1) s2 (Suc l2)) s1 (l1 + l2) = str_at m s1 l1 @ str_at m s2 l2"
proof -
  let ?m = "copy_bytes m (s1 + l1) s2 (Suc l2)"
  have lo: "?m (s1 + i) = m (s1 + i)" if "i < l1" for i using that by (simp add: copy_bytes_def)
  have hi: "?m (s1 + (l1 + i)) = m (s2 + i)" if "i \<le> l2" for i using that by (simp add: copy_bytes_def)
  have "?m (s1 + i) \<noteq> 0" if "i < l1 + l2" for i
  proof (cases "i < l1")
    case True
    then show ?thesis using lo t1 by (simp add: terminated_def)
  next
    case False
    then have "i = l1 + (i - l1)" "i - l1 < l2" using that by simp_all
    then obtain j where "i = l1 + j" "j < l2" by blast
    then show ?thesis using hi [of j] t2 by (simp add: terminated_def)
  qed
  moreover have "?m (s1 + (l1 + l2)) = 0" using hi [of l2] t2 by (simp add: terminated_def)
  ultimately have "terminated ?m s1 (l1 + l2)" by (simp add: terminated_def)
  moreover have "str_at ?m s1 (l1 + l2) = str_at m s1 l1 @ str_at m s2 l2"
  proof (rule nth_equalityI)
    fix i assume "i < length (str_at ?m s1 (l1 + l2))"
    then have i: "i < l1 + l2" by (simp add: str_at_def)
    have "?m (s1 + i) = (if i < l1 then m (s1 + i) else m (s2 + (i - l1)))"
      using i lo [of i] hi [of "i - l1"] by (cases "i < l1") simp_all
    moreover have "i - l1 < l2" if "\<not> i < l1" using i that by linarith
    ultimately show "str_at ?m s1 (l1 + l2) ! i = (str_at m s1 l1 @ str_at m s2 l2) ! i"
      using i by (cases "i < l1") (simp_all add: str_at_def nth_append)
  qed (simp add: str_at_def)
  ultimately show ?thesis by simp
qed

lemma b_strcat_s_appends:
  assumes t1: "terminated m s1 l1" and t2: "terminated m s2 l2" and "s1 \<noteq> 0" and "s2 \<noteq> 0"
    and dis: "disjnt_range (s1 + l1) (Suc l2) s2 (Suc l2)"
  shows "if l1 + l2 < unat s1max
    then \<exists>m'. b_strcat_s m s1 s1max s2 = Some (Inr (0, m')) \<and> terminated m' s1 (l1 + l2) \<and>
           str_at m' s1 (l1 + l2) = str_at m s1 l1 @ str_at m s2 l2
    else b_strcat_s m s1 s1max s2 = Some (Inr (- 1, m))"
  using assms mem_strlen_terminated [OF t1] mem_strlen_terminated [OF t2] terminated_append [OF t1 t2]
  by (auto simp: b_strcat_s_def memcpy_def)

text \<open>A copy with bounds: on success the bytes, on a bad size zeroes and an error.\<close>

lemma b_memcpy_s_cases:
  assumes "disjnt_range s1 (unat n) s2 (unat n)" and "s1 \<noteq> 0" and "s2 \<noteq> 0"
  shows "b_memcpy_s m s1 s1max s2 n =
    (if n = 0 then Inr (0, m)
     else if n \<le> s1max then Inr (0, copy_bytes m s1 s2 (unat n))
     else Inr (- 1, memset_zero m s1 (unat s1max)))"
  using assms by (auto simp: b_memcpy_s_def memcpy_def)

text \<open>A duplicate holds the same string in a block of its own.\<close>

lemma strdup_with_copies:
  assumes str: "terminated m s l" and s: "s \<noteq> 0" and small: "l + 1 < 2 ^ 32"
    and new: "malloc (of_nat (l + 1)) \<noteq> 0" "disjnt_range (malloc (of_nat (l + 1))) (Suc l) s (Suc l)"
  shows "\<exists>m'. strdup_with malloc m s = Some (Inr (malloc (of_nat (l + 1)), m')) \<and>
    terminated m' (malloc (of_nat (l + 1))) l \<and> str_at m' (malloc (of_nat (l + 1))) l = str_at m s l"
proof -
  define p where "p = malloc (of_nat (l + 1))"
  have n: "unat (of_nat (l + 1) :: u32) = Suc l"
    using small by (simp add: unsigned_of_nat take_bit_nat_eq_self del: of_nat_Suc of_nat_add)
  then have nz: "(of_nat (l + 1) :: u32) \<noteq> 0" by (metis nat.distinct(1) unsigned_0)
  have "b_memcpy_s m p (of_nat (l + 1)) s (of_nat (l + 1)) = Inr (0, copy_bytes m p s (Suc l))"
    using b_memcpy_s_cases [of p "of_nat (l + 1)" s m "of_nat (l + 1)"] new s n nz by (simp add: p_def)
  then show ?thesis
    using mem_strlen_terminated [OF str] s new(1) terminated_copy [OF str, of p] str_at_copy [of l "Suc l" m p s]
    by (simp add: strdup_with_def Let_def p_def del: of_nat_Suc of_nat_add)
qed

section \<open>Little-endian values\<close>

fun le_value :: "u8 list \<Rightarrow> nat" where
  "le_value [] = 0"
| "le_value (b # bs) = unat b + 256 * le_value bs"

fun le_bytes :: "nat \<Rightarrow> nat \<Rightarrow> u8 list" where
  "le_bytes 0 x = []"
| "le_bytes (Suc n) x = of_nat (x mod 256) # le_bytes n (x div 256)"

definition write_bytes :: "mem \<Rightarrow> nat \<Rightarrow> u8 list \<Rightarrow> mem" where
  "write_bytes m a bs = (\<lambda>x. if a \<le> x \<and> x < a + length bs then bs ! (x - a) else m x)"

lemma length_le_bytes [simp]: "length (le_bytes n x) = n"
  by (induction n arbitrary: x) simp_all

lemma le_value_bytes: "le_value (le_bytes n x) = x mod 256 ^ n"
proof (induction n arbitrary: x)
  case (Suc n)
  have "unat (of_nat (x mod 256) :: u8) = x mod 256"
    by (simp add: unsigned_of_nat take_bit_nat_eq_self)
  then show ?case using Suc [of "x div 256"] mod_mult2_eq [of x 256 "256 ^ n"] by simp
qed simp

lemma copy_is_write: "copy_bytes m d s n = write_bytes m d (map m [s..<s + n])"
  by (auto simp: copy_bytes_def write_bytes_def fun_eq_iff)

lemma write_Nil [simp]: "write_bytes m a [] = m"
  by (auto simp: write_bytes_def fun_eq_iff)

end
