(* ===== verification/Runtime_Utils.thy ===== *)
theory Runtime_Utils
  imports Bh_Leb128 Bh_Bitmap Bh_Vector Bh_Hashmap Bh_List Bh_Queue Runtime_Timer Bh_Common
begin

text \<open>
  The properties of the runtime's utilities (\<open>wamr/core/shared/utils\<close>), one section per component,
  each from the lemmas and interpretations of its theory.
\<close>

section \<open>The runtime's utilities\<close>

text \<open>
  C19: The LEB128 reader inverts the encodings of WebAssembly for both widths, whatever bytes follow,
  and reports how many bytes the number took. A signed 64-bit number comes back in two's complement;
  of a signed 32-bit number the low half of the result does.
\<close>

theorem leb_roundtrip:
  "((width = 32 \<or> width = 64) \<and> n < 2 ^ width \<longrightarrow>
      bh_leb_read (uleb n @ rest) width False = BH_LEB_READ_SUCCESS (of_nat n) (length (uleb n))) \<and>
   (- (2 ^ 63) \<le> i \<and> i < 2 ^ 63 \<longrightarrow>
      bh_leb_read (sleb i @ rest) 64 True = BH_LEB_READ_SUCCESS (word_of_int i) (length (sleb i))) \<and>
   (- (2 ^ 31) \<le> i \<and> i < 2 ^ 31 \<longrightarrow>
      (\<exists>r. bh_leb_read (sleb i @ rest) 32 True = BH_LEB_READ_SUCCESS r (length (sleb i)) \<and>
           (ucast r :: u32) = word_of_int i))"
  using read_uleb32 [of n rest] read_uleb64 [of n rest] read_sleb64 [of i rest] read_sleb32 [of i rest] by auto

theorem leb_roundtrip_witness:
  "bh_leb_read (uleb 624485 @ [7]) 32 False = BH_LEB_READ_SUCCESS 624485 (length (uleb 624485)) \<and>
   bh_leb_read (sleb (- 123456) @ [7]) 64 True =
     BH_LEB_READ_SUCCESS (word_of_int (- 123456)) (length (sleb (- 123456)))"
  using leb_roundtrip [of 32 624485 "[7]" "- 123456"] by simp



text \<open>
  A new bitmap is a set of indices: after setting any indices of its range, reading an index
  of the range gives 1 exactly for those, and no access leaves its bytes.
\<close>

lemma bitmap_is_a_set:
  assumes "bh_bitmap_new malloc first bitnum = Some b" and "unat first + unat bitnum < 2 ^ 64"
    and "\<forall>i \<in> set is. first \<le> i \<and> unat i < unat first + unat bitnum"
  shows "\<exists>b'. foldl (\<lambda>r i. case r of Inl f \<Rightarrow> Inl f | Inr b \<Rightarrow> bh_bitmap_set_bit b i) (Inr b) is = Inr b' \<and>
    (\<forall>j. if first \<le> j \<and> unat j < unat first + unat bitnum
         then bh_bitmap_get_bit b' j = Inr (if j \<in> set is then 1 else 0)
         else bh_bitmap_get_bit b' j = Inl Abort)"
proof -
  note new = bitmap_new_ok [OF assms(1,2)]
  obtain b' where b': "foldl (\<lambda>r i. case r of Inl f \<Rightarrow> Inl f | Inr b \<Rightarrow> bh_bitmap_set_bit b i) (Inr b) is = Inr b'"
    "bitmap_ok b'" "bitmap_range b' = bitmap_range b" "bitmap_elems b' = bitmap_elems b \<union> set is"
    using bitmap.set_all [of b "is"] new assms(3) by auto
  have "if first \<le> j \<and> unat j < unat first + unat bitnum
        then bh_bitmap_get_bit b' j = Inr (if j \<in> set is then 1 else 0)
        else bh_bitmap_get_bit b' j = Inl Abort" for j
    using bitmap.get_elems [OF b'(2), of j] bitmap.out_of_range [OF b'(2), of j] b'(3,4) new by auto
  then show ?thesis using b'(1) by blast
qed

text \<open>
  A vector is a list: after a run of appends it holds, behind its old contents and in order,
  exactly the elements whose append succeeded; a failed append loses nothing.
\<close>

lemma vector_appends:
  assumes "vec_ok v" and "\<forall>x \<in> set xs. length x = unat (size_elem v)"
  shows "\<exists>bs v'. length bs = length xs \<and> vec_ok v' \<and>
    foldl (vector.step malloc) (Inr ([], v)) xs = Inr (bs, v') \<and>
    contents v' = contents v @ map snd (filter fst (zip bs xs)) \<and>
    (\<forall>i. bh_vector_get (Some v') i True =
       Inr (if unat i < length (contents v') then Some (contents v' ! unat i) else None))"
  using vector.add_all [OF assms(1), of xs malloc "[]"] assms(2) bh_vector_get_contents
  by (auto simp: vec_fits_def)

text \<open>
  Removing gives back the element at the index and closes the gap; inserting at an index
  stores the element one place behind that index, never before the first element.
\<close>

lemma vector_insert_remove:
  assumes "vec_ok v" and "unat index < length (contents v)" and "length x = unat (size_elem v)"
  shows "(\<exists>v'. bh_vector_remove (Some v) index = Inr (Some (contents v ! unat index), Some v') \<and> vec_ok v' \<and>
       contents v' = take (unat index) (contents v) @ drop (Suc (unat index)) (contents v)) \<and>
    (\<forall>v1. extend_vector malloc v (num_elems v + 1) = Some v1 \<longrightarrow>
      (\<exists>v'. bh_vector_insert malloc (Some v) index (Some x) = Inr (True, Some v') \<and> vec_ok v' \<and>
         contents v' = take (Suc (unat index)) (contents v) @ x # drop (Suc (unat index)) (contents v)))"
  using bh_vector_remove_contents [OF assms(1), of index] bh_vector_insert_contents [OF assms(1,3,2), of malloc] assms(2)
  by auto

text \<open>
  The hash map with the runtime's external references as keys is a map: a key inserted once is
  found, also under any pointer with the same low 32 bits, cannot be inserted again, and removing it
  gives back the value and the map as it was.
\<close>

lemma externref_map:
  assumes "hm_ok m" and "hash_func m = wasm_externref_hash" and "key_equal_func m = wasm_externref_equal"
    and "bh_hash_map_find (Some m) (Some k) = None" and "(ucast k :: u32) = ucast k'"
  shows "\<exists>m'. bh_hash_map_insert True (Some m) (Some k) v = (True, Some m') \<and>
    bh_hash_map_find (Some m') (Some k') = Some v \<and>
    bh_hash_map_insert True (Some m') (Some k') x = (False, Some m') \<and>
    (\<exists>k0 m''. bh_hash_map_remove (Some m') (Some k') = (True, Some (k0, v), Some m'') \<and>
       (\<forall>j. bh_hash_map_find (Some m'') (Some j) = bh_hash_map_find (Some m) (Some j)))"
proof -
  have "externref.uses m" using assms(1-3) by (simp add: externref.uses_def)
  moreover have "stands_for m k = None" using assms(4) by (simp add: stands_for_def)
  moreover have "wasm_externref_equal k k'" using assms(5) by (simp add: wasm_externref_equal_def)
  ultimately show ?thesis
    using externref.insert_find_remove [of m k k' v x] by (fastforce simp: stands_for_def fun_eq_iff)
qed



text \<open>
  The intrusive list: on a heap that holds a list the operations return; insertion puts a new
  element in front, removal takes an element out wherever it is and refuses one that is not there,
  and a walk along the links visits the elements in order.
\<close>

lemma list_operations:
  assumes "represents nxt l xs" and "elem \<noteq> 0" and "length xs < 2 ^ 32"
  shows "(elem \<notin> set xs \<longrightarrow>
      (\<exists>nxt' l'. bh_list_insert debug nxt (Some l) elem = Some (Inr (BH_LIST_SUCCESS, nxt', Some l')) \<and>
         represents nxt' l' (elem # xs)) \<and>
      bh_list_remove nxt (Some l) elem = Some (BH_LIST_ERROR, nxt, Some l)) \<and>
    (elem \<in> set xs \<longrightarrow>
      bh_list_insert True nxt (Some l) elem = Some (Inl Abort) \<and>
      (\<exists>nxt' l'. bh_list_remove nxt (Some l) elem = Some (BH_LIST_SUCCESS, nxt', Some l') \<and>
         represents nxt' l' (remove1 elem xs))) \<and>
    walk nxt (unat (bh_list_length (Some l))) (bh_list_first_elem (Some l)) = xs"
  using bh_list_insert_front [OF assms(1,2)] bh_list_insert_twice [OF assms(1,2)]
    bh_list_remove_present [OF assms(1)] bh_list_remove_absent [OF assms(1)] walk_represents [OF assms(1,3)]
  by blast





text \<open>
  C24: A check of the timers calls back for exactly the active timers whose expiry has come, in the
  order of their expiry; the periodic ones among them are active again, the others are idle, and no
  other timer moves.
\<close>

theorem timers_fire_when_due:
  assumes "ctx_ok ctx" and "check_app_timers tick ctx = (ms, ctx', ev)"
  shows "fired ev = map (\<lambda>t. (id_of t, owner ctx)) (filter (\<lambda>t. expiry t \<le> tick 0) (app_timers ctx)) \<and>
    idle_timers ctx' =
      rev (filter (\<lambda>t. \<not> is_periodic t) (filter (\<lambda>t. expiry t \<le> tick 0) (app_timers ctx))) @ idle_timers ctx \<and>
    id_of ` set (app_timers ctx') =
      {id_of t | t. t \<in> set (app_timers ctx) \<and> (\<not> expiry t \<le> tick 0 \<or> is_periodic t)} \<and> ctx_ok ctx'"
proof -
  note c = check_ok [OF assms]
  have "set_mset (mset (map id_of (app_timers ctx'))) =
      set_mset (mset (map id_of (filter (\<lambda>t. \<not> expiry t \<le> tick 0) (app_timers ctx))) +
        mset (map id_of (filter is_periodic (filter (\<lambda>t. expiry t \<le> tick 0) (app_timers ctx)))))"
    using c by simp
  then have "id_of ` set (app_timers ctx') =
      {id_of t | t. t \<in> set (app_timers ctx) \<and> (\<not> expiry t \<le> tick 0 \<or> is_periodic t)}"
    by (auto simp: image_iff)
  then show ?thesis using c by simp
qed

theorem timers_fire_when_due_witness:
  "\<exists>ms ctx' ev. check_app_timers (\<lambda>_. 20) \<lparr>app_timers = [\<lparr>id_of = 1, interval = 5, expiry = 10, is_periodic = False\<rparr>],
       idle_timers = [], free_timers = [], max_timer_id = 1, pre_allocated = 0, owner = 3, refresh_checker = False\<rparr> =
     (ms, ctx', ev) \<and> fired ev = [(1, 3)] \<and> app_timers ctx' = []"
proof -
  let ?c = "\<lparr>app_timers = [\<lparr>id_of = 1, interval = 5, expiry = 10, is_periodic = False\<rparr>],
       idle_timers = [], free_timers = [], max_timer_id = 1, pre_allocated = 0, owner = 3, refresh_checker = False\<rparr>"
  have ok: "ctx_ok ?c" by (simp add: ctx_ok_def ids_def NO_TIMER_def)
  obtain ms ctx' ev where r: "check_app_timers (\<lambda>_. 20) ?c = (ms, ctx', ev)" by (cases "check_app_timers (\<lambda>_. 20) ?c")
  show ?thesis using timers_fire_when_due [OF ok r] r by auto
qed

text \<open>
  The copy that reads whole aligned words is the byte-by-byte copy, for every alignment and
  length, and never reads a byte that is not in a word it has loaded.
\<close>

lemma aligned_copy_is_copy:
  assumes "s2 + unat n + 3 < 2 ^ 64"
    and "disjnt_range s1 (unat n) (4 * (s2 div 4)) (4 * ((s2 + unat n + 3) div 4) - 4 * (s2 div 4))"
  shows "b_memcpy_wa m s1 s1max s2 n =
    Inr (0, \<lambda>a. if s1 \<le> a \<and> a < s1 + unat n then m (s2 + (a - s1)) else m a)"
  using b_memcpy_wa_copy [OF assms] by (simp add: copy_bytes_def)

text \<open>
  The string functions respect their bounds: a copy or an append that fits gives the string
  and its terminator and returns 0, one that does not fit returns -1 and writes nothing; a
  duplicate holds the same string.
\<close>

lemma string_functions:
  assumes "terminated m s1 l1" and "terminated m s2 l2" and "s1 \<noteq> 0" and "s2 \<noteq> 0"
    and "disjnt_range s1 (l1 + Suc l2) s2 (Suc l2)"
  shows "(if l1 + l2 < unat s1max
      then \<exists>m'. b_strcat_s m s1 s1max s2 = Some (Inr (0, m')) \<and> terminated m' s1 (l1 + l2) \<and>
             str_at m' s1 (l1 + l2) = str_at m s1 l1 @ str_at m s2 l2
      else b_strcat_s m s1 s1max s2 = Some (Inr (- 1, m))) \<and>
    (if l2 < unat s1max
      then \<exists>m'. b_strcpy_s m s1 s1max s2 = Some (Inr (0, m')) \<and> terminated m' s1 l2 \<and>
             str_at m' s1 l2 = str_at m s2 l2 \<and> (\<forall>a. a < s1 \<or> s1 + l2 < a \<longrightarrow> m' a = m a)
      else b_strcpy_s m s1 s1max s2 = Some (Inr (- 1, m)))"
proof -
  have "disjnt_range (s1 + l1) (Suc l2) s2 (Suc l2)" "disjnt_range s1 (Suc l2) s2 (Suc l2)"
    using assms(5) by (auto simp: disjnt_range_def numeral_2_eq_2)
  then show ?thesis
    using b_strcat_s_appends [OF assms(1-4), of s1max] b_strcpy_s_copies [OF assms(2-4), of s1max] by blast
qed

end
