(* ===== verification/Os_Memmap.thy ===== *)
theory Os_Memmap
  imports Bh_Common
begin

text \<open>
  The virtual memory layer of the WebAssembly runtime on Linux,
  \<open>wamr/core/shared/platform/common/posix/posix_memmap.c\<close> and \<open>os_mremap_slow\<close> of
  \<open>platform_api_vmcore.h\<close>, for the target x86-64 (\<open>MADV_HUGEPAGE\<close> and \<open>mremap\<close> present,
  \<open>WASM_ENABLE_MEMORY64\<close> off, no tracing).

  The address space \<open>vm\<close> gives for every address the protection of its page (\<open>None\<close>: nothing is
  mapped there) and its byte. The system calls are a parameter \<open>vm_env\<close>: it decides which calls
  succeed and where a mapping is placed, and may do so differently in every state (the state counts
  the calls made). What a successful call does to the address space is written out; what the manual
  pages promise about the answers is the predicate \<open>kernel_ok\<close>. Printing of error messages is left
  out.
\<close>

section \<open>Address space and system calls\<close>

datatype errno = EINTR | EAGAIN | ENOMEM | EINVAL | EACCES

record vm =
  prot_of :: "nat \<Rightarrow> u32 option"
  byte_of :: mem
  calls :: nat

record vm_env =
  k_pagesize :: u64
  k_mmap :: "vm \<Rightarrow> u64 \<Rightarrow> u64 \<Rightarrow> u32 \<Rightarrow> u32 \<Rightarrow> errno + u64"
  k_munmap :: "vm \<Rightarrow> u64 \<Rightarrow> u64 \<Rightarrow> bool"
  k_mremap :: "vm \<Rightarrow> u64 \<Rightarrow> u64 \<Rightarrow> u64 \<Rightarrow> errno + u64"
  k_mprotect :: "vm \<Rightarrow> u64 \<Rightarrow> u64 \<Rightarrow> u32 \<Rightarrow> bool"

definition within :: "u64 \<Rightarrow> u64 \<Rightarrow> nat \<Rightarrow> bool" where
  "within a n x \<longleftrightarrow> unat a \<le> x \<and> x < unat a + unat n"

definition tick :: "vm \<Rightarrow> vm" where
  "tick v = v\<lparr>calls := calls v + 1\<rparr>"

definition map_range :: "u64 \<Rightarrow> u64 \<Rightarrow> u32 \<Rightarrow> vm \<Rightarrow> vm" where
  "map_range a n p v =
     v\<lparr>prot_of := \<lambda>x. if within a n x then Some p else prot_of v x,
       byte_of := \<lambda>x. if within a n x then 0 else byte_of v x\<rparr>"

definition unmap_range :: "u64 \<Rightarrow> u64 \<Rightarrow> vm \<Rightarrow> vm" where
  "unmap_range a n v = v\<lparr>prot_of := \<lambda>x. if within a n x then None else prot_of v x\<rparr>"

definition protect_range :: "u64 \<Rightarrow> u64 \<Rightarrow> u32 \<Rightarrow> vm \<Rightarrow> vm" where
  "protect_range a n p v = v\<lparr>prot_of := \<lambda>x. if within a n x then Some p else prot_of v x\<rparr>"

text \<open>
  A moved mapping keeps its protection and its bytes; the new part reads as zero. Both sizes are
  rounded up to pages by the kernel.
\<close>

definition move_range :: "u64 \<Rightarrow> u64 \<Rightarrow> u64 \<Rightarrow> u64 \<Rightarrow> vm \<Rightarrow> vm" where
  "move_range old osz new nsz v =
     v\<lparr>prot_of := \<lambda>x. if within new nsz x then prot_of v (unat old)
                     else if within old osz x then None else prot_of v x,
       byte_of := \<lambda>x. if within new nsz x
                       then if x - unat new < unat osz then byte_of v (unat old + (x - unat new)) else 0
                       else byte_of v x\<rparr>"

definition page_round :: "u64 \<Rightarrow> u64 \<Rightarrow> u64" where
  "page_round page_size sz = (sz + page_size - 1) AND NOT (page_size - 1)"

definition mmap :: "vm_env \<Rightarrow> u64 \<Rightarrow> u64 \<Rightarrow> u32 \<Rightarrow> u32 \<Rightarrow> vm \<Rightarrow> (errno + u64) \<times> vm" where
  "mmap env hint n prot flags v =
     (case k_mmap env v hint n prot flags of
        Inl e \<Rightarrow> (Inl e, tick v)
      | Inr a \<Rightarrow> (Inr a, tick (map_range a n prot v)))"

definition munmap :: "vm_env \<Rightarrow> u64 \<Rightarrow> u64 \<Rightarrow> vm \<Rightarrow> vm" where
  "munmap env a n v = tick (if k_munmap env v a n then unmap_range a n v else v)"

definition mprotect :: "vm_env \<Rightarrow> u64 \<Rightarrow> u64 \<Rightarrow> u32 \<Rightarrow> vm \<Rightarrow> int \<times> vm" where
  "mprotect env a n p v =
     (if k_mprotect env v a n p then (0, tick (protect_range a n p v)) else (- 1, tick v))"

definition mremap :: "vm_env \<Rightarrow> u64 \<Rightarrow> u64 \<Rightarrow> u64 \<Rightarrow> vm \<Rightarrow> (errno + u64) \<times> vm" where
  "mremap env old osz nsz v =
     (case k_mremap env v old osz nsz of
        Inl e \<Rightarrow> (Inl e, tick v)
      | Inr a \<Rightarrow> (Inr a, tick (move_range old (page_round (k_pagesize env) osz) a
                                (page_round (k_pagesize env) nsz) v)))"

section \<open>The functions\<close>

definition HUGE_PAGE_SIZE :: u64 where
  "HUGE_PAGE_SIZE = 2 * 1024 * 1024"

definition round_up :: "u64 \<Rightarrow> u64 \<Rightarrow> u64" where
  "round_up v b = (let m = b - 1 in (v + m) AND NOT m)"

definition MMAP_PROT_NONE :: u32 where "MMAP_PROT_NONE = 0"
definition MMAP_PROT_READ :: u32 where "MMAP_PROT_READ = 1"
definition MMAP_PROT_WRITE :: u32 where "MMAP_PROT_WRITE = 2"
definition MMAP_PROT_EXEC :: u32 where "MMAP_PROT_EXEC = 4"
definition MMAP_MAP_NONE :: u32 where "MMAP_MAP_NONE = 0"
definition MMAP_MAP_32BIT :: u32 where "MMAP_MAP_32BIT = 1"
definition MMAP_MAP_FIXED :: u32 where "MMAP_MAP_FIXED = 2"

text \<open>The constants of \<open>sys/mman.h\<close> on Linux.\<close>

definition PROT_NONE :: u32 where "PROT_NONE = 0"
definition PROT_READ :: u32 where "PROT_READ = 1"
definition PROT_WRITE :: u32 where "PROT_WRITE = 2"
definition PROT_EXEC :: u32 where "PROT_EXEC = 4"
definition MAP_PRIVATE :: u32 where "MAP_PRIVATE = 0x02"
definition MAP_FIXED :: u32 where "MAP_FIXED = 0x10"
definition MAP_ANONYMOUS :: u32 where "MAP_ANONYMOUS = 0x20"
definition MAP_32BIT :: u32 where "MAP_32BIT = 0x40"

lemmas prot_defs = MMAP_PROT_NONE_def MMAP_PROT_READ_def MMAP_PROT_WRITE_def MMAP_PROT_EXEC_def
  PROT_NONE_def PROT_READ_def PROT_WRITE_def PROT_EXEC_def
lemmas flag_defs = MMAP_MAP_NONE_def MMAP_MAP_32BIT_def MMAP_MAP_FIXED_def
  MAP_PRIVATE_def MAP_FIXED_def MAP_ANONYMOUS_def MAP_32BIT_def

definition map_prot_of :: "u32 \<Rightarrow> u32" where
  "map_prot_of prot =
     PROT_NONE OR (if prot AND MMAP_PROT_READ \<noteq> 0 then PROT_READ else 0)
       OR (if prot AND MMAP_PROT_WRITE \<noteq> 0 then PROT_WRITE else 0)
       OR (if prot AND MMAP_PROT_EXEC \<noteq> 0 then PROT_EXEC else 0)"

definition map_flags_of :: "u32 \<Rightarrow> u32" where
  "map_flags_of flags =
     MAP_ANONYMOUS OR MAP_PRIVATE OR (if flags AND MMAP_MAP_32BIT \<noteq> 0 then MAP_32BIT else 0)
       OR (if flags AND MMAP_MAP_FIXED \<noteq> 0 then MAP_FIXED else 0)"

text \<open>
  Five tries on \<open>EAGAIN\<close> and \<open>ENOMEM\<close>; an interrupted call is repeated without end. The outer
  \<open>None\<close> is a loop that does not end, the inner one \<open>MAP_FAILED\<close>.
\<close>

partial_function (option) mmap_tries ::
  "vm_env \<Rightarrow> u64 \<Rightarrow> u64 \<Rightarrow> u32 \<Rightarrow> u32 \<Rightarrow> nat \<Rightarrow> vm \<Rightarrow> (u64 option \<times> vm) option" where
  "mmap_tries env hint n prot flags i v =
     (if i < 5 then
        (case mmap env hint n prot flags v of
           (Inr a, v') \<Rightarrow> Some (Some a, v')
         | (Inl e, v') \<Rightarrow>
             if e = EINTR then mmap_tries env hint n prot flags i v'
             else if e \<noteq> EAGAIN \<and> e \<noteq> ENOMEM then Some (None, v')
             else mmap_tries env hint n prot flags (i + 1) v')
      else Some (None, v))"

text \<open>
  A large mapping was requested with one extra huge page; the part before the first huge page
  boundary and the rest of the extra page are given back. \<open>madvise\<close> changes nothing here.
\<close>

definition trim_huge :: "vm_env \<Rightarrow> u64 \<Rightarrow> u64 \<Rightarrow> vm \<Rightarrow> u64 \<times> vm" where
  "trim_huge env addr request_size v =
     (let huge_start = round_up addr HUGE_PAGE_SIZE;
          prefix_size = (if huge_start > addr then huge_start - addr else 0);
          suffix_size = (if huge_start > addr then HUGE_PAGE_SIZE - (huge_start - addr) else HUGE_PAGE_SIZE);
          v = (if prefix_size > 0 then munmap env addr prefix_size v else v);
          v = (if suffix_size > 0 then munmap env (addr + request_size - suffix_size) suffix_size v else v)
      in (huge_start, v))"

definition os_mmap :: "vm_env \<Rightarrow> u64 \<Rightarrow> u64 \<Rightarrow> u32 \<Rightarrow> u32 \<Rightarrow> vm \<Rightarrow> (u64 \<times> vm) option" where
  "os_mmap env hint sz prot flags v =
     (let page_size = k_pagesize env;
          request_size = page_round page_size sz;
          request_size = (if request_size \<ge> HUGE_PAGE_SIZE then request_size + HUGE_PAGE_SIZE
                          else request_size)
      in if request_size < sz then Some (0, v)
         else if request_size > 16 * 0xFFFFFFFF then Some (0, v)
         else
           (case mmap_tries env hint request_size (map_prot_of prot) (map_flags_of flags) 0 v of
              None \<Rightarrow> None
            | Some (None, v') \<Rightarrow> Some (0, v')
            | Some (Some addr, v') \<Rightarrow>
                if request_size > HUGE_PAGE_SIZE then Some (trim_huge env addr request_size v')
                else Some (addr, v')))"

definition os_munmap :: "vm_env \<Rightarrow> u64 \<Rightarrow> u64 \<Rightarrow> vm \<Rightarrow> vm" where
  "os_munmap env addr sz v =
     (let page_size = k_pagesize env;
          request_size = page_round page_size sz
      in if addr \<noteq> 0 then munmap env addr request_size v else v)"

definition os_mremap_slow :: "vm_env \<Rightarrow> u64 \<Rightarrow> u64 \<Rightarrow> u64 \<Rightarrow> vm \<Rightarrow> (u64 \<times> vm) option" where
  "os_mremap_slow env old_addr old_size new_size v =
     (case os_mmap env 0 new_size (MMAP_PROT_WRITE OR MMAP_PROT_READ) 0 v of
        None \<Rightarrow> None
      | Some (new_memory, v') \<Rightarrow>
          if new_memory = 0 then Some (0, v')
          else
            let v' = v'\<lparr>byte_of := copy_bytes (byte_of v') (unat new_memory) (unat old_addr)
                                    (unat (if new_size < old_size then new_size else old_size))\<rparr>
            in Some (new_memory, os_munmap env old_addr old_size v'))"

definition os_mremap :: "vm_env \<Rightarrow> u64 \<Rightarrow> u64 \<Rightarrow> u64 \<Rightarrow> vm \<Rightarrow> (u64 \<times> vm) option" where
  "os_mremap env old_addr old_size new_size v =
     (case mremap env old_addr old_size new_size v of
        (Inl e, v') \<Rightarrow> os_mremap_slow env old_addr old_size new_size v'
      | (Inr a, v') \<Rightarrow> Some (a, v'))"

definition os_mprotect :: "vm_env \<Rightarrow> u64 \<Rightarrow> u64 \<Rightarrow> u32 \<Rightarrow> vm \<Rightarrow> int \<times> vm" where
  "os_mprotect env addr sz prot v =
     (let page_size = k_pagesize env;
          request_size = page_round page_size sz
      in if addr = 0 then (0, v) else mprotect env addr request_size (map_prot_of prot) v)"

section \<open>What the kernel promises\<close>

text \<open>
  Pages are a power of two between 4 KB and 64 KB. A mapping that is not forced to an address is
  placed on a page boundary, not at 0, inside the address space and where nothing is mapped.
  Protection succeeds only where everything is mapped. A mapping is moved to a place where nothing
  but itself is mapped.
\<close>

definition kernel_ok :: "vm_env \<Rightarrow> bool" where
  "kernel_ok env \<longleftrightarrow>
     (\<exists>k. 12 \<le> k \<and> k \<le> 16 \<and> k_pagesize env = 2 ^ k) \<and>
     (\<forall>v hint n prot flags a. k_mmap env v hint n prot flags = Inr a \<and> flags AND MAP_FIXED = 0 \<longrightarrow>
        a \<noteq> 0 \<and> unat (k_pagesize env) dvd unat a \<and> unat a + unat n < 2 ^ 64 \<and>
        (\<forall>x. within a n x \<longrightarrow> prot_of v x = None)) \<and>
     (\<forall>v a n p. k_mprotect env v a n p \<longrightarrow> (\<forall>x. within a n x \<longrightarrow> prot_of v x \<noteq> None)) \<and>
     (\<forall>v old osz nsz a. k_mremap env v old osz nsz = Inr a \<longrightarrow>
        a \<noteq> 0 \<and> unat (k_pagesize env) dvd unat a \<and> unat a + unat (page_round (k_pagesize env) nsz) < 2 ^ 64 \<and>
        (\<forall>x. within a (page_round (k_pagesize env) nsz) x \<and>
             \<not> within old (page_round (k_pagesize env) osz) x \<longrightarrow> prot_of v x = None))"

text \<open>Unmapping whole pages succeeds, and interruptions stop after some number of calls.\<close>

definition unmap_ok :: "vm_env \<Rightarrow> bool" where
  "unmap_ok env \<longleftrightarrow> (\<forall>v a n. unat (k_pagesize env) dvd unat a \<and> unat (k_pagesize env) dvd unat n \<longrightarrow>
                            k_munmap env v a n)"

definition settles :: "vm_env \<Rightarrow> bool" where
  "settles env \<longleftrightarrow> (\<exists>N. \<forall>v hint n prot flags. N \<le> calls v \<longrightarrow> k_mmap env v hint n prot flags \<noteq> Inl EINTR)"

section \<open>Rounding\<close>

lemma unat_p2: "k < 64 \<Longrightarrow> unat (2 ^ k :: u64) = 2 ^ k"
proof -
  assume "k < 64"
  then have "unat (of_nat (2 ^ k) :: u64) = 2 ^ k" by (subst unsigned_of_nat) simp
  then show ?thesis by simp
qed

lemma kernel_page:
  assumes "kernel_ok env"
  obtains k where "12 \<le> k" and "k \<le> 16" and "k_pagesize env = 2 ^ k" and "unat (k_pagesize env) = 2 ^ k"
proof -
  obtain k where k: "12 \<le> k" "k \<le> 16" "k_pagesize env = 2 ^ k"
    using assms by (auto simp: kernel_ok_def)
  moreover have "unat (2 ^ k :: u64) = 2 ^ k" using k(2) by (intro unat_p2) simp
  ultimately show ?thesis using that by simp
qed

lemma page_round_mask: "page_round (2 ^ k) sz = (sz + mask k) AND NOT (mask k)"
  by (simp add: page_round_def mask_eq_exp_minus_1 algebra_simps)

lemma unat_page_round_wrap:
  assumes "k < 64"
  shows "unat (page_round (2 ^ k) sz) = 2 ^ k * (((unat sz + (2 ^ k - 1)) mod 2 ^ 64) div 2 ^ k)"
proof -
  have "(2 ^ k :: u64) \<noteq> 0" using unat_p2 [OF assms] by (metis power_not_zero unat_0 zero_neq_numeral)
  then have "unat (mask k :: u64) = 2 ^ k - 1"
    using unat_p2 [OF assms] by (simp add: mask_eq_exp_minus_1 unat_minus_one_pos)
  then show ?thesis by (simp add: page_round_mask unat_and_not_mask unat_word_ariths)
qed

lemma unat_page_round:
  assumes "k < 64" and "unat sz + (2 ^ k - 1) < 2 ^ 64"
  shows "unat (page_round (2 ^ k) sz) = 2 ^ k * ((unat sz + (2 ^ k - 1)) div 2 ^ k)"
  using assms by (simp add: unat_page_round_wrap)

lemma div_round_bounds:
  fixes n d :: nat
  assumes "0 < d"
  shows "n \<le> d * ((n + (d - 1)) div d)" and "d * ((n + (d - 1)) div d) < n + d"
proof -
  have "(n + (d - 1)) = d * ((n + (d - 1)) div d) + (n + (d - 1)) mod d" by simp
  moreover have "(n + (d - 1)) mod d < d" using assms by simp
  ultimately show "n \<le> d * ((n + (d - 1)) div d)" and "d * ((n + (d - 1)) div d) < n + d"
    using assms by linarith+
qed

lemma page_round_bounds:
  assumes "k < 64" and "unat sz + (2 ^ k - 1) < 2 ^ 64"
  shows "unat sz \<le> unat (page_round (2 ^ k) sz)" and "unat (page_round (2 ^ k) sz) < unat sz + 2 ^ k"
    and "2 ^ k dvd unat (page_round (2 ^ k) sz)"
  using div_round_bounds [of "2 ^ k" "unat sz"] by (simp_all add: unat_page_round [OF assms])

lemma page_round_exact:
  assumes "k < 64" and "2 ^ k dvd unat sz" and "unat sz + (2 ^ k - 1) < 2 ^ 64"
  shows "page_round (2 ^ k) sz = sz"
proof -
  obtain q where q: "unat sz = 2 ^ k * q" using assms(2) by (auto elim: dvdE)
  have "(2 ^ k * q + (2 ^ k - 1)) div 2 ^ k = (q :: nat)"
    using div_mult_self1 [of "2 ^ k :: nat" "2 ^ k - 1" q] by (simp add: algebra_simps)
  then have "unat (page_round (2 ^ k) sz) = unat sz" using unat_page_round [OF assms(1,3)] q by simp
  then show ?thesis by (rule unsigned_word_eqI)
qed

section \<open>Mapping\<close>

text \<open>\<open>same_space v w\<close>: the address spaces agree; only the number of calls may differ.\<close>

definition same_space :: "vm \<Rightarrow> vm \<Rightarrow> bool" where
  "same_space v w \<longleftrightarrow> prot_of v = prot_of w \<and> byte_of v = byte_of w"

lemma same_space_tick [simp]: "same_space (tick v) w = same_space v w" "same_space v (tick w) = same_space v w"
  by (auto simp: same_space_def tick_def)

lemma same_space_refl [simp]: "same_space v v"
  by (simp add: same_space_def)

lemma tick_sel [simp]:
  "prot_of (tick v) = prot_of v" "byte_of (tick v) = byte_of v" "calls (tick v) = calls v + 1"
  by (simp_all add: tick_def)

lemma range_sel [simp]:
  "prot_of (map_range a n p v) = (\<lambda>x. if within a n x then Some p else prot_of v x)"
  "byte_of (map_range a n p v) = (\<lambda>x. if within a n x then 0 else byte_of v x)"
  "calls (map_range a n p v) = calls v"
  "prot_of (unmap_range a n v) = (\<lambda>x. if within a n x then None else prot_of v x)"
  "byte_of (unmap_range a n v) = byte_of v"
  "prot_of (protect_range a n p v) = (\<lambda>x. if within a n x then Some p else prot_of v x)"
  "byte_of (protect_range a n p v) = byte_of v"
  by (simp_all add: map_range_def unmap_range_def protect_range_def)

lemma munmap_sel:
  "prot_of (munmap env a n v) = (if k_munmap env v a n then (\<lambda>x. if within a n x then None else prot_of v x) else prot_of v)"
  "byte_of (munmap env a n v) = byte_of v"
  by (simp_all add: munmap_def)

lemma mmap_tries_result:
  assumes "mmap_tries env hint n p f i v = Some y"
  shows "case fst y of
           None \<Rightarrow> same_space (snd y) v
         | Some a \<Rightarrow> \<exists>w. same_space w v \<and> k_mmap env w hint n p f = Inr a \<and> snd y = tick (map_range a n p w)"
proof (rule mmap_tries.raw_induct [OF _ assms], goal_cases)
  case (1 mmap_tries env hint n p f i v y)
  note IH = 1(1) and run = 1(2)
  show ?case
  proof (cases "i < 5")
    case False
    then show ?thesis using run by auto
  next
    case True
    show ?thesis
    proof (cases "k_mmap env v hint n p f")
      case (Inr a)
      then have "y = (Some a, tick (map_range a n p v))" using run True by (auto simp: mmap_def)
      then show ?thesis using Inr by (auto intro!: exI [of _ v])
    next
      case (Inl e)
      consider "e = EINTR" | "e \<noteq> EINTR" "e \<noteq> EAGAIN" "e \<noteq> ENOMEM" | "e = EAGAIN \<or> e = ENOMEM" by blast
      then show ?thesis
      proof cases
        case 1
        then have "mmap_tries env hint n p f i (tick v) = Some y" using run True Inl by (simp add: mmap_def)
        from IH [OF this] show ?thesis by (simp split: option.splits)
      next
        case 2
        then have "y = (None, tick v)" using run True Inl by (auto simp: mmap_def)
        then show ?thesis by simp
      next
        case 3
        then have "mmap_tries env hint n p f (i + 1) (tick v) = Some y"
          using run True Inl by (auto simp: mmap_def)
        from IH [OF this] show ?thesis by (simp split: option.splits)
      qed
    qed
  qed
qed

lemma mmap_tries_ends:
  assumes "\<forall>v hint n prot flags. N \<le> calls v \<longrightarrow> k_mmap env v hint n prot flags \<noteq> Inl EINTR"
  shows "\<exists>r. mmap_tries env hint n p f i v = Some r"
proof (induction "(N - calls v) + (5 - i)" arbitrary: i v rule: less_induct)
  case less
  show ?case
  proof (cases "i < 5 \<and> (\<exists>e. k_mmap env v hint n p f = Inl e)")
    case False
    then show ?thesis
      by (subst mmap_tries.simps) (auto simp: mmap_def split: sum.splits)
  next
    case True
    then obtain e where e: "k_mmap env v hint n p f = Inl e" and i: "i < 5" by blast
    have "\<exists>r. mmap_tries env hint n p f i (tick v) = Some r" if "e = EINTR"
      using less [of "tick v" i] assms e that by (metis add_less_mono1 diff_less_mono2 lessI not_le Suc_eq_plus1 tick_sel(3))
    moreover have "\<exists>r. mmap_tries env hint n p f (i + 1) (tick v) = Some r"
      using less [of "tick v" "i + 1"] i by (simp add: diff_le_mono2 add_le_less_mono)
    ultimately show ?thesis using e i
      by (subst mmap_tries.simps) (auto simp: mmap_def)
  qed
qed

text \<open>
  A new mapping: \<open>n\<close> bytes from \<open>a\<close> that were free are now mapped with protection \<open>p\<close> and read as
  zero, and what was mapped before is as it was.
\<close>

definition fresh_mapping :: "vm \<Rightarrow> u64 \<Rightarrow> u64 \<Rightarrow> u32 \<Rightarrow> vm \<Rightarrow> bool" where
  "fresh_mapping v a n p v' \<longleftrightarrow>
     a \<noteq> 0 \<and> unat a + unat n < 2 ^ 64 \<and>
     (\<forall>x. within a n x \<longrightarrow> prot_of v x = None \<and> prot_of v' x = Some p \<and> byte_of v' x = 0) \<and>
     (\<forall>x. prot_of v x \<noteq> None \<longrightarrow> prot_of v' x = prot_of v x \<and> byte_of v' x = byte_of v x)"

definition no_leak :: "vm \<Rightarrow> u64 \<Rightarrow> u64 \<Rightarrow> vm \<Rightarrow> bool" where
  "no_leak v a n v' \<longleftrightarrow> (\<forall>x. \<not> within a n x \<longrightarrow> prot_of v' x = prot_of v x)"

lemma huge_p2: "HUGE_PAGE_SIZE = 2 ^ 21"
  by (simp add: HUGE_PAGE_SIZE_def)

lemma unat_huge [simp]: "unat HUGE_PAGE_SIZE = 2097152"
  by (simp add: HUGE_PAGE_SIZE_def)

lemma round_up_page: "round_up a HUGE_PAGE_SIZE = page_round (2 ^ 21) a"
  by (simp add: round_up_def page_round_def huge_p2 Let_def algebra_simps)

lemma trim_huge_ranges:
  assumes "unat a + unat req < 2 ^ 64" and req: "unat req = unat R + 2097152"
  defines "h \<equiv> round_up a HUGE_PAGE_SIZE"
  shows "unat a \<le> unat h" and "unat h < unat a + 2097152" and "2097152 dvd unat h"
    and "unat (h - a) = unat h - unat a"
    and "unat (HUGE_PAGE_SIZE - (h - a)) = 2097152 - (unat h - unat a)"
    and "unat (a + req - (HUGE_PAGE_SIZE - (h - a))) = unat h + unat R"
proof -
  have a: "unat a + (2 ^ 21 - 1) < 2 ^ 64" using assms by simp
  show le: "unat a \<le> unat h" and lt: "unat h < unat a + 2097152" and "2097152 dvd unat h"
    using page_round_bounds [OF _ a] by (simp_all add: h_def round_up_page)
  show pre: "unat (h - a) = unat h - unat a" using le by (simp add: unat_sub word_le_nat_alt)
  show suf: "unat (HUGE_PAGE_SIZE - (h - a)) = 2097152 - (unat h - unat a)"
    using lt pre by (simp add: unat_sub word_le_nat_alt)
  have sum: "unat (a + req) = unat a + unat req" using assms(1) by (simp add: unat_plus_simple)
  have "unat (a + req - (HUGE_PAGE_SIZE - (h - a))) = unat (a + req) - unat (HUGE_PAGE_SIZE - (h - a))"
    by (rule unat_sub) (use le lt sum suf req in \<open>simp add: word_le_nat_alt\<close>)
  then show "unat (a + req - (HUGE_PAGE_SIZE - (h - a))) = unat h + unat R"
    using le lt sum suf req by simp
qed

lemma trim_huge_eq:
  assumes "unat a + unat req < 2 ^ 64" and "unat req = unat R + 2097152"
  defines "h \<equiv> round_up a HUGE_PAGE_SIZE"
  shows "trim_huge env a req v =
    (h, munmap env (a + req - (HUGE_PAGE_SIZE - (h - a))) (HUGE_PAGE_SIZE - (h - a))
          (if h > a then munmap env a (h - a) v else v))"
proof -
  note r = trim_huge_ranges [OF assms(1,2), folded h_def]
  have "HUGE_PAGE_SIZE - (h - a) > 0" using r(2,5) by (simp add: word_less_nat_alt)
  moreover have "h - a > 0 \<longleftrightarrow> h > a" using r(4) by (simp add: word_less_nat_alt)
  moreover have "h - a = 0" if "\<not> h > a" using r(1) that by (simp add: not_less word_le_nat_alt [symmetric])
  ultimately show ?thesis
    by (cases "h > a") (simp_all add: trim_huge_def Let_def h_def [symmetric])
qed

lemma trim_huge_space:
  assumes "unat a + unat req < 2 ^ 64" and "unat req = unat R + 2097152"
    and "trim_huge env a req v = (h, v')"
  shows "byte_of v' = byte_of v" and "within h R x \<Longrightarrow> prot_of v' x = prot_of v x"
    and "\<not> within a req x \<Longrightarrow> prot_of v' x = prot_of v x"
    and "within h R x \<Longrightarrow> within a req x" and "2097152 dvd unat h" and "unat h + unat R < 2 ^ 64"
    and "unat a \<le> unat h"
proof -
  have h: "h = round_up a HUGE_PAGE_SIZE" using trim_huge_eq [OF assms(1,2)] assms(3) by simp
  have v': "v' = munmap env (a + req - (HUGE_PAGE_SIZE - (h - a))) (HUGE_PAGE_SIZE - (h - a))
          (if h > a then munmap env a (h - a) v else v)"
    using trim_huge_eq [OF assms(1,2), of env v] assms(3) unfolding h by (metis prod.inject)
  note r = trim_huge_ranges [OF assms(1,2), folded h]
  show "byte_of v' = byte_of v" by (simp add: v' munmap_sel)
  show "within h R x \<Longrightarrow> prot_of v' x = prot_of v x" "\<not> within a req x \<Longrightarrow> prot_of v' x = prot_of v x"
    using r assms(2) by (auto simp: v' munmap_sel within_def)
  show "within h R x \<Longrightarrow> within a req x" "2097152 dvd unat h" "unat h + unat R < 2 ^ 64" "unat a \<le> unat h"
    using r assms(1,2) by (auto simp: within_def)
qed

text \<open>The size that is requested, when the two checks let it pass.\<close>

lemma request_size:
  assumes "k \<le> 16" and "sz \<noteq> 0" and "R = page_round (2 ^ k) sz"
    and "req = (if R \<ge> HUGE_PAGE_SIZE then R + HUGE_PAGE_SIZE else R)"
    and "\<not> req < sz"
  shows "unat sz + (2 ^ k - 1) < 2 ^ 64"
    and "unat req = (if R \<ge> HUGE_PAGE_SIZE then unat R + 2097152 else unat R)"
proof -
  have k16: "(2 :: nat) ^ k \<le> 2 ^ 16" using assms(1) by (intro power_increasing) simp_all
  have sz: "0 < unat sz" "unat sz < 2 ^ 64" using assms(2) unsigned_less [of sz] by (simp_all add: unat_gt_0)
  show ok: "unat sz + (2 ^ k - 1) < 2 ^ 64"
  proof (rule ccontr)
    assume wrap: "\<not> unat sz + (2 ^ k - 1) < 2 ^ 64"
    then have "(unat sz + (2 ^ k - 1)) mod 2 ^ 64 = unat sz + (2 ^ k - 1) - 2 ^ 64"
      using sz k16 by (simp add: mod_if)
    also have "\<dots> < 2 ^ k" using sz(2) zero_less_power [of "2 :: nat" k] by linarith
    finally have "unat R = 0" using assms(1,3) by (simp add: unat_page_round_wrap)
    then have "req = 0" using assms(4) by (simp add: word_le_nat_alt unat_eq_0)
    then show False using assms(5) sz(1) by (simp add: word_less_nat_alt)
  qed
  have R: "unat sz \<le> unat R" "unat R < unat sz + 2 ^ k"
    using page_round_bounds [OF _ ok] assms(1,3) by simp_all
  show "unat req = (if R \<ge> HUGE_PAGE_SIZE then unat R + 2097152 else unat R)"
  proof (cases "R \<ge> HUGE_PAGE_SIZE \<and> unat R + 2097152 \<ge> 2 ^ 64")
    case True
    have "unat req = (unat R + 2097152) mod 2 ^ 64" using True assms(4) by (simp add: unat_word_ariths)
    also have "\<dots> = unat R + 2097152 - 2 ^ 64"
      using True unsigned_less [where ?'a = nat, of R] by (simp add: mod_if)
    finally have "unat req < unat sz" using True R k16 unsigned_less [where ?'a = nat, of R]
      by simp linarith
    then show ?thesis using assms(5) by (simp add: word_less_nat_alt)
  qed (use assms(4) in \<open>auto simp: unat_plus_simple\<close>)
qed

lemma fixed_flag: "map_flags_of MMAP_MAP_NONE AND MAP_FIXED = 0"
  by (simp add: map_flags_of_def flag_defs)

lemma os_mmap_cases:
  assumes "os_mmap env hint sz prot flags v = Some (a, v')"
  defines "R \<equiv> page_round (k_pagesize env) sz"
  defines "req \<equiv> (if R \<ge> HUGE_PAGE_SIZE then R + HUGE_PAGE_SIZE else R)"
  obtains (failed) "a = 0" and "same_space v' v"
  | (mapped) addr w where "\<not> req < sz" and "req \<le> 16 * 0xFFFFFFFF" and "same_space w v"
      and "k_mmap env w hint req (map_prot_of prot) (map_flags_of flags) = Inr addr"
      and "(a, v') = (if req > HUGE_PAGE_SIZE then trim_huge env addr req (tick (map_range addr req (map_prot_of prot) w))
                      else (addr, tick (map_range addr req (map_prot_of prot) w)))"
proof -
  note run = assms(1) [unfolded os_mmap_def Let_def, folded R_def, folded req_def]
  show ?thesis
  proof (cases "req < sz \<or> req > 16 * 0xFFFFFFFF")
    case True
    then show ?thesis using run failed by (auto split: if_splits)
  next
    case False
    then obtain y where y: "mmap_tries env hint req (map_prot_of prot) (map_flags_of flags) 0 v = Some y"
      using run by (auto split: option.splits if_splits)
    note r = mmap_tries_result [OF y]
    show ?thesis
    proof (cases "fst y")
      case None
      then show ?thesis using run False y r failed by (cases y) auto
    next
      case (Some addr)
      then obtain w where w: "same_space w v" "snd y = tick (map_range addr req (map_prot_of prot) w)"
        "k_mmap env w hint req (map_prot_of prot) (map_flags_of flags) = Inr addr" using r by auto
      have "y = (Some addr, tick (map_range addr req (map_prot_of prot) w))" using Some w(2) by (cases y) simp
      then show ?thesis using run False y w mapped [of w addr] by (auto split: if_splits)
    qed
  qed
qed

lemma fresh_mapping_small:
  assumes "same_space w v" and "a \<noteq> 0" and "unat a + unat R < 2 ^ 64" and "\<forall>x. within a R x \<longrightarrow> prot_of w x = None"
  shows "fresh_mapping v a R p (tick (map_range a R p w))" and "no_leak v a R (tick (map_range a R p w))"
  using assms by (auto simp: fresh_mapping_def no_leak_def same_space_def)

lemma fresh_mapping_huge:
  assumes "same_space w v" and "addr \<noteq> 0" and "unat addr + unat req < 2 ^ 64" and "unat req = unat R + 2097152"
    and "\<forall>x. within addr req x \<longrightarrow> prot_of w x = None"
    and "trim_huge env addr req (tick (map_range addr req p w)) = (a, v')"
  shows "fresh_mapping v a R p v'"
proof -
  note s = trim_huge_space [OF assms(3,4,6)]
  have "a \<noteq> 0" using s(7) assms(2) by (metis le_zero_eq unat_0 unat_eq_0)
  moreover have "prot_of v x = None \<and> prot_of v' x = Some p \<and> byte_of v' x = 0" if "within a R x" for x
    using that s(1) s(2,4) [OF that] assms(1,5) by (simp add: same_space_def)
  moreover have "prot_of v' x = prot_of v x \<and> byte_of v' x = byte_of v x" if "prot_of v x \<noteq> None" for x
  proof -
    have "\<not> within addr req x" using that assms(1,5) by (auto simp: same_space_def)
    then show ?thesis using s(1) s(3) [of x] assms(1) by (simp add: same_space_def)
  qed
  ultimately show ?thesis using s(6) by (simp add: fresh_mapping_def)
qed

lemma no_leak_huge:
  assumes "same_space w v" and "unat addr + unat req < 2 ^ 64" and "unat req = unat R + 2097152"
    and "\<forall>x. within addr req x \<longrightarrow> prot_of w x = None"
    and "trim_huge env addr req (tick (map_range addr req p w)) = (a, v')"
    and "unmap_ok env" and "unat (k_pagesize env) dvd unat addr" and "unat (k_pagesize env) dvd unat R"
    and "unat (k_pagesize env) dvd 2097152"
  shows "no_leak v a R v'"
proof -
  define h where "h = round_up addr HUGE_PAGE_SIZE"
  note r = trim_huge_ranges [OF assms(2,3), folded h_def]
  define s where "s = HUGE_PAGE_SIZE - (h - addr)"
  define e where "e = addr + req - s"
  note r = r [folded s_def, folded e_def]
  let ?P = "unat (k_pagesize env)"
  have ph: "?P dvd unat h" using r(3) assms(9) by (rule dvd_trans [rotated])
  then have d: "?P dvd unat h - unat addr" using assms(7) by (rule dvd_diff_nat)
  then have "?P dvd unat s" using assms(9) r(5) dvd_diff_nat by metis
  moreover have "?P dvd unat e" using r(6) ph assms(8) by simp
  ultimately have ok: "k_munmap env v e s" "k_munmap env v addr (h - addr)" for v
    using assms(6,7) d r(4) by (simp_all add: unmap_ok_def)
  have "(a, v') = (h, munmap env e s
     (if h > addr then munmap env addr (h - addr) (tick (map_range addr req p w)) else tick (map_range addr req p w)))"
    using trim_huge_eq [OF assms(2,3)] assms(5) unfolding h_def s_def e_def by metis
  then show ?thesis
    using r assms(1,3,4) by (auto simp: no_leak_def munmap_sel ok same_space_def within_def word_less_nat_alt)
qed

lemma os_mmap_result:
  assumes "kernel_ok env" and "sz \<noteq> 0" and "os_mmap env hint sz prot MMAP_MAP_NONE v = Some (a, v')"
  defines "R \<equiv> page_round (k_pagesize env) sz"
  shows "a = 0 \<Longrightarrow> same_space v' v"
    and "a \<noteq> 0 \<Longrightarrow> fresh_mapping v a R (map_prot_of prot) v' \<and> unat (k_pagesize env) dvd unat a \<and>
           (R \<ge> HUGE_PAGE_SIZE \<longrightarrow> 2097152 dvd unat a) \<and> unat sz \<le> unat R \<and> unat R < 2 ^ 36 \<and>
           (unmap_ok env \<longrightarrow> no_leak v a R v')"
proof -
  obtain k where k: "12 \<le> k" "k \<le> 16" "k_pagesize env = 2 ^ k" "unat (k_pagesize env) = 2 ^ k"
    using kernel_page [OF assms(1)] .
  have k21: "(2 :: nat) ^ k dvd 2097152" using k(2) le_imp_power_dvd [of k 21 "2 :: nat"] by simp
  define req where "req = (if R \<ge> HUGE_PAGE_SIZE then R + HUGE_PAGE_SIZE else R)"
  have goal: "(a = 0 \<and> same_space v' v) \<or>
     (a \<noteq> 0 \<and> fresh_mapping v a R (map_prot_of prot) v' \<and> unat (k_pagesize env) dvd unat a \<and>
           (R \<ge> HUGE_PAGE_SIZE \<longrightarrow> 2097152 dvd unat a) \<and> unat sz \<le> unat R \<and> unat R < 2 ^ 36 \<and>
           (unmap_ok env \<longrightarrow> no_leak v a R v'))"
    using assms(3)
  proof (cases rule: os_mmap_cases)
    case failed
    then show ?thesis by simp
  next
    case (mapped addr w)
    note m = mapped [folded R_def, folded req_def]
    note q = request_size [OF k(2) assms(2) meta_eq_to_obj_eq [OF R_def, unfolded k(3)] req_def m(1)]
    have R: "unat sz \<le> unat R" "2 ^ k dvd unat R"
      using page_round_bounds [OF _ q(1)] k(2,3) by (simp_all add: R_def)
    have lim: "unat req \<le> 16 * 0xFFFFFFFF" using m(2) by (simp add: word_le_nat_alt)
    have addr: "addr \<noteq> 0" "unat (k_pagesize env) dvd unat addr" "unat addr + unat req < 2 ^ 64"
      "\<forall>x. within addr req x \<longrightarrow> prot_of w x = None"
      using assms(1) m(4) fixed_flag by (auto simp: kernel_ok_def)
    show ?thesis
    proof (cases "R \<ge> HUGE_PAGE_SIZE")
      case False
      then have "req = R" "\<not> req > HUGE_PAGE_SIZE" by (simp_all add: req_def)
      then show ?thesis
        using m(5) addr R lim False fresh_mapping_small [OF m(3) addr(1), of R] by auto
    next
      case True
      then have req: "unat req = unat R + 2097152" "req > HUGE_PAGE_SIZE"
        using q(2) by (auto simp: word_less_nat_alt word_le_nat_alt)
      then have tr: "trim_huge env addr req (tick (map_range addr req (map_prot_of prot) w)) = (a, v')"
        using m(5) by simp
      have a: "2097152 dvd unat a" "unat addr \<le> unat a" using trim_huge_space [OF addr(3) req(1) tr] by simp_all
      have "a \<noteq> 0" using a(2) addr(1) by (metis le_zero_eq unat_0 unat_eq_0)
      moreover have "unat (k_pagesize env) dvd unat a" using a(1) k21 k(4) dvd_trans by metis
      moreover have "fresh_mapping v a R (map_prot_of prot) v'"
        using fresh_mapping_huge [OF m(3) addr(1,3) req(1) addr(4) tr] .
      moreover have "unmap_ok env \<longrightarrow> no_leak v a R v'"
        using no_leak_huge [OF m(3) addr(3) req(1) addr(4) tr] addr(2) k(4) k21 R(2) by simp
      ultimately show ?thesis using a(1) R lim req(1) by simp
    qed
  qed
  then show "a = 0 \<Longrightarrow> same_space v' v"
    and "a \<noteq> 0 \<Longrightarrow> fresh_mapping v a R (map_prot_of prot) v' \<and> unat (k_pagesize env) dvd unat a \<and>
           (R \<ge> HUGE_PAGE_SIZE \<longrightarrow> 2097152 dvd unat a) \<and> unat sz \<le> unat R \<and> unat R < 2 ^ 36 \<and>
           (unmap_ok env \<longrightarrow> no_leak v a R v')"
    by blast+
qed

lemma os_mmap_returns: "settles env \<Longrightarrow> \<exists>r. os_mmap env hint sz prot flags v = Some r"
proof -
  assume "settles env"
  then obtain N where N: "\<forall>v hint n prot flags. N \<le> calls v \<longrightarrow> k_mmap env v hint n prot flags \<noteq> Inl EINTR"
    by (auto simp: settles_def)
  let ?R = "page_round (k_pagesize env) sz"
  obtain r where "mmap_tries env hint (if ?R \<ge> HUGE_PAGE_SIZE then ?R + HUGE_PAGE_SIZE else ?R)
      (map_prot_of prot) (map_flags_of flags) 0 v = Some r" using mmap_tries_ends [OF N] by metis
  then show ?thesis unfolding os_mmap_def Let_def
    by (cases r; cases "fst r") (simp_all split del: if_split, auto)
qed

section \<open>Protecting, moving and unmapping\<close>

lemma os_mprotect_sel:
  assumes "os_mprotect env a n p v = (r, v')" and "a \<noteq> 0"
  shows "byte_of v' = byte_of v" and "r = 0 \<or> r = - 1"
    and "r = 0 \<Longrightarrow> prot_of v' = (\<lambda>x. if within a (page_round (k_pagesize env) n) x then Some (map_prot_of p) else prot_of v x)"
    and "r \<noteq> 0 \<Longrightarrow> same_space v' v"
  using assms by (auto simp: os_mprotect_def mprotect_def Let_def split: if_splits)

lemma os_munmap_sel:
  "byte_of (os_munmap env a n v) = byte_of v"
  "\<not> within a (page_round (k_pagesize env) n) x \<Longrightarrow> prot_of (os_munmap env a n v) x = prot_of v x"
  by (auto simp: os_munmap_def munmap_sel Let_def)

text \<open>
  A mapping moved with its contents: the bytes of the old one are found in the new one, the rest of
  the new one reads as zero, and other mappings are untouched.
\<close>

definition moved :: "vm \<Rightarrow> u64 \<Rightarrow> u64 \<Rightarrow> u64 \<Rightarrow> u64 \<Rightarrow> vm \<Rightarrow> bool" where
  "moved v old osz a nsz v' \<longleftrightarrow>
     a \<noteq> 0 \<and> unat a + unat nsz < 2 ^ 64 \<and>
     (\<forall>x. within a nsz x \<longrightarrow> prot_of v' x \<noteq> None \<and> (within old osz x \<or> prot_of v x = None)) \<and>
     (\<forall>i < unat nsz. byte_of v' (unat a + i) = (if i < unat osz then byte_of v (unat old + i) else 0)) \<and>
     (\<forall>x. prot_of v x \<noteq> None \<and> \<not> within old osz x \<longrightarrow> prot_of v' x = prot_of v x \<and> byte_of v' x = byte_of v x)"

lemma moved_tick [simp]: "moved (tick v) = moved v"
  by (simp add: moved_def fun_eq_iff)

lemma copy_bytes_space:
  assumes "fresh_mapping v a nsz p w" and "\<forall>x. within old osz x \<longrightarrow> prot_of v x \<noteq> None"
    and "unat osz \<le> unat nsz"
  defines "m \<equiv> copy_bytes (byte_of w) (unat a) (unat old) (unat osz)"
  shows "i < unat nsz \<Longrightarrow> m (unat a + i) = (if i < unat osz then byte_of v (unat old + i) else 0)"
    and "prot_of v x \<noteq> None \<Longrightarrow> m x = byte_of v x"
proof -
  note f = assms(1) [unfolded fresh_mapping_def]
  show "i < unat nsz \<Longrightarrow> m (unat a + i) = (if i < unat osz then byte_of v (unat old + i) else 0)"
    using f assms(2) by (auto simp: m_def copy_bytes_def within_def)
  assume x: "prot_of v x \<noteq> None"
  then have "\<not> within a nsz x" using f by auto
  then have "\<not> (unat a \<le> x \<and> x < unat a + unat osz)" using assms(3) by (auto simp: within_def)
  then have "m x = byte_of w x" by (auto simp: m_def copy_bytes_def)
  then show "m x = byte_of v x" using f x by simp
qed

lemma os_mremap_slow_moves:
  assumes "kernel_ok env" and "nsz \<noteq> 0" and "unat osz \<le> unat nsz"
    and "page_round (k_pagesize env) osz = osz" and "page_round (k_pagesize env) nsz = nsz"
    and "\<forall>x. within old osz x \<longrightarrow> prot_of v x \<noteq> None"
    and "os_mremap_slow env old osz nsz v = Some (a, v')"
  shows "if a = 0 then same_space v' v else moved v old osz a nsz v'"
proof -
  obtain b w where b: "os_mmap env 0 nsz (MMAP_PROT_WRITE OR MMAP_PROT_READ) MMAP_MAP_NONE v = Some (b, w)"
    using assms(7) by (auto simp: os_mremap_slow_def MMAP_MAP_NONE_def split: option.splits)
  note res = os_mmap_result [OF assms(1,2) b, unfolded assms(5)]
  have sz: "(if nsz < osz then nsz else osz) = osz" using assms(3) by (simp add: word_less_nat_alt)
  show ?thesis
  proof (cases "b = 0")
    case True
    then show ?thesis using assms(7) b res by (auto simp: os_mremap_slow_def MMAP_MAP_NONE_def)
  next
    case False
    let ?w = "w\<lparr>byte_of := copy_bytes (byte_of w) (unat b) (unat old) (unat osz)\<rparr>"
    have out: "a = b" "v' = os_munmap env old osz ?w"
      using assms(7) b False by (auto simp: os_mremap_slow_def MMAP_MAP_NONE_def sz Let_def)
    have f: "fresh_mapping v b nsz (map_prot_of (MMAP_PROT_WRITE OR MMAP_PROT_READ)) w" using res False by simp
    note c = copy_bytes_space [OF f assms(6,3)]
    have dis: "\<not> within old osz x" if "within b nsz x" for x using f that assms(6) by (auto simp: fresh_mapping_def)
    have un: "prot_of v' x = prot_of w x" if "\<not> within old osz x" for x
      using os_munmap_sel(2) [of old env osz x ?w] that by (simp add: out(2) assms(4))
    show ?thesis using False f c dis un
      by (auto simp: moved_def out os_munmap_sel(1) fresh_mapping_def)
  qed
qed

lemma os_mremap_moves:
  assumes "kernel_ok env" and "nsz \<noteq> 0" and "osz \<noteq> 0" and "unat osz \<le> unat nsz"
    and "page_round (k_pagesize env) osz = osz" and "page_round (k_pagesize env) nsz = nsz"
    and "\<forall>x. within old osz x \<longrightarrow> prot_of v x \<noteq> None"
    and "os_mremap env old osz nsz v = Some (a, v')"
  shows "if a = 0 then same_space v' v else moved v old osz a nsz v'"
proof (cases "k_mremap env v old osz nsz")
  case (Inl e)
  have "os_mremap_slow env old osz nsz (tick v) = Some (a, v')"
    using assms(8) Inl by (simp add: os_mremap_def mremap_def)
  then have "if a = 0 then same_space v' (tick v) else moved (tick v) old osz a nsz v'"
    using os_mremap_slow_moves [OF assms(1,2,4-6), of old "tick v"] assms(7) by simp
  then show ?thesis by (simp split: if_splits)
next
  case (Inr b)
  then have out: "a = b" "v' = tick (move_range old osz b nsz v)"
    using assms(8) by (auto simp: os_mremap_def mremap_def assms(5,6))
  have k: "b \<noteq> 0" "unat b + unat nsz < 2 ^ 64" "\<forall>x. within b nsz x \<and> \<not> within old osz x \<longrightarrow> prot_of v x = None"
    using assms(1) Inr unfolding kernel_ok_def by (metis assms(5,6))+
  have "within old osz (unat old)" using assms(3) by (simp add: within_def unat_gt_0)
  then have "prot_of v (unat old) \<noteq> None" using assms(7) by blast
  then show ?thesis using k
    by (auto simp: out moved_def move_range_def within_def)
qed

end
