(* ===== verification/Wasm_Memory.thy ===== *)
theory Wasm_Memory
  imports Os_Memmap
begin

text \<open>
  The linear memories of WebAssembly instances, \<open>wamr/core/iwasm/common/wasm_memory.c\<close>: checks of
  application and native addresses, conversion between them, growing, allocating and releasing the
  memory. The switches are those of the Makefile (no AOT, JIT, shared memory or 64-bit memories) and
  of \<open>config.h\<close> (no shared heap, no allocation with usage); locks are then empty. Two switches stay
  parameters in \<open>mem_config\<close>: \<open>OS_ENABLE_HW_BOUND_CHECK\<close>, which depends on the target, and
  \<open>WASM_CONFIGURABLE_BOUNDS_CHECKS\<close>. Assertions are empty in this build.

  Pointers are 64-bit words, 0 is null. The application heap inside a memory is kept by the allocator
  of the runtime; its two functions called here are the parameter \<open>heap_ops\<close>.
\<close>

section \<open>State\<close>

record memory_inst =
  num_bytes_per_page :: u32
  cur_page_count :: u32
  max_page_count :: u32
  memory_data_size :: u64
  memory_data :: u64
  memory_data_end :: u64
  heap_data :: u64
  heap_data_end :: u64
  heap_handle :: u64

text \<open>An empty list of memories is the null array.\<close>

record module_inst =
  memories :: "memory_inst list"
  disable_bounds_checks :: bool
  cur_exception :: string

record mem_config =
  hw_bound_check :: bool
  configurable_bounds_checks :: bool

record heap_ops =
  heap_corrupted :: "vm \<Rightarrow> u64 \<Rightarrow> bool"
  heap_migrate :: "vm \<Rightarrow> u64 \<Rightarrow> u64 \<Rightarrow> u32 \<Rightarrow> int \<times> vm"

definition BH_GB :: u64 where
  "BH_GB = 1024 * 1024 * 1024"

definition MAX_LINEAR_MEMORY_SIZE :: u64 where
  "MAX_LINEAR_MEMORY_SIZE = 4 * BH_GB"

definition wasm_set_exception :: "string \<Rightarrow> module_inst \<Rightarrow> module_inst" where
  "wasm_set_exception msg inst = inst\<lparr>cur_exception := take 127 (''Exception: '' @ msg)\<rparr>"

abbreviation out_of_bounds :: "module_inst \<Rightarrow> module_inst" where
  "out_of_bounds \<equiv> wasm_set_exception ''out of bounds memory access''"

definition is_bounds_checks_enabled :: "mem_config \<Rightarrow> module_inst \<Rightarrow> bool" where
  "is_bounds_checks_enabled cfg inst = (if configurable_bounds_checks cfg then \<not> disable_bounds_checks inst else True)"

definition wasm_get_default_memory :: "module_inst \<Rightarrow> memory_inst option" where
  "wasm_get_default_memory inst = (case memories inst of [] \<Rightarrow> None | m # _ \<Rightarrow> Some m)"

definition wasm_get_memory_with_idx :: "module_inst \<Rightarrow> u32 \<Rightarrow> memory_inst option" where
  "wasm_get_memory_with_idx inst idx =
     (if unat idx \<ge> length (memories inst) \<or> memories inst = [] then None else Some (memories inst ! unat idx))"

section \<open>Checking and converting addresses\<close>

definition wasm_runtime_validate_app_addr :: "mem_config \<Rightarrow> u64 \<Rightarrow> u64 \<Rightarrow> module_inst \<Rightarrow> bool \<times> module_inst" where
  "wasm_runtime_validate_app_addr cfg app_offset sz inst =
     (if \<not> is_bounds_checks_enabled cfg inst then (True, inst)
      else (case wasm_get_default_memory inst of
        None \<Rightarrow> (False, out_of_bounds inst)
      | Some memory \<Rightarrow>
          if sz > MAX_LINEAR_MEMORY_SIZE \<or> app_offset > MAX_LINEAR_MEMORY_SIZE - sz then (False, out_of_bounds inst)
          else if app_offset + sz \<le> memory_data_size memory then (True, inst)
          else (False, out_of_bounds inst)))"

definition wasm_runtime_get_app_addr_range :: "module_inst \<Rightarrow> u64 \<Rightarrow> (u64 \<times> u64) option" where
  "wasm_runtime_get_app_addr_range inst app_offset =
     (case wasm_get_default_memory inst of
        None \<Rightarrow> None
      | Some memory \<Rightarrow>
          if app_offset < memory_data_size memory then Some (0, memory_data_size memory) else None)"

definition wasm_runtime_addr_app_to_native :: "mem_config \<Rightarrow> module_inst \<Rightarrow> u64 \<Rightarrow> u64" where
  "wasm_runtime_addr_app_to_native cfg inst app_offset =
     (case wasm_get_default_memory inst of
        None \<Rightarrow> 0
      | Some memory \<Rightarrow>
          let addr = memory_data memory + app_offset in
          if is_bounds_checks_enabled cfg inst then
            (if memory_data memory \<le> addr \<and> addr < memory_data_end memory then addr else 0)
          else addr)"

definition wasm_runtime_addr_native_to_app :: "mem_config \<Rightarrow> module_inst \<Rightarrow> u64 \<Rightarrow> u64" where
  "wasm_runtime_addr_native_to_app cfg inst addr =
     (case wasm_get_default_memory inst of
        None \<Rightarrow> 0
      | Some memory \<Rightarrow>
          if is_bounds_checks_enabled cfg inst then
            (if memory_data memory \<le> addr \<and> addr < memory_data_end memory then addr - memory_data memory else 0)
          else if addr \<noteq> 0 then addr - memory_data memory
          else 0)"

definition wasm_runtime_validate_native_addr :: "mem_config \<Rightarrow> u64 \<Rightarrow> u64 \<Rightarrow> module_inst \<Rightarrow> bool \<times> module_inst" where
  "wasm_runtime_validate_native_addr cfg addr sz inst =
     (if \<not> is_bounds_checks_enabled cfg inst then (True, inst)
      else (case wasm_get_default_memory inst of
        None \<Rightarrow> (False, out_of_bounds inst)
      | Some memory \<Rightarrow>
          if sz > MAX_LINEAR_MEMORY_SIZE \<or> addr > 0xFFFFFFFFFFFFFFFF - sz then (False, out_of_bounds inst)
          else if memory_data memory \<le> addr \<and> addr + sz \<le> memory_data_end memory then (True, inst)
          else (False, out_of_bounds inst)))"

definition wasm_runtime_get_native_addr_range :: "module_inst \<Rightarrow> u64 \<Rightarrow> (u64 \<times> u64) option" where
  "wasm_runtime_get_native_addr_range inst addr =
     (case wasm_get_default_memory inst of
        None \<Rightarrow> None
      | Some memory \<Rightarrow>
          if memory_data memory \<le> addr \<and> addr < memory_data_end memory
          then Some (memory_data memory, memory_data_end memory) else None)"

text \<open>The search for the terminator; reading a byte that is not mapped for reading is a fault.\<close>

definition may_read :: "vm \<Rightarrow> nat \<Rightarrow> bool" where
  "may_read v x \<longleftrightarrow> (case prot_of v x of None \<Rightarrow> False | Some p \<Rightarrow> p AND PROT_READ \<noteq> 0)"

definition may_write :: "vm \<Rightarrow> nat \<Rightarrow> bool" where
  "may_write v x \<longleftrightarrow> (case prot_of v x of None \<Rightarrow> False | Some p \<Rightarrow> p AND PROT_WRITE \<noteq> 0)"

function scan_str :: "vm \<Rightarrow> nat \<Rightarrow> nat \<Rightarrow> fault + nat" where
  "scan_str v str str_end =
     (if str < str_end then
        (if \<not> may_read v str then Inl Out_of_bounds
         else if byte_of v str \<noteq> 0 then scan_str v (str + 1) str_end
         else Inr str)
      else Inr str)"
  by pat_completeness auto
termination by (relation "measure (\<lambda>(v, str, str_end). str_end - str)") auto

declare scan_str.simps [simp del]

definition wasm_runtime_validate_app_str_addr ::
  "mem_config \<Rightarrow> vm \<Rightarrow> u64 \<Rightarrow> module_inst \<Rightarrow> fault + (bool \<times> module_inst)" where
  "wasm_runtime_validate_app_str_addr cfg v app_str_offset inst =
     (if \<not> is_bounds_checks_enabled cfg inst then Inr (True, inst)
      else (case wasm_get_default_memory inst of
        None \<Rightarrow> Inr (False, out_of_bounds inst)
      | Some memory \<Rightarrow>
        (case wasm_runtime_get_app_addr_range inst app_str_offset of
           None \<Rightarrow> Inr (False, out_of_bounds inst)
         | Some (_, app_end_offset) \<Rightarrow>
             if app_str_offset \<ge> MAX_LINEAR_MEMORY_SIZE \<or> app_end_offset > MAX_LINEAR_MEMORY_SIZE
             then Inr (False, out_of_bounds inst)
             else
               let str = wasm_runtime_addr_app_to_native cfg inst app_str_offset;
                   str_end = str + (app_end_offset - app_str_offset)
               in (case scan_str v (unat str) (unat str_end) of
                     Inl f \<Rightarrow> Inl f
                   | Inr str' \<Rightarrow> if str' = unat str_end then Inr (False, out_of_bounds inst) else Inr (True, inst)))))"

text \<open>The third result component is the native address, when it was stored.\<close>

definition wasm_check_app_addr_and_convert ::
  "mem_config \<Rightarrow> vm \<Rightarrow> bool \<Rightarrow> u64 \<Rightarrow> u64 \<Rightarrow> module_inst \<Rightarrow> fault + (bool \<times> module_inst \<times> u64 option)" where
  "wasm_check_app_addr_and_convert cfg v is_str app_buf_addr app_buf_size inst =
     (case wasm_get_default_memory inst of
        None \<Rightarrow> Inr (False, out_of_bounds inst, None)
      | Some memory \<Rightarrow>
          let native_addr = memory_data memory + app_buf_addr in
          if \<not> is_bounds_checks_enabled cfg inst
          then Inr (True, inst, Some (if app_buf_addr = 0 then 0 else native_addr))
          else if hw_bound_check cfg then Inr (True, inst, Some native_addr)
          else if app_buf_addr \<ge> memory_data_size memory then Inr (False, out_of_bounds inst, None)
          else if \<not> is_str then
            (if app_buf_size > memory_data_size memory - app_buf_addr then Inr (False, out_of_bounds inst, None)
             else Inr (True, inst, Some native_addr))
          else (case scan_str v (unat native_addr) (unat (memory_data_end memory)) of
                  Inl f \<Rightarrow> Inl f
                | Inr str' \<Rightarrow>
                    if str' = unat (memory_data_end memory) then Inr (False, out_of_bounds inst, None)
                    else Inr (True, inst, Some native_addr)))"

section \<open>Mapping, growing and releasing\<close>

definition wasm_munmap_linear_memory :: "vm_env \<Rightarrow> u64 \<Rightarrow> u64 \<Rightarrow> vm \<Rightarrow> vm" where
  "wasm_munmap_linear_memory env mapped_mem map_size v = os_munmap env mapped_mem map_size v"

definition wasm_mremap_linear_memory ::
  "vm_env \<Rightarrow> u64 \<Rightarrow> u64 \<Rightarrow> u64 \<Rightarrow> u64 \<Rightarrow> vm \<Rightarrow> (u64 \<times> vm) option" where
  "wasm_mremap_linear_memory env mapped_mem old_size new_size commit_size v =
     (case (if mapped_mem \<noteq> 0 then os_mremap env mapped_mem old_size new_size v
            else os_mmap env 0 new_size MMAP_PROT_NONE MMAP_MAP_NONE v) of
        None \<Rightarrow> None
      | Some (new_mem, v) \<Rightarrow>
          if new_mem = 0 then Some (0, v)
          else (case os_mprotect env new_mem commit_size (MMAP_PROT_READ OR MMAP_PROT_WRITE) v of
                  (r, v) \<Rightarrow>
                    if r \<noteq> 0 then Some (0, wasm_munmap_linear_memory env new_mem new_size v)
                    else Some (new_mem, v)))"

definition wasm_mmap_linear_memory :: "vm_env \<Rightarrow> u64 \<Rightarrow> u64 \<Rightarrow> vm \<Rightarrow> (u64 \<times> vm) option" where
  "wasm_mmap_linear_memory env map_size commit_size v = wasm_mremap_linear_memory env 0 0 map_size commit_size v"

datatype enlarge_memory_error_reason = INTERNAL_ERROR | MAX_SIZE_REACHED

text \<open>
  The callback is told the increment, the old size and the reason, when the instance is known and a
  callback is set (\<open>report\<close>).
\<close>

type_synonym enlarge_report = "(u32 \<times> u64 \<times> enlarge_memory_error_reason) option"

type_synonym enlarged = "(bool \<times> memory_inst \<times> vm \<times> enlarge_report) option"

definition enlarge_failed ::
  "bool \<Rightarrow> u32 \<Rightarrow> enlarge_memory_error_reason \<Rightarrow> u64 \<Rightarrow> memory_inst \<Rightarrow> vm \<Rightarrow> enlarged" where
  "enlarge_failed report inc_page_count reason total_size_old memory v =
     Some (False, memory, v, if report then Some (inc_page_count, total_size_old, reason) else None)"

definition enlarge_done :: "u32 \<Rightarrow> u64 \<Rightarrow> memory_inst \<Rightarrow> memory_inst" where
  "enlarge_done total_page_count total_size_new memory =
     memory\<lparr>cur_page_count := total_page_count, memory_data_size := total_size_new,
            memory_data_end := memory_data memory + total_size_new\<rparr>"

definition wasm_enlarge_memory_internal ::
  "mem_config \<Rightarrow> vm_env \<Rightarrow> heap_ops \<Rightarrow> bool \<Rightarrow> memory_inst \<Rightarrow> u32 \<Rightarrow> vm \<Rightarrow> enlarged" where
  "wasm_enlarge_memory_internal cfg env heap report memory inc_page_count v =
     (let full_size_mmaped = hw_bound_check cfg;
          memory_data_old = memory_data memory;
          total_size_old = memory_data_size memory;
          heap_data_old = heap_data memory;
          heap_size = (ucast (heap_data_end memory - heap_data memory) :: u32);
          total_page_count = inc_page_count + cur_page_count memory;
          total_size_new = ucast (num_bytes_per_page memory) * ucast total_page_count;
          failed = (\<lambda>reason v. enlarge_failed report inc_page_count reason total_size_old memory v)
      in if inc_page_count = 0 then Some (True, memory, v, None)
         else if total_page_count < cur_page_count memory then failed INTERNAL_ERROR v
         else if total_page_count > max_page_count memory then failed MAX_SIZE_REACHED v
         else if full_size_mmaped then
           (case os_mprotect env (memory_data_end memory) (total_size_new - total_size_old)
                   (MMAP_PROT_READ OR MMAP_PROT_WRITE) v of
              (r, v) \<Rightarrow>
                if r \<noteq> 0 then failed INTERNAL_ERROR v
                else Some (True, enlarge_done total_page_count total_size_new memory, v, None))
         else if heap_size > 0 \<and> heap_corrupted heap v (heap_handle memory) then failed INTERNAL_ERROR v
         else
           (case wasm_mremap_linear_memory env memory_data_old total_size_old total_size_new total_size_new v of
              None \<Rightarrow> None
            | Some (memory_data_new, v) \<Rightarrow>
                if memory_data_new = 0 then failed INTERNAL_ERROR v
                else
                  let (r, v) = (if heap_size > 0
                                then heap_migrate heap v (heap_handle memory)
                                       (heap_data_old + (memory_data_new - memory_data_old)) heap_size
                                else (0, v));
                      heap_data_new = memory_data_new + (heap_data_old - memory_data_old);
                      memory' = memory\<lparr>heap_data := heap_data_new,
                                       heap_data_end := heap_data_new + ucast heap_size,
                                       memory_data := memory_data_new\<rparr>;
                      memory' = enlarge_done total_page_count total_size_new memory'
                  in if r = 0 then Some (True, memory', v, None)
                     else enlarge_failed report inc_page_count INTERNAL_ERROR total_size_old memory' v))"

definition wasm_enlarge_memory_with_idx ::
  "mem_config \<Rightarrow> vm_env \<Rightarrow> heap_ops \<Rightarrow> bool \<Rightarrow> u32 \<Rightarrow> u32 \<Rightarrow> module_inst \<Rightarrow> vm
     \<Rightarrow> (bool \<times> module_inst \<times> vm \<times> enlarge_report) option" where
  "wasm_enlarge_memory_with_idx cfg env heap cb inc_page_count memidx inst v =
     (if unat memidx < length (memories inst)
      then map_option (\<lambda>(r, m, v, e). (r, inst\<lparr>memories := (memories inst)[unat memidx := m]\<rparr>, v, e))
             (wasm_enlarge_memory_internal cfg env heap cb (memories inst ! unat memidx) inc_page_count v)
      else Some (False, inst, v, None))"

definition wasm_enlarge_memory ::
  "mem_config \<Rightarrow> vm_env \<Rightarrow> heap_ops \<Rightarrow> bool \<Rightarrow> u32 \<Rightarrow> module_inst \<Rightarrow> vm
     \<Rightarrow> (bool \<times> module_inst \<times> vm \<times> enlarge_report) option" where
  "wasm_enlarge_memory cfg env heap cb inc_page_count inst v =
     (if length (memories inst) > 0
      then map_option (\<lambda>(r, m, v, e). (r, inst\<lparr>memories := (memories inst)[0 := m]\<rparr>, v, e))
             (wasm_enlarge_memory_internal cfg env heap cb (memories inst ! 0) inc_page_count v)
      else Some (False, inst, v, None))"

definition wasm_runtime_enlarge_memory ::
  "mem_config \<Rightarrow> vm_env \<Rightarrow> heap_ops \<Rightarrow> bool \<Rightarrow> u64 \<Rightarrow> module_inst \<Rightarrow> vm
     \<Rightarrow> (bool \<times> module_inst \<times> vm \<times> enlarge_report) option" where
  "wasm_runtime_enlarge_memory cfg env heap cb inc_page_count inst v =
     (if inc_page_count > 0xFFFFFFFF then Some (False, inst, v, None)
      else wasm_enlarge_memory cfg env heap cb (ucast inc_page_count) inst v)"

text \<open>Without an instance nothing is reported. The increment is cut to 32 bits.\<close>

definition wasm_memory_enlarge ::
  "mem_config \<Rightarrow> vm_env \<Rightarrow> heap_ops \<Rightarrow> u64 \<Rightarrow> memory_inst option \<Rightarrow> vm \<Rightarrow> (bool \<times> memory_inst option \<times> vm) option" where
  "wasm_memory_enlarge cfg env heap inc_page_count memory v =
     (case memory of
        None \<Rightarrow> Some (False, None, v)
      | Some m \<Rightarrow> map_option (\<lambda>(r, m, v, e). (r, Some m, v))
                   (wasm_enlarge_memory_internal cfg env heap False m (ucast inc_page_count) v))"

definition wasm_deallocate_linear_memory :: "mem_config \<Rightarrow> vm_env \<Rightarrow> memory_inst \<Rightarrow> vm \<Rightarrow> memory_inst \<times> vm" where
  "wasm_deallocate_linear_memory cfg env memory v =
     (let map_size = (if \<not> hw_bound_check cfg then ucast (num_bytes_per_page memory) * ucast (cur_page_count memory)
                      else 8 * BH_GB)
      in (memory\<lparr>memory_data := 0\<rparr>, wasm_munmap_linear_memory env (memory_data memory) map_size v))"

definition align_as_and_cast :: "u64 \<Rightarrow> u64 \<Rightarrow> u64" where
  "align_as_and_cast sz alignment = (sz + alignment - 1) AND NOT (alignment - 1)"

text \<open>The results: the status, \<open>*data\<close>, \<open>*memory_data_size\<close>.\<close>

definition wasm_allocate_linear_memory ::
  "mem_config \<Rightarrow> vm_env \<Rightarrow> u64 \<Rightarrow> u64 \<Rightarrow> u64 \<Rightarrow> vm \<Rightarrow> (int \<times> u64 \<times> u64 \<times> vm) option" where
  "wasm_allocate_linear_memory cfg env data page_bytes init_page_count v =
     (let map_size = (if \<not> hw_bound_check cfg then init_page_count * page_bytes else 8 * BH_GB);
          page_size = k_pagesize env;
          data_size = init_page_count * page_bytes;
          data_size = align_as_and_cast data_size page_size
      in if map_size > 0 then
           (case wasm_mmap_linear_memory env map_size data_size v of
              None \<Rightarrow> None
            | Some (data, v) \<Rightarrow>
                if data = 0 then Some (- 1, data, data_size, v) else Some (0, data, data_size, v))
         else Some (0, data, data_size, v))"

section \<open>Well-formed memories\<close>

text \<open>
  The address space reserved for a memory is 8 GB when out of bounds accesses are caught by the
  hardware, otherwise its size. A memory that can still grow consists of whole pages; the last byte
  of one that cannot may be followed by the padding up to the next page of the system.
\<close>

definition reserved :: "mem_config \<Rightarrow> memory_inst \<Rightarrow> nat" where
  "reserved cfg m = (if hw_bound_check cfg then 2 ^ 33 else unat (memory_data_size m))"

definition mem_ok :: "mem_config \<Rightarrow> memory_inst \<Rightarrow> bool" where
  "mem_ok cfg m \<longleftrightarrow>
     memory_data m \<noteq> 0 \<and> unat (memory_data m) + reserved cfg m < 2 ^ 64 \<and>
     memory_data_end m = memory_data m + memory_data_size m \<and>
     unat (memory_data_size m) \<le> 2 ^ 32 \<and> cur_page_count m \<le> max_page_count m \<and>
     unat (num_bytes_per_page m) * unat (max_page_count m) \<le> 2 ^ 32 \<and>
     (cur_page_count m < max_page_count m \<longrightarrow>
        unat (memory_data_size m) = unat (num_bytes_per_page m) * unat (cur_page_count m))"

lemma unat_8gb [simp]: "unat (8 * BH_GB) = 2 ^ 33"
  by (simp add: BH_GB_def)

lemma unat_max_linear [simp]: "unat MAX_LINEAR_MEMORY_SIZE = 2 ^ 32"
  by (simp add: MAX_LINEAR_MEMORY_SIZE_def BH_GB_def)

lemma unat_ucast_32 [simp]: "unat (ucast a :: u64) = unat a" for a :: u32
  using unsigned_less [where ?'a = nat, of a] by (simp add: unsigned_ucast_eq take_bit_nat_eq_self)

lemma unat_page_mult: "unat (ucast a * ucast b :: u64) = unat a * unat b" for a b :: u32
proof -
  have "unat a * unat b < 2 ^ 32 * 2 ^ 32"
    using unsigned_less [where ?'a = nat, of a] unsigned_less [where ?'a = nat, of b]
    by (intro mult_strict_mono') simp_all
  then show ?thesis by (simp add: unat_word_ariths)
qed

lemma mem_size_bound: "mem_ok cfg m \<Longrightarrow> unat (memory_data_size m) \<le> 2 ^ 32"
  by (simp add: mem_ok_def)

lemma mem_end:
  assumes "mem_ok cfg m"
  shows "unat (memory_data_end m) = unat (memory_data m) + unat (memory_data_size m)"
    and "unat (memory_data m) + unat (memory_data_size m) < 2 ^ 64"
proof -
  have "unat (memory_data_size m) \<le> reserved cfg m"
    using mem_size_bound [OF assms] by (simp add: reserved_def)
  then show "unat (memory_data m) + unat (memory_data_size m) < 2 ^ 64"
    using assms by (simp add: mem_ok_def)
  then show "unat (memory_data_end m) = unat (memory_data m) + unat (memory_data_size m)"
    using assms by (simp add: mem_ok_def unat_plus_simple)
qed

lemma native_of_offset:
  assumes "mem_ok cfg m"
  shows "memory_data m \<le> memory_data m + off \<and> memory_data m + off < memory_data_end m
           \<longleftrightarrow> off < memory_data_size m"
    and "off < memory_data_size m \<Longrightarrow> unat (memory_data m + off) = unat (memory_data m) + unat off"
proof -
  note e = mem_end [OF assms]
  show add: "unat (memory_data m + off) = unat (memory_data m) + unat off" if "off < memory_data_size m"
    using that e(2) by (intro unat_plus_simple) (simp add: word_less_nat_alt)
  have "off < memory_data_size m" if "memory_data m \<le> memory_data m + off" "memory_data m + off < memory_data_end m"
  proof -
    have "unat (memory_data m + off) = unat (memory_data m) + unat off"
      using that(1) unsigned_less [where ?'a = nat, of off]
      by (simp add: unat_plus_if_size word_le_nat_alt word_size split: if_splits)
    then show ?thesis using that(2) e(1) by (simp add: word_less_nat_alt)
  qed
  then show "memory_data m \<le> memory_data m + off \<and> memory_data m + off < memory_data_end m
           \<longleftrightarrow> off < memory_data_size m"
    using add e(1) by (auto simp: word_less_nat_alt word_le_nat_alt)
qed

section \<open>Addresses\<close>

lemma default_memory [simp]: "memories inst = m # ms \<Longrightarrow> wasm_get_default_memory inst = Some m"
  by (simp add: wasm_get_default_memory_def)

lemma validate_app_addr_spec:
  assumes "memories inst = m # ms" and "mem_ok cfg m" and "is_bounds_checks_enabled cfg inst"
  shows "wasm_runtime_validate_app_addr cfg off sz inst =
     (if unat off + unat sz \<le> unat (memory_data_size m) then (True, inst) else (False, out_of_bounds inst))"
proof -
  note le = mem_size_bound [OF assms(2)]
  have lim: "sz > MAX_LINEAR_MEMORY_SIZE \<or> off > MAX_LINEAR_MEMORY_SIZE - sz \<longleftrightarrow> unat off + unat sz > 2 ^ 32"
  proof (cases "unat sz \<le> 2 ^ 32")
    case True
    then have "unat (MAX_LINEAR_MEMORY_SIZE - sz) = 2 ^ 32 - unat sz"
      by (subst unat_sub) (simp_all add: word_le_nat_alt)
    then show ?thesis using True by (auto simp: word_less_nat_alt)
  qed (simp add: word_less_nat_alt)
  have "unat (off + sz) = unat off + unat sz" if "\<not> unat off + unat sz > 2 ^ 32"
    using that by (intro unat_plus_simple) simp
  then show ?thesis
    using assms le unfolding wasm_runtime_validate_app_addr_def lim
    by (auto simp: word_le_nat_alt)
qed

lemma app_to_native_spec:
  assumes "memories inst = m # ms" and "mem_ok cfg m" and "is_bounds_checks_enabled cfg inst"
  shows "wasm_runtime_addr_app_to_native cfg inst off =
     (if off < memory_data_size m then memory_data m + off else 0)"
  using assms native_of_offset(1) [OF assms(2), of off]
  by (simp add: wasm_runtime_addr_app_to_native_def Let_def)

lemma native_to_app_inverse:
  assumes "memories inst = m # ms" and "mem_ok cfg m" and "is_bounds_checks_enabled cfg inst"
    and "off < memory_data_size m"
  shows "wasm_runtime_addr_native_to_app cfg inst (wasm_runtime_addr_app_to_native cfg inst off) = off"
  using assms native_of_offset(1) [OF assms(2), of off]
  by (simp add: wasm_runtime_addr_native_to_app_def app_to_native_spec)

lemma validate_native_addr_spec:
  assumes "memories inst = m # ms" and "mem_ok cfg m" and "is_bounds_checks_enabled cfg inst"
  shows "wasm_runtime_validate_native_addr cfg a sz inst =
     (if unat (memory_data m) \<le> unat a \<and> unat a + unat sz \<le> unat (memory_data m) + unat (memory_data_size m)
      then (True, inst) else (False, out_of_bounds inst))"
proof -
  note le = mem_size_bound [OF assms(2)] and e = mem_end [OF assms(2)]
  have m1: "unat (0xFFFFFFFFFFFFFFFF - sz) = 2 ^ 64 - 1 - unat sz"
    using unsigned_less [where ?'a = nat, of sz] by (subst unat_sub) (simp_all add: word_le_nat_alt)
  have lim: "sz > MAX_LINEAR_MEMORY_SIZE \<or> a > 0xFFFFFFFFFFFFFFFF - sz
      \<longleftrightarrow> unat sz > 2 ^ 32 \<or> unat a + unat sz \<ge> 2 ^ 64"
    using unsigned_less [where ?'a = nat, of sz] unfolding word_less_nat_alt m1 by auto
  have "unat (a + sz) = unat a + unat sz" if "\<not> unat a + unat sz \<ge> 2 ^ 64"
    using that by (intro unat_plus_simple) simp
  then show ?thesis
    using assms le e unfolding wasm_runtime_validate_native_addr_def lim
    by (auto simp: word_le_nat_alt)
qed

text \<open>The terminator search, when the range can be read.\<close>

lemma scan_str_spec:
  assumes "\<And>x. s \<le> x \<Longrightarrow> x < e \<Longrightarrow> may_read v x" and "s \<le> e"
  shows "\<exists>q. scan_str v s e = Inr q \<and> s \<le> q \<and> q \<le> e \<and> (q < e \<longrightarrow> byte_of v q = 0) \<and> (\<forall>x. s \<le> x \<and> x < q \<longrightarrow> byte_of v x \<noteq> 0)"
  using assms
proof (induction v s e rule: scan_str.induct)
  case (1 v s e)
  show ?case
  proof (cases "s < e \<and> byte_of v s \<noteq> 0")
    case True
    then obtain q where q: "scan_str v (s + 1) e = Inr q" "s + 1 \<le> q" "q \<le> e" "q < e \<longrightarrow> byte_of v q = 0"
      "\<forall>x. s + 1 \<le> x \<and> x < q \<longrightarrow> byte_of v x \<noteq> 0"
      using 1 by (metis Suc_eq_plus1 Suc_leI Suc_leD le_refl)
    have "byte_of v x \<noteq> 0" if "s \<le> x" "x < q" for x using q(5) that True by (cases "x = s") auto
    moreover have "scan_str v s e = Inr q" using True 1(2) [of s] q(1) by (subst scan_str.simps) simp
    ultimately show ?thesis using q by auto
  next
    case False
    then have "scan_str v s e = Inr s" using 1(2) [of s] by (subst scan_str.simps) auto
    then show ?thesis using False 1(3) by auto
  qed
qed

section \<open>The memory in the address space\<close>

text \<open>
  The bytes of the memory can be read and written; the rest of its reserved range is mapped without
  any access, and reads as zero should it become accessible.
\<close>

definition rw :: u32 where
  "rw = PROT_READ OR PROT_WRITE"

definition space_ok :: "mem_config \<Rightarrow> vm \<Rightarrow> memory_inst \<Rightarrow> bool" where
  "space_ok cfg v m \<longleftrightarrow>
     (\<forall>i < unat (memory_data_size m). prot_of v (unat (memory_data m) + i) = Some rw) \<and>
     (\<forall>i. unat (memory_data_size m) \<le> i \<and> i < reserved cfg m \<longrightarrow>
        prot_of v (unat (memory_data m) + i) = Some PROT_NONE \<and> byte_of v (unat (memory_data m) + i) = 0)"

definition paged :: "vm_env \<Rightarrow> memory_inst \<Rightarrow> bool" where
  "paged env m \<longleftrightarrow> unat (k_pagesize env) dvd unat (memory_data m) \<and>
     (cur_page_count m < max_page_count m \<longrightarrow> unat (k_pagesize env) dvd unat (num_bytes_per_page m))"

definition contents :: "vm \<Rightarrow> memory_inst \<Rightarrow> u8 list" where
  "contents v m = map (\<lambda>i. byte_of v (unat (memory_data m) + i)) [0..<unat (memory_data_size m)]"

lemma length_mem_contents [simp]: "length (contents v m) = unat (memory_data_size m)"
  by (simp add: contents_def)

lemma nth_contents [simp]:
  "i < unat (memory_data_size m) \<Longrightarrow> contents v m ! i = byte_of v (unat (memory_data m) + i)"
  by (simp add: contents_def)

lemma prot_rw [simp]: "map_prot_of (MMAP_PROT_READ OR MMAP_PROT_WRITE) = rw" "map_prot_of MMAP_PROT_NONE = PROT_NONE"
  by (simp_all add: map_prot_of_def rw_def prot_defs)

lemma may_access:
  "prot_of v x = Some rw \<Longrightarrow> may_read v x \<and> may_write v x"
  "prot_of v x = Some PROT_NONE \<Longrightarrow> \<not> may_read v x \<and> \<not> may_write v x"
  by (simp_all add: may_read_def may_write_def rw_def prot_defs)

text \<open>Strings of the application: accepted exactly when a terminator lies in the memory.\<close>

lemma scan_memory:
  assumes "mem_ok cfg m" and "space_ok cfg v m" and "off < memory_data_size m"
  shows "\<exists>q. scan_str v (unat (memory_data m + off)) (unat (memory_data_end m)) = Inr q \<and>
     (q \<noteq> unat (memory_data_end m) \<longleftrightarrow> 0 \<in> set (drop (unat off) (contents v m)))"
proof -
  let ?d = "unat (memory_data m)" and ?n = "unat (memory_data_size m)"
  note e = mem_end [OF assms(1)] and a = native_of_offset(2) [OF assms(1,3)]
  have lt: "unat off < ?n" using assms(3) by (simp add: word_less_nat_alt)
  have "may_read v x" if "?d + unat off \<le> x" "x < ?d + ?n" for x
    using assms(2) that may_access(1) [of v x] by (auto simp: space_ok_def dest!: spec [of _ "x - ?d"])
  then obtain q where q: "scan_str v (?d + unat off) (?d + ?n) = Inr q" "?d + unat off \<le> q" "q \<le> ?d + ?n"
    "q < ?d + ?n \<longrightarrow> byte_of v q = 0" "\<forall>x. ?d + unat off \<le> x \<and> x < q \<longrightarrow> byte_of v x \<noteq> 0"
    using scan_str_spec [of "?d + unat off" "?d + ?n" v] lt by auto
  have "q \<noteq> ?d + ?n \<longleftrightarrow> 0 \<in> set (drop (unat off) (contents v m))"
  proof
    assume "q \<noteq> ?d + ?n"
    moreover obtain j where j: "q = ?d + unat off + j" using q(2) le_Suc_ex by blast
    ultimately have "unat off + j < ?n" "byte_of v (?d + (unat off + j)) = 0" using q(3,4) by (auto simp: add.assoc)
    then show "0 \<in> set (drop (unat off) (contents v m))"
      by (auto simp: in_set_conv_nth intro!: exI [of _ j])
  next
    assume "0 \<in> set (drop (unat off) (contents v m))"
    then obtain j where "j < ?n - unat off" "byte_of v (?d + (unat off + j)) = 0"
      by (auto simp: in_set_conv_nth)
    then show "q \<noteq> ?d + ?n" using q(5) by (auto simp: add.assoc)
  qed
  then show ?thesis using q(1) by (simp add: a e(1))
qed

lemma validate_app_str_spec:
  assumes "memories inst = m # ms" and "mem_ok cfg m" and "space_ok cfg v m" and "is_bounds_checks_enabled cfg inst"
  shows "wasm_runtime_validate_app_str_addr cfg v off inst =
     Inr (if 0 \<in> set (drop (unat off) (contents v m)) then (True, inst) else (False, out_of_bounds inst))"
proof (cases "off < memory_data_size m")
  case False
  then have "drop (unat off) (contents v m) = []" by (simp add: word_less_nat_alt)
  then show ?thesis using False assms(1,4)
    by (simp add: wasm_runtime_validate_app_str_addr_def wasm_runtime_get_app_addr_range_def)
next
  case True
  have lim: "\<not> off \<ge> MAX_LINEAR_MEMORY_SIZE" "\<not> memory_data_size m > MAX_LINEAR_MEMORY_SIZE"
    using mem_size_bound [OF assms(2)] True by (simp_all add: word_less_nat_alt word_le_nat_alt)
  have fin: "memory_data m + off + (memory_data_size m - off) = memory_data_end m"
    using assms(2) by (simp add: mem_ok_def)
  obtain q where "scan_str v (unat (memory_data m + off)) (unat (memory_data_end m)) = Inr q"
     "q \<noteq> unat (memory_data_end m) \<longleftrightarrow> 0 \<in> set (drop (unat off) (contents v m))"
    using scan_memory [OF assms(2,3) True] by blast
  then show ?thesis using True assms(1,2,4) lim fin
    by (simp add: wasm_runtime_validate_app_str_addr_def wasm_runtime_get_app_addr_range_def
        app_to_native_spec Let_def)
qed

lemma check_and_convert_spec:
  assumes "memories inst = m # ms" and "mem_ok cfg m" and "space_ok cfg v m" and "is_bounds_checks_enabled cfg inst"
    and "\<not> hw_bound_check cfg"
  shows "wasm_check_app_addr_and_convert cfg v is_str off sz inst =
     Inr (if off < memory_data_size m \<and>
             (if is_str then 0 \<in> set (drop (unat off) (contents v m)) else unat off + unat sz \<le> unat (memory_data_size m))
          then (True, inst, Some (memory_data m + off)) else (False, out_of_bounds inst, None))"
proof (cases "off < memory_data_size m")
  case False
  then show ?thesis using assms by (simp add: wasm_check_app_addr_and_convert_def Let_def not_less)
next
  case True
  obtain q where "scan_str v (unat (memory_data m + off)) (unat (memory_data_end m)) = Inr q"
     "q \<noteq> unat (memory_data_end m) \<longleftrightarrow> 0 \<in> set (drop (unat off) (contents v m))"
    using scan_memory [OF assms(2,3) True] by blast
  moreover have "unat (memory_data_size m - off) = unat (memory_data_size m) - unat off"
    using True by (intro unat_sub) simp
  moreover have "unat off < unat (memory_data_size m)" using True by (simp add: word_less_nat_alt)
  ultimately show ?thesis using True assms
    by (auto simp: wasm_check_app_addr_and_convert_def Let_def not_less word_less_nat_alt word_le_nat_alt)
qed

section \<open>Growing a memory under hardware checks\<close>

definition may_grow :: "memory_inst \<Rightarrow> u32 \<Rightarrow> bool" where
  "may_grow m inc \<longleftrightarrow> unat (cur_page_count m) + unat inc \<le> unat (max_page_count m)"

lemma grow_wraps: "inc + cur < cur \<longleftrightarrow> \<not> unat cur + unat inc < 2 ^ 32" for inc cur :: u32
proof (cases "unat cur + unat inc < 2 ^ 32")
  case True
  then have "unat (inc + cur) = unat inc + unat cur" by (intro unat_plus_simple) simp
  then show ?thesis using True by (simp add: word_less_nat_alt)
next
  case False
  then have "unat (inc + cur) = unat inc + unat cur - 2 ^ 32" by (simp add: unat_plus_if_size word_size)
  then show ?thesis using False unsigned_less [where ?'a = nat, of inc] by (simp add: word_less_nat_alt)
qed

lemma grow_checks:
  shows "\<not> inc + cur_page_count m < cur_page_count m \<and> \<not> inc + cur_page_count m > max_page_count m \<longleftrightarrow> may_grow m inc"
    and "may_grow m inc \<Longrightarrow> unat (inc + cur_page_count m) = unat (cur_page_count m) + unat inc"
proof -
  have sum: "unat (inc + cur_page_count m) = unat (cur_page_count m) + unat inc"
    if "unat (cur_page_count m) + unat inc < 2 ^ 32"
    using that by (subst unat_plus_simple) simp_all
  have lim: "unat (cur_page_count m) + unat inc < 2 ^ 32" if "may_grow m inc"
    using that unsigned_less [where ?'a = nat, of "max_page_count m"] by (simp add: may_grow_def)
  show "unat (inc + cur_page_count m) = unat (cur_page_count m) + unat inc" if "may_grow m inc"
    by (rule sum [OF lim [OF that]])
  show "\<not> inc + cur_page_count m < cur_page_count m \<and> \<not> inc + cur_page_count m > max_page_count m \<longleftrightarrow> may_grow m inc"
    unfolding grow_wraps using sum lim by (auto simp: may_grow_def word_less_nat_alt)
qed

lemma may_grow_less: "may_grow m inc \<Longrightarrow> inc \<noteq> 0 \<Longrightarrow> cur_page_count m < max_page_count m"
  by (simp add: may_grow_def word_less_nat_alt unat_gt_0 [symmetric])

lemma grow_sizes:
  assumes "mem_ok cfg m" and "may_grow m inc" and "inc \<noteq> 0"
  defines "new \<equiv> ucast (num_bytes_per_page m) * ucast (inc + cur_page_count m) :: u64"
  shows "unat new = unat (memory_data_size m) + unat (num_bytes_per_page m) * unat inc"
    and "unat (new - memory_data_size m) = unat (num_bytes_per_page m) * unat inc"
    and "unat new \<le> 2 ^ 32"
proof -
  let ?n = "unat (num_bytes_per_page m)"
  have "unat new = ?n * (unat (cur_page_count m) + unat inc)"
    using grow_checks(2) [OF assms(2)] by (simp add: new_def unat_page_mult)
  then show new: "unat new = unat (memory_data_size m) + ?n * unat inc"
    using assms(1) may_grow_less [OF assms(2,3)] by (simp add: mem_ok_def distrib_left)
  show "unat (new - memory_data_size m) = ?n * unat inc"
    using new by (subst unat_sub) (simp_all add: word_le_nat_alt)
  have "?n * (unat (cur_page_count m) + unat inc) \<le> ?n * unat (max_page_count m)"
    using assms(2) by (intro mult_le_mono2) (simp add: may_grow_def)
  then show "unat new \<le> 2 ^ 32"
    using assms(1) \<open>unat new = ?n * (unat (cur_page_count m) + unat inc)\<close> unfolding mem_ok_def by linarith
qed

lemma page_mult_exact:
  assumes "kernel_ok env" and "unat (k_pagesize env) dvd unat n" and "unat n \<le> 2 ^ 33"
  shows "page_round (k_pagesize env) n = n"
proof -
  obtain k where k: "k \<le> 16" "k_pagesize env = 2 ^ k" "unat (k_pagesize env) = 2 ^ k" using kernel_page [OF assms(1)] by metis
  have "(2 :: nat) ^ k \<le> 2 ^ 16" using k(1) by (intro power_increasing) simp_all
  then show ?thesis using page_round_exact [of k n] k assms(2,3) by simp
qed

text \<open>The checks of the growth function, and its two outcomes.\<close>

lemma enlarge_hw_cases:
  assumes "hw_bound_check cfg" and "mem_ok cfg m"
    and "wasm_enlarge_memory_internal cfg env heap report m inc v = Some (r, m', v', e)"
  obtains (unchanged) "inc = 0" "r" "m' = m" "v' = v" "e = None"
  | (refused) "inc \<noteq> 0" "\<not> r" "m' = m" "same_space v' v"
      "e = (if report then Some (inc, memory_data_size m,
              if unat (cur_page_count m) + unat inc < 2 ^ 32 \<and> \<not> may_grow m inc then MAX_SIZE_REACHED else INTERNAL_ERROR)
            else None)"
  | (grown) "inc \<noteq> 0" "r" "may_grow m inc" "e = None"
      "m' = enlarge_done (inc + cur_page_count m) (ucast (num_bytes_per_page m) * ucast (inc + cur_page_count m)) m"
      "os_mprotect env (memory_data_end m) (ucast (num_bytes_per_page m) * ucast (inc + cur_page_count m) - memory_data_size m)
         (MMAP_PROT_READ OR MMAP_PROT_WRITE) v = (0, v')"
proof -
  have nz: "memory_data_end m \<noteq> 0"
    using mem_end(1) [OF assms(2)] assms(2) by (metis add_is_0 mem_ok_def unat_0 unat_eq_0)
  note chk = grow_checks [where m = m and inc = inc]
  note run = assms(3) [unfolded wasm_enlarge_memory_internal_def Let_def enlarge_failed_def]
  show ?thesis
  proof (cases "inc \<noteq> 0 \<and> may_grow m inc")
    case False
    show ?thesis
    proof (cases "inc = 0")
      case True
      then show ?thesis using run by (intro unchanged) auto
    next
      case inc: False
      then show ?thesis using False run refused chk(1) by (auto simp: grow_wraps split: if_splits)
    qed
  next
    case True
    let ?n = "ucast (num_bytes_per_page m) * ucast (inc + cur_page_count m) - memory_data_size m"
    obtain s w where s: "os_mprotect env (memory_data_end m) ?n (MMAP_PROT_READ OR MMAP_PROT_WRITE) v = (s, w)"
      by (cases "os_mprotect env (memory_data_end m) ?n (MMAP_PROT_READ OR MMAP_PROT_WRITE) v")
    have "\<not> inc + cur_page_count m < cur_page_count m" "\<not> inc + cur_page_count m > max_page_count m"
      using True chk(1) by blast+
    then have out: "(r, m', v', e) =
      (if s \<noteq> 0 then (False, m, w, if report then Some (inc, memory_data_size m, INTERNAL_ERROR) else None)
       else (True, enlarge_done (inc + cur_page_count m) (ucast (num_bytes_per_page m) * ucast (inc + cur_page_count m)) m, w, None))"
      using run True assms(1) s by (cases "s = 0") auto
    show ?thesis
    proof (cases "s = 0")
      case s0: True
      then show ?thesis using out True s grown by simp
    next
      case False
      then show ?thesis using out True os_mprotect_sel(4) [OF s nz] refused by simp
    qed
  qed
qed

lemma enlarge_done_ok:
  assumes "hw_bound_check cfg" and "mem_ok cfg m" and "may_grow m inc" and "inc \<noteq> 0"
  defines "m' \<equiv> enlarge_done (inc + cur_page_count m) (ucast (num_bytes_per_page m) * ucast (inc + cur_page_count m)) m"
  shows "mem_ok cfg m'" and "reserved cfg m' = reserved cfg m"
    and "unat (memory_data_size m') = unat (memory_data_size m) + unat (num_bytes_per_page m) * unat inc"
    and "memory_data m' = memory_data m"
proof -
  note tot = grow_checks(2) [OF assms(3)] and sz = grow_sizes [OF assms(2,3,4)] and lt = may_grow_less [OF assms(3,4)]
  have "unat (inc + cur_page_count m) \<le> unat (max_page_count m)" using tot assms(3) by (simp add: may_grow_def)
  then show "mem_ok cfg m'"
    using assms(1,2) tot sz lt by (simp add: mem_ok_def m'_def enlarge_done_def reserved_def word_le_nat_alt distrib_left)
  show "reserved cfg m' = reserved cfg m" using assms(1) by (simp add: reserved_def)
  show "unat (memory_data_size m') = unat (memory_data_size m) + unat (num_bytes_per_page m) * unat inc"
    "memory_data m' = memory_data m"
    using sz by (simp_all add: m'_def enlarge_done_def)
qed

lemma contents_append:
  assumes "memory_data m' = memory_data m" and "byte_of v' = byte_of v"
    and "unat (memory_data_size m') = unat (memory_data_size m) + k"
    and "\<And>i. unat (memory_data_size m) \<le> i \<Longrightarrow> i < unat (memory_data_size m) + k \<Longrightarrow> byte_of v (unat (memory_data m) + i) = 0"
  shows "contents v' m' = contents v m @ replicate k 0"
  using assms by (intro nth_equalityI) (auto simp: nth_append)

lemma enlarge_hw_keeps:
  assumes "kernel_ok env" and "hw_bound_check cfg" and "mem_ok cfg m" and "space_ok cfg v m" and "paged env m"
    and "wasm_enlarge_memory_internal cfg env heap report m inc v = Some (r, m', v', e)"
  shows "mem_ok cfg m' \<and> space_ok cfg v' m' \<and> paged env m' \<and>
     contents v' m' = contents v m @ replicate (if r then unat inc * unat (num_bytes_per_page m) else 0) 0 \<and>
     (r \<longrightarrow> may_grow m inc \<and> unat (cur_page_count m') = unat (cur_page_count m) + unat inc) \<and>
     (\<not> r \<longrightarrow> m' = m) \<and>
     memory_data m' = memory_data m \<and> num_bytes_per_page m' = num_bytes_per_page m \<and> max_page_count m' = max_page_count m \<and>
     byte_of v' = byte_of v \<and>
     (\<forall>x. x < unat (memory_data m) \<or> unat (memory_data m) + 2 ^ 33 \<le> x \<longrightarrow> prot_of v' x = prot_of v x)"
  using assms(2,3,6)
proof (cases rule: enlarge_hw_cases)
  case unchanged
  moreover have "may_grow m 0" using assms(3) by (simp add: may_grow_def mem_ok_def word_le_nat_alt)
  ultimately show ?thesis using assms by simp
next
  case refused
  then show ?thesis using assms(3-5) by (simp add: space_ok_def contents_def same_space_def)
next
  case grown
  let ?d = "unat (memory_data m)" and ?n = "unat (memory_data_size m)"
    and ?k = "unat (num_bytes_per_page m) * unat inc"
  note g = enlarge_done_ok [OF assms(2,3) grown(3,1), folded grown(5)]
  note sz = grow_sizes [OF assms(3) grown(3,1)] and lt = may_grow_less [OF grown(3,1)] and e = mem_end [OF assms(3)]
  have nz: "memory_data_end m \<noteq> 0"
    using e(1) assms(3) by (metis add_is_0 mem_ok_def unat_0 unat_eq_0)
  have "unat (k_pagesize env) dvd ?k" using assms(5) lt by (simp add: paged_def)
  then have exact: "page_round (k_pagesize env) (ucast (num_bytes_per_page m) * ucast (inc + cur_page_count m) - memory_data_size m)
      = ucast (num_bytes_per_page m) * ucast (inc + cur_page_count m) - memory_data_size m"
    using sz by (intro page_mult_exact [OF assms(1)]) simp_all
  note p = os_mprotect_sel [OF grown(6) nz]
  have prot: "prot_of v' x = (if ?d + ?n \<le> x \<and> x < ?d + ?n + ?k then Some rw else prot_of v x)" for x
    using p(3) by (simp add: exact within_def e(1) sz(2))
  have lim: "?n + ?k \<le> 2 ^ 32" using sz by simp
  have "space_ok cfg v' m'"
    using assms(4) prot p(1) g(2,3,4) by (auto simp: space_ok_def)
  moreover have "contents v' m' = contents v m @ replicate ?k 0"
    using assms(2,4) lim by (intro contents_append [OF g(4) p(1) g(3)]) (auto simp: space_ok_def reserved_def)
  moreover have "prot_of v' x = prot_of v x" if "x < ?d \<or> ?d + 2 ^ 33 \<le> x" for x
    using that lim by (auto simp: prot)
  ultimately show ?thesis
    using g(1,4) grown(2,3) p(1) assms(5) lt grow_checks(2) [OF grown(3)]
    by (auto simp: grown(5) enlarge_done_def paged_def mult.commute)
qed

section \<open>Allocating and releasing under hardware checks\<close>

lemma page_round_le_4gb:
  assumes "kernel_ok env" and "unat n \<le> 2 ^ 32"
  shows "unat n \<le> unat (page_round (k_pagesize env) n)" and "unat (page_round (k_pagesize env) n) \<le> 2 ^ 32"
    and "page_round (k_pagesize env) (page_round (k_pagesize env) n) = page_round (k_pagesize env) n"
proof -
  obtain k where k: "k \<le> 16" "k_pagesize env = 2 ^ k" "unat (k_pagesize env) = 2 ^ k" using kernel_page [OF assms(1)] by metis
  have p: "(2 :: nat) ^ k \<le> 2 ^ 16" using k(1) by (intro power_increasing) simp_all
  have ok: "unat n + (2 ^ k - 1) < 2 ^ 64" using assms(2) p by simp
  show "unat n \<le> unat (page_round (k_pagesize env) n)" using page_round_bounds(1) [OF _ ok] k by simp
  have "(unat n + (2 ^ k - 1)) div 2 ^ k \<le> (2 ^ 32 + (2 ^ k - 1)) div 2 ^ k"
    using assms(2) by (intro div_le_mono) simp
  also have "\<dots> = (2 ^ k - 1 + 2 ^ k * 2 ^ (32 - k)) div 2 ^ k"
    using k(1) by (simp add: power_add [symmetric] del: power_add)
  also have "\<dots> = 2 ^ (32 - k)" by (subst div_mult_self2) simp_all
  finally have "2 ^ k * ((unat n + (2 ^ k - 1)) div 2 ^ k) \<le> 2 ^ k * (2 :: nat) ^ (32 - k)" by (rule mult_le_mono2)
  then show le: "unat (page_round (k_pagesize env) n) \<le> 2 ^ 32"
    using unat_page_round [OF _ ok] k by (simp add: power_add [symmetric] del: power_add)
  show "page_round (k_pagesize env) (page_round (k_pagesize env) n) = page_round (k_pagesize env) n"
    using page_round_bounds(3) [OF _ ok] k le by (intro page_mult_exact [OF assms(1)]) simp_all
qed

lemma whole_8gb:
  assumes "kernel_ok env"
  shows "unat (k_pagesize env) dvd 2 ^ 33" and "page_round (k_pagesize env) (8 * BH_GB) = 8 * BH_GB"
proof -
  obtain k where k: "k \<le> 16" "unat (k_pagesize env) = 2 ^ k" using kernel_page [OF assms] by metis
  have "(2 :: nat) ^ k dvd 2 ^ 33" using k(1) by (intro le_imp_power_dvd) simp
  then show ps: "unat (k_pagesize env) dvd 2 ^ 33" by (simp add: k(2))
  then show "page_round (k_pagesize env) (8 * BH_GB) = 8 * BH_GB"
    by (intro page_mult_exact [OF assms]) simp_all
qed

lemma allocate_hw:
  assumes "kernel_ok env" and "hw_bound_check cfg" and "unat (pages * page_bytes) \<le> 2 ^ 32"
    and "wasm_allocate_linear_memory cfg env d0 page_bytes pages v = Some (r, data, sz, v')"
  shows "sz = page_round (k_pagesize env) (pages * page_bytes)" and "r = 0 \<or> r = - 1"
    and "r = - 1 \<Longrightarrow> unmap_ok env \<Longrightarrow> prot_of v' = prot_of v"
    and "r = 0 \<Longrightarrow> data \<noteq> 0 \<and> unat (k_pagesize env) dvd unat data \<and> unat data + 2 ^ 33 < 2 ^ 64 \<and>
           (\<forall>i < 2 ^ 33. prot_of v (unat data + i) = None \<and> byte_of v' (unat data + i) = 0 \<and>
              prot_of v' (unat data + i) = Some (if i < unat sz then rw else PROT_NONE)) \<and>
           (\<forall>x. prot_of v x \<noteq> None \<longrightarrow> prot_of v' x = prot_of v x \<and> byte_of v' x = byte_of v x) \<and>
           (unmap_ok env \<longrightarrow> (\<forall>x. x < unat data \<or> unat data + 2 ^ 33 \<le> x \<longrightarrow> prot_of v' x = prot_of v x))"
proof -
  have nz: "(8 * BH_GB) \<noteq> 0" "0 < 8 * BH_GB" by (simp_all add: BH_GB_def)
  note ps = whole_8gb(1) [OF assms(1)] and whole = whole_8gb(2) [OF assms(1)]
  let ?sz = "page_round (k_pagesize env) (pages * page_bytes)"
  have al: "align_as_and_cast n (k_pagesize env) = page_round (k_pagesize env) n" for n
    by (simp add: align_as_and_cast_def page_round_def)
  have sz: "unat ?sz \<le> 2 ^ 32" using page_round_le_4gb [OF assms(1,3)] by simp
  have szr: "page_round (k_pagesize env) ?sz = ?sz" using page_round_le_4gb(3) [OF assms(1,3)] .
  obtain a w where a: "os_mmap env 0 (8 * BH_GB) MMAP_PROT_NONE MMAP_MAP_NONE v = Some (a, w)"
    using assms(2,4) nz by (auto simp: wasm_allocate_linear_memory_def wasm_mmap_linear_memory_def
        wasm_mremap_linear_memory_def Let_def split: option.splits)
  note res = os_mmap_result [OF assms(1) nz(1) a, unfolded whole]
  obtain s w' where s: "os_mprotect env a ?sz (MMAP_PROT_READ OR MMAP_PROT_WRITE) w = (s, w')" by fastforce
  have out: "(r, data, sz, v') = (if a = 0 then (- 1, 0, ?sz, w)
     else if s \<noteq> 0 then (- 1, 0, ?sz, os_munmap env a (8 * BH_GB) w') else (0, a, ?sz, w'))"
    using assms(2,4) nz a s by (auto simp: wasm_allocate_linear_memory_def wasm_mmap_linear_memory_def
        wasm_mremap_linear_memory_def wasm_munmap_linear_memory_def al Let_def)
  show "sz = ?sz" "r = 0 \<or> r = - 1" using out by (auto split: if_splits)
  show "prot_of v' = prot_of v" if r: "r = - 1" and un: "unmap_ok env"
  proof (cases "a = 0")
    case True
    then show ?thesis using out res(1) by (simp add: same_space_def)
  next
    case False
    then have "s \<noteq> 0" "v' = os_munmap env a (8 * BH_GB) w'" using out r by (auto split: if_splits)
    then have "same_space w' w" "prot_of v' = (\<lambda>x. if within a (8 * BH_GB) x then None else prot_of w' x)"
      using os_mprotect_sel(4) [OF s False] un ps res(2) [OF False] False whole
      by (simp_all add: os_munmap_def munmap_sel unmap_ok_def Let_def)
    then show ?thesis using res(2) [OF False] un
      by (auto simp: same_space_def fresh_mapping_def no_leak_def fun_eq_iff)
  qed
  assume "r = 0"
  then have a0: "a \<noteq> 0" "s = 0" "data = a" "sz = ?sz" "v' = w'" using out by (auto split: if_splits)
  note f = res(2) [OF a0(1)] and p = os_mprotect_sel [OF s a0(1), unfolded szr]
  have prot: "prot_of w' x = (if unat a \<le> x \<and> x < unat a + unat ?sz then Some rw else prot_of w x)" for x
    using p(3) a0 by (simp add: within_def)
  have range: "within a (8 * BH_GB) (unat a + i)" if "i < 2 ^ 33" for i using that by (simp add: within_def)
  have "prot_of v (unat data + i) = None \<and> byte_of v' (unat data + i) = 0 \<and>
     prot_of v' (unat data + i) = Some (if i < unat sz then rw else PROT_NONE)" if "i < 2 ^ 33" for i
    using f range [OF that] p(1) a0 by (auto simp: fresh_mapping_def prot)
  moreover have "prot_of v' x = prot_of v x \<and> byte_of v' x = byte_of v x" if "prot_of v x \<noteq> None" for x
  proof -
    have "\<not> within a (8 * BH_GB) x" using f that by (auto simp: fresh_mapping_def)
    then have "\<not> (unat a \<le> x \<and> x < unat a + unat ?sz)" using sz by (auto simp: within_def)
    then have "prot_of w' x = prot_of w x" by (simp only: prot if_False)
    then show ?thesis using f that p(1) a0 by (simp add: fresh_mapping_def)
  qed
  moreover have "prot_of v' x = prot_of v x" if "unmap_ok env" "x < unat data \<or> unat data + 2 ^ 33 \<le> x" for x
    using f that a0 sz by (auto simp: prot no_leak_def within_def)
  moreover have "unat data + 2 ^ 33 < 2 ^ 64" using f a0 by (simp add: fresh_mapping_def)
  ultimately show "data \<noteq> 0 \<and> unat (k_pagesize env) dvd unat data \<and> unat data + 2 ^ 33 < 2 ^ 64 \<and>
           (\<forall>i < 2 ^ 33. prot_of v (unat data + i) = None \<and> byte_of v' (unat data + i) = 0 \<and>
              prot_of v' (unat data + i) = Some (if i < unat sz then rw else PROT_NONE)) \<and>
           (\<forall>x. prot_of v x \<noteq> None \<longrightarrow> prot_of v' x = prot_of v x \<and> byte_of v' x = byte_of v x) \<and>
           (unmap_ok env \<longrightarrow> (\<forall>x. x < unat data \<or> unat data + 2 ^ 33 \<le> x \<longrightarrow> prot_of v' x = prot_of v x))"
    using f a0 by blast
qed

lemma deallocate_hw:
  assumes "kernel_ok env" and "unmap_ok env" and "hw_bound_check cfg" and "mem_ok cfg m" and "paged env m"
    and "wasm_deallocate_linear_memory cfg env m v = (m', v')"
  shows "m' = m\<lparr>memory_data := 0\<rparr>" and "byte_of v' = byte_of v"
    and "prot_of v' = (\<lambda>x. if unat (memory_data m) \<le> x \<and> x < unat (memory_data m) + 2 ^ 33 then None else prot_of v x)"
proof -
  note ps = whole_8gb(1) [OF assms(1)] and whole = whole_8gb(2) [OF assms(1)]
  have v': "v' = munmap env (memory_data m) (8 * BH_GB) v" and "m' = m\<lparr>memory_data := 0\<rparr>"
    using assms(3,4,6) whole
    by (auto simp: wasm_deallocate_linear_memory_def wasm_munmap_linear_memory_def os_munmap_def mem_ok_def Let_def)
  then show "m' = m\<lparr>memory_data := 0\<rparr>" "byte_of v' = byte_of v" by (simp_all add: munmap_sel)
  show "prot_of v' = (\<lambda>x. if unat (memory_data m) \<le> x \<and> x < unat (memory_data m) + 2 ^ 33 then None else prot_of v x)"
    using assms(2,5) ps by (simp add: v' munmap_sel within_def unmap_ok_def paged_def)
qed

end
