(* ===== verification/Wasm_Instance.thy ===== *)
theory Wasm_Instance
  imports Wasm_Memory
begin

text \<open>
  Instantiation of a linear memory, \<open>memory_instantiate\<close> of
  \<open>wamr/core/iwasm/interpreter/wasm_runtime.c\<close>: the application heap is placed into the memory, the
  memory is allocated, and the heap is created in it. The allocator of the runtime is a parameter.
  The switches are those of \<open>Wasm_Memory\<close>; the record handed in is zeroed, as the caller's is.
\<close>

section \<open>Placing the application heap\<close>

record wasm_module =
  malloc_function :: u32
  free_function :: u32
  aux_heap_base_global_index :: u32
  aux_heap_base :: u64

record heap_layout =
  page_bytes :: u32
  init_pages :: u32
  max_pages :: u32
  heap_bytes :: u32
  heap_offset :: u64
  heap_base_global :: "u32 option"   \<comment> \<open>the new value of the global \<open>__heap_base\<close>\<close>

definition no_global :: u32 where
  "no_global = 0xFFFFFFFF"

definition BH_KB :: u32 where
  "BH_KB = 1024"

definition DEFAULT_MAX_PAGES :: u32 where
  "DEFAULT_MAX_PAGES = 65536"

definition heap_error :: string where
  "heap_error = ''failed to insert app heap into linear memory, try using `--heap-size=0` option''"

text \<open>\<open>bytes_of_last_page\<close>: how far an offset reaches into its last page.\<close>

definition bytes_of_last_page :: "u64 \<Rightarrow> u32 \<Rightarrow> u32" where
  "bytes_of_last_page base npp = (let b = (ucast (base mod ucast npp) :: u32) in if b = 0 then npp else b)"

text \<open>The three ways to insert a heap: the pages added, and the layout before they are added.\<close>

definition insert_before_heap_base :: "wasm_module \<Rightarrow> heap_layout \<Rightarrow> u32 \<times> heap_layout" where
  "insert_before_heap_base md l =
     (let bytes_to_page_end = page_bytes l - bytes_of_last_page (aux_heap_base md) (page_bytes l);
          inc_page_count = (heap_bytes l - bytes_to_page_end + page_bytes l - 1) div page_bytes l;
          base = aux_heap_base md + ucast (heap_bytes l);
          bytes_to_page_end = page_bytes l - bytes_of_last_page base (page_bytes l);
          (base, inc_page_count) = (if bytes_to_page_end < BH_KB then (base + ucast BH_KB, inc_page_count + 1)
                                    else (base, inc_page_count))
      in (inc_page_count, l\<lparr>heap_offset := aux_heap_base md, heap_base_global := Some (ucast base)\<rparr>))"

definition insert_before_new_page :: "heap_layout \<Rightarrow> u32 \<times> heap_layout" where
  "insert_before_new_page l =
     (let inc_page_count = (heap_bytes l + page_bytes l - 1) div page_bytes l;
          sz = (ucast (ucast (page_bytes l) * ucast inc_page_count :: u64) :: u32)
      in (inc_page_count, l\<lparr>heap_offset := ucast (page_bytes l) * ucast (init_pages l),
                            heap_bytes := (if sz > 0 then sz - BH_KB else sz)\<rparr>))"

definition place_app_heap :: "wasm_module \<Rightarrow> u32 \<Rightarrow> u32 \<Rightarrow> u32 \<Rightarrow> u32 \<Rightarrow> string + heap_layout" where
  "place_app_heap md npp init mx heap_size =
     (let heap_size = (if heap_size > 0 \<and> malloc_function md \<noteq> no_global \<and> free_function md \<noteq> no_global
                       then 0 else heap_size);
          l = \<lparr>page_bytes = npp, init_pages = init, max_pages = mx, heap_bytes = heap_size,
               heap_offset = ucast npp * ucast init, heap_base_global = None\<rparr>
      in if heap_size > 0 \<and> heap_offset l = MAX_LINEAR_MEMORY_SIZE then Inl heap_error
         else if init = mx \<and> init = 1 then
           (if npp + heap_size < heap_size then Inl heap_error
            else Inr (l\<lparr>heap_offset := ucast npp, page_bytes := npp + heap_size\<rparr>))
         else if heap_size > 0 then
           (let (inc_page_count, l) =
                 (if init = mx \<and> init = 0 then (1, l\<lparr>page_bytes := heap_size, heap_offset := 0\<rparr>)
                  else if aux_heap_base_global_index md \<noteq> no_global
                          \<and> aux_heap_base md < ucast npp * ucast init then insert_before_heap_base md l
                  else insert_before_new_page l);
                init = init_pages l + inc_page_count;
                mx = max_pages l + inc_page_count
            in if init > DEFAULT_MAX_PAGES then Inl heap_error
               else Inr (l\<lparr>init_pages := init, max_pages := (if mx > DEFAULT_MAX_PAGES then DEFAULT_MAX_PAGES else mx)\<rparr>))
         else Inr l)"

section \<open>Instantiation\<close>

text \<open>
  The allocator: the address of a new heap structure (0 when there is none), and the creation of the
  heap in its pool.
\<close>

record heap_alloc =
  heap_struct :: "vm \<Rightarrow> u64"
  heap_create :: "vm \<Rightarrow> u64 \<Rightarrow> u64 \<Rightarrow> u32 \<Rightarrow> bool \<times> vm"

definition zero_memory :: memory_inst where
  "zero_memory = \<lparr>num_bytes_per_page = 0, cur_page_count = 0, max_page_count = 0, memory_data_size = 0,
     memory_data = 0, memory_data_end = 0, heap_data = 0, heap_data_end = 0, heap_handle = 0\<rparr>"

definition release_memory :: "mem_config \<Rightarrow> vm_env \<Rightarrow> memory_inst \<Rightarrow> vm \<Rightarrow> vm" where
  "release_memory cfg env m v = (if memory_data m \<noteq> 0 then snd (wasm_deallocate_linear_memory cfg env m v) else v)"

definition memory_instantiate ::
  "mem_config \<Rightarrow> vm_env \<Rightarrow> heap_alloc \<Rightarrow> wasm_module \<Rightarrow> u32 \<Rightarrow> u32 \<Rightarrow> u32 \<Rightarrow> u32 \<Rightarrow> u32 \<Rightarrow> vm
     \<Rightarrow> ((string + (memory_inst \<times> u32 option)) \<times> vm) option" where
  "memory_instantiate cfg env alloc md memory_idx npp init mx heap_size v =
     (case (if memory_idx = 0 then place_app_heap md npp init mx heap_size
            else Inr \<lparr>page_bytes = npp, init_pages = init, max_pages = mx, heap_bytes = heap_size,
                      heap_offset = ucast npp * ucast init, heap_base_global = None\<rparr>) of
        Inl err \<Rightarrow> Some (Inl err, v)
      | Inr l \<Rightarrow>
        (case wasm_allocate_linear_memory cfg env 0 (ucast (page_bytes l)) (ucast (init_pages l)) v of
           None \<Rightarrow> None
         | Some (r, data, data_size, v) \<Rightarrow>
             if r \<noteq> 0 then Some (Inl ''allocate linear memory failed'', v)
             else
               let m = zero_memory\<lparr>memory_data := data, num_bytes_per_page := page_bytes l,
                         cur_page_count := init_pages l, max_page_count := max_pages l, memory_data_size := data_size\<rparr>;
                   m = (if memory_idx = 0
                        then m\<lparr>heap_data := data + heap_offset l,
                               heap_data_end := data + heap_offset l + ucast (heap_bytes l),
                               memory_data_end := data + data_size\<rparr>
                        else m)
               in if memory_idx = 0 \<and> heap_bytes l > 0 then
                    (let handle = heap_struct alloc v;
                         m = m\<lparr>heap_handle := handle\<rparr>
                     in if handle = 0 then Some (Inl ''allocate memory failed'', release_memory cfg env m v)
                        else (case heap_create alloc v handle (heap_data m) (heap_bytes l) of
                                (False, v) \<Rightarrow> Some (Inl ''init app heap failed'', release_memory cfg env m v)
                              | (True, v) \<Rightarrow> Some (Inr (m, heap_base_global l), v)))
                  else Some (Inr (m, heap_base_global l), v)))"

section \<open>The heap lies in the memory\<close>

text \<open>
  The limits the loader and the embedder keep: 64 KB pages, at most 65536 of them, or one page of any
  size (a memory the loader has shrunk); a heap of at most 1 GB.
\<close>

definition memory_input :: "u32 \<Rightarrow> u32 \<Rightarrow> u32 \<Rightarrow> u32 \<Rightarrow> bool" where
  "memory_input npp init mx heap_size \<longleftrightarrow>
     (npp = 65536 \<and> init \<le> mx \<and> mx \<le> 65536 \<or> init = 1 \<and> mx = 1) \<and> unat heap_size \<le> 2 ^ 30"

definition layout_ok :: "heap_layout \<Rightarrow> bool" where
  "layout_ok l \<longleftrightarrow>
     init_pages l \<le> max_pages l \<and> unat (page_bytes l) * unat (max_pages l) \<le> 2 ^ 32 \<and>
     (init_pages l < max_pages l \<longrightarrow> page_bytes l = 65536) \<and>
     unat (heap_offset l) + unat (heap_bytes l) \<le> unat (page_bytes l) * unat (init_pages l)"

lemma last_page:
  "unat (bytes_of_last_page base 65536) = (if unat base mod 65536 = 0 then 65536 else unat base mod 65536)"
proof -
  have "unat (base mod 65536) = unat base mod 65536" by (simp add: unat_mod)
  moreover have "unat base mod 65536 < 2 ^ 32" by (rule less_trans [of _ 65536]) simp_all
  ultimately have "unat (ucast (base mod 65536) :: u32) = unat base mod 65536"
    by (simp add: unsigned_ucast_eq take_bit_nat_eq_self)
  then show ?thesis by (auto simp: bytes_of_last_page_def Let_def unat_eq_0 [symmetric])
qed

lemma pages_for:
  fixes hs te :: u32
  assumes "unat hs \<le> 2 ^ 30" and "unat te \<le> 65535"
  shows "unat ((hs - te + 65536 - 1) div 65536) = (unat hs + 65535 - unat te) div 65536"
proof -
  have eq: "hs - te + 65536 - 1 = hs + (65535 - te)" by simp
  have "unat (65535 - te) = 65535 - unat te" using assms(2) by (subst unat_sub) (simp_all add: word_le_nat_alt)
  then have "unat (hs + (65535 - te)) = unat hs + (65535 - unat te)"
    using assms by (subst unat_plus_simple) simp_all
  then show ?thesis unfolding eq unat_div using assms(2) by simp
qed

text \<open>A heap of \<open>H\<close> bytes that starts at \<open>A\<close>, where \<open>T\<close> bytes are left in the page.\<close>

lemma heap_fits_pages:
  fixes A H T init :: nat
  assumes "A < 65536 * init" and "T = 65536 - (if A mod 65536 = 0 then 65536 else A mod 65536)"
  shows "A + H \<le> 65536 * (init + (H + 65535 - T) div 65536)"
proof -
  define p where "p = A div 65536"
  define r where "r = A mod 65536"
  define q where "q = (H + 65535 - T) div 65536"
  define s where "s = (H + 65535 - T) mod 65536"
  have A: "A = 65536 * p + r" "r < 65536" by (simp_all add: p_def r_def)
  have q: "H + 65535 - T = 65536 * q + s" "s < 65536" by (simp_all add: q_def s_def)
  have p: "p + 1 \<le> init" using assms(1) A by linarith
  have T: "T = (if r = 0 then 0 else 65536 - r)" using assms(2) by (simp add: r_def)
  have "H + 65535 \<le> T + 65536 * q + s" using q(1) by linarith
  then have "A + H \<le> 65536 * (init + q)"
    using p A q(2) T by (cases "r = 0") simp_all
  then show ?thesis by (simp add: q_def)
qed

lemma insert_before_heap_base_fits:
  assumes "insert_before_heap_base md l = (inc, l')" and "page_bytes l = 65536" and "unat (heap_bytes l) \<le> 2 ^ 30"
    and "unat (aux_heap_base md) < 65536 * unat (init_pages l)"
  shows "unat inc \<le> 2 ^ 15" and "unat (heap_offset l') + unat (heap_bytes l') \<le> 65536 * (unat (init_pages l) + unat inc)"
    and "init_pages l' = init_pages l \<and> max_pages l' = max_pages l \<and> page_bytes l' = page_bytes l"
proof -
  let ?A = "unat (aux_heap_base md)" and ?H = "unat (heap_bytes l)"
  define te where "te = 65536 - bytes_of_last_page (aux_heap_base md) 65536"
  have b: "unat (bytes_of_last_page (aux_heap_base md) 65536) \<le> 65536" "0 < unat (bytes_of_last_page (aux_heap_base md) 65536)"
    using mod_less_divisor [of 65536 ?A] by (auto simp: last_page simp del: mod_less_divisor)
  then have te: "unat te = 65536 - (if ?A mod 65536 = 0 then 65536 else ?A mod 65536)"
    unfolding te_def by (subst unat_sub) (simp_all add: word_le_nat_alt last_page)
  define inc0 where "inc0 = (heap_bytes l - te + 65536 - 1) div 65536"
  have inc0: "unat inc0 = (?H + 65535 - unat te) div 65536"
    unfolding inc0_def using assms(3) te by (intro pages_for) auto
  have "(?H + 65535 - unat te) div 65536 \<le> (2 ^ 30 + 65535) div 65536" using assms(3) by (intro div_le_mono) simp
  then have inc0_le: "unat inc0 \<le> 2 ^ 14" by (simp add: inc0)
  then have inc1: "unat (inc0 + 1) = unat inc0 + 1" by (subst unat_plus_simple) simp_all
  have out: "inc = inc0 \<or> inc = inc0 + 1" "heap_offset l' = aux_heap_base md" "heap_bytes l' = heap_bytes l"
    "init_pages l' = init_pages l \<and> max_pages l' = max_pages l \<and> page_bytes l' = page_bytes l"
    using assms(1,2) by (auto simp: insert_before_heap_base_def Let_def te_def inc0_def split: if_splits)
  show "unat inc \<le> 2 ^ 15" using out(1) inc1 inc0_le by auto
  have "?A + ?H \<le> 65536 * (unat (init_pages l) + unat inc0)"
    unfolding inc0 by (rule heap_fits_pages [OF assms(4) te])
  also have "\<dots> \<le> 65536 * (unat (init_pages l) + unat inc)" using out(1) inc1 by auto
  finally show "unat (heap_offset l') + unat (heap_bytes l') \<le> 65536 * (unat (init_pages l) + unat inc)"
    using out by simp
  show "init_pages l' = init_pages l \<and> max_pages l' = max_pages l \<and> page_bytes l' = page_bytes l" by (rule out(4))
qed

lemma insert_before_new_page_fits:
  assumes "insert_before_new_page l = (inc, l')" and "page_bytes l = 65536" and "unat (heap_bytes l) \<le> 2 ^ 30"
    and "heap_bytes l > 0"
  shows "unat inc \<le> 2 ^ 15" and "unat (heap_offset l') + unat (heap_bytes l') \<le> 65536 * (unat (init_pages l) + unat inc)"
    and "init_pages l' = init_pages l \<and> max_pages l' = max_pages l \<and> page_bytes l' = page_bytes l"
proof -
  have inc: "inc = (heap_bytes l + 65536 - 1) div 65536"
    and off: "heap_offset l' = 65536 * ucast (init_pages l)"
    and l': "init_pages l' = init_pages l \<and> max_pages l' = max_pages l \<and> page_bytes l' = page_bytes l"
    and hb: "heap_bytes l' = (let sz = (ucast (65536 * ucast inc :: u64) :: u32) in if sz > 0 then sz - BH_KB else sz)"
    using assms(1,2) by (auto simp: insert_before_new_page_def Let_def)
  have u: "unat inc = (unat (heap_bytes l) + 65535) div 65536"
    using pages_for [OF assms(3), of 0] by (simp add: inc)
  have "(unat (heap_bytes l) + 65535) div 65536 \<le> (2 ^ 30 + 65535) div 65536" using assms(3) by (intro div_le_mono) simp
  then have le: "unat inc \<le> 2 ^ 14" by (simp add: u)
  then show "unat inc \<le> 2 ^ 15" by simp
  have "unat (65536 * ucast inc :: u64) = 65536 * unat inc" using unat_page_mult [of 65536 inc] by simp
  then have sz: "unat (ucast (65536 * ucast inc :: u64) :: u32) = 65536 * unat inc"
    using le by (simp add: unsigned_ucast_eq take_bit_nat_eq_self)
  have "unat (heap_bytes l') \<le> 65536 * unat inc"
    using sz by (auto simp: hb Let_def BH_KB_def word_less_nat_alt unat_sub word_le_nat_alt)
  moreover have "unat (heap_offset l') = 65536 * unat (init_pages l)"
    using unat_page_mult [of 65536 "init_pages l"] by (simp add: off)
  ultimately show "unat (heap_offset l') + unat (heap_bytes l') \<le> 65536 * (unat (init_pages l) + unat inc)" by simp
  show "init_pages l' = init_pages l \<and> max_pages l' = max_pages l \<and> page_bytes l' = page_bytes l" by (rule l')
qed

text \<open>Adding the pages of the heap, once it is placed.\<close>

lemma add_pages_ok:
  assumes "unat inc \<le> 2 ^ 15" and "init_pages l \<le> max_pages l" and "max_pages l \<le> 65536"
    and "page_bytes l = 65536" and "\<not> init_pages l + inc > DEFAULT_MAX_PAGES"
    and "unat (heap_offset l) + unat (heap_bytes l) \<le> 65536 * (unat (init_pages l) + unat inc)"
  defines "mx \<equiv> max_pages l + inc"
  shows "layout_ok (l\<lparr>init_pages := init_pages l + inc,
                     max_pages := (if mx > DEFAULT_MAX_PAGES then DEFAULT_MAX_PAGES else mx)\<rparr>)"
proof -
  have le: "unat (init_pages l) \<le> unat (max_pages l)" "unat (max_pages l) \<le> 65536"
    using assms(2,3) by (simp_all add: word_le_nat_alt)
  have i: "unat (init_pages l + inc) = unat (init_pages l) + unat inc" and m: "unat mx = unat (max_pages l) + unat inc"
    using assms(1) le by (simp_all add: mx_def unat_plus_simple)
  show ?thesis using assms(4-6) i m le
    by (auto simp: layout_ok_def DEFAULT_MAX_PAGES_def word_le_nat_alt word_less_nat_alt)
qed

lemma place_app_heap_ok:
  assumes "memory_input npp init mx heap_size" and "place_app_heap md npp init mx heap_size = Inr l"
  shows "layout_ok l"
proof -
  define hs where "hs = (if heap_size > 0 \<and> malloc_function md \<noteq> no_global \<and> free_function md \<noteq> no_global
                         then 0 else heap_size)"
  define l0 where "l0 = \<lparr>page_bytes = npp, init_pages = init, max_pages = mx, heap_bytes = hs,
               heap_offset = ucast npp * ucast init, heap_base_global = None\<rparr>"
  have hs: "unat hs \<le> 2 ^ 30" using assms(1) by (auto simp: hs_def memory_input_def)
  note run = assms(2) [unfolded place_app_heap_def, folded hs_def, unfolded Let_def, folded l0_def [unfolded hs_def], folded l0_def]
  show ?thesis
  proof (cases "init = mx \<and> init = 1")
    case True
    have "unat (npp + hs) = unat npp + unat hs" if "\<not> npp + hs < hs"
      using that grow_wraps [of npp hs] by (simp add: unat_plus_simple)
    moreover have "unat (npp + hs) < 2 ^ 32" using unsigned_less [where ?'a = nat, of "npp + hs"] by simp
    ultimately show ?thesis using run True by (auto simp: layout_ok_def l0_def split: if_splits)
  next
    case False
    then have in64: "npp = 65536" "init \<le> mx" "mx \<le> 65536" using assms(1) by (auto simp: memory_input_def)
    have pm: "unat (ucast npp * ucast init :: u64) = 65536 * unat init" using unat_page_mult [of npp init] in64(1) by simp
    have l0: "page_bytes l0 = 65536" "init_pages l0 = init" "max_pages l0 = mx" "heap_bytes l0 = hs"
      using in64 by (simp_all add: l0_def)
    consider (no_heap) "hs = 0" | (empty_memory) "hs > 0" "init = 0" "mx = 0"
      | (inserted) "hs > 0" "\<not> (init = mx \<and> init = 0)"
      using word_gt_0 [of hs] by blast
    then show ?thesis
    proof cases
      case no_heap
      then have "l = l0" using run False by simp
      then show ?thesis using no_heap in64 pm by (simp add: layout_ok_def l0_def word_le_nat_alt)
    next
      case empty_memory
      then have "l = l0\<lparr>page_bytes := hs, heap_offset := 0, init_pages := 1, max_pages := 1\<rparr>"
        using run False by (simp add: l0_def DEFAULT_MAX_PAGES_def split: if_splits)
      then show ?thesis using hs by (simp add: layout_ok_def l0_def)
    next
      case inserted
      define ins where "ins = (if aux_heap_base_global_index md \<noteq> no_global \<and> aux_heap_base md < ucast npp * ucast init
                               then insert_before_heap_base md l0 else insert_before_new_page l0)"
      obtain inc l1 where ins: "ins = (inc, l1)" by (cases ins)
      have fits: "unat inc \<le> 2 ^ 15 \<and>
          unat (heap_offset l1) + unat (heap_bytes l1) \<le> 65536 * (unat (init_pages l1) + unat inc) \<and>
          init_pages l1 = init \<and> max_pages l1 = mx \<and> page_bytes l1 = 65536"
      proof (cases "aux_heap_base_global_index md \<noteq> no_global \<and> aux_heap_base md < ucast npp * ucast init")
        case True
        then have "insert_before_heap_base md l0 = (inc, l1)" "unat (aux_heap_base md) < 65536 * unat init"
          using ins pm by (simp_all add: ins_def word_less_nat_alt)
        note f = insert_before_heap_base_fits [OF this(1)]
        show ?thesis using f l0 hs \<open>unat (aux_heap_base md) < 65536 * unat init\<close> by simp
      next
        case False
        then have "insert_before_new_page l0 = (inc, l1)" using ins by (simp only: ins_def if_False)
        note f = insert_before_new_page_fits [OF this]
        show ?thesis using f l0 hs inserted(1) by simp
      qed
      have "\<not> init + inc > DEFAULT_MAX_PAGES" and
        l: "l = l1\<lparr>init_pages := init_pages l1 + inc,
                  max_pages := (if max_pages l1 + inc > DEFAULT_MAX_PAGES then DEFAULT_MAX_PAGES else max_pages l1 + inc)\<rparr>"
        using run False inserted ins fits by (auto simp: ins_def split: if_splits)
      then show ?thesis unfolding l using fits in64 by (intro add_pages_ok) auto
    qed
  qed
qed

section \<open>The new memory\<close>

text \<open>Creating a heap changes no mapping, and no byte that may not be written.\<close>

definition heap_alloc_ok :: "heap_alloc \<Rightarrow> bool" where
  "heap_alloc_ok alloc \<longleftrightarrow>
     (\<forall>v h p n r v'. heap_create alloc v h p n = (r, v') \<longrightarrow>
        prot_of v' = prot_of v \<and> (\<forall>x. \<not> may_write v x \<longrightarrow> byte_of v' x = byte_of v x))"

definition placed_memory :: "heap_layout \<Rightarrow> u64 \<Rightarrow> u64 \<Rightarrow> u64 \<Rightarrow> memory_inst" where
  "placed_memory l data sz handle =
     \<lparr>num_bytes_per_page = page_bytes l, cur_page_count = init_pages l, max_page_count = max_pages l,
      memory_data_size = sz, memory_data = data, memory_data_end = data + sz,
      heap_data = data + heap_offset l, heap_data_end = data + heap_offset l + ucast (heap_bytes l),
      heap_handle = handle\<rparr>"

lemma memory_instantiate_cases:
  assumes "memory_instantiate cfg env alloc md 0 npp init mx heap_size v = Some (r, v')"
  obtains (misplaced) err where "place_app_heap md npp init mx heap_size = Inl err" and "r = Inl err" and "v' = v"
  | (unallocated) l s data sz err where "place_app_heap md npp init mx heap_size = Inr l"
      and "wasm_allocate_linear_memory cfg env 0 (ucast (page_bytes l)) (ucast (init_pages l)) v = Some (s, data, sz, v')"
      and "s \<noteq> 0" and "r = Inl err"
  | (no_heap) l data sz w handle err where "place_app_heap md npp init mx heap_size = Inr l"
      and "wasm_allocate_linear_memory cfg env 0 (ucast (page_bytes l)) (ucast (init_pages l)) v = Some (0, data, sz, w)"
      and "r = Inl err" and "\<exists>u. (u = w \<or> (\<exists>h p n s. heap_create alloc w h p n = (s, u))) \<and>
             v' = release_memory cfg env (placed_memory l data sz handle) u"
  | (created) l data sz w handle where "place_app_heap md npp init mx heap_size = Inr l"
      and "wasm_allocate_linear_memory cfg env 0 (ucast (page_bytes l)) (ucast (init_pages l)) v = Some (0, data, sz, w)"
      and "r = Inr (placed_memory l data sz handle, heap_base_global l)"
      and "v' = w \<or> heap_bytes l > 0 \<and> (\<exists>h p n s. heap_create alloc w h p n = (s, v'))"
proof (cases "place_app_heap md npp init mx heap_size")
  case (Inl err)
  then show ?thesis using assms by (intro misplaced) (auto simp: memory_instantiate_def)
next
  case (Inr l)
  note run = assms [unfolded memory_instantiate_def, simplified Inr, simplified]
  obtain s data sz w where
    al: "wasm_allocate_linear_memory cfg env 0 (ucast (page_bytes l)) (ucast (init_pages l)) v = Some (s, data, sz, w)"
    using run by (auto split: option.splits)
  show ?thesis
  proof (cases "s = 0")
    case False
    then show ?thesis using run al unallocated [OF Inr] by auto
  next
    case True
    note al0 = al [unfolded True]
    let ?m = "placed_memory l data sz (heap_struct alloc w)"
    show ?thesis
    proof (cases "heap_bytes l > 0")
      case False
      have "r = Inr (placed_memory l data sz 0, heap_base_global l)" "v' = w"
        using run al True False by (auto simp: placed_memory_def zero_memory_def Let_def)
      then show ?thesis by (intro created [OF Inr al0]) simp_all
    next
      case hb: True
      obtain ok u where u: "heap_create alloc w (heap_struct alloc w) (data + heap_offset l) (heap_bytes l) = (ok, u)" by fastforce
      have out: "(r, v') = (if heap_struct alloc w = 0 then (Inl ''allocate memory failed'', release_memory cfg env ?m w)
          else if ok then (Inr (?m, heap_base_global l), u) else (Inl ''init app heap failed'', release_memory cfg env ?m u))"
        using run al True hb u by (cases ok) (auto simp: Let_def zero_memory_def placed_memory_def)
      show ?thesis
      proof (cases "heap_struct alloc w \<noteq> 0 \<and> ok")
        case True
        then show ?thesis using out u hb by (intro created [OF Inr al0, of "heap_struct alloc w"]) auto
      next
        case False
        then obtain err where "r = Inl err" using out by (auto split: if_splits)
        moreover have "\<exists>u. (u = w \<or> (\<exists>h p n s. heap_create alloc w h p n = (s, u))) \<and> v' = release_memory cfg env ?m u"
          using out u False
          by (intro exI [of _ "if heap_struct alloc w = 0 then w else u"]) (auto split: if_splits)
        ultimately show ?thesis by (rule no_heap [OF Inr al0])
      qed
    qed
  qed
qed

lemma layout_size: "layout_ok l \<Longrightarrow> unat (ucast (init_pages l) * ucast (page_bytes l) :: u64) \<le> 2 ^ 32"
proof -
  assume l: "layout_ok l"
  then have "unat (init_pages l) * unat (page_bytes l) \<le> unat (max_pages l) * unat (page_bytes l)"
    by (intro mult_le_mono1) (simp add: layout_ok_def word_le_nat_alt)
  also have "\<dots> \<le> 2 ^ 32" using l by (simp add: layout_ok_def mult.commute)
  finally show ?thesis by (simp only: unat_page_mult)
qed

lemma page_divides_64k: "kernel_ok env \<Longrightarrow> unat (k_pagesize env) dvd 65536"
proof -
  assume "kernel_ok env"
  then obtain k where "k \<le> 16" "unat (k_pagesize env) = 2 ^ k" using kernel_page by metis
  then show ?thesis using le_imp_power_dvd [of k 16 "2 :: nat"] by simp
qed

lemma placed_size:
  assumes "kernel_ok env" and "hw_bound_check cfg" and "layout_ok l"
    and "wasm_allocate_linear_memory cfg env 0 (ucast (page_bytes l)) (ucast (init_pages l)) v = Some (0, data, sz, w)"
    and "page_bytes l = 65536"
  shows "unat sz = 65536 * unat (init_pages l)"
proof -
  let ?n = "ucast (init_pages l) * ucast (page_bytes l) :: u64"
  have n: "unat ?n = 65536 * unat (init_pages l)" unfolding unat_page_mult using assms(5) by simp
  have "page_round (k_pagesize env) ?n = ?n"
    using n layout_size [OF assms(3)] page_divides_64k [OF assms(1)] by (intro page_mult_exact [OF assms(1)]) simp_all
  then show ?thesis using n allocate_hw(1) [OF assms(1,2) layout_size [OF assms(3)] assms(4)] by simp
qed

lemma placed_memory_ok:
  fixes handle :: u64
  assumes "kernel_ok env" and "hw_bound_check cfg" and "layout_ok l"
    and "wasm_allocate_linear_memory cfg env 0 (ucast (page_bytes l)) (ucast (init_pages l)) v = Some (0, data, sz, w)"
  defines "m \<equiv> placed_memory l data sz handle"
  shows "mem_ok cfg m" and "paged env m" and "space_ok cfg w m"
    and "contents w m = replicate (unat sz) 0"
    and "unat (heap_data_end m) \<le> unat (memory_data_end m)"
proof -
  have lay: "init_pages l \<le> max_pages l" "unat (page_bytes l) * unat (max_pages l) \<le> 2 ^ 32"
    "init_pages l < max_pages l \<longrightarrow> page_bytes l = 65536"
    "unat (heap_offset l) + unat (heap_bytes l) \<le> unat (page_bytes l) * unat (init_pages l)"
    using assms(3) by (simp_all add: layout_ok_def)
  let ?n = "ucast (init_pages l) * ucast (page_bytes l) :: u64"
  have n: "unat ?n = unat (page_bytes l) * unat (init_pages l)" by (simp add: unat_page_mult)
  have n32: "unat ?n \<le> 2 ^ 32" by (rule layout_size [OF assms(3)])
  note a = allocate_hw [OF assms(1,2) n32 assms(4)]
  note sz = page_round_le_4gb [OF assms(1) n32, folded a(1)]
  have res: "data \<noteq> 0" "unat (k_pagesize env) dvd unat data" "unat data + 2 ^ 33 < 2 ^ 64"
    "\<forall>i < 2 ^ 33. byte_of w (unat data + i) = 0 \<and> prot_of w (unat data + i) = Some (if i < unat sz then rw else PROT_NONE)"
    using a(4) by auto
  note ps = page_divides_64k [OF assms(1)]
  note sz64 = placed_size [OF assms(1-4)]
  show "mem_ok cfg m"
    using assms(2) res lay(1-3) sz(2) sz64 by (auto simp: m_def mem_ok_def placed_memory_def reserved_def)
  then have e: "unat (memory_data_end m) = unat data + unat sz" using mem_end(1) by (fastforce simp: m_def placed_memory_def)
  show "paged env m" using res(2) lay(3) ps by (simp add: m_def paged_def placed_memory_def)
  show "space_ok cfg w m" "contents w m = replicate (unat sz) 0"
    using res(4) sz(2) assms(2) by (auto simp: m_def space_ok_def contents_def placed_memory_def reserved_def intro!: nth_equalityI)
  have "unat (data + heap_offset l + ucast (heap_bytes l)) = unat data + unat (heap_offset l) + unat (heap_bytes l)"
    using res(3) lay(4) n n32 by (simp add: unat_plus_simple)
  then show "unat (heap_data_end m) \<le> unat (memory_data_end m)"
    using e lay(4) sz(1) n by (simp add: m_def placed_memory_def)
qed

lemma space_ok_heap_create:
  assumes "heap_alloc_ok alloc" and "heap_create alloc w h p n = (s, u)" and "space_ok cfg w m"
  shows "space_ok cfg u m"
  using assms may_access(2) unfolding heap_alloc_ok_def space_ok_def by metis

lemma memory_instantiate_hw:
  assumes "kernel_ok env" and "hw_bound_check cfg" and "heap_alloc_ok alloc" and "memory_input npp init mx heap_size"
    and "memory_instantiate cfg env alloc md 0 npp init mx heap_size v = Some (Inr (m, g), v')"
  shows "mem_ok cfg m \<and> paged env m \<and> space_ok cfg v' m \<and> unat (heap_data_end m) \<le> unat (memory_data_end m)"
    and "heap_size = 0 \<Longrightarrow> npp = 65536 \<Longrightarrow> contents v' m = replicate (65536 * unat init) 0 \<and> cur_page_count m = init \<and> max_page_count m = mx"
    and "\<forall>x. x < unat (memory_data m) \<or> unat (memory_data m) + 2 ^ 33 \<le> x \<longrightarrow> unmap_ok env \<longrightarrow> prot_of v' x = prot_of v x"
proof -
  from assms(5) obtain l data sz w handle where
    c: "place_app_heap md npp init mx heap_size = Inr l"
      "wasm_allocate_linear_memory cfg env 0 (ucast (page_bytes l)) (ucast (init_pages l)) v = Some (0, data, sz, w)"
      "m = placed_memory l data sz handle"
      "v' = w \<or> heap_bytes l > 0 \<and> (\<exists>h p n s. heap_create alloc w h p n = (s, v'))"
    by (cases rule: memory_instantiate_cases) auto
  have lay: "layout_ok l" by (rule place_app_heap_ok [OF assms(4) c(1)])
  note p = placed_memory_ok [OF assms(1,2) lay c(2), of handle, folded c(3)]
  show "mem_ok cfg m \<and> paged env m \<and> space_ok cfg v' m \<and> unat (heap_data_end m) \<le> unat (memory_data_end m)"
    using p c(4) space_ok_heap_create [OF assms(3)] by blast
  show "contents v' m = replicate (65536 * unat init) 0 \<and> cur_page_count m = init \<and> max_page_count m = mx"
    if z: "heap_size = 0" "npp = 65536"
  proof -
    have l: "heap_bytes l = 0" "page_bytes l = 65536" "init_pages l = init" "max_pages l = mx"
      using c(1) z by (auto simp: place_app_heap_def Let_def split: if_splits)
    then have "v' = w" using c(4) by simp
    then show ?thesis using p(4) placed_size [OF assms(1,2) lay c(2) l(2)] l by (simp add: c(3) placed_memory_def)
  qed
  have "unmap_ok env \<longrightarrow> (\<forall>x. x < unat data \<or> unat data + 2 ^ 33 \<le> x \<longrightarrow> prot_of w x = prot_of v x)"
    using allocate_hw(4) [OF assms(1,2) layout_size [OF lay] c(2)] by blast
  moreover have "prot_of v' = prot_of w" using c(4) assms(3) by (auto simp: heap_alloc_ok_def)
  ultimately show "\<forall>x. x < unat (memory_data m) \<or> unat (memory_data m) + 2 ^ 33 \<le> x \<longrightarrow> unmap_ok env \<longrightarrow> prot_of v' x = prot_of v x"
    by (simp add: c(3) placed_memory_def)
qed

text \<open>A failed instantiation leaves no mapping behind.\<close>

lemma memory_instantiate_fails_clean:
  assumes "kernel_ok env" and "unmap_ok env" and "hw_bound_check cfg" and "heap_alloc_ok alloc"
    and "memory_input npp init mx heap_size"
    and "memory_instantiate cfg env alloc md 0 npp init mx heap_size v = Some (Inl err, v')"
  shows "prot_of v' = prot_of v"
  using assms(6)
proof (cases rule: memory_instantiate_cases)
  case misplaced
  then show ?thesis by simp
next
  case (unallocated l s data sz err)
  have lay: "layout_ok l" by (rule place_app_heap_ok [OF assms(5) unallocated(1)])
  note a = allocate_hw [OF assms(1,3) layout_size [OF lay] unallocated(2)]
  show ?thesis using a(2,3) unallocated(3) assms(2) by blast
next
  case (no_heap l data sz w handle err)
  let ?m = "placed_memory l data sz handle"
  have lay: "layout_ok l" by (rule place_app_heap_ok [OF assms(5) no_heap(1)])
  note p = placed_memory_ok [OF assms(1,3) lay no_heap(2), of handle]
  note a = allocate_hw(4) [OF assms(1,3) layout_size [OF lay] no_heap(2)]
  obtain u where u: "u = w \<or> (\<exists>h p n s. heap_create alloc w h p n = (s, u))" "v' = release_memory cfg env ?m u"
    using no_heap(4) by blast
  have pu: "prot_of u = prot_of w" using u(1) assms(4) by (auto simp: heap_alloc_ok_def)
  have d: "memory_data ?m = data" by (simp add: placed_memory_def)
  have "prot_of v' = (\<lambda>x. if unat data \<le> x \<and> x < unat data + 2 ^ 33 then None else prot_of u x)"
    using deallocate_hw(3) [OF assms(1,2,3) p(1,2) surjective_pairing] p(1) u(2) d
    by (simp add: release_memory_def mem_ok_def)
  moreover have "prot_of v x = None" if "unat data \<le> x" "x < unat data + 2 ^ 33" for x
    using a that by (auto dest!: spec [of _ "x - unat data"])
  moreover have "prot_of w x = prot_of v x" if "x < unat data \<or> unat data + 2 ^ 33 \<le> x" for x
    using a that assms(2) by auto
  ultimately show ?thesis using pu by (auto simp: fun_eq_iff not_less)
qed auto

text \<open>The reserved range was free before.\<close>

lemma memory_instantiate_unused:
  assumes "kernel_ok env" and "hw_bound_check cfg" and "memory_input npp init mx heap_size"
    and "memory_instantiate cfg env alloc md 0 npp init mx heap_size v = Some (Inr (m, g), v')"
  shows "\<forall>x. unat (memory_data m) \<le> x \<and> x < unat (memory_data m) + 2 ^ 33 \<longrightarrow> prot_of v x = None"
proof -
  from assms(4) obtain l data sz w handle where
    c: "place_app_heap md npp init mx heap_size = Inr l"
      "wasm_allocate_linear_memory cfg env 0 (ucast (page_bytes l)) (ucast (init_pages l)) v = Some (0, data, sz, w)"
      "m = placed_memory l data sz handle"
    by (cases rule: memory_instantiate_cases) auto
  have lay: "layout_ok l" by (rule place_app_heap_ok [OF assms(3) c(1)])
  have "\<forall>i < 2 ^ 33. prot_of v (unat data + i) = None"
    using allocate_hw(4) [OF assms(1,2) layout_size [OF lay] c(2)] by blast
  then have "prot_of v x = None" if "unat data \<le> x" "x < unat data + 2 ^ 33" for x
    using that by (auto dest!: spec [of _ "x - unat data"])
  then show ?thesis by (simp add: c(3) placed_memory_def)
qed

text \<open>Instantiating returns, since the calls of \<open>mmap\<close> it makes end.\<close>

lemma memory_instantiate_returns:
  assumes "settles env"
  shows "\<exists>r v'. memory_instantiate cfg env alloc md idx npp init mx heap_size v = Some (r, v')"
proof -
  have m: "wasm_mmap_linear_memory env a b w \<noteq> None" for a b w
    using os_mmap_returns [OF assms]
    by (fastforce simp: wasm_mmap_linear_memory_def wasm_mremap_linear_memory_def split: option.splits prod.splits)
  have al: "wasm_allocate_linear_memory cfg env 0 a b v \<noteq> None" for a b
    by (simp add: wasm_allocate_linear_memory_def Let_def m option.case_eq_if split: prod.split)
  have "memory_instantiate cfg env alloc md idx npp init mx heap_size v \<noteq> None"
    unfolding memory_instantiate_def
    by (cases "if idx = 0 then place_app_heap md npp init mx heap_size
               else Inr \<lparr>page_bytes = npp, init_pages = init, max_pages = mx, heap_bytes = heap_size,
                      heap_offset = ucast npp * ucast init, heap_base_global = None\<rparr>")
       (simp_all only: sum.case option.case_eq_if al if_False option.simps Let_def split: prod.split if_split bool.split, simp_all)
  then show ?thesis by auto
qed

end
