(* ===== verification/Interp_Memory.thy ===== *)
theory Interp_Memory
  imports Wasm_Instance Bh_Bitmap
begin

text \<open>
  The memory instructions of the fast interpreter,
  \<open>wamr/core/iwasm/interpreter/wasm_interp_fast.c\<close>, together with the signal handler of
  \<open>wasm_runtime_common.c\<close> that turns a page fault inside the reserved range of a memory into a
  trap. Operands and results are arguments and values here; the decoding of operand offsets is not
  part of the model.

  Under hardware checks a load or store does not look at the size of the memory: it computes the
  native address and lets the processor raise a fault. The processor is modelled by \<open>native_fault\<close>,
  the first byte of an access whose page does not allow it. An instruction ends normally, in a trap
  (the exception is set), or the process crashes because the handler does not know the address.
\<close>

section \<open>State\<close>

record data_segment =
  seg_data :: u64
  data_length :: u32

record interp =
  imodule :: module_inst
  ivm :: vm
  linear_mem_size :: u64
  data_dropped :: bh_bitmap
  data_segments :: "data_segment list"

text \<open>What the handler knows of the thread: whether it runs WebAssembly code, and its guard pages.\<close>

record thread_ctx =
  in_wasm :: bool
  stack_min_addr :: u64
  exce_check_guard_page :: u64

datatype 'a outcome = Normal 'a | Trapped | Crashed

section \<open>Faults\<close>

fun sig_addr_in_memories :: "memory_inst list \<Rightarrow> u64 \<Rightarrow> bool" where
  "sig_addr_in_memories [] sig_addr = False"
| "sig_addr_in_memories (m # ms) sig_addr =
     (if memory_data m \<le> sig_addr \<and> sig_addr < memory_data m + 8 * BH_GB then True
      else sig_addr_in_memories ms sig_addr)"

definition is_sig_addr_in_guard_pages :: "u64 \<Rightarrow> module_inst \<Rightarrow> bool" where
  "is_sig_addr_in_guard_pages sig_addr inst = sig_addr_in_memories (memories inst) sig_addr"

text \<open>\<open>Some\<close>: the handler jumps back to the caller of the WebAssembly code. \<open>None\<close>: it returns.\<close>

definition runtime_signal_handler :: "thread_ctx \<Rightarrow> vm_env \<Rightarrow> u64 \<Rightarrow> module_inst \<Rightarrow> module_inst option" where
  "runtime_signal_handler ctx env sig_addr inst =
     (let page_size = k_pagesize env; guard_page_count = 3 in
      if in_wasm ctx then
        (if is_sig_addr_in_guard_pages sig_addr inst then Some (out_of_bounds inst)
         else if stack_min_addr ctx \<le> sig_addr \<and> sig_addr < stack_min_addr ctx + page_size * guard_page_count
         then Some (wasm_set_exception ''native stack overflow'' inst)
         else if exce_check_guard_page ctx \<le> sig_addr \<and> sig_addr < exce_check_guard_page ctx + page_size
         then Some inst
         else None)
      else None)"

definition native_fault :: "(nat \<Rightarrow> bool) \<Rightarrow> nat \<Rightarrow> nat \<Rightarrow> nat option" where
  "native_fault allowed a n = find (\<lambda>x. \<not> allowed x) [a..<a + n]"

definition raise_signal :: "thread_ctx \<Rightarrow> vm_env \<Rightarrow> nat \<Rightarrow> interp \<Rightarrow> 'a outcome \<times> interp" where
  "raise_signal ctx env x st =
     (case runtime_signal_handler ctx env (of_nat x) (imodule st) of
        Some inst \<Rightarrow> (Trapped, st\<lparr>imodule := inst\<rparr>)
      | None \<Rightarrow> (Crashed, st))"

definition trap :: "interp \<Rightarrow> 'a outcome \<times> interp" where
  "trap st = (Trapped, st\<lparr>imodule := out_of_bounds (imodule st)\<rparr>)"

section \<open>Loads and stores\<close>

definition disable_checks :: "mem_config \<Rightarrow> interp \<Rightarrow> bool" where
  "disable_checks cfg st = (if configurable_bounds_checks cfg then disable_bounds_checks (imodule st) else False)"

definition CHECK_MEMORY_OVERFLOW :: "mem_config \<Rightarrow> memory_inst \<Rightarrow> u32 \<Rightarrow> u32 \<Rightarrow> nat \<Rightarrow> interp \<Rightarrow> u64 option" where
  "CHECK_MEMORY_OVERFLOW cfg memory offset addr bytes st =
     (let offset1 = ucast offset + ucast addr :: u64 in
      if hw_bound_check cfg then Some (memory_data memory + offset1)
      else if disable_checks cfg st \<or> offset1 + of_nat bytes \<le> linear_mem_size st
      then Some (memory_data memory + offset1) else None)"

definition CHECK_BULK_MEMORY_OVERFLOW :: "mem_config \<Rightarrow> memory_inst \<Rightarrow> u32 \<Rightarrow> u64 \<Rightarrow> interp \<Rightarrow> u64 option" where
  "CHECK_BULK_MEMORY_OVERFLOW cfg memory start bytes st =
     (let offset1 = ucast start :: u64 in
      if hw_bound_check cfg then
        (if offset1 + bytes > linear_mem_size st then None else Some (memory_data memory + offset1))
      else if disable_checks cfg st \<or> offset1 + bytes \<le> linear_mem_size st
      then Some (memory_data memory + offset1) else None)"

datatype wval = I32 u32 | I64 u64

definition sign_ext_8_32 :: "u8 \<Rightarrow> u32" where
  "sign_ext_8_32 val = (if val AND 0x80 \<noteq> 0 then scast val OR 0xffffff00 else scast val)"

definition sign_ext_16_32 :: "16 word \<Rightarrow> u32" where
  "sign_ext_16_32 val = (if val AND 0x8000 \<noteq> 0 then scast val OR 0xffff0000 else scast val)"

definition sign_ext_8_64 :: "u8 \<Rightarrow> u64" where
  "sign_ext_8_64 val = (if val AND 0x80 \<noteq> 0 then scast val OR 0xffffffffffffff00 else scast val)"

definition sign_ext_16_64 :: "16 word \<Rightarrow> u64" where
  "sign_ext_16_64 val = (if val AND 0x8000 \<noteq> 0 then scast val OR 0xffffffffffff0000 else scast val)"

definition sign_ext_32_64 :: "u32 \<Rightarrow> u64" where
  "sign_ext_32_64 val = (if val AND 0x80000000 \<noteq> 0 then scast val OR 0xffffffff00000000 else scast val)"

datatype load_op =
    WASM_OP_I32_LOAD | WASM_OP_I64_LOAD | WASM_OP_I32_LOAD8_S | WASM_OP_I32_LOAD8_U
  | WASM_OP_I32_LOAD16_S | WASM_OP_I32_LOAD16_U | WASM_OP_I64_LOAD8_S | WASM_OP_I64_LOAD8_U
  | WASM_OP_I64_LOAD16_S | WASM_OP_I64_LOAD16_U | WASM_OP_I64_LOAD32_S | WASM_OP_I64_LOAD32_U

datatype store_op =
    WASM_OP_I32_STORE | WASM_OP_I32_STORE8 | WASM_OP_I32_STORE16 | WASM_OP_I64_STORE
  | WASM_OP_I64_STORE8 | WASM_OP_I64_STORE16 | WASM_OP_I64_STORE32

fun load_width :: "load_op \<Rightarrow> nat" where
  "load_width WASM_OP_I32_LOAD = 4"
| "load_width WASM_OP_I64_LOAD = 8"
| "load_width WASM_OP_I32_LOAD8_S = 1"
| "load_width WASM_OP_I32_LOAD8_U = 1"
| "load_width WASM_OP_I32_LOAD16_S = 2"
| "load_width WASM_OP_I32_LOAD16_U = 2"
| "load_width WASM_OP_I64_LOAD8_S = 1"
| "load_width WASM_OP_I64_LOAD8_U = 1"
| "load_width WASM_OP_I64_LOAD16_S = 2"
| "load_width WASM_OP_I64_LOAD16_U = 2"
| "load_width WASM_OP_I64_LOAD32_S = 4"
| "load_width WASM_OP_I64_LOAD32_U = 4"

fun load_value :: "load_op \<Rightarrow> u8 list \<Rightarrow> wval" where
  "load_value WASM_OP_I32_LOAD bs = I32 (of_nat (le_value bs))"
| "load_value WASM_OP_I64_LOAD bs = I64 (of_nat (le_value bs))"
| "load_value WASM_OP_I32_LOAD8_S bs = I32 (sign_ext_8_32 (of_nat (le_value bs)))"
| "load_value WASM_OP_I32_LOAD8_U bs = I32 (ucast (of_nat (le_value bs) :: u8))"
| "load_value WASM_OP_I32_LOAD16_S bs = I32 (sign_ext_16_32 (of_nat (le_value bs)))"
| "load_value WASM_OP_I32_LOAD16_U bs = I32 (ucast (of_nat (le_value bs) :: 16 word))"
| "load_value WASM_OP_I64_LOAD8_S bs = I64 (sign_ext_8_64 (of_nat (le_value bs)))"
| "load_value WASM_OP_I64_LOAD8_U bs = I64 (ucast (of_nat (le_value bs) :: u8))"
| "load_value WASM_OP_I64_LOAD16_S bs = I64 (sign_ext_16_64 (of_nat (le_value bs)))"
| "load_value WASM_OP_I64_LOAD16_U bs = I64 (ucast (of_nat (le_value bs) :: 16 word))"
| "load_value WASM_OP_I64_LOAD32_S bs = I64 (sign_ext_32_64 (of_nat (le_value bs)))"
| "load_value WASM_OP_I64_LOAD32_U bs = I64 (ucast (of_nat (le_value bs) :: u32))"

fun store_width :: "store_op \<Rightarrow> nat" where
  "store_width WASM_OP_I32_STORE = 4"
| "store_width WASM_OP_I32_STORE8 = 1"
| "store_width WASM_OP_I32_STORE16 = 2"
| "store_width WASM_OP_I64_STORE = 8"
| "store_width WASM_OP_I64_STORE8 = 1"
| "store_width WASM_OP_I64_STORE16 = 2"
| "store_width WASM_OP_I64_STORE32 = 4"

text \<open>The operand of a 32-bit store is the low half of the operand cell.\<close>

fun store_bytes :: "store_op \<Rightarrow> u64 \<Rightarrow> u8 list" where
  "store_bytes WASM_OP_I32_STORE sval = le_bytes 4 (unat (ucast sval :: u32))"
| "store_bytes WASM_OP_I32_STORE8 sval = le_bytes 1 (unat (ucast (ucast sval :: u32) :: u8))"
| "store_bytes WASM_OP_I32_STORE16 sval = le_bytes 2 (unat (ucast (ucast sval :: u32) :: 16 word))"
| "store_bytes WASM_OP_I64_STORE sval = le_bytes 8 (unat sval)"
| "store_bytes WASM_OP_I64_STORE8 sval = le_bytes 1 (unat (ucast sval :: u8))"
| "store_bytes WASM_OP_I64_STORE16 sval = le_bytes 2 (unat (ucast sval :: 16 word))"
| "store_bytes WASM_OP_I64_STORE32 sval = le_bytes 4 (unat (ucast sval :: u32))"

definition exec_load ::
  "mem_config \<Rightarrow> thread_ctx \<Rightarrow> vm_env \<Rightarrow> load_op \<Rightarrow> u32 \<Rightarrow> u32 \<Rightarrow> interp \<Rightarrow> wval outcome \<times> interp" where
  "exec_load cfg ctx env opc offset addr st =
     (case wasm_get_default_memory (imodule st) of
        None \<Rightarrow> (Crashed, st)
      | Some memory \<Rightarrow>
        (case CHECK_MEMORY_OVERFLOW cfg memory offset addr (load_width opc) st of
           None \<Rightarrow> trap st
         | Some maddr \<Rightarrow>
           (case native_fault (may_read (ivm st)) (unat maddr) (load_width opc) of
              Some x \<Rightarrow> raise_signal ctx env x st
            | None \<Rightarrow>
                (Normal (load_value opc (map (byte_of (ivm st)) [unat maddr..<unat maddr + load_width opc])), st))))"

definition exec_store ::
  "mem_config \<Rightarrow> thread_ctx \<Rightarrow> vm_env \<Rightarrow> store_op \<Rightarrow> u32 \<Rightarrow> u32 \<Rightarrow> u64 \<Rightarrow> interp \<Rightarrow> unit outcome \<times> interp" where
  "exec_store cfg ctx env opc offset addr sval st =
     (case wasm_get_default_memory (imodule st) of
        None \<Rightarrow> (Crashed, st)
      | Some memory \<Rightarrow>
        (case CHECK_MEMORY_OVERFLOW cfg memory offset addr (store_width opc) st of
           None \<Rightarrow> trap st
         | Some maddr \<Rightarrow>
           (case native_fault (may_write (ivm st)) (unat maddr) (store_width opc) of
              Some x \<Rightarrow> raise_signal ctx env x st
            | None \<Rightarrow>
                (Normal (), st\<lparr>ivm := (ivm st)\<lparr>byte_of := write_bytes (byte_of (ivm st)) (unat maddr) (store_bytes opc sval)\<rparr>\<rparr>))))"

section \<open>Size, growth and bulk instructions\<close>

definition exec_memory_size :: "interp \<Rightarrow> u32 outcome \<times> interp" where
  "exec_memory_size st =
     (case wasm_get_default_memory (imodule st) of
        None \<Rightarrow> (Crashed, st)
      | Some memory \<Rightarrow> (Normal (cur_page_count memory), st))"

definition exec_memory_grow ::
  "mem_config \<Rightarrow> vm_env \<Rightarrow> heap_ops \<Rightarrow> bool \<Rightarrow> u32 \<Rightarrow> interp \<Rightarrow> (u32 outcome \<times> interp) option" where
  "exec_memory_grow cfg env heap cb delta st =
     (case wasm_get_default_memory (imodule st) of
        None \<Rightarrow> Some (Crashed, st)
      | Some memory \<Rightarrow>
          let prev_page_count = cur_page_count memory in
          (case wasm_enlarge_memory cfg env heap cb delta (imodule st) (ivm st) of
             None \<Rightarrow> None
           | Some (r, inst, v, _) \<Rightarrow>
               let st' = st\<lparr>imodule := inst, ivm := v\<rparr> in
               if \<not> r then Some (Normal (- 1), st')
               else Some (Normal prev_page_count,
                      st'\<lparr>linear_mem_size := (case wasm_get_default_memory inst of None \<Rightarrow> linear_mem_size st
                                               | Some m \<Rightarrow> memory_data_size m)\<rparr>)))"

definition guarded_write ::
  "thread_ctx \<Rightarrow> vm_env \<Rightarrow> (nat \<times> nat) option \<Rightarrow> nat \<times> nat \<Rightarrow> (mem \<Rightarrow> mem) \<Rightarrow> interp \<Rightarrow> unit outcome \<times> interp" where
  "guarded_write ctx env src dst f st =
     (case (case src of None \<Rightarrow> None | Some (a, n) \<Rightarrow> native_fault (may_read (ivm st)) a n) of
        Some x \<Rightarrow> raise_signal ctx env x st
      | None \<Rightarrow>
        (case native_fault (may_write (ivm st)) (fst dst) (snd dst) of
           Some x \<Rightarrow> raise_signal ctx env x st
         | None \<Rightarrow> (Normal (), st\<lparr>ivm := (ivm st)\<lparr>byte_of := f (byte_of (ivm st))\<rparr>\<rparr>)))"

definition exec_memory_fill ::
  "mem_config \<Rightarrow> thread_ctx \<Rightarrow> vm_env \<Rightarrow> u32 \<Rightarrow> u32 \<Rightarrow> u32 \<Rightarrow> interp \<Rightarrow> unit outcome \<times> interp" where
  "exec_memory_fill cfg ctx env dst val len st =
     (case wasm_get_default_memory (imodule st) of
        None \<Rightarrow> (Crashed, st)
      | Some memory \<Rightarrow>
        (case CHECK_BULK_MEMORY_OVERFLOW cfg memory dst (ucast len) st of
           None \<Rightarrow> trap st
         | Some mdst \<Rightarrow>
             let fill_val = (ucast val :: u8) in
             guarded_write ctx env None (unat mdst, unat len)
               (\<lambda>m. write_bytes m (unat mdst) (replicate (unat len) fill_val)) st))"

definition exec_memory_copy ::
  "mem_config \<Rightarrow> thread_ctx \<Rightarrow> vm_env \<Rightarrow> u32 \<Rightarrow> u32 \<Rightarrow> u32 \<Rightarrow> interp \<Rightarrow> unit outcome \<times> interp" where
  "exec_memory_copy cfg ctx env dst src len st =
     (case wasm_get_default_memory (imodule st) of
        None \<Rightarrow> (Crashed, st)
      | Some memory \<Rightarrow>
        (case CHECK_BULK_MEMORY_OVERFLOW cfg memory src (ucast len) st of
           None \<Rightarrow> trap st
         | Some msrc \<Rightarrow>
           (case CHECK_BULK_MEMORY_OVERFLOW cfg memory dst (ucast len) st of
              None \<Rightarrow> trap st
            | Some mdst \<Rightarrow>
                if len \<noteq> 0 \<and> mdst \<noteq> msrc
                then guarded_write ctx env (Some (unat msrc, unat len)) (unat mdst, unat len)
                       (\<lambda>m. memmove m (unat mdst) (unat msrc) (unat len)) st
                else (Normal (), st))))"

text \<open>
  The result of \<open>b_memcpy_s\<close> is not looked at; a fault of it is a crash. The limit handed to it is
  cut to 32 bits.
\<close>

definition exec_memory_init ::
  "mem_config \<Rightarrow> thread_ctx \<Rightarrow> vm_env \<Rightarrow> u32 \<Rightarrow> u32 \<Rightarrow> u32 \<Rightarrow> u32 \<Rightarrow> interp \<Rightarrow> unit outcome \<times> interp" where
  "exec_memory_init cfg ctx env segment addr offset bytes st =
     (case wasm_get_default_memory (imodule st) of
        None \<Rightarrow> (Crashed, st)
      | Some memory \<Rightarrow>
        (case CHECK_BULK_MEMORY_OVERFLOW cfg memory addr (ucast bytes) st of
           None \<Rightarrow> trap st
         | Some maddr \<Rightarrow>
           (case bh_bitmap_get_bit (data_dropped st) (ucast segment) of
              Inl _ \<Rightarrow> (Crashed, st)
            | Inr b \<Rightarrow>
              (if b = 0 \<and> \<not> unat segment < length (data_segments st) then (Crashed, st)
               else
                let seg = data_segments st ! unat segment;
                    (seg_len, data) = (if b \<noteq> 0 then (0, 0) else (ucast (data_length seg), seg_data seg)) :: u64 \<times> u64
                in if ucast offset + ucast bytes > seg_len then trap st
                   else (case b_memcpy_s (byte_of (ivm st)) (unat maddr) (ucast (linear_mem_size st - ucast addr))
                                (unat (data + ucast offset)) bytes of
                           Inl _ \<Rightarrow> (Crashed, st)
                         | Inr (r, m) \<Rightarrow>
                             guarded_write ctx env (Some (unat (data + ucast offset), unat bytes)) (unat maddr, unat bytes)
                               (\<lambda>_. m) st)))))"

definition exec_data_drop :: "u32 \<Rightarrow> interp \<Rightarrow> unit outcome \<times> interp" where
  "exec_data_drop segment st =
     (case bh_bitmap_set_bit (data_dropped st) (ucast segment) of
        Inl _ \<Rightarrow> (Crashed, st)
      | Inr b \<Rightarrow> (Normal (), st\<lparr>data_dropped := b\<rparr>))"

section \<open>Well-formed interpreter states\<close>

definition interp_ok :: "mem_config \<Rightarrow> vm_env \<Rightarrow> memory_inst \<Rightarrow> interp \<Rightarrow> bool" where
  "interp_ok cfg env m st \<longleftrightarrow>
     wasm_get_default_memory (imodule st) = Some m \<and> mem_ok cfg m \<and> space_ok cfg (ivm st) m \<and> paged env m \<and>
     linear_mem_size st = memory_data_size m"

text \<open>Accesses are checked, by the processor or by the interpreter.\<close>

definition checked :: "mem_config \<Rightarrow> thread_ctx \<Rightarrow> interp \<Rightarrow> bool" where
  "checked cfg ctx st \<longleftrightarrow> (if hw_bound_check cfg then in_wasm ctx else \<not> disable_checks cfg st)"

lemma find_first:
  assumes "a \<le> b" and "b < a + n" and "\<And>x. a \<le> x \<Longrightarrow> x < b \<Longrightarrow> ok x" and "\<not> ok b"
  shows "native_fault ok a n = Some b"
proof -
  have "[a..<a + n] ! (b - a) = b" "b - a < length [a..<a + n]" using assms(1,2) by simp_all
  moreover have "ok ([a..<a + n] ! j)" if "j < b - a" for j using that assms(1-3) by simp
  ultimately show ?thesis
    unfolding native_fault_def find_Some_iff using assms(4) by (metis (no_types, lifting))
qed

lemma no_fault_iff: "native_fault ok a n = None \<longleftrightarrow> (\<forall>x. a \<le> x \<and> x < a + n \<longrightarrow> ok x)"
  by (auto simp: native_fault_def find_None_iff)

lemma in_memory_no_fault:
  assumes "space_ok cfg v m" and "allowed = may_read v \<or> allowed = may_write v"
    and "ea + n \<le> unat (memory_data_size m)"
  shows "native_fault allowed (unat (memory_data m) + ea) n = None"
  unfolding no_fault_iff
proof (intro allI impI)
  fix x assume x: "unat (memory_data m) + ea \<le> x \<and> x < unat (memory_data m) + ea + n"
  then have "prot_of v x = Some rw"
    using assms(1,3) by (auto simp: space_ok_def dest!: spec [of _ "x - unat (memory_data m)"])
  then show "allowed x" using assms(2) may_access(1) by blast
qed

lemma access_fault:
  assumes "mem_ok cfg m" and "space_ok cfg v m" and "allowed = may_read v \<or> allowed = may_write v" and "0 < n"
  defines "d \<equiv> unat (memory_data m)" and "s \<equiv> unat (memory_data_size m)"
  shows "ea + n \<le> s \<Longrightarrow> native_fault allowed (d + ea) n = None"
    and "hw_bound_check cfg \<Longrightarrow> ea < 2 ^ 33 \<Longrightarrow> \<not> ea + n \<le> s \<Longrightarrow>
           \<exists>i. native_fault allowed (d + ea) n = Some (d + i) \<and> i < 2 ^ 33"
proof -
  have ok: "allowed (d + i)" if "i < s" for i
    using assms(2,3) that may_access(1) [of v "d + i"] by (auto simp: space_ok_def d_def s_def)
  show "ea + n \<le> s \<Longrightarrow> native_fault allowed (d + ea) n = None"
    unfolding d_def s_def by (rule in_memory_no_fault [OF assms(2,3)])
  assume hw: "hw_bound_check cfg" and ea: "ea < 2 ^ 33" "\<not> ea + n \<le> s"
  have s: "s < 2 ^ 33" using mem_size_bound [OF assms(1)] by (simp add: s_def)
  let ?i = "max ea s"
  have "\<not> allowed (d + ?i)"
    using assms(2,3) hw ea(1) s may_access(2) [of v "d + ?i"]
    by (auto simp: space_ok_def reserved_def d_def s_def)
  moreover have "allowed x" if "d + ea \<le> x" "x < d + ?i" for x
    using ok [of "x - d"] that by (simp add: max_def split: if_splits)
  ultimately have "native_fault allowed (d + ea) n = Some (d + ?i)"
    using ea assms(4) by (intro find_first) auto
  then show "\<exists>i. native_fault allowed (d + ea) n = Some (d + i) \<and> i < 2 ^ 33" using ea(1) s by auto
qed

lemma signal_traps:
  assumes "mem_ok cfg m" and "hw_bound_check cfg" and "wasm_get_default_memory (imodule st) = Some m"
    and "in_wasm ctx" and "i < 2 ^ 33"
  shows "raise_signal ctx env (unat (memory_data m) + i) st = trap st"
proof -
  let ?a = "of_nat (unat (memory_data m) + i) :: u64"
  have lim: "unat (memory_data m) + 2 ^ 33 < 2 ^ 64" using assms(1,2) by (simp add: mem_ok_def reserved_def)
  have a: "unat ?a = unat (memory_data m) + i" using lim assms(5)
    by (simp add: unsigned_of_nat take_bit_nat_eq_self del: of_nat_add)
  have "unat (memory_data m + 8 * BH_GB) = unat (memory_data m) + 2 ^ 33" using lim by (subst unat_plus_simple) simp_all
  then have "memory_data m \<le> ?a \<and> ?a < memory_data m + 8 * BH_GB"
    unfolding word_le_nat_alt word_less_nat_alt a using assms(5) by simp
  moreover obtain ms where "memories (imodule st) = m # ms"
    using assms(3) by (auto simp: wasm_get_default_memory_def split: list.splits)
  ultimately have "is_sig_addr_in_guard_pages ?a (imodule st)" by (simp add: is_sig_addr_in_guard_pages_def)
  then show ?thesis using assms(4) by (simp add: raise_signal_def runtime_signal_handler_def trap_def)
qed

lemma effective_address:
  fixes offset addr :: u32
  assumes "mem_ok cfg m"
  defines "ea \<equiv> unat offset + unat addr"
  shows "unat (ucast offset + ucast addr :: u64) = ea" and "ea < 2 ^ 33"
    and "hw_bound_check cfg \<or> ea < unat (memory_data_size m) \<Longrightarrow>
           unat (memory_data m + (ucast offset + ucast addr)) = unat (memory_data m) + ea"
proof -
  have b: "unat offset < 2 ^ 32" "unat addr < 2 ^ 32"
    using unsigned_less [where ?'a = nat, of offset] unsigned_less [where ?'a = nat, of addr] by simp_all
  then show "ea < 2 ^ 33" by (simp add: ea_def)
  show ea: "unat (ucast offset + ucast addr :: u64) = ea" using b by (simp add: ea_def unat_plus_simple)
  assume "hw_bound_check cfg \<or> ea < unat (memory_data_size m)"
  then have "unat (memory_data m) + ea < 2 ^ 64"
    using assms(1) mem_end(2) [OF assms(1)] \<open>ea < 2 ^ 33\<close> by (auto simp: mem_ok_def reserved_def)
  then show "unat (memory_data m + (ucast offset + ucast addr)) = unat (memory_data m) + ea"
    using ea by (simp add: unat_plus_simple)
qed

lemma contents_slice:
  assumes "ea + n \<le> unat (memory_data_size m)"
  shows "map (byte_of v) [unat (memory_data m) + ea..<unat (memory_data m) + ea + n] = take n (drop ea (contents v m))"
  using assms by (intro nth_equalityI) (simp_all add: add.assoc)

text \<open>Every load and store, checked by the processor or by the interpreter.\<close>

lemma check_overflow_cases:
  fixes offset addr :: u32
  assumes "interp_ok cfg env m st" and "checked cfg ctx st" and "0 < n" and "n \<le> 8"
    and "allowed = may_read (ivm st) \<or> allowed = may_write (ivm st)"
  defines "ea \<equiv> unat offset + unat addr"
  shows "ea + n \<le> unat (memory_data_size m) \<Longrightarrow>
       CHECK_MEMORY_OVERFLOW cfg m offset addr n st = Some (memory_data m + (ucast offset + ucast addr)) \<and>
       unat (memory_data m + (ucast offset + ucast addr)) = unat (memory_data m) + ea \<and>
       native_fault allowed (unat (memory_data m) + ea) n = None"
    and "\<not> ea + n \<le> unat (memory_data_size m) \<Longrightarrow>
       (case CHECK_MEMORY_OVERFLOW cfg m offset addr n st of
          None \<Rightarrow> True
        | Some maddr \<Rightarrow> \<exists>x. native_fault allowed (unat maddr) n = Some x \<and> raise_signal ctx env x st = trap st)"
proof -
  have ok: "mem_ok cfg m" "space_ok cfg (ivm st) m" "wasm_get_default_memory (imodule st) = Some m"
    "linear_mem_size st = memory_data_size m" using assms(1) by (simp_all add: interp_ok_def)
  note e = effective_address [OF ok(1), of offset addr, folded ea_def]
  note f = access_fault [OF ok(1,2) assms(5,3), of ea]
  have "unat (of_nat n :: u64) = n" using assms(4) by (simp add: unsigned_of_nat take_bit_nat_eq_self)
  then have sum: "unat (ucast offset + ucast addr + of_nat n :: u64) = ea + n"
    using e(1,2) assms(4) by (subst unat_plus_simple) simp_all
  show "CHECK_MEMORY_OVERFLOW cfg m offset addr n st = Some (memory_data m + (ucast offset + ucast addr)) \<and>
       unat (memory_data m + (ucast offset + ucast addr)) = unat (memory_data m) + ea \<and>
       native_fault allowed (unat (memory_data m) + ea) n = None" if "ea + n \<le> unat (memory_data_size m)"
    using that e(3) f(1) assms(3) sum ok(4)
    by (simp add: CHECK_MEMORY_OVERFLOW_def Let_def word_le_nat_alt)
  assume out: "\<not> ea + n \<le> unat (memory_data_size m)"
  show "case CHECK_MEMORY_OVERFLOW cfg m offset addr n st of
          None \<Rightarrow> True
        | Some maddr \<Rightarrow> \<exists>x. native_fault allowed (unat maddr) n = Some x \<and> raise_signal ctx env x st = trap st"
  proof (cases "hw_bound_check cfg")
    case True
    then have "in_wasm ctx" using assms(2) by (simp add: checked_def)
    then show ?thesis using True f(2) [OF True e(2) out] e(3) signal_traps [OF ok(1) True ok(3)]
      by (auto simp: CHECK_MEMORY_OVERFLOW_def Let_def)
  next
    case False
    then show ?thesis using assms(2) out sum ok(4)
      by (simp add: CHECK_MEMORY_OVERFLOW_def Let_def checked_def word_le_nat_alt)
  qed
qed

lemma load_width_pos: "0 < load_width opc \<and> load_width opc \<le> 8"
  by (cases opc) simp_all

lemma store_width_pos: "0 < store_width opc \<and> store_width opc \<le> 8"
  by (cases opc) simp_all

lemma length_store_bytes [simp]: "length (store_bytes opc sval) = store_width opc"
  by (cases opc) simp_all

lemma exec_load_spec:
  fixes offset addr :: u32
  assumes "interp_ok cfg env m st" and "checked cfg ctx st"
  defines "ea \<equiv> unat offset + unat addr"
  shows "exec_load cfg ctx env opc offset addr st =
     (if ea + load_width opc \<le> unat (memory_data_size m)
      then (Normal (load_value opc (take (load_width opc) (drop ea (contents (ivm st) m)))), st)
      else trap st)"
proof -
  have m: "wasm_get_default_memory (imodule st) = Some m" using assms(1) by (simp add: interp_ok_def)
  note w = load_width_pos [of opc]
  note c = check_overflow_cases [OF assms(1,2) conjunct1 [OF w] conjunct2 [OF w] disjI1 [OF refl], of offset addr, folded ea_def]
  show ?thesis
  proof (cases "ea + load_width opc \<le> unat (memory_data_size m)")
    case True
    then show ?thesis using c(1) [OF True] m contents_slice [OF True] by (simp add: exec_load_def)
  next
    case False
    then show ?thesis using c(2) [OF False] m by (auto simp: exec_load_def split: option.splits)
  qed
qed

section \<open>Writing\<close>

definition spec_write :: "u8 list \<Rightarrow> nat \<Rightarrow> u8 list \<Rightarrow> u8 list" where
  "spec_write bs ea xs = take ea bs @ xs @ drop (ea + length xs) bs"

definition mem_write :: "memory_inst \<Rightarrow> nat \<Rightarrow> u8 list \<Rightarrow> interp \<Rightarrow> interp" where
  "mem_write m ea xs st = st\<lparr>ivm := (ivm st)\<lparr>byte_of := write_bytes (byte_of (ivm st)) (unat (memory_data m) + ea) xs\<rparr>\<rparr>"

text \<open>\<open>frame_ok m st st'\<close>: nothing outside the reserved range of the memory has changed.\<close>

definition frame_ok :: "memory_inst \<Rightarrow> interp \<Rightarrow> interp \<Rightarrow> bool" where
  "frame_ok m st st' \<longleftrightarrow>
     (\<forall>x. x < unat (memory_data m) \<or> unat (memory_data m) + 2 ^ 33 \<le> x \<longrightarrow>
        byte_of (ivm st') x = byte_of (ivm st) x \<and> prot_of (ivm st') x = prot_of (ivm st) x) \<and>
     data_segments st' = data_segments st"

lemma frame_ok_refl [simp]: "frame_ok m st st"
  by (simp add: frame_ok_def)

lemma frame_ok_trans: "frame_ok m st st' \<Longrightarrow> frame_ok m st' st'' \<Longrightarrow> frame_ok m st st''"
  by (simp add: frame_ok_def)

lemma mem_write_keeps:
  assumes "interp_ok cfg env m st" and "ea + length xs \<le> unat (memory_data_size m)"
  shows "interp_ok cfg env m (mem_write m ea xs st)" and "frame_ok m st (mem_write m ea xs st)"
    and "contents (ivm (mem_write m ea xs st)) m = spec_write (contents (ivm st) m) ea xs"
proof -
  let ?v = "ivm (mem_write m ea xs st)"
  have ok: "mem_ok cfg m" "space_ok cfg (ivm st) m" using assms(1) by (simp_all add: interp_ok_def)
  have out: "byte_of ?v (unat (memory_data m) + i) = byte_of (ivm st) (unat (memory_data m) + i)"
    if "unat (memory_data_size m) \<le> i" for i
    using that assms(2) by (simp add: mem_write_def write_bytes_def)
  have "space_ok cfg ?v m" using ok(2) out by (simp add: space_ok_def mem_write_def)
  then show "interp_ok cfg env m (mem_write m ea xs st)" using assms(1) by (simp add: interp_ok_def mem_write_def)
  show "frame_ok m st (mem_write m ea xs st)"
    using mem_size_bound [OF ok(1)] assms(2) by (auto simp: frame_ok_def mem_write_def write_bytes_def)
  show "contents ?v m = spec_write (contents (ivm st) m) ea xs"
    using assms(2)
    by (intro nth_equalityI) (auto simp: spec_write_def nth_append mem_write_def write_bytes_def)
qed

lemma exec_store_spec:
  fixes offset addr :: u32
  assumes "interp_ok cfg env m st" and "checked cfg ctx st"
  defines "ea \<equiv> unat offset + unat addr"
  shows "exec_store cfg ctx env opc offset addr sval st =
     (if ea + store_width opc \<le> unat (memory_data_size m)
      then (Normal (), mem_write m ea (store_bytes opc sval) st) else trap st)"
proof -
  have m: "wasm_get_default_memory (imodule st) = Some m" using assms(1) by (simp add: interp_ok_def)
  note w = store_width_pos [of opc]
  note c = check_overflow_cases [OF assms(1,2) conjunct1 [OF w] conjunct2 [OF w] disjI2 [OF refl], of offset addr, folded ea_def]
  show ?thesis
  proof (cases "ea + store_width opc \<le> unat (memory_data_size m)")
    case True
    then show ?thesis using c(1) [OF True] m by (simp add: exec_store_def mem_write_def)
  next
    case False
    then show ?thesis using c(2) [OF False] m by (auto simp: exec_store_def split: option.splits)
  qed
qed

lemma sum_u32: "unat (ucast a + ucast b :: u64) = unat a + unat b" for a b :: u32
  using unsigned_less [where ?'a = nat, of a] unsigned_less [where ?'a = nat, of b] by (simp add: unat_plus_simple)

lemma ucast_32_inj: "(ucast a :: u64) = ucast b \<longleftrightarrow> a = b" for a b :: u32
  by (metis unat_ucast_32 word_unat_eq_iff)

lemma check_bulk_spec:
  fixes start len :: u32
  assumes "interp_ok cfg env m st" and "checked cfg ctx st"
  shows "CHECK_BULK_MEMORY_OVERFLOW cfg m start (ucast len) st =
     (if unat start + unat len \<le> unat (memory_data_size m) then Some (memory_data m + ucast start) else None)"
    and "unat start + unat len \<le> unat (memory_data_size m) \<Longrightarrow>
           unat (memory_data m + ucast start) = unat (memory_data m) + unat start"
proof -
  have ok: "mem_ok cfg m" "linear_mem_size st = memory_data_size m" using assms(1) by (simp_all add: interp_ok_def)
  have "ucast start + ucast len \<le> memory_data_size m \<longleftrightarrow> unat start + unat len \<le> unat (memory_data_size m)"
    unfolding word_le_nat_alt sum_u32 ..
  then show "CHECK_BULK_MEMORY_OVERFLOW cfg m start (ucast len) st =
     (if unat start + unat len \<le> unat (memory_data_size m) then Some (memory_data m + ucast start) else None)"
    using assms(2) ok(2) by (auto simp: CHECK_BULK_MEMORY_OVERFLOW_def Let_def checked_def not_less [symmetric])
  assume "unat start + unat len \<le> unat (memory_data_size m)"
  then show "unat (memory_data m + ucast start) = unat (memory_data m) + unat start"
    using mem_end(2) [OF ok(1)] by (intro trans [OF unat_plus_simple]) simp_all
qed

lemma guarded_write_spec:
  assumes "interp_ok cfg env m st" and "ea + n \<le> unat (memory_data_size m)"
    and "\<And>a k. src = Some (a, k) \<Longrightarrow> native_fault (may_read (ivm st)) a k = None"
  shows "guarded_write ctx env src (unat (memory_data m) + ea, n) f st =
     (Normal (), st\<lparr>ivm := (ivm st)\<lparr>byte_of := f (byte_of (ivm st))\<rparr>\<rparr>)"
proof -
  have "space_ok cfg (ivm st) m" using assms(1) by (simp add: interp_ok_def)
  note w = in_memory_no_fault [OF this disjI2 [OF refl] assms(2)]
  have "(case src of None \<Rightarrow> None | Some (a, n) \<Rightarrow> native_fault (may_read (ivm st)) a n) = None"
    using assms(3) by (auto split: option.splits)
  then show ?thesis using w by (simp add: guarded_write_def)
qed

lemma exec_memory_fill_spec:
  assumes "interp_ok cfg env m st" and "checked cfg ctx st"
  shows "exec_memory_fill cfg ctx env dst val len st =
     (if unat dst + unat len \<le> unat (memory_data_size m)
      then (Normal (), mem_write m (unat dst) (replicate (unat len) (ucast val)) st) else trap st)"
proof -
  have m: "wasm_get_default_memory (imodule st) = Some m" using assms(1) by (simp add: interp_ok_def)
  note c = check_bulk_spec [OF assms, of dst len]
  show ?thesis
    using c guarded_write_spec [OF assms(1), of "unat dst" "unat len" None]
    by (simp add: exec_memory_fill_def m Let_def mem_write_def)
qed

lemma write_same [simp]: "write_bytes m a (map m [a..<a + n]) = m"
  by (auto simp: write_bytes_def fun_eq_iff)

lemma exec_memory_copy_spec:
  assumes "interp_ok cfg env m st" and "checked cfg ctx st"
  shows "exec_memory_copy cfg ctx env dst src len st =
     (if unat src + unat len \<le> unat (memory_data_size m) \<and> unat dst + unat len \<le> unat (memory_data_size m)
      then (Normal (), mem_write m (unat dst) (take (unat len) (drop (unat src) (contents (ivm st) m))) st) else trap st)"
proof -
  have m: "wasm_get_default_memory (imodule st) = Some m" and sp: "space_ok cfg (ivm st) m"
    using assms(1) by (simp_all add: interp_ok_def)
  note s = check_bulk_spec [OF assms, of src len] and d = check_bulk_spec [OF assms, of dst len]
  show ?thesis
  proof (cases "unat src + unat len \<le> unat (memory_data_size m) \<and> unat dst + unat len \<le> unat (memory_data_size m)")
    case False
    then show ?thesis using s(1) d(1) by (auto simp: exec_memory_copy_def m)
  next
    case True
    have slice: "take (unat len) (drop (unat src) (contents (ivm st) m)) =
        map (byte_of (ivm st)) [unat (memory_data m) + unat src..<unat (memory_data m) + unat src + unat len]"
      using True contents_slice [of "unat src" "unat len" m "ivm st"] by simp
    show ?thesis
    proof (cases "len \<noteq> 0 \<and> memory_data m + ucast dst \<noteq> memory_data m + ucast src")
      case copied: True
      have r: "native_fault (may_read (ivm st)) (unat (memory_data m) + unat src) (unat len) = None"
        using True by (intro in_memory_no_fault [OF sp]) simp_all
      show ?thesis
        using True copied s d r guarded_write_spec [OF assms(1), of "unat dst" "unat len"
            "Some (unat (memory_data m) + unat src, unat len)"]
        by (simp add: exec_memory_copy_def m mem_write_def memmove_def copy_is_write slice)
    next
      case False
      then consider "unat len = 0" | "dst = src" by (auto simp: ucast_32_inj)
      then have "mem_write m (unat dst) (take (unat len) (drop (unat src) (contents (ivm st) m))) st = st"
      proof cases
        case 1
        then show ?thesis by (simp add: mem_write_def)
      next
        case 2
        then show ?thesis by (simp add: slice mem_write_def)
      qed
      then show ?thesis using True False s(1) d(1) by (auto simp: exec_memory_copy_def m)
    qed
  qed
qed

text \<open>
  A data segment lies in memory that can be read, outside the reserved range of the linear memory.
\<close>

definition seg_ok :: "memory_inst \<Rightarrow> vm \<Rightarrow> data_segment \<Rightarrow> bool" where
  "seg_ok m v seg \<longleftrightarrow>
     seg_data seg \<noteq> 0 \<and> unat (seg_data seg) + unat (data_length seg) < 2 ^ 64 \<and>
     (\<forall>i < unat (data_length seg). may_read v (unat (seg_data seg) + i)) \<and>
     (unat (seg_data seg) + unat (data_length seg) \<le> unat (memory_data m) \<or>
      unat (memory_data m) + 2 ^ 33 \<le> unat (seg_data seg))"

definition seg_bytes :: "vm \<Rightarrow> data_segment \<Rightarrow> u8 list" where
  "seg_bytes v seg = map (\<lambda>i. byte_of v (unat (seg_data seg) + i)) [0..<unat (data_length seg)]"

text \<open>The limit that \<open>memory.init\<close> hands to \<open>b_memcpy_s\<close> is 0 for address 0 of a memory of 4 GB.\<close>

definition init_lost :: "memory_inst \<Rightarrow> u32 \<Rightarrow> bool" where
  "init_lost m addr \<longleftrightarrow> unat (memory_data_size m) = 2 ^ 32 \<and> addr = 0"

lemma init_limit:
  assumes "mem_ok cfg m" and "unat addr + n \<le> unat (memory_data_size m)"
  shows "unat (ucast (memory_data_size m - ucast addr) :: u32) =
     (if init_lost m addr then 0 else unat (memory_data_size m) - unat addr)"
proof -
  have "unat (memory_data_size m - ucast addr) = unat (memory_data_size m) - unat addr"
    using assms(2) by (subst unat_sub) (simp_all add: word_le_nat_alt)
  then have u: "unat (ucast (memory_data_size m - ucast addr) :: u32) = (unat (memory_data_size m) - unat addr) mod 2 ^ 32"
    by (simp add: unsigned_ucast_eq take_bit_eq_mod)
  show ?thesis
  proof (cases "init_lost m addr")
    case False
    then have "unat (memory_data_size m) - unat addr < 2 ^ 32"
      using mem_size_bound [OF assms(1)] assms(2) by (auto simp: init_lost_def unat_eq_0 [symmetric])
    then show ?thesis using u False by simp
  qed (use u in \<open>simp add: init_lost_def\<close>)
qed

lemma seg_slice:
  fixes off :: u32
  assumes "seg_ok m v seg" and "unat off + n \<le> unat (data_length seg)"
  shows "unat (seg_data seg + ucast off) = unat (seg_data seg) + unat off"
    and "map (byte_of v) [unat (seg_data seg) + unat off..<unat (seg_data seg) + unat off + n] = take n (drop (unat off) (seg_bytes v seg))"
    and "native_fault (may_read v) (unat (seg_data seg) + unat off) n = None"
proof -
  show "unat (seg_data seg + ucast off) = unat (seg_data seg) + unat off"
    using assms by (intro trans [OF unat_plus_simple]) (simp_all add: seg_ok_def)
  show "map (byte_of v) [unat (seg_data seg) + unat off..<unat (seg_data seg) + unat off + n] = take n (drop (unat off) (seg_bytes v seg))"
    using assms(2) by (intro nth_equalityI) (simp_all add: seg_bytes_def add.assoc)
  have "may_read v x" if "unat (seg_data seg) + unat off \<le> x" "x < unat (seg_data seg) + unat off + n" for x
    using assms that by (auto simp: seg_ok_def dest!: spec [of _ "x - unat (seg_data seg)"])
  then show "native_fault (may_read v) (unat (seg_data seg) + unat off) n = None" by (auto simp: no_fault_iff)
qed

lemma exec_memory_init_spec:
  assumes "interp_ok cfg env m st" and "checked cfg ctx st"
    and "bh_bitmap_get_bit (data_dropped st) (ucast segment) = Inr 0" and "unat segment < length (data_segments st)"
    and "seg_ok m (ivm st) (data_segments st ! unat segment)"
  defines "seg \<equiv> data_segments st ! unat segment"
  shows "exec_memory_init cfg ctx env segment addr offset bytes st =
     (if unat addr + unat bytes \<le> unat (memory_data_size m) \<and> unat offset + unat bytes \<le> unat (data_length seg)
      then (Normal (), if init_lost m addr then st
                       else mem_write m (unat addr) (take (unat bytes) (drop (unat offset) (seg_bytes (ivm st) seg))) st)
      else trap st)"
proof -
  have ok: "wasm_get_default_memory (imodule st) = Some m" "mem_ok cfg m" "linear_mem_size st = memory_data_size m"
    using assms(1) by (simp_all add: interp_ok_def)
  note c = check_bulk_spec [OF assms(1,2), of addr bytes]
  have seglen: "ucast offset + ucast bytes > (ucast (data_length seg) :: u64) \<longleftrightarrow> \<not> unat offset + unat bytes \<le> unat (data_length seg)"
    unfolding word_less_nat_alt sum_u32 by auto
  show ?thesis
  proof (cases "unat addr + unat bytes \<le> unat (memory_data_size m) \<and> unat offset + unat bytes \<le> unat (data_length seg)")
    case False
    then show ?thesis using c(1) assms(3,4) ok seglen
      by (auto simp: exec_memory_init_def seg_def [symmetric])
  next
    case True
    define D where "D = unat (memory_data m) + unat addr"
    define S where "S = unat (seg_data seg) + unat offset"
    note sl = seg_slice [OF assms(5) [folded seg_def] conjunct2 [OF True], folded S_def]
    note lim = init_limit [OF ok(2) conjunct1 [OF True]]
    have pos: "D \<noteq> 0" "S \<noteq> 0" using ok(2) assms(5)
      by (simp_all add: D_def S_def mem_ok_def seg_ok_def seg_def [symmetric] unat_eq_0)
    have dis: "disjnt_range D (unat bytes) S (unat bytes)"
      using assms(5) True mem_size_bound [OF ok(2)]
      by (auto simp: disjnt_range_def D_def S_def seg_ok_def seg_def [symmetric])
    have gw: "guarded_write ctx env (Some (S, unat bytes)) (D, unat bytes) f st =
       (Normal (), st\<lparr>ivm := (ivm st)\<lparr>byte_of := f (byte_of (ivm st))\<rparr>\<rparr>)" for f
      using guarded_write_spec [OF assms(1), of "unat addr" "unat bytes" "Some (S, unat bytes)"] True sl(3) by (simp add: D_def)
    have run: "exec_memory_init cfg ctx env segment addr offset bytes st =
       (case b_memcpy_s (byte_of (ivm st)) D (ucast (memory_data_size m - ucast addr)) S bytes of
          Inl _ \<Rightarrow> (Crashed, st)
        | Inr (r, mm) \<Rightarrow> (Normal (), st\<lparr>ivm := (ivm st)\<lparr>byte_of := mm\<rparr>\<rparr>))"
      using True c assms(3,4) ok seglen sl(1) gw
      by (simp add: exec_memory_init_def seg_def [symmetric] D_def split: sum.split)
    have copy: "b_memcpy_s (byte_of (ivm st)) D (ucast (memory_data_size m - ucast addr)) S bytes =
       (if bytes = 0 then Inr (0, byte_of (ivm st))
        else if init_lost m addr then Inr (- 1, byte_of (ivm st))
        else Inr (0, write_bytes (byte_of (ivm st)) D (take (unat bytes) (drop (unat offset) (seg_bytes (ivm st) seg)))))"
    proof (cases "bytes = 0")
      case False
      then have gt: "bytes > ucast (memory_data_size m - ucast addr) \<longleftrightarrow> init_lost m addr"
        unfolding word_less_nat_alt lim using True by (auto simp: unat_gt_0)
      have "memset_zero (byte_of (ivm st)) D 0 = byte_of (ivm st)" by (auto simp: memset_zero_def fun_eq_iff)
      then show ?thesis
        unfolding b_memcpy_s_def gt lim using False pos dis sl(2)
        by (simp add: memcpy_def copy_is_write)
    qed (simp add: b_memcpy_s_def)
    show ?thesis unfolding run copy using True by (simp add: mem_write_def D_def)
  qed
qed

lemma exec_memory_init_dropped:
  assumes "interp_ok cfg env m st" and "checked cfg ctx st"
    and "bh_bitmap_get_bit (data_dropped st) (ucast segment) = Inr 1"
  shows "exec_memory_init cfg ctx env segment addr offset bytes st =
     (if unat addr + unat bytes \<le> unat (memory_data_size m) \<and> unat offset + unat bytes = 0 then (Normal (), st) else trap st)"
proof -
  have m: "wasm_get_default_memory (imodule st) = Some m" using assms(1) by (simp add: interp_ok_def)
  note c = check_bulk_spec [OF assms(1,2), of addr bytes]
  have len: "ucast offset + ucast bytes > (0 :: u64) \<longleftrightarrow> unat offset + unat bytes \<noteq> 0"
    unfolding word_less_nat_alt sum_u32 by simp
  show ?thesis
  proof (cases "unat addr + unat bytes \<le> unat (memory_data_size m) \<and> unat offset + unat bytes = 0")
    case True
    then have "bytes = 0" "offset = 0" by (simp_all add: unat_eq_0)
    then show ?thesis using True c(1) m assms(3)
      by (simp add: exec_memory_init_def b_memcpy_s_def guarded_write_def native_fault_def)
  next
    case False
    then show ?thesis using c(1) m assms(3) len by (auto simp: exec_memory_init_def)
  qed
qed

section \<open>Growing\<close>

lemma enlarge_hw_total: "hw_bound_check cfg \<Longrightarrow> \<exists>r m' v' e. wasm_enlarge_memory_internal cfg env heap cb m inc v = Some (r, m', v', e)"
  by (auto simp: wasm_enlarge_memory_internal_def enlarge_failed_def Let_def split: prod.split)

lemma exec_memory_grow_spec:
  assumes "kernel_ok env" and "hw_bound_check cfg" and "interp_ok cfg env m st"
  shows "\<exists>r m' st'. exec_memory_grow cfg env heap cb delta st = Some (Normal r, st') \<and>
     interp_ok cfg env m' st' \<and> frame_ok m st st' \<and> memory_data m' = memory_data m \<and>
     num_bytes_per_page m' = num_bytes_per_page m \<and> max_page_count m' = max_page_count m \<and>
     data_dropped st' = data_dropped st \<and> cur_exception (imodule st') = cur_exception (imodule st) \<and>
     (r = cur_page_count m \<and> may_grow m delta \<and> unat (cur_page_count m') = unat (cur_page_count m) + unat delta \<and>
        contents (ivm st') m' = contents (ivm st) m @ replicate (unat delta * unat (num_bytes_per_page m)) 0
      \<or> r = - 1 \<and> m' = m \<and> contents (ivm st') m' = contents (ivm st) m)"
proof -
  have ok: "wasm_get_default_memory (imodule st) = Some m" "mem_ok cfg m" "space_ok cfg (ivm st) m" "paged env m"
    "linear_mem_size st = memory_data_size m" using assms(3) by (simp_all add: interp_ok_def)
  obtain ms where ms: "memories (imodule st) = m # ms"
    using ok(1) by (auto simp: wasm_get_default_memory_def split: list.splits)
  obtain r m' v' e where e: "wasm_enlarge_memory_internal cfg env heap cb m delta (ivm st) = Some (r, m', v', e)"
    using enlarge_hw_total [OF assms(2)] by blast
  note k = enlarge_hw_keeps [OF assms(1,2) ok(2-4) e]
  let ?inst = "imodule st\<lparr>memories := m' # ms\<rparr>"
  let ?st = "st\<lparr>imodule := ?inst, ivm := v', linear_mem_size := memory_data_size m'\<rparr>"
  have def': "wasm_get_default_memory ?inst = Some m'" by (simp add: wasm_get_default_memory_def)
  have run: "exec_memory_grow cfg env heap cb delta st = Some (Normal (if r then cur_page_count m else - 1), ?st)"
    using ok(1,5) ms e k def' by (auto simp: exec_memory_grow_def wasm_enlarge_memory_def Let_def)
  have "interp_ok cfg env m' ?st" using k def' by (simp add: interp_ok_def)
  moreover have "frame_ok m st ?st" using k by (simp add: frame_ok_def)
  ultimately show ?thesis using run k by (cases r) auto
qed

section \<open>Sequences of instructions\<close>

datatype mem_instr =
    Load load_op u32 u32
  | Store store_op u32 u32 u64
  | Memory_Size
  | Memory_Grow u32
  | Memory_Fill u32 u32 u32
  | Memory_Copy u32 u32 u32
  | Memory_Init u32 u32 u32 u32
  | Data_Drop u32

definition push :: "('a \<Rightarrow> wval list) \<Rightarrow> 'a outcome \<times> interp \<Rightarrow> wval list outcome \<times> interp" where
  "push f r = (case r of (Normal x, st) \<Rightarrow> (Normal (f x), st) | (Trapped, st) \<Rightarrow> (Trapped, st) | (Crashed, st) \<Rightarrow> (Crashed, st))"

text \<open>What one instruction pushes.\<close>

fun exec_instr ::
  "mem_config \<Rightarrow> thread_ctx \<Rightarrow> vm_env \<Rightarrow> heap_ops \<Rightarrow> bool \<Rightarrow> mem_instr \<Rightarrow> interp \<Rightarrow> (wval list outcome \<times> interp) option" where
  "exec_instr cfg ctx env heap cb (Load opc offset addr) st = Some (push (\<lambda>x. [x]) (exec_load cfg ctx env opc offset addr st))"
| "exec_instr cfg ctx env heap cb (Store opc offset addr sval) st =
     Some (push (\<lambda>_. []) (exec_store cfg ctx env opc offset addr sval st))"
| "exec_instr cfg ctx env heap cb Memory_Size st = Some (push (\<lambda>x. [I32 x]) (exec_memory_size st))"
| "exec_instr cfg ctx env heap cb (Memory_Grow delta) st =
     map_option (push (\<lambda>x. [I32 x])) (exec_memory_grow cfg env heap cb delta st)"
| "exec_instr cfg ctx env heap cb (Memory_Fill dst val len) st =
     Some (push (\<lambda>_. []) (exec_memory_fill cfg ctx env dst val len st))"
| "exec_instr cfg ctx env heap cb (Memory_Copy dst src len) st =
     Some (push (\<lambda>_. []) (exec_memory_copy cfg ctx env dst src len st))"
| "exec_instr cfg ctx env heap cb (Memory_Init segment addr offset bytes) st =
     Some (push (\<lambda>_. []) (exec_memory_init cfg ctx env segment addr offset bytes st))"
| "exec_instr cfg ctx env heap cb (Data_Drop segment) st = Some (push (\<lambda>_. []) (exec_data_drop segment st))"

section \<open>Values in memory\<close>

lemma le_word:
  "le_value (le_bytes 4 (unat a)) = unat a" "le_value (le_bytes 8 (unat b)) = unat b"
  "le_value (le_bytes 2 (unat c)) = unat c" "le_value (le_bytes 1 (unat d)) = unat d"
  for a :: u32 and b :: u64 and c :: "16 word" and d :: u8
  using unsigned_less [where ?'a = nat, of a] unsigned_less [where ?'a = nat, of b]
    unsigned_less [where ?'a = nat, of c] unsigned_less [where ?'a = nat, of d]
  by (simp_all add: le_value_bytes)

lemma and_power_bit: "val AND 2 ^ n \<noteq> 0 \<longleftrightarrow> bit val n" for val :: "'n::len word"
  by (metis and_exp_eq_0_iff_not_bit)

lemma scast_or_high:
  fixes v :: "'n::len word"
  assumes "bit v (LENGTH('n) - 1)"
  shows "scast v OR NOT (mask LENGTH('n)) = (scast v :: 'm::len word)"
  by (rule bit_word_eqI) (use assms in \<open>auto simp: bit_simps min_def\<close>)

lemma sign_ext_is_scast:
  "sign_ext_8_32 a = scast a" "sign_ext_16_32 b = scast b" "sign_ext_8_64 a = scast a"
  "sign_ext_16_64 b = scast b" "sign_ext_32_64 c = scast c"
proof -
  have m: "0xffffff00 = NOT (mask 8 :: u32)" "0xffff0000 = NOT (mask 16 :: u32)" "0xffffffffffffff00 = NOT (mask 8 :: u64)"
    "0xffffffffffff0000 = NOT (mask 16 :: u64)" "0xffffffff00000000 = NOT (mask 32 :: u64)"
    by (simp_all add: mask_eq_exp_minus_1)
  have s: "a AND 0x80 \<noteq> 0 \<longleftrightarrow> bit a 7" "b AND 0x8000 \<noteq> 0 \<longleftrightarrow> bit b 15" "c AND 0x80000000 \<noteq> 0 \<longleftrightarrow> bit c 31"
    using and_power_bit [of a 7] and_power_bit [of b 15] and_power_bit [of c 31] by simp_all
  show "sign_ext_8_32 a = scast a" "sign_ext_16_32 b = scast b" "sign_ext_8_64 a = scast a"
    "sign_ext_16_64 b = scast b" "sign_ext_32_64 c = scast c"
    using scast_or_high [of a, where ?'m = 32] scast_or_high [of b, where ?'m = 32] scast_or_high [of a, where ?'m = 64]
      scast_or_high [of b, where ?'m = 64] scast_or_high [of c, where ?'m = 64]
    unfolding sign_ext_8_32_def sign_ext_16_32_def sign_ext_8_64_def sign_ext_16_64_def sign_ext_32_64_def m s
    by (simp_all)
qed

text \<open>What the loads of the same width make of a stored value.\<close>

fun reads_back :: "store_op \<Rightarrow> u64 \<Rightarrow> (load_op \<times> wval) list" where
  "reads_back WASM_OP_I64_STORE x = [(WASM_OP_I64_LOAD, I64 x)]"
| "reads_back WASM_OP_I32_STORE x =
     [(WASM_OP_I32_LOAD, I32 (ucast x)), (WASM_OP_I64_LOAD32_U, I64 (ucast (ucast x :: u32))),
      (WASM_OP_I64_LOAD32_S, I64 (scast (ucast x :: u32)))]"
| "reads_back WASM_OP_I64_STORE32 x =
     [(WASM_OP_I32_LOAD, I32 (ucast x)), (WASM_OP_I64_LOAD32_U, I64 (ucast (ucast x :: u32))),
      (WASM_OP_I64_LOAD32_S, I64 (scast (ucast x :: u32)))]"
| "reads_back WASM_OP_I64_STORE16 x =
     [(WASM_OP_I32_LOAD16_U, I32 (ucast (ucast x :: 16 word))), (WASM_OP_I32_LOAD16_S, I32 (scast (ucast x :: 16 word))),
      (WASM_OP_I64_LOAD16_U, I64 (ucast (ucast x :: 16 word))), (WASM_OP_I64_LOAD16_S, I64 (scast (ucast x :: 16 word)))]"
| "reads_back WASM_OP_I32_STORE16 x =
     [(WASM_OP_I32_LOAD16_U, I32 (ucast (ucast (ucast x :: u32) :: 16 word))),
      (WASM_OP_I32_LOAD16_S, I32 (scast (ucast (ucast x :: u32) :: 16 word)))]"
| "reads_back WASM_OP_I64_STORE8 x =
     [(WASM_OP_I32_LOAD8_U, I32 (ucast (ucast x :: u8))), (WASM_OP_I32_LOAD8_S, I32 (scast (ucast x :: u8))),
      (WASM_OP_I64_LOAD8_U, I64 (ucast (ucast x :: u8))), (WASM_OP_I64_LOAD8_S, I64 (scast (ucast x :: u8)))]"
| "reads_back WASM_OP_I32_STORE8 x =
     [(WASM_OP_I32_LOAD8_U, I32 (ucast (ucast (ucast x :: u32) :: u8))),
      (WASM_OP_I32_LOAD8_S, I32 (scast (ucast (ucast x :: u32) :: u8)))]"

lemma reads_back_value:
  assumes "(lop, y) \<in> set (reads_back sop x)"
  shows "load_width lop = store_width sop" and "load_value lop (store_bytes sop x) = y"
proof -
  show "load_width lop = store_width sop" using assms by (cases sop) auto
  have "\<forall>(l, z) \<in> set (reads_back sop x). load_value l (store_bytes sop x) = z"
    by (cases sop) (simp_all only: reads_back.simps list.set ball_simps prod.case store_bytes.simps load_value.simps
        le_word of_nat_unat ucast_id sign_ext_is_scast simp_thms)
  then show "load_value lop (store_bytes sop x) = y" using assms by fast
qed

lemma slice_after_write: "ea + length xs \<le> length bs \<Longrightarrow> take (length xs) (drop ea (spec_write bs ea xs)) = xs"
  by (simp add: spec_write_def)

end
