(* ===== verification/Memory_Machine.thy ===== *)
theory Memory_Machine
  imports Interp_Memory
begin

text \<open>
  The memory instructions of WebAssembly as steps on a list of bytes, and the simulation of these
  steps by the interpreter under hardware checks.

  \<open>machine\<close> is the interface: an execution function that never crashes, keeps an invariant, stays
  inside a frame and does what the abstract step says; sequences of instructions then do the same.
  The interpreter is an instance of it.
\<close>

section \<open>Sequences of instructions\<close>

text \<open>Instructions in order, up to the first one that does not end normally.\<close>

fun run_instrs :: "('i \<Rightarrow> 'c \<Rightarrow> ('v list outcome \<times> 'c) option) \<Rightarrow> 'i list \<Rightarrow> 'c \<Rightarrow> ('v list outcome \<times> 'c) option" where
  "run_instrs exec [] c = Some (Normal [], c)"
| "run_instrs exec (i # is) c =
     (case exec i c of
        None \<Rightarrow> None
      | Some (Normal vs, c') \<Rightarrow>
          (case run_instrs exec is c' of
             Some (Normal ws, c'') \<Rightarrow> Some (Normal (vs @ ws), c'')
           | r \<Rightarrow> r)
      | Some (r, c') \<Rightarrow> Some (r, c'))"

text \<open>The abstract counterpart; \<open>None\<close> is a trap.\<close>

inductive spec_run :: "('a \<Rightarrow> 'i \<Rightarrow> 'v list option \<Rightarrow> 'a \<Rightarrow> bool) \<Rightarrow> 'a \<Rightarrow> 'i list \<Rightarrow> 'v list option \<Rightarrow> 'a \<Rightarrow> bool"
  for step where
  run_nil: "spec_run step a [] (Some []) a"
| run_cons: "step a i (Some vs) a' \<Longrightarrow> spec_run step a' is (Some ws) a'' \<Longrightarrow> spec_run step a (i # is) (Some (vs @ ws)) a''"
| run_later_trap: "step a i (Some vs) a' \<Longrightarrow> spec_run step a' is None a'' \<Longrightarrow> spec_run step a (i # is) None a''"
| run_trap: "step a i None a' \<Longrightarrow> spec_run step a (i # is) None a'"

inductive_simps spec_run_nil: "spec_run step a [] r a'"

fun result :: "'v list outcome \<Rightarrow> 'v list option" where
  "result (Normal vs) = Some vs"
| "result Trapped = None"
| "result Crashed = None"

locale machine =
  fixes inv :: "'c \<Rightarrow> bool"
    and frame :: "'c \<Rightarrow> 'c \<Rightarrow> bool"
    and valid :: "'c \<Rightarrow> 'i \<Rightarrow> bool"
    and abstr :: "'c \<Rightarrow> 'a"
    and exec :: "'i \<Rightarrow> 'c \<Rightarrow> ('v list outcome \<times> 'c) option"
    and step :: "'a \<Rightarrow> 'i \<Rightarrow> 'v list option \<Rightarrow> 'a \<Rightarrow> bool"
  assumes exec_step: "inv c \<Longrightarrow> valid c i \<Longrightarrow>
      \<exists>r c'. exec i c = Some (r, c') \<and> r \<noteq> Crashed \<and> inv c' \<and> frame c c' \<and> step (abstr c) i (result r) (abstr c')"
    and frame_refl: "frame c c"
    and frame_trans: "frame c c' \<Longrightarrow> frame c' c'' \<Longrightarrow> frame c c''"
    and valid_frame: "frame c c' \<Longrightarrow> valid c i \<Longrightarrow> valid c' i"
begin

lemma run_simulates:
  assumes "inv c" and "\<forall>i \<in> set is. valid c i"
  shows "\<exists>r c'. run_instrs exec is c = Some (r, c') \<and> r \<noteq> Crashed \<and> inv c' \<and> frame c c' \<and>
     spec_run step (abstr c) is (result r) (abstr c')"
  using assms
proof (induction "is" arbitrary: c)
  case Nil
  then show ?case by (auto simp: frame_refl intro: run_nil)
next
  case (Cons i "is")
  obtain r c' where c': "exec i c = Some (r, c')" "r \<noteq> Crashed" "inv c'" "frame c c'" "step (abstr c) i (result r) (abstr c')"
    using exec_step [of c i] Cons.prems by auto
  show ?case
  proof (cases r)
    case (Normal vs)
    obtain q c'' where q: "run_instrs exec is c' = Some (q, c'')" "q \<noteq> Crashed" "inv c''" "frame c' c''"
      "spec_run step (abstr c') is (result q) (abstr c'')"
      using Cons.IH [OF c'(3)] Cons.prems valid_frame [OF c'(4)] by auto
    show ?thesis using Normal c' q frame_trans [OF c'(4) q(4)]
      by (cases q) (auto intro: run_cons run_later_trap)
  next
    case Trapped
    then show ?thesis using c' by (auto intro: run_trap)
  qed (use c' in simp)
qed

end

section \<open>Memories as lists of bytes\<close>

record byte_memory =
  mbytes :: "u8 list"
  pages :: nat
  page_size :: nat
  max_pages_allowed :: nat
  segments :: "u8 list list"     \<comment> \<open>a dropped segment is empty\<close>

text \<open>
  One step. Growing may always fail. The last rule for \<open>memory.init\<close> is not part of WebAssembly: it
  is the behaviour of this interpreter at address 0 of a memory of 4 GB.
\<close>

inductive mem_step :: "byte_memory \<Rightarrow> mem_instr \<Rightarrow> wval list option \<Rightarrow> byte_memory \<Rightarrow> bool" where
  load: "unat off + unat addr + load_width opc \<le> length (mbytes s) \<Longrightarrow>
     mem_step s (Load opc off addr)
       (Some [load_value opc (take (load_width opc) (drop (unat off + unat addr) (mbytes s)))]) s"
| load_trap: "\<not> unat off + unat addr + load_width opc \<le> length (mbytes s) \<Longrightarrow> mem_step s (Load opc off addr) None s"
| store: "unat off + unat addr + store_width opc \<le> length (mbytes s) \<Longrightarrow>
     mem_step s (Store opc off addr x) (Some [])
       (s\<lparr>mbytes := spec_write (mbytes s) (unat off + unat addr) (store_bytes opc x)\<rparr>)"
| store_trap: "\<not> unat off + unat addr + store_width opc \<le> length (mbytes s) \<Longrightarrow> mem_step s (Store opc off addr x) None s"
| size: "mem_step s Memory_Size (Some [I32 (of_nat (pages s))]) s"
| grow: "pages s + unat d \<le> max_pages_allowed s \<Longrightarrow>
     mem_step s (Memory_Grow d) (Some [I32 (of_nat (pages s))])
       (s\<lparr>mbytes := mbytes s @ replicate (unat d * page_size s) 0, pages := pages s + unat d\<rparr>)"
| grow_failed: "mem_step s (Memory_Grow d) (Some [I32 (- 1)]) s"
| fill: "unat dst + unat len \<le> length (mbytes s) \<Longrightarrow>
     mem_step s (Memory_Fill dst x len) (Some [])
       (s\<lparr>mbytes := spec_write (mbytes s) (unat dst) (replicate (unat len) (ucast x))\<rparr>)"
| fill_trap: "\<not> unat dst + unat len \<le> length (mbytes s) \<Longrightarrow> mem_step s (Memory_Fill dst x len) None s"
| copy: "unat src + unat len \<le> length (mbytes s) \<Longrightarrow> unat dst + unat len \<le> length (mbytes s) \<Longrightarrow>
     mem_step s (Memory_Copy dst src len) (Some [])
       (s\<lparr>mbytes := spec_write (mbytes s) (unat dst) (take (unat len) (drop (unat src) (mbytes s)))\<rparr>)"
| copy_trap: "\<not> (unat src + unat len \<le> length (mbytes s) \<and> unat dst + unat len \<le> length (mbytes s)) \<Longrightarrow>
     mem_step s (Memory_Copy dst src len) None s"
| init: "unat addr + unat len \<le> length (mbytes s) \<Longrightarrow> unat off + unat len \<le> length (segments s ! unat seg) \<Longrightarrow>
     \<not> (length (mbytes s) = 2 ^ 32 \<and> addr = 0) \<Longrightarrow>
     mem_step s (Memory_Init seg addr off len) (Some [])
       (s\<lparr>mbytes := spec_write (mbytes s) (unat addr) (take (unat len) (drop (unat off) (segments s ! unat seg)))\<rparr>)"
| init_trap: "\<not> (unat addr + unat len \<le> length (mbytes s) \<and> unat off + unat len \<le> length (segments s ! unat seg)) \<Longrightarrow>
     mem_step s (Memory_Init seg addr off len) None s"
| init_ignored: "unat len \<le> length (mbytes s) \<Longrightarrow> unat off + unat len \<le> length (segments s ! unat seg) \<Longrightarrow>
     length (mbytes s) = 2 ^ 32 \<Longrightarrow>
     mem_step s (Memory_Init seg 0 off len) (Some []) s"
| drop: "mem_step s (Data_Drop seg) (Some []) (s\<lparr>segments := (segments s)[unat seg := []]\<rparr>)"

section \<open>The interpreter is a machine\<close>

abbreviation mem_of :: "interp \<Rightarrow> memory_inst" where
  "mem_of st \<equiv> the (wasm_get_default_memory (imodule st))"

definition abs_memory :: "interp \<Rightarrow> byte_memory" where
  "abs_memory st =
     \<lparr>mbytes = contents (ivm st) (mem_of st), pages = unat (cur_page_count (mem_of st)),
      page_size = unat (num_bytes_per_page (mem_of st)), max_pages_allowed = unat (max_page_count (mem_of st)),
      segments = map (\<lambda>i. if of_nat i \<in> bitmap_elems (data_dropped st) then []
                          else seg_bytes (ivm st) (data_segments st ! i)) [0..<length (data_segments st)]\<rparr>"

definition segs_ok :: "interp \<Rightarrow> bool" where
  "segs_ok st \<longleftrightarrow>
     bitmap_ok (data_dropped st) \<and> length (data_segments st) < 2 ^ 32 \<and>
     (\<forall>i < length (data_segments st).
        of_nat i \<in> bitmap_range (data_dropped st) \<and> seg_ok (mem_of st) (ivm st) (data_segments st ! i))"

definition machine_ok :: "mem_config \<Rightarrow> thread_ctx \<Rightarrow> vm_env \<Rightarrow> interp \<Rightarrow> bool" where
  "machine_ok cfg ctx env st \<longleftrightarrow>
     kernel_ok env \<and> hw_bound_check cfg \<and> in_wasm ctx \<and> interp_ok cfg env (mem_of st) st \<and> segs_ok st"

text \<open>Outside the reserved 8 GB nothing changes, and the memory stays where it is.\<close>

definition sandboxed :: "interp \<Rightarrow> interp \<Rightarrow> bool" where
  "sandboxed st st' \<longleftrightarrow> memory_data (mem_of st') = memory_data (mem_of st) \<and> frame_ok (mem_of st) st st'"

definition valid_instr :: "interp \<Rightarrow> mem_instr \<Rightarrow> bool" where
  "valid_instr st i =
     (case i of
        Memory_Init seg _ _ _ \<Rightarrow> unat seg < length (data_segments st)
      | Data_Drop seg \<Rightarrow> unat seg < length (data_segments st)
      | _ \<Rightarrow> True)"

lemma seg_frame:
  assumes "frame_ok m st st'" and "memory_data m' = memory_data m" and "seg_ok m (ivm st) seg"
  shows "seg_ok m' (ivm st') seg" and "seg_bytes (ivm st') seg = seg_bytes (ivm st) seg"
proof -
  have same: "byte_of (ivm st') (unat (seg_data seg) + i) = byte_of (ivm st) (unat (seg_data seg) + i)"
    "prot_of (ivm st') (unat (seg_data seg) + i) = prot_of (ivm st) (unat (seg_data seg) + i)"
    if "i < unat (data_length seg)" for i
    using assms(1,3) that by (auto simp: frame_ok_def seg_ok_def)
  then show "seg_ok m' (ivm st') seg" using assms(2,3) by (simp add: seg_ok_def may_read_def)
  show "seg_bytes (ivm st') seg = seg_bytes (ivm st) seg" using same by (simp add: seg_bytes_def)
qed

lemma segs_frame:
  assumes "sandboxed st st'" and "segs_ok st" and "data_dropped st' = data_dropped st"
  shows "segs_ok st'" and "segments (abs_memory st') = segments (abs_memory st)"
  using assms seg_frame [of "mem_of st" st st' "mem_of st'"]
  by (auto simp: segs_ok_def sandboxed_def frame_ok_def abs_memory_def)

lemma interp_mem: "interp_ok cfg env m st \<Longrightarrow> mem_of st = m"
  by (simp add: interp_ok_def)

lemma write_step:
  assumes "machine_ok cfg ctx env st" and "ea + length xs \<le> length (mbytes (abs_memory st))"
  defines "st' \<equiv> mem_write (mem_of st) ea xs st"
  shows "machine_ok cfg ctx env st'" and "sandboxed st st'"
    and "abs_memory st' = (abs_memory st)\<lparr>mbytes := spec_write (mbytes (abs_memory st)) ea xs\<rparr>"
proof -
  have ok: "interp_ok cfg env (mem_of st) st" "segs_ok st" using assms(1) by (simp_all add: machine_ok_def)
  have len: "ea + length xs \<le> unat (memory_data_size (mem_of st))" using assms(2) by (simp add: abs_memory_def)
  note w = mem_write_keeps [OF ok(1) len, folded st'_def]
  have m: "mem_of st' = mem_of st" "data_dropped st' = data_dropped st" by (simp_all add: st'_def mem_write_def)
  then show sb: "sandboxed st st'" using w(2) by (simp add: sandboxed_def)
  note s = segs_frame [OF sb ok(2) m(2)]
  show "machine_ok cfg ctx env st'" using assms(1) w(1) s(1) m(1) by (simp add: machine_ok_def)
  show "abs_memory st' = (abs_memory st)\<lparr>mbytes := spec_write (mbytes (abs_memory st)) ea xs\<rparr>"
    using w(3) s(2) m by (simp add: abs_memory_def)
qed

lemma trap_step:
  assumes "machine_ok cfg ctx env st"
  defines "st' \<equiv> snd (trap st :: 'b outcome \<times> interp)"
  shows "machine_ok cfg ctx env st'" and "sandboxed st st'" and "abs_memory st' = abs_memory st"
proof -
  have m: "wasm_get_default_memory (imodule st') = wasm_get_default_memory (imodule st)" "ivm st' = ivm st"
    "linear_mem_size st' = linear_mem_size st" "data_segments st' = data_segments st" "data_dropped st' = data_dropped st"
    by (simp_all add: st'_def trap_def wasm_set_exception_def wasm_get_default_memory_def)
  then show sb: "sandboxed st st'" by (simp add: sandboxed_def frame_ok_def)
  show "abs_memory st' = abs_memory st" using m by (simp add: abs_memory_def)
  show "machine_ok cfg ctx env st'" using assms(1) m by (simp add: machine_ok_def interp_ok_def segs_ok_def)
qed

text \<open>
  The shape all instructions but growth and \<open>data.drop\<close> share: a write inside the memory, or a trap.
\<close>

lemma exec_write_or_trap:
  assumes "machine_ok cfg ctx env st"
    and "run = (if b then (Normal vs, mem_write (mem_of st) ea xs st) else trap st)"
    and "b \<Longrightarrow> ea + length xs \<le> length (mbytes (abs_memory st))"
    and "b \<Longrightarrow> mem_step (abs_memory st) i (Some (f vs)) ((abs_memory st)\<lparr>mbytes := spec_write (mbytes (abs_memory st)) ea xs\<rparr>)"
    and "\<not> b \<Longrightarrow> mem_step (abs_memory st) i None (abs_memory st)"
  shows "\<exists>r st'. push f run = (r, st') \<and> r \<noteq> Crashed \<and> machine_ok cfg ctx env st' \<and> sandboxed st st' \<and>
     mem_step (abs_memory st) i (result r) (abs_memory st')"
proof (cases b)
  case True
  then show ?thesis using assms(2,4) write_step [OF assms(1) assms(3) [OF True]] by (simp add: push_def)
next
  case False
  have "push f run = (Trapped, snd (trap st :: 'a outcome \<times> interp))" using False assms(2) by (simp add: push_def trap_def)
  then show ?thesis using assms(5) [OF False] trap_step [OF assms(1), where ?'b = 'a] by simp
qed

lemma mem_write_Nil [simp]: "mem_write m ea [] st = st"
  by (simp add: mem_write_def)

lemma spec_write_Nil [simp]: "spec_write bs ea [] = bs"
  by (simp add: spec_write_def)

lemma abs_bytes [simp]: "mbytes (abs_memory st) = contents (ivm st) (mem_of st)"
  by (simp add: abs_memory_def)

lemma abs_same [simp]: "(abs_memory st)\<lparr>mbytes := contents (ivm st) (mem_of st)\<rparr> = abs_memory st"
  by (simp add: abs_memory_def)

lemmas abs_steps = mem_step.load [where s = "abs_memory st" for st, simplified]
  mem_step.load_trap [where s = "abs_memory st" for st, simplified]
  mem_step.store [where s = "abs_memory st" for st, simplified]
  mem_step.store_trap [where s = "abs_memory st" for st, simplified]
  mem_step.fill [where s = "abs_memory st" for st, simplified]
  mem_step.fill_trap [where s = "abs_memory st" for st, simplified]
  mem_step.copy [where s = "abs_memory st" for st, simplified]
  mem_step.copy_trap [where s = "abs_memory st" for st, simplified]

lemmas init_steps = mem_step.init [where s = "abs_memory st" for st, simplified]
  mem_step.init_trap [where s = "abs_memory st" for st, simplified]
  mem_step.init_ignored [where s = "abs_memory st" for st, simplified]

lemma machine_checked: "machine_ok cfg ctx env st \<Longrightarrow> interp_ok cfg env (mem_of st) st \<and> checked cfg ctx st"
  by (simp add: machine_ok_def checked_def)

lemma load_step:
  assumes "machine_ok cfg ctx env st"
  shows "\<exists>r st'. push (\<lambda>x. [x]) (exec_load cfg ctx env opc off addr st) = (r, st') \<and> r \<noteq> Crashed \<and>
     machine_ok cfg ctx env st' \<and> sandboxed st st' \<and> mem_step (abs_memory st) (Load opc off addr) (result r) (abs_memory st')"
proof -
  note ok = machine_checked [OF assms]
  note run = exec_load_spec [OF conjunct1 [OF ok] conjunct2 [OF ok], of opc off addr]
  show ?thesis
    by (rule exec_write_or_trap [OF assms, where ea = 0 and xs = "[]", unfolded mem_write_Nil, OF run])
       (simp_all add: abs_steps)
qed

lemma store_step:
  assumes "machine_ok cfg ctx env st"
  shows "\<exists>r st'. push (\<lambda>_. []) (exec_store cfg ctx env opc off addr x st) = (r, st') \<and> r \<noteq> Crashed \<and>
     machine_ok cfg ctx env st' \<and> sandboxed st st' \<and> mem_step (abs_memory st) (Store opc off addr x) (result r) (abs_memory st')"
proof -
  note ok = machine_checked [OF assms]
  note run = exec_store_spec [OF conjunct1 [OF ok] conjunct2 [OF ok], of opc off addr x]
  show ?thesis
    by (rule exec_write_or_trap [OF assms run]) (simp_all add: abs_steps)
qed

lemma fill_step:
  assumes "machine_ok cfg ctx env st"
  shows "\<exists>r st'. push (\<lambda>_. []) (exec_memory_fill cfg ctx env dst x len st) = (r, st') \<and> r \<noteq> Crashed \<and>
     machine_ok cfg ctx env st' \<and> sandboxed st st' \<and> mem_step (abs_memory st) (Memory_Fill dst x len) (result r) (abs_memory st')"
proof -
  note ok = machine_checked [OF assms]
  note run = exec_memory_fill_spec [OF conjunct1 [OF ok] conjunct2 [OF ok], of dst x len]
  show ?thesis
    by (rule exec_write_or_trap [OF assms run]) (simp_all add: abs_steps)
qed

lemma copy_step:
  assumes "machine_ok cfg ctx env st"
  shows "\<exists>r st'. push (\<lambda>_. []) (exec_memory_copy cfg ctx env dst src len st) = (r, st') \<and> r \<noteq> Crashed \<and>
     machine_ok cfg ctx env st' \<and> sandboxed st st' \<and> mem_step (abs_memory st) (Memory_Copy dst src len) (result r) (abs_memory st')"
proof -
  note ok = machine_checked [OF assms]
  note run = exec_memory_copy_spec [OF conjunct1 [OF ok] conjunct2 [OF ok], of dst src len]
  show ?thesis
    by (rule exec_write_or_trap [OF assms run]) (auto simp: abs_steps)
qed

text \<open>The dropped segments are those of the bitmap.\<close>

lemma segment_facts:
  fixes seg :: u32
  assumes "segs_ok st" and "unat seg < length (data_segments st)"
  shows "(ucast seg :: u64) = of_nat (unat seg)" and "ucast seg \<in> bitmap_range (data_dropped st)"
    and "bh_bitmap_get_bit (data_dropped st) (ucast seg) = Inr (if ucast seg \<in> bitmap_elems (data_dropped st) then 1 else 0)"
    and "segments (abs_memory st) ! unat seg =
           (if ucast seg \<in> bitmap_elems (data_dropped st) then [] else seg_bytes (ivm st) (data_segments st ! unat seg))"
    and "seg_ok (mem_of st) (ivm st) (data_segments st ! unat seg)"
proof -
  have "unat (ucast seg :: u64) = unat seg" by simp
  moreover have "unat (of_nat (unat seg) :: u64) = unat seg"
    using unsigned_less [where ?'a = nat, of seg] by (simp add: unsigned_of_nat take_bit_nat_eq_self)
  ultimately show u: "(ucast seg :: u64) = of_nat (unat seg)" by (metis word_unat_eq_iff)
  show r: "ucast seg \<in> bitmap_range (data_dropped st)" and "seg_ok (mem_of st) (ivm st) (data_segments st ! unat seg)"
    using assms unfolding u segs_ok_def by blast+
  show "bh_bitmap_get_bit (data_dropped st) (ucast seg) = Inr (if ucast seg \<in> bitmap_elems (data_dropped st) then 1 else 0)"
    using assms(1) r by (intro bitmap.get_elems) (simp add: segs_ok_def)
  show "segments (abs_memory st) ! unat seg =
      (if ucast seg \<in> bitmap_elems (data_dropped st) then [] else seg_bytes (ivm st) (data_segments st ! unat seg))"
    using assms(2) unfolding u by (simp add: abs_memory_def)
qed

lemma length_seg_bytes [simp]: "length (seg_bytes v seg) = unat (data_length seg)"
  by (simp add: seg_bytes_def)

lemma init_empty:
  assumes "unat len = 0" and "unat addr \<le> unat (memory_data_size (mem_of st))" and "unat off \<le> length (segments (abs_memory st) ! unat seg)"
  shows "mem_step (abs_memory st) (Memory_Init seg addr off len) (Some []) (abs_memory st)"
proof (cases "unat (memory_data_size (mem_of st)) = 2 ^ 32 \<and> addr = 0")
  case True
  then show ?thesis using assms init_steps(3) [of len st off seg] by simp
next
  case False
  then show ?thesis using assms init_steps(1) [of addr len st off seg] by auto
qed

lemma init_step:
  assumes "machine_ok cfg ctx env st" and "unat seg < length (data_segments st)"
  shows "\<exists>r st'. push (\<lambda>_. []) (exec_memory_init cfg ctx env seg addr off len st) = (r, st') \<and> r \<noteq> Crashed \<and>
     machine_ok cfg ctx env st' \<and> sandboxed st st' \<and> mem_step (abs_memory st) (Memory_Init seg addr off len) (result r) (abs_memory st')"
proof -
  note ok = machine_checked [OF assms(1)]
  have segs: "segs_ok st" using assms(1) by (simp add: machine_ok_def)
  note f = segment_facts [OF segs assms(2)]
  let ?m = "mem_of st" and ?seg = "data_segments st ! unat seg"
  show ?thesis
  proof (cases "ucast seg \<in> bitmap_elems (data_dropped st)")
    case True
    note run = exec_memory_init_dropped [OF conjunct1 [OF ok] conjunct2 [OF ok], of seg addr off len]
    show ?thesis
      by (rule exec_write_or_trap [OF assms(1), where ea = 0 and xs = "[]", unfolded mem_write_Nil, OF run])
         (use f True in \<open>auto simp: init_steps(2) init_empty\<close>)
  next
    case False
    have get: "bh_bitmap_get_bit (data_dropped st) (ucast seg) = Inr 0" using f(3) False by simp
    note run = exec_memory_init_spec [OF conjunct1 [OF ok] conjunct2 [OF ok] get assms(2) f(5), of addr off len]
    show ?thesis
    proof (cases "init_lost ?m addr")
      case lost: True
      show ?thesis
        by (rule exec_write_or_trap [OF assms(1), where ea = 0 and xs = "[]", unfolded mem_write_Nil, OF run [unfolded if_P [OF lost]]])
           (use f False lost in \<open>auto simp: init_steps init_lost_def\<close>)
    next
      case kept: False
      show ?thesis
        by (rule exec_write_or_trap [OF assms(1) run [unfolded if_not_P [OF kept]]])
           (use f False kept init_steps(1) [of addr len st off seg] in \<open>auto simp: init_steps(2) init_lost_def\<close>)
    qed
  qed
qed

lemma drop_step:
  assumes "machine_ok cfg ctx env st" and "unat seg < length (data_segments st)"
  shows "\<exists>r st'. push (\<lambda>_. []) (exec_data_drop seg st) = (r, st') \<and> r \<noteq> Crashed \<and>
     machine_ok cfg ctx env st' \<and> sandboxed st st' \<and> mem_step (abs_memory st) (Data_Drop seg) (result r) (abs_memory st')"
proof -
  have segs: "segs_ok st" using assms(1) by (simp add: machine_ok_def)
  note f = segment_facts [OF segs assms(2)]
  obtain b where b: "bh_bitmap_set_bit (data_dropped st) (ucast seg) = Inr b" "bitmap_ok b"
    "bitmap_range b = bitmap_range (data_dropped st)" "bitmap_elems b = insert (ucast seg) (bitmap_elems (data_dropped st))"
    using bitmap.set_elems [of "data_dropped st" "ucast seg"] segs f(2) by (auto simp: segs_ok_def)
  let ?st = "st\<lparr>data_dropped := b\<rparr>"
  have inj: "(of_nat i :: u64) = ucast seg \<longleftrightarrow> i = unat seg" if "i < length (data_segments st)" for i
  proof -
    have "unat (of_nat i :: u64) = i" using that segs by (simp add: segs_ok_def unsigned_of_nat take_bit_nat_eq_self)
    then show ?thesis by (metis unat_ucast_32 word_unat_eq_iff)
  qed
  have "segments (abs_memory ?st) = (segments (abs_memory st))[unat seg := []]"
    using assms(2) inj by (intro nth_equalityI) (auto simp: abs_memory_def b(4) nth_list_update)
  then have "abs_memory ?st = (abs_memory st)\<lparr>segments := (segments (abs_memory st))[unat seg := []]\<rparr>"
    by (simp add: abs_memory_def)
  then have "mem_step (abs_memory st) (Data_Drop seg) (Some []) (abs_memory ?st)" by (simp add: mem_step.drop)
  moreover have "machine_ok cfg ctx env ?st"
    using assms(1) b by (simp add: machine_ok_def interp_ok_def segs_ok_def)
  moreover have "sandboxed st ?st" by (simp add: sandboxed_def frame_ok_def)
  ultimately show ?thesis by (simp add: exec_data_drop_def b(1) push_def)
qed

lemma size_step:
  assumes "machine_ok cfg ctx env st"
  shows "\<exists>r st'. push (\<lambda>x. [I32 x]) (exec_memory_size st) = (r, st') \<and> r \<noteq> Crashed \<and>
     machine_ok cfg ctx env st' \<and> sandboxed st st' \<and> mem_step (abs_memory st) Memory_Size (result r) (abs_memory st')"
proof -
  obtain m where m: "wasm_get_default_memory (imodule st) = Some m"
    using assms by (auto simp: machine_ok_def interp_ok_def)
  then have "mem_step (abs_memory st) Memory_Size (Some [I32 (cur_page_count m)]) (abs_memory st)"
    using mem_step.size [of "abs_memory st"] by (simp add: abs_memory_def)
  then show ?thesis using assms m by (simp add: exec_memory_size_def push_def sandboxed_def)
qed

lemma grow_step:
  assumes "machine_ok cfg ctx env st"
  shows "\<exists>r st'. map_option (push (\<lambda>x. [I32 x])) (exec_memory_grow cfg env heap cb d st) = Some (r, st') \<and> r \<noteq> Crashed \<and>
     machine_ok cfg ctx env st' \<and> sandboxed st st' \<and> mem_step (abs_memory st) (Memory_Grow d) (result r) (abs_memory st')"
proof -
  let ?m = "mem_of st"
  have ok: "kernel_ok env" "hw_bound_check cfg" "interp_ok cfg env ?m st" "segs_ok st"
    using assms by (simp_all add: machine_ok_def)
  obtain r m' st' where g: "exec_memory_grow cfg env heap cb d st = Some (Normal r, st')"
    "interp_ok cfg env m' st'" "frame_ok ?m st st'" "memory_data m' = memory_data ?m"
    "num_bytes_per_page m' = num_bytes_per_page ?m" "max_page_count m' = max_page_count ?m"
    "data_dropped st' = data_dropped st"
    "r = cur_page_count ?m \<and> may_grow ?m d \<and> unat (cur_page_count m') = unat (cur_page_count ?m) + unat d \<and>
        contents (ivm st') m' = contents (ivm st) ?m @ replicate (unat d * unat (num_bytes_per_page ?m)) 0
      \<or> r = - 1 \<and> m' = ?m \<and> contents (ivm st') m' = contents (ivm st) ?m"
    using exec_memory_grow_spec [OF ok(1-3), of heap cb d] by (elim exE conjE) (rule that)
  have m': "mem_of st' = m'" using g(2) by (rule interp_mem)
  have sb: "sandboxed st st'" using g(3,4) m' by (simp add: sandboxed_def)
  note s = segs_frame [OF sb ok(4) g(7)]
  have "machine_ok cfg ctx env st'" using assms g(2) s(1) m' by (simp add: machine_ok_def)
  moreover have "mem_step (abs_memory st) (Memory_Grow d) (Some [I32 r]) (abs_memory st')"
    using g(8)
  proof
    assume grown: "r = cur_page_count ?m \<and> may_grow ?m d \<and> unat (cur_page_count m') = unat (cur_page_count ?m) + unat d \<and>
        contents (ivm st') m' = contents (ivm st) ?m @ replicate (unat d * unat (num_bytes_per_page ?m)) 0"
    then have "abs_memory st' = (abs_memory st)\<lparr>mbytes := mbytes (abs_memory st) @ replicate (unat d * page_size (abs_memory st)) 0,
        pages := pages (abs_memory st) + unat d\<rparr>"
      using s(2) g(5,6) m' by (simp add: abs_memory_def)
    then show ?thesis using mem_step.grow [of "abs_memory st" d] grown by (simp add: abs_memory_def may_grow_def)
  next
    assume failed: "r = - 1 \<and> m' = ?m \<and> contents (ivm st') m' = contents (ivm st) ?m"
    then have "abs_memory st' = abs_memory st" using s(2) m' by (auto simp: abs_memory_def)
    then show ?thesis using mem_step.grow_failed [of "abs_memory st" d] failed by simp
  qed
  ultimately show ?thesis using g(1) sb by (simp add: push_def)
qed

lemma instr_step:
  assumes "machine_ok cfg ctx env st" and "valid_instr st i"
  shows "\<exists>r st'. exec_instr cfg ctx env heap cb i st = Some (r, st') \<and> r \<noteq> Crashed \<and>
     machine_ok cfg ctx env st' \<and> sandboxed st st' \<and> mem_step (abs_memory st) i (result r) (abs_memory st')"
  using assms load_step store_step size_step grow_step fill_step copy_step init_step drop_step
  by (cases i) (simp_all add: valid_instr_def)

interpretation interpreter: machine "machine_ok cfg ctx env" sandboxed valid_instr abs_memory
  "exec_instr cfg ctx env heap cb" mem_step
  for cfg ctx env heap cb
proof unfold_locales
  show "\<exists>r st'. exec_instr cfg ctx env heap cb i st = Some (r, st') \<and> r \<noteq> Crashed \<and>
      machine_ok cfg ctx env st' \<and> sandboxed st st' \<and> mem_step (abs_memory st) i (result r) (abs_memory st')"
    if "machine_ok cfg ctx env st" "valid_instr st i" for st i by (rule instr_step [OF that])
  show "sandboxed st st" for st by (simp add: sandboxed_def)
  show "sandboxed st st''" if "sandboxed st st'" "sandboxed st' st''" for st st' st''
    using that by (simp add: sandboxed_def frame_ok_def)
  show "valid_instr st' i" if "sandboxed st st'" "valid_instr st i" for st st' i
    using that by (simp add: sandboxed_def frame_ok_def valid_instr_def split: mem_instr.splits)
qed

end
