(* ===== verification/Runtime_Memory.thy ===== *)
theory Runtime_Memory
  imports Memory_Machine
begin

text \<open>
  Properties of the linear memories of the WebAssembly runtime, from the system calls up to
  sequences of instructions.
\<close>

section \<open>A concrete kernel and state\<close>

text \<open>The witnesses use this kernel: it maps at one address, when the range is free.\<close>

definition demo_base :: u64 where
  "demo_base = 0x200000000"

definition demo_kernel :: vm_env where
  "demo_kernel =
     \<lparr>k_pagesize = 4096,
      k_mmap = (\<lambda>v hint n prot flags.
        if unat n < 2 ^ 40 \<and> (\<forall>x \<in> {unat demo_base..<unat demo_base + unat n}. prot_of v x = None)
        then Inr demo_base else Inl ENOMEM),
      k_munmap = (\<lambda>v a n. True),
      k_mremap = (\<lambda>v old osz nsz. Inl ENOMEM),
      k_mprotect = (\<lambda>v a n p. \<forall>x \<in> {unat a..<unat a + unat n}. prot_of v x \<noteq> None)\<rparr>"

lemma demo_kernel_ok: "kernel_ok demo_kernel" "unmap_ok demo_kernel" "settles demo_kernel"
proof -
  have "\<exists>k. 12 \<le> k \<and> k \<le> 16 \<and> (4096 :: u64) = 2 ^ k" by (intro exI [of _ 12]) simp
  then show "kernel_ok demo_kernel"
    by (auto simp: kernel_ok_def demo_kernel_def demo_base_def within_def split: if_splits)
  show "unmap_ok demo_kernel" by (simp add: unmap_ok_def demo_kernel_def)
  show "settles demo_kernel" by (auto simp: settles_def demo_kernel_def)
qed

definition demo_cfg :: mem_config where
  "demo_cfg = \<lparr>hw_bound_check = True, configurable_bounds_checks = False\<rparr>"

definition demo_memory :: memory_inst where
  "demo_memory = \<lparr>num_bytes_per_page = 65536, cur_page_count = 1, max_page_count = 2, memory_data_size = 65536,
     memory_data = demo_base, memory_data_end = demo_base + 65536, heap_data = 0, heap_data_end = 0, heap_handle = 0\<rparr>"

text \<open>One page of memory with its guard, and a data segment of three bytes.\<close>

definition demo_vm :: vm where
  "demo_vm = \<lparr>prot_of = (\<lambda>x. if unat demo_base \<le> x \<and> x < unat demo_base + 65536 then Some rw
                            else if unat demo_base \<le> x \<and> x < unat demo_base + 2 ^ 33 then Some PROT_NONE
                            else if 0x1000 \<le> x \<and> x < 0x2000 then Some PROT_READ else None),
     byte_of = (\<lambda>x. if x < 0x2000 then 7 else 0), calls = 0\<rparr>"

definition demo_state :: interp where
  "demo_state = \<lparr>imodule = \<lparr>memories = [demo_memory], disable_bounds_checks = False, cur_exception = []\<rparr>,
     ivm = demo_vm, linear_mem_size = 65536,
     data_dropped = \<lparr>begin_index = 0, end_index = 1, bits = [0]\<rparr>,
     data_segments = [\<lparr>seg_data = 0x1000, data_length = 3\<rparr>]\<rparr>"

definition demo_ctx :: thread_ctx where
  "demo_ctx = \<lparr>in_wasm = True, stack_min_addr = 0x3000, exce_check_guard_page = 0x9000\<rparr>"

lemma demo_machine_ok: "machine_ok demo_cfg demo_ctx demo_kernel demo_state"
proof -
  have m: "mem_of demo_state = demo_memory"
    by (simp add: demo_state_def wasm_get_default_memory_def)
  have "mem_ok demo_cfg demo_memory"
    by (simp add: mem_ok_def demo_memory_def demo_cfg_def reserved_def demo_base_def)
  moreover have "space_ok demo_cfg demo_vm demo_memory"
    by (auto simp: space_ok_def demo_memory_def demo_cfg_def reserved_def demo_vm_def demo_base_def)
  moreover have "paged demo_kernel demo_memory"
    by (simp add: paged_def demo_memory_def demo_kernel_def demo_base_def)
  moreover have "seg_ok demo_memory demo_vm \<lparr>seg_data = 0x1000, data_length = 3\<rparr>"
    by (auto simp: seg_ok_def demo_memory_def demo_vm_def demo_base_def may_read_def PROT_READ_def)
  ultimately show ?thesis
    unfolding machine_ok_def interp_ok_def segs_ok_def m
    using demo_kernel_ok(1) by (auto simp: demo_state_def demo_cfg_def demo_ctx_def demo_memory_def
        wasm_get_default_memory_def bitmap_ok_def bitmap_range_def)
qed

section \<open>Instructions\<close>

text \<open>
  C25: The sandbox: whatever memory instructions run, with whatever operands, the process does not
  crash, the memory stays well formed, and no byte and no mapping outside the 8 GB reserved for the
  linear memory changes.
\<close>

theorem memory_sandbox:
  assumes "machine_ok cfg ctx env st" and "\<forall>i \<in> set is. valid_instr st i"
  shows "\<exists>r st'. run_instrs (exec_instr cfg ctx env heap cb) is st = Some (r, st') \<and> r \<noteq> Crashed \<and>
     machine_ok cfg ctx env st' \<and> memory_data (mem_of st') = memory_data (mem_of st) \<and>
     (\<forall>x. x < unat (memory_data (mem_of st)) \<or> unat (memory_data (mem_of st)) + 2 ^ 33 \<le> x \<longrightarrow>
        byte_of (ivm st') x = byte_of (ivm st) x \<and> prot_of (ivm st') x = prot_of (ivm st) x)"
proof -
  obtain r st' where "run_instrs (exec_instr cfg ctx env heap cb) is st = Some (r, st')" "r \<noteq> Crashed"
    "machine_ok cfg ctx env st'" "sandboxed st st'"
    using interpreter.run_simulates [OF assms] by metis
  then show ?thesis by (auto simp: sandboxed_def frame_ok_def)
qed

theorem memory_sandbox_witness:
  "\<exists>r st'. run_instrs (exec_instr demo_cfg demo_ctx demo_kernel \<lparr>heap_corrupted = \<lambda>v h. False, heap_migrate = \<lambda>v h p n. (0, v)\<rparr> False)
       [Store WASM_OP_I32_STORE 0 65532 5, Memory_Init 0 16 1 2, Load WASM_OP_I64_LOAD 0xFFFFFFFF 0xFFFFFFFF] demo_state = Some (r, st') \<and>
     r \<noteq> Crashed \<and> prot_of (ivm st') 0x1000 = prot_of demo_vm 0x1000"
proof -
  let ?is = "[Store WASM_OP_I32_STORE 0 65532 5, Memory_Init 0 16 1 2, Load WASM_OP_I64_LOAD 0xFFFFFFFF 0xFFFFFFFF]"
  have "\<forall>i \<in> set ?is. valid_instr demo_state i" by (simp add: valid_instr_def demo_state_def)
  moreover have "0x1000 < unat (memory_data (mem_of demo_state))"
    by (simp add: demo_state_def wasm_get_default_memory_def demo_memory_def demo_base_def)
  ultimately show ?thesis
    using memory_sandbox [OF demo_machine_ok, of ?is "\<lparr>heap_corrupted = \<lambda>v h. False, heap_migrate = \<lambda>v h p n. (0, v)\<rparr>" False]
    by (auto simp: demo_state_def)
qed



text \<open>
  C27: Catching page faults is the same as checking every address: with the 8 GB reservation, a load,
  store, fill or copy that leaves the checks to the processor gives the same result, the same trap
  and the same state as one that compares the address with the size of the memory.
\<close>

theorem hardware_is_software_check:
  assumes "machine_ok cfg ctx env st" and "sw = cfg\<lparr>hw_bound_check := False\<rparr>" and "\<not> disable_checks sw st"
  shows "exec_load cfg ctx env lop offset addr st = exec_load sw ctx env lop offset addr st \<and>
     exec_store cfg ctx env sop offset addr x st = exec_store sw ctx env sop offset addr x st \<and>
     exec_memory_fill cfg ctx env dst val len st = exec_memory_fill sw ctx env dst val len st \<and>
     exec_memory_copy cfg ctx env dst src len st = exec_memory_copy sw ctx env dst src len st"
proof -
  have hw: "interp_ok cfg env (mem_of st) st" "checked cfg ctx st" using machine_checked [OF assms(1)] by simp_all
  have "mem_ok sw (mem_of st)"
    using hw(1) mem_end(2) by (auto simp: interp_ok_def mem_ok_def reserved_def assms(2))
  then have sw: "interp_ok sw env (mem_of st) st" "checked sw ctx st"
    using hw(1) assms(3) by (auto simp: interp_ok_def space_ok_def reserved_def checked_def assms(2))
  show ?thesis
    by (simp only: exec_load_spec [OF hw] exec_load_spec [OF sw] exec_store_spec [OF hw] exec_store_spec [OF sw]
        exec_memory_fill_spec [OF hw] exec_memory_fill_spec [OF sw]
        exec_memory_copy_spec [OF hw] exec_memory_copy_spec [OF sw])
qed

theorem hardware_is_software_check_witness:
  "exec_load demo_cfg demo_ctx demo_kernel WASM_OP_I64_LOAD 0xFFFFFFFF 0xFFFFFFFF demo_state =
   exec_load (demo_cfg\<lparr>hw_bound_check := False\<rparr>) demo_ctx demo_kernel WASM_OP_I64_LOAD 0xFFFFFFFF 0xFFFFFFFF demo_state"
  using hardware_is_software_check [OF demo_machine_ok refl] by (simp add: disable_checks_def demo_cfg_def)

text \<open>
  C28: What a store writes, a load of the same width reads: 64 and 32 bits unchanged, the narrow
  forms cut to their width and extended with the sign or with zeros.
\<close>

theorem store_load_roundtrip:
  assumes "machine_ok cfg ctx env st" and "exec_store cfg ctx env sop offset addr x st = (Normal (), st')"
    and "(lop, y) \<in> set (reads_back sop x)"
  shows "exec_load cfg ctx env lop offset addr st' = (Normal y, st')"
proof -
  let ?ea = "unat offset + unat addr" and ?m = "mem_of st" and ?xs = "store_bytes sop x"
  have ok: "interp_ok cfg env ?m st" "checked cfg ctx st" using machine_checked [OF assms(1)] by simp_all
  have fits: "?ea + length ?xs \<le> unat (memory_data_size ?m)" and st': "st' = mem_write ?m ?ea ?xs st"
    using assms(2) exec_store_spec [OF ok, of sop offset addr x] by (auto simp: trap_def split: if_splits)
  note w = mem_write_keeps [OF ok(1) fits, folded st']
  have "checked cfg ctx st'" using ok(2) by (auto simp: checked_def disable_checks_def st' mem_write_def split: if_splits)
  note run = exec_load_spec [OF w(1) this, of lop offset addr]
  have "load_width lop = length ?xs" using reads_back_value(1) [OF assms(3)] by simp
  then show ?thesis
    using run fits w(3) slice_after_write [of ?ea ?xs "contents (ivm st) ?m"] reads_back_value(2) [OF assms(3)] by simp
qed

theorem store_load_roundtrip_witness:
  "exec_load demo_cfg demo_ctx demo_kernel WASM_OP_I64_LOAD32_S 3 10
     (snd (exec_store demo_cfg demo_ctx demo_kernel WASM_OP_I64_STORE32 3 10 0x80000001 demo_state)) =
   (Normal (I64 0xFFFFFFFF80000001), snd (exec_store demo_cfg demo_ctx demo_kernel WASM_OP_I64_STORE32 3 10 0x80000001 demo_state))"
proof -
  have ok: "interp_ok demo_cfg demo_kernel (mem_of demo_state) demo_state" "checked demo_cfg demo_ctx demo_state"
    using machine_checked [OF demo_machine_ok] by simp_all
  have "exec_store demo_cfg demo_ctx demo_kernel WASM_OP_I64_STORE32 3 10 0x80000001 demo_state =
      (Normal (), snd (exec_store demo_cfg demo_ctx demo_kernel WASM_OP_I64_STORE32 3 10 0x80000001 demo_state))"
    by (subst (1 2) exec_store_spec [OF ok]) (simp add: demo_state_def wasm_get_default_memory_def demo_memory_def)
  from store_load_roundtrip [OF demo_machine_ok this, of WASM_OP_I64_LOAD32_S "I64 0xFFFFFFFF80000001"]
  show ?thesis by simp
qed

section \<open>The life of a memory\<close>






section \<open>Addresses\<close>



section \<open>Mappings\<close>



end
