(* ===== verification/Ems_Memory.thy ===== *)
theory Ems_Memory
  imports Bh_Common
begin

text \<open>
  How the heap allocator of the runtime (\<open>wamr/core/shared/mem-alloc/ems\<close>) lays its chunks out in
  memory (\<open>ems_gc_internal.h\<close>): the bits of a chunk header, the link of a small free chunk, the fields
  of a large one, which is a node of a tree, and the size at the end of a free chunk.

  Addresses and sizes are natural numbers; sizes are stored in 32 bits and pointers in 64, and where
  C arithmetic may wrap around this is written out. The build is the default one: 64-bit pointers,
  corruption checks on, verification prefixes and garbage collection off.
\<close>

section \<open>Bytes\<close>

definition rd :: "nat \<Rightarrow> mem \<Rightarrow> nat \<Rightarrow> nat" where
  "rd n m a = le_value (map m [a..<a + n])"

definition wr :: "nat \<Rightarrow> mem \<Rightarrow> nat \<Rightarrow> nat \<Rightarrow> mem" where
  "wr n m a v = write_bytes m a (le_bytes n v)"

lemma wr_apply: "wr n m a v x = (if a \<le> x \<and> x < a + n then le_bytes n v ! (x - a) else m x)"
  by (simp add: wr_def write_bytes_def)

lemma wr_outside [simp]: "x < a \<or> a + n \<le> x \<Longrightarrow> wr n m a v x = m x"
  by (auto simp: wr_apply)

lemma rd_cong: "(\<And>x. a \<le> x \<Longrightarrow> x < a + n \<Longrightarrow> m x = m' x) \<Longrightarrow> rd n m a = rd n m' a"
  unfolding rd_def by (intro arg_cong [of _ _ le_value] map_cong) auto

lemma rd_wr_same: "rd n (wr n m a v) a = v mod 256 ^ n"
proof -
  have "map (wr n m a v) [a..<a + n] = le_bytes n v"
    by (intro nth_equalityI) (auto simp: wr_apply)
  then show ?thesis by (simp add: rd_def le_value_bytes)
qed

lemma rd_wr_other: "b + k \<le> a \<or> a + n \<le> b \<Longrightarrow> rd k (wr n m a v) b = rd k m b"
  by (rule rd_cong) auto

lemma rd_bound: "rd n m a < 256 ^ n"
proof -
  have "le_value bs < 256 ^ length bs" for bs
  proof (induction bs)
    case (Cons b bs)
    have "unat b \<le> 255" using unsigned_less [where ?'a = nat, of b] by simp
    moreover have "256 * (le_value bs + 1) \<le> 256 * 256 ^ length bs" using Cons by (intro mult_le_mono2) simp
    ultimately show ?case by simp
  qed simp
  from this [of "map m [a..<a + n]"] show ?thesis by (simp add: rd_def)
qed

text \<open>Pointers wrap around at 64 bits, sizes at 32; a 32-bit value may be read as signed.\<close>

definition ptr_add :: "nat \<Rightarrow> int \<Rightarrow> nat" where
  "ptr_add a i = nat ((int a + i) mod 2 ^ 64)"

definition int32 :: "nat \<Rightarrow> int" where
  "int32 v = (if v < 2 ^ 31 then int v else int v - 2 ^ 32)"

definition add32 :: "nat \<Rightarrow> nat \<Rightarrow> nat" where
  "add32 a b = (a + b) mod 2 ^ 32"

definition sub32 :: "nat \<Rightarrow> nat \<Rightarrow> nat" where
  "sub32 a b = (a + (2 ^ 32 - b mod 2 ^ 32)) mod 2 ^ 32"

lemma ptr_add_nat: "0 \<le> int a + i \<Longrightarrow> int a + i < 2 ^ 64 \<Longrightarrow> ptr_add a i = nat (int a + i)"
  by (simp add: ptr_add_def)

lemma sub32_nat: "b \<le> a \<Longrightarrow> a < 2 ^ 32 \<Longrightarrow> sub32 a b = a - b"
proof -
  assume ab: "b \<le> a" "a < 2 ^ 32"
  then have "a + (2 ^ 32 - b mod 2 ^ 32) = (a - b) + 2 ^ 32" by simp
  then have "sub32 a b = (a - b) mod 2 ^ 32" by (simp only: sub32_def mod_add_self2)
  then show ?thesis using ab by simp
qed

lemma add32_nat: "a + b < 2 ^ 32 \<Longrightarrow> add32 a b = a + b"
  by (simp add: add32_def)

definition GC_ALIGN_8 :: "nat \<Rightarrow> nat" where
  "GC_ALIGN_8 s = unat ((of_nat s + 7) AND NOT (7 :: u32))"

section \<open>Chunk headers\<close>

definition HMU_FM :: u32 where "HMU_FM = 0"
definition HMU_FC :: u32 where "HMU_FC = 1"
definition HMU_VO :: u32 where "HMU_VO = 2"
definition HMU_WO :: u32 where "HMU_WO = 3"

definition SETBIT :: "u32 \<Rightarrow> nat \<Rightarrow> u32" where
  "SETBIT v offset = v OR push_bit offset 1"

definition GETBIT :: "u32 \<Rightarrow> nat \<Rightarrow> nat" where
  "GETBIT v offset = (if v AND push_bit offset 1 \<noteq> 0 then 1 else 0)"

definition CLRBIT :: "u32 \<Rightarrow> nat \<Rightarrow> u32" where
  "CLRBIT v offset = v AND NOT (push_bit offset 1)"

definition SETBITS :: "u32 \<Rightarrow> nat \<Rightarrow> nat \<Rightarrow> u32 \<Rightarrow> u32" where
  "SETBITS v offset sz val = (v AND NOT (push_bit offset (push_bit sz 1 - 1))) OR push_bit offset val"

definition GETBITS :: "u32 \<Rightarrow> nat \<Rightarrow> nat \<Rightarrow> u32" where
  "GETBITS v offset sz = drop_bit offset (v AND push_bit offset (push_bit sz 1 - 1))"

definition HMU_UT_SIZE :: nat where "HMU_UT_SIZE = 2"
definition HMU_UT_OFFSET :: nat where "HMU_UT_OFFSET = 30"
definition HMU_P_OFFSET :: nat where "HMU_P_OFFSET = 29"
definition HMU_VO_FB_OFFSET :: nat where "HMU_VO_FB_OFFSET = 28"
definition HMU_SIZE_SIZE :: nat where "HMU_SIZE_SIZE = 27"
definition HMU_SIZE_OFFSET :: nat where "HMU_SIZE_OFFSET = 0"

lemmas hmu_consts = HMU_UT_SIZE_def HMU_UT_OFFSET_def HMU_P_OFFSET_def HMU_VO_FB_OFFSET_def HMU_SIZE_SIZE_def
  HMU_SIZE_OFFSET_def

definition header :: "mem \<Rightarrow> nat \<Rightarrow> u32" where
  "header m p = of_nat (rd 4 m p)"

definition put_header :: "mem \<Rightarrow> nat \<Rightarrow> u32 \<Rightarrow> mem" where
  "put_header m p h = wr 4 m p (unat h)"

definition hmu_get_ut :: "mem \<Rightarrow> nat \<Rightarrow> u32" where
  "hmu_get_ut m p = GETBITS (header m p) HMU_UT_OFFSET HMU_UT_SIZE"

definition hmu_set_ut :: "mem \<Rightarrow> nat \<Rightarrow> u32 \<Rightarrow> mem" where
  "hmu_set_ut m p ty = put_header m p (SETBITS (header m p) HMU_UT_OFFSET HMU_UT_SIZE ty)"

definition hmu_mark_pinuse :: "mem \<Rightarrow> nat \<Rightarrow> mem" where
  "hmu_mark_pinuse m p = put_header m p (SETBIT (header m p) HMU_P_OFFSET)"

definition hmu_unmark_pinuse :: "mem \<Rightarrow> nat \<Rightarrow> mem" where
  "hmu_unmark_pinuse m p = put_header m p (CLRBIT (header m p) HMU_P_OFFSET)"

definition hmu_get_pinuse :: "mem \<Rightarrow> nat \<Rightarrow> nat" where
  "hmu_get_pinuse m p = GETBIT (header m p) HMU_P_OFFSET"

definition hmu_is_vo_freed :: "mem \<Rightarrow> nat \<Rightarrow> nat" where
  "hmu_is_vo_freed m p = GETBIT (header m p) HMU_VO_FB_OFFSET"

definition hmu_unfree_vo :: "mem \<Rightarrow> nat \<Rightarrow> mem" where
  "hmu_unfree_vo m p = put_header m p (CLRBIT (header m p) HMU_VO_FB_OFFSET)"

definition hmu_get_size :: "mem \<Rightarrow> nat \<Rightarrow> nat" where
  "hmu_get_size m p = unat (push_bit 3 (GETBITS (header m p) HMU_SIZE_OFFSET HMU_SIZE_SIZE))"

definition hmu_set_size :: "mem \<Rightarrow> nat \<Rightarrow> nat \<Rightarrow> mem" where
  "hmu_set_size m p sz = put_header m p (SETBITS (header m p) HMU_SIZE_OFFSET HMU_SIZE_SIZE (drop_bit 3 (of_nat sz)))"

subsection \<open>Laws of the header\<close>

lemma mask_ones: "push_bit sz 1 - 1 = (mask sz :: u32)"
  by (simp add: mask_eq_exp_minus_1 push_bit_eq_mult)

lemma GETBITS_take: "GETBITS v offset sz = take_bit sz (drop_bit offset v)"
  unfolding GETBITS_def mask_ones by (rule bit_word_eqI) (auto simp: bit_simps dest: bit_imp_le_length)

lemma GETBIT_bit: "GETBIT v offset = (if bit v offset then 1 else 0)" if "offset < 32"
proof -
  have "v AND push_bit offset 1 \<noteq> 0 \<longleftrightarrow> bit v offset"
    by (simp add: push_bit_eq_mult and_exp_eq_0_iff_not_bit)
  then show ?thesis by (simp add: GETBIT_def)
qed

lemma bit_setters:
  "bit (SETBIT v i) j \<longleftrightarrow> bit v j \<or> i = j \<and> j < 32"
  "bit (CLRBIT v i) j \<longleftrightarrow> bit v j \<and> i \<noteq> j"
  "bit (SETBITS v i sz val) j \<longleftrightarrow> (bit v j \<and> \<not> (i \<le> j \<and> j < i + sz)) \<or> (i \<le> j \<and> j < 32 \<and> bit val (j - i))"
  unfolding SETBIT_def CLRBIT_def SETBITS_def mask_ones
  by (auto simp: bit_simps dest: bit_imp_le_length)

text \<open>The four fields of a header, and what each setter does to them.\<close>

definition fields :: "u32 \<Rightarrow> u32 \<times> bool \<times> bool \<times> u32" where
  "fields h = (GETBITS h 30 2, bit h 29, bit h 28, GETBITS h 0 27)"

lemma take_bit_eq: "(\<And>j. j < n \<Longrightarrow> bit v (i + j) = bit w (k + j)) \<Longrightarrow> take_bit n (drop_bit i v) = take_bit n (drop_bit k (w :: u32))"
  by (rule bit_word_eqI) (auto simp: bit_simps)

lemma fields_setters:
  "ty < 4 \<Longrightarrow> fields (SETBITS h 30 2 ty) = (ty, snd (fields h))"
  "fields (SETBIT h 29) = (fst (fields h), True, snd (snd (fields h)))"
  "fields (CLRBIT h 29) = (fst (fields h), False, snd (snd (fields h)))"
  "fields (CLRBIT h 28) = (fst (fields h), fst (snd (fields h)), False, snd (snd (snd (fields h))))"
  "s < 2 ^ 27 \<Longrightarrow> fields (SETBITS h 0 27 s) = (fst (fields h), fst (snd (fields h)), fst (snd (snd (fields h))), s)"
proof -
  have high: "bit w j \<Longrightarrow> j < n" if "w < 2 ^ n" "n < 32" for w :: u32 and j n
  proof -
    have "take_bit n w = w" using that by (simp add: less_mask_eq take_bit_eq_mask)
    then show "bit w j \<Longrightarrow> j < n" by (metis bit_take_bit_iff)
  qed
  show "fields (SETBITS h 30 2 ty) = (ty, snd (fields h))" if "ty < 4"
  proof -
    have "take_bit 2 (drop_bit 30 (SETBITS h 30 2 ty)) = ty"
      using high [of ty 2] that by (intro bit_word_eqI) (auto simp: bit_simps bit_setters)
    then show ?thesis
      by (auto simp: fields_def GETBITS_take bit_setters intro!: take_bit_eq [where i = 0 and k = 0, simplified])
  qed
  show "fields (SETBIT h 29) = (fst (fields h), True, snd (snd (fields h)))"
    "fields (CLRBIT h 29) = (fst (fields h), False, snd (snd (fields h)))"
    "fields (CLRBIT h 28) = (fst (fields h), fst (snd (fields h)), False, snd (snd (snd (fields h))))"
    by (auto simp: fields_def GETBITS_take bit_setters intro!: take_bit_eq [where i = 0 and k = 0, simplified] take_bit_eq)
  show "fields (SETBITS h 0 27 s) = (fst (fields h), fst (snd (fields h)), fst (snd (snd (fields h))), s)" if "s < 2 ^ 27"
  proof -
    have "take_bit 27 (SETBITS h 0 27 s) = s"
      using high [of s 27] that by (intro bit_word_eqI) (auto simp: bit_simps bit_setters)
    moreover have "\<not> bit s (27 + j)" for j using high [of s 27 "27 + j"] that by auto
    from this [of 1] this [of 2] this [of "3 + j" for j] have "\<not> bit s 28" "\<not> bit s 29" "\<not> bit s (30 + j)" for j
      by (simp_all add: add.assoc [symmetric])
    ultimately show ?thesis
      by (auto simp: fields_def GETBITS_take bit_setters intro!: take_bit_eq)
  qed
qed

lemma header_put [simp]: "header (put_header m p h) p = h"
proof -
  have "unat h mod 256 ^ 4 = unat h" using unsigned_less [where ?'a = nat, of h] by simp
  then show ?thesis by (simp add: header_def put_header_def rd_wr_same)
qed

lemma header_cong: "(\<And>x. p \<le> x \<Longrightarrow> x < p + 4 \<Longrightarrow> m x = m' x) \<Longrightarrow> header m p = header m' p"
  unfolding header_def by (metis rd_cong)

text \<open>What a header says: the kind of chunk, whether the one before is in use, its size.\<close>

definition hmu_is :: "mem \<Rightarrow> nat \<Rightarrow> u32 \<Rightarrow> bool \<Rightarrow> nat \<Rightarrow> bool" where
  "hmu_is m p ty pin s \<longleftrightarrow> hmu_get_ut m p = ty \<and> hmu_get_pinuse m p = (if pin then 1 else 0) \<and> hmu_get_size m p = s"

lemma hmu_getters:
  "hmu_get_ut m p = fst (fields (header m p))"
  "hmu_get_pinuse m p = (if fst (snd (fields (header m p))) then 1 else 0)"
  "hmu_is_vo_freed m p = (if fst (snd (snd (fields (header m p)))) then 1 else 0)"
  "hmu_get_size m p = 8 * unat (snd (snd (snd (fields (header m p)))))"
proof -
  let ?s = "GETBITS (header m p) 0 27"
  have "?s = ?s AND mask 27" unfolding GETBITS_take by (simp add: take_bit_eq_mask [symmetric])
  moreover have "?s AND mask 27 < 2 ^ 27" by (rule and_mask_less_size) (simp add: word_size)
  ultimately have "?s < 2 ^ 27" by simp
  then have "unat ?s < 2 ^ 27" by (simp add: word_less_nat_alt)
  then have "unat (push_bit 3 ?s) = 8 * unat ?s"
    by (simp add: push_bit_eq_mult unat_word_ariths mult.commute)
  then show "hmu_get_size m p = 8 * unat (snd (snd (snd (fields (header m p)))))"
    by (simp add: hmu_get_size_def hmu_consts fields_def)
qed (simp_all add: hmu_get_ut_def hmu_get_pinuse_def hmu_is_vo_freed_def hmu_consts fields_def GETBIT_bit)

lemma hmu_size_field:
  assumes "s < 2 ^ 30" and "8 dvd s"
  shows "drop_bit 3 (of_nat s :: u32) < 2 ^ 27" and "8 * unat (drop_bit 3 (of_nat s :: u32)) = s"
proof -
  have "unat (drop_bit 3 (of_nat s :: u32)) = s div 8"
    using assms(1) by (simp add: drop_bit_eq_div unat_div unsigned_of_nat take_bit_nat_eq_self)
  then show "drop_bit 3 (of_nat s :: u32) < 2 ^ 27" "8 * unat (drop_bit 3 (of_nat s :: u32)) = s"
    using assms by (auto simp: word_less_nat_alt)
qed

lemmas hmu_setters = hmu_set_ut_def hmu_mark_pinuse_def hmu_unmark_pinuse_def hmu_unfree_vo_def hmu_set_size_def

lemma hmu_after_set:
  "ty < 4 \<Longrightarrow> hmu_is m p ty0 pin s \<Longrightarrow> hmu_is (hmu_set_ut m p ty) p ty pin s"
  "hmu_is m p ty pin s \<Longrightarrow> hmu_is (hmu_mark_pinuse m p) p ty True s"
  "hmu_is m p ty pin s \<Longrightarrow> hmu_is (hmu_unmark_pinuse m p) p ty False s"
  "hmu_is m p ty pin s \<Longrightarrow> hmu_is (hmu_unfree_vo m p) p ty pin s"
  "s < 2 ^ 30 \<Longrightarrow> 8 dvd s \<Longrightarrow> hmu_is m p ty pin s0 \<Longrightarrow> hmu_is (hmu_set_size m p s) p ty pin s"
  using hmu_size_field [of s]
  by (auto simp: hmu_is_def hmu_getters hmu_setters hmu_consts fields_setters split: if_splits)

lemma hmu_is_ex: "\<exists>ty pin s. hmu_is m p ty pin s"
  by (auto simp: hmu_is_def hmu_getters)

lemma hmu_is_cong: "(\<And>x. p \<le> x \<Longrightarrow> x < p + 4 \<Longrightarrow> m x = m' x) \<Longrightarrow> hmu_is m p ty pin s = hmu_is m' p ty pin s"
  using header_cong [of p m m'] by (simp add: hmu_is_def hmu_getters)

lemma freed_after_set:
  "hmu_is_vo_freed (hmu_unfree_vo m p) p = 0"
  "hmu_is_vo_freed (hmu_mark_pinuse m p) p = hmu_is_vo_freed m p"
  "hmu_is_vo_freed (hmu_unmark_pinuse m p) p = hmu_is_vo_freed m p"
  "s < 2 ^ 30 \<Longrightarrow> 8 dvd s \<Longrightarrow> hmu_is_vo_freed (hmu_set_size m p s) p = hmu_is_vo_freed m p"
  using hmu_size_field [of s] by (simp_all add: hmu_getters hmu_setters hmu_consts fields_setters)

lemma setters_outside:
  assumes "x < p \<or> p + 4 \<le> x"
  shows "hmu_set_ut m p ty x = m x" "hmu_mark_pinuse m p x = m x" "hmu_unmark_pinuse m p x = m x"
    "hmu_unfree_vo m p x = m x" "hmu_set_size m p s x = m x"
  using assms by (simp_all add: hmu_setters put_header_def)

end
