(* ===== verification/Ems_Heap.thy ===== *)
theory Ems_Heap
  imports Ems_Memory
begin

text \<open>
  The heap allocator of the runtime (\<open>ems_alloc.c\<close>, \<open>ems_kfc.c\<close>). A pool is a row of chunks. Small
  free chunks are in lists by size, large ones in a search tree whose root is part of the heap
  structure; a free chunk repeats its size at its end, so that the chunk behind it can find it.

  The heap structure is a record; its memory is the field \<open>hmem\<close>, which holds the pool and the root of
  the tree. Loops that a corrupted heap could keep running are partial functions. A null pointer is 0.
  The mutex of the heap, log messages and assertions, which are off by default, have no effect here.
\<close>

section \<open>State\<close>

record gc_heap =
  heap_id :: nat
  base_addr :: nat
  current_size :: nat
  kfc_normal_list :: "nat list"
  kfc_tree_root :: nat
  is_heap_corrupted :: bool
  init_size :: nat
  highmark_size :: nat
  total_free_size :: nat
  hmem :: mem

definition HMU_SIZE :: nat where "HMU_SIZE = 4"
definition GC_HEAD_PADDING :: nat where "GC_HEAD_PADDING = 4"
definition APP_HEAP_SIZE_MIN :: nat where "APP_HEAP_SIZE_MIN = 256"
definition HMU_NORMAL_NODE_CNT :: nat where "HMU_NORMAL_NODE_CNT = 32"
definition HMU_FC_NORMAL_MAX_SIZE :: nat where "HMU_FC_NORMAL_MAX_SIZE = (HMU_NORMAL_NODE_CNT - 1) * 8"
definition HMU_IS_FC_NORMAL :: "nat \<Rightarrow> bool" where "HMU_IS_FC_NORMAL s = (s < HMU_FC_NORMAL_MAX_SIZE)"
definition GC_SMALLEST_SIZE :: nat where "GC_SMALLEST_SIZE = GC_ALIGN_8 (HMU_SIZE + 8)"

definition hmu_to_obj :: "nat \<Rightarrow> nat" where "hmu_to_obj p = p + HMU_SIZE"
definition obj_to_hmu :: "nat \<Rightarrow> nat" where "obj_to_hmu p = p - HMU_SIZE"

definition hmu_is_in_heap :: "nat \<Rightarrow> gc_heap \<Rightarrow> bool" where
  "hmu_is_in_heap p h \<longleftrightarrow> base_addr h \<le> p \<and> p < base_addr h + current_size h"

definition corrupted :: "gc_heap \<Rightarrow> gc_heap" where
  "corrupted h = h\<lparr>is_heap_corrupted := True\<rparr>"

text \<open>The link of a list node is the signed distance to the next one.\<close>

definition get_hmu_normal_node_next :: "gc_heap \<Rightarrow> nat \<Rightarrow> nat" where
  "get_hmu_normal_node_next h node =
     (let next_offset = rd 4 (hmem h) (node + 4) in
      if next_offset \<noteq> 0 then ptr_add node (int32 next_offset) else 0)"

definition set_hmu_normal_node_next :: "nat \<Rightarrow> nat \<Rightarrow> gc_heap \<Rightarrow> gc_heap" where
  "set_hmu_normal_node_next node next_node h =
     h\<lparr>hmem := wr 4 (hmem h) (node + 4)
          (if next_node \<noteq> 0 then nat ((int next_node - int node) mod 2 ^ 32) else 0)\<rparr>"

text \<open>The fields of a tree node.\<close>

definition t_left :: "gc_heap \<Rightarrow> nat \<Rightarrow> nat" where "t_left h p = rd 8 (hmem h) (p + 4)"
definition t_right :: "gc_heap \<Rightarrow> nat \<Rightarrow> nat" where "t_right h p = rd 8 (hmem h) (p + 12)"
definition t_parent :: "gc_heap \<Rightarrow> nat \<Rightarrow> nat" where "t_parent h p = rd 8 (hmem h) (p + 20)"
definition t_size :: "gc_heap \<Rightarrow> nat \<Rightarrow> nat" where "t_size h p = rd 4 (hmem h) (p + 28)"

definition put_ptr :: "nat \<Rightarrow> nat \<Rightarrow> gc_heap \<Rightarrow> gc_heap" where
  "put_ptr a v h = h\<lparr>hmem := wr 8 (hmem h) a v\<rparr>"

definition set_left :: "nat \<Rightarrow> nat \<Rightarrow> gc_heap \<Rightarrow> gc_heap" where "set_left p = put_ptr (p + 4)"
definition set_right :: "nat \<Rightarrow> nat \<Rightarrow> gc_heap \<Rightarrow> gc_heap" where "set_right p = put_ptr (p + 12)"
definition set_parent :: "nat \<Rightarrow> nat \<Rightarrow> gc_heap \<Rightarrow> gc_heap" where "set_parent p = put_ptr (p + 20)"

definition clear_node :: "nat \<Rightarrow> gc_heap \<Rightarrow> gc_heap" where
  "clear_node p h = set_left p 0 (set_right p 0 (set_parent p 0 h))"

section \<open>The tree of large free chunks\<close>

text \<open>\<open>slot\<close> is the address of the pointer to the node \<open>p\<close> that is removed.\<close>

definition move_right_up :: "nat \<Rightarrow> nat \<Rightarrow> gc_heap \<Rightarrow> bool \<times> gc_heap" where
  "move_right_up slot p h =
     (let h = put_ptr slot (t_right h p) h in
      if t_right h p \<noteq> 0 then
        (if \<not> hmu_is_in_heap (t_right h p) h then (False, corrupted h)
         else (True, clear_node p (set_parent (t_right h p) (t_parent h p) h)))
      else (True, clear_node p h))"

definition move_left_up :: "nat \<Rightarrow> nat \<Rightarrow> gc_heap \<Rightarrow> bool \<times> gc_heap" where
  "move_left_up slot p h =
     (let h = put_ptr slot (t_left h p) h in
      if \<not> hmu_is_in_heap (t_left h p) h then (False, corrupted h)
      else (True, clear_node p (set_parent (t_left h p) (t_parent h p) h)))"

definition replace_node :: "nat \<Rightarrow> nat \<Rightarrow> nat \<Rightarrow> gc_heap \<Rightarrow> bool \<times> gc_heap" where
  "replace_node slot p q h =
     (let h = put_ptr slot q h;
          h = set_parent q (t_parent h p) h;
          h = set_left q (t_left h p) h;
          h = set_right q (t_right h p) h
      in if t_left h q \<noteq> 0 \<and> \<not> hmu_is_in_heap (t_left h q) h then (False, corrupted h)
         else
           let h = (if t_left h q \<noteq> 0 then set_parent (t_left h q) q h else h)
           in if t_right h q \<noteq> 0 \<and> \<not> hmu_is_in_heap (t_right h q) h then (False, corrupted h)
              else
                let h = (if t_right h q \<noteq> 0 then set_parent (t_right h q) q h else h)
                in (True, clear_node p h))"

text \<open>The search for the predecessor; the inner \<open>None\<close> is a node outside the pool.\<close>

partial_function (option) predecessor :: "gc_heap \<Rightarrow> nat \<Rightarrow> nat option option" where
  "predecessor h q =
     (if t_right h q \<noteq> 0 then
        (if \<not> hmu_is_in_heap (t_right h q) h then Some None else predecessor h (t_right h q))
      else Some (Some q))"

partial_function (option) remove_tree_node :: "gc_heap \<Rightarrow> nat \<Rightarrow> (bool \<times> gc_heap) option" where
  "remove_tree_node h p =
     (if t_parent h p = 0 \<or> p = kfc_tree_root h \<or> \<not> hmu_is_in_heap p h \<or>
         (t_parent h p \<noteq> kfc_tree_root h \<and> \<not> hmu_is_in_heap (t_parent h p) h) then Some (False, corrupted h)
      else
        (case (if p = t_right h (t_parent h p) then Some (t_parent h p + 12)
               else if p = t_left h (t_parent h p) then Some (t_parent h p + 4) else None) of
           None \<Rightarrow> Some (False, corrupted h)
         | Some slot \<Rightarrow>
             if t_left h p = 0 then Some (move_right_up slot p h)
             else if t_right h p = 0 then Some (move_left_up slot p h)
             else if \<not> hmu_is_in_heap (t_left h p) h then Some (False, corrupted h)
             else
               Option.bind (predecessor h (t_left h p))
                 (\<lambda>r. case r of
                    None \<Rightarrow> Some (False, corrupted h)
                  | Some q \<Rightarrow>
                      Option.bind (remove_tree_node h q)
                        (\<lambda>(ok, h'). if ok then Some (replace_node slot p q h') else Some (False, h')))))"

section \<open>Free chunks\<close>

partial_function (option) unlink_normal ::
  "nat \<Rightarrow> nat \<Rightarrow> nat \<Rightarrow> nat \<Rightarrow> gc_heap \<Rightarrow> (bool \<times> gc_heap) option" where
  "unlink_normal node_idx hmu node_prev node h =
     (if node = 0 then Some (True, h)
      else if \<not> hmu_is_in_heap node h then Some (False, corrupted h)
      else if node = hmu then
        Some (True, if node_prev = 0
                    then h\<lparr>kfc_normal_list := (kfc_normal_list h)[node_idx := get_hmu_normal_node_next h node]\<rparr>
                    else set_hmu_normal_node_next node_prev (get_hmu_normal_node_next h node) h)
      else unlink_normal node_idx hmu node (get_hmu_normal_node_next h node) h)"

definition unlink_hmu :: "nat \<Rightarrow> gc_heap \<Rightarrow> (bool \<times> gc_heap) option" where
  "unlink_hmu hmu h =
     (if hmu_get_ut (hmem h) hmu \<noteq> HMU_FC then Some (False, corrupted h)
      else
        let sz = hmu_get_size (hmem h) hmu in
        if HMU_IS_FC_NORMAL sz
        then unlink_normal (sz div 8) hmu 0 (kfc_normal_list h ! (sz div 8)) h
        else remove_tree_node h hmu)"

definition hmu_set_free_size :: "mem \<Rightarrow> nat \<Rightarrow> mem" where
  "hmu_set_free_size m hmu = (let sz = hmu_get_size m hmu in wr 4 m (hmu + sz - 4) sz)"

partial_function (option) link_tree_node :: "nat \<Rightarrow> nat \<Rightarrow> nat \<Rightarrow> gc_heap \<Rightarrow> (bool \<times> gc_heap) option" where
  "link_tree_node node sz tp h =
     (if t_size h tp < sz then
        (if t_right h tp = 0 then Some (True, set_parent node tp (set_right tp node h))
         else if \<not> hmu_is_in_heap (t_right h tp) h then Some (False, corrupted h)
         else link_tree_node node sz (t_right h tp) h)
      else
        (if t_left h tp = 0 then Some (True, set_parent node tp (set_left tp node h))
         else if \<not> hmu_is_in_heap (t_left h tp) h then Some (False, corrupted h)
         else link_tree_node node sz (t_left h tp) h))"

definition gci_add_fc :: "nat \<Rightarrow> nat \<Rightarrow> gc_heap \<Rightarrow> (bool \<times> gc_heap) option" where
  "gci_add_fc hmu sz h =
     (let h = h\<lparr>hmem := hmu_set_free_size (hmu_set_size (hmu_set_ut (hmem h) hmu HMU_FC) hmu sz) hmu\<rparr> in
      if HMU_IS_FC_NORMAL sz then
        (if \<not> hmu_is_in_heap hmu h then Some (False, corrupted h)
         else
           let node_idx = sz div 8;
               h = set_hmu_normal_node_next hmu (kfc_normal_list h ! node_idx) h
           in Some (True, h\<lparr>kfc_normal_list := (kfc_normal_list h)[node_idx := hmu]\<rparr>))
      else
        let h = h\<lparr>hmem := wr 4 (hmem h) (hmu + 28) sz\<rparr>;
            h = set_left hmu 0 (set_right hmu 0 (set_parent hmu 0 h))
        in link_tree_node hmu sz (kfc_tree_root h) h)"

section \<open>Allocation\<close>

definition count_alloc :: "nat \<Rightarrow> gc_heap \<Rightarrow> gc_heap" where
  "count_alloc sz h =
     (let h = h\<lparr>total_free_size := sub32 (total_free_size h) sz\<rparr>;
          used = sub32 (current_size h) (total_free_size h)
      in if used > highmark_size h then h\<lparr>highmark_size := used\<rparr> else h)"

text \<open>
  The chunk \<open>p\<close> of \<open>avail\<close> bytes has been taken out of the free chunks: what is not needed goes back,
  or the chunk behind is told that this one is in use.
\<close>

definition carve :: "nat \<Rightarrow> nat \<Rightarrow> nat \<Rightarrow> bool \<Rightarrow> gc_heap \<Rightarrow> (nat \<times> gc_heap) option" where
  "carve p avail sz split_it h =
     (if split_it then
        (case gci_add_fc (p + sz) (avail - sz) h of
           None \<Rightarrow> None
         | Some (ok, h) \<Rightarrow>
             if \<not> ok then Some (0, h)
             else
               let h = h\<lparr>hmem := hmu_mark_pinuse (hmem h) (p + sz)\<rparr>;
                   h = count_alloc sz h
               in Some (p, h\<lparr>hmem := hmu_set_size (hmem h) p sz\<rparr>))
      else
        let h = (if hmu_is_in_heap (p + avail) h then h\<lparr>hmem := hmu_mark_pinuse (hmem h) (p + avail)\<rparr> else h);
            h = count_alloc avail h
        in Some (p, h\<lparr>hmem := hmu_set_size (hmem h) p avail\<rparr>))"

partial_function (option) best_fit :: "gc_heap \<Rightarrow> nat \<Rightarrow> nat \<Rightarrow> nat \<Rightarrow> nat option option" where
  "best_fit h sz tp last_tp =
     (if tp = 0 then Some (Some last_tp)
      else if \<not> hmu_is_in_heap tp h then Some None
      else if t_size h tp < sz then best_fit h sz (t_right h tp) last_tp
      else best_fit h sz (t_left h tp) tp)"

definition alloc_from_list :: "nat \<Rightarrow> nat \<Rightarrow> gc_heap \<Rightarrow> (nat \<times> gc_heap) option" where
  "alloc_from_list node_idx sz h =
     (let p = kfc_normal_list h ! node_idx in
      if \<not> hmu_is_in_heap p h then Some (0, corrupted h)
      else
        let h = h\<lparr>kfc_normal_list := (kfc_normal_list h)[node_idx := get_hmu_normal_node_next h p]\<rparr> in
        if hmu_to_obj p mod 8 \<noteq> 0 then Some (0, corrupted h)
        else carve p (node_idx * 8) sz (node_idx \<noteq> sz div 8 \<and> node_idx * 8 \<ge> sz + GC_SMALLEST_SIZE) h)"

definition alloc_from_tree :: "nat \<Rightarrow> gc_heap \<Rightarrow> (nat \<times> gc_heap) option" where
  "alloc_from_tree sz h =
     (case best_fit h sz (t_right h (kfc_tree_root h)) 0 of
        None \<Rightarrow> None
      | Some None \<Rightarrow> Some (0, corrupted h)
      | Some (Some last_tp) \<Rightarrow>
          if last_tp = 0 then Some (0, h)
          else
            (case remove_tree_node h last_tp of
               None \<Rightarrow> None
             | Some (ok, h) \<Rightarrow>
                 if \<not> ok then Some (0, h)
                 else carve last_tp (t_size h last_tp) sz (t_size h last_tp \<ge> add32 sz GC_SMALLEST_SIZE) h))"

definition alloc_hmu :: "nat \<Rightarrow> gc_heap \<Rightarrow> (nat \<times> gc_heap) option" where
  "alloc_hmu sz h =
     (let sz = (if sz < GC_SMALLEST_SIZE then GC_SMALLEST_SIZE else sz) in
      case (if HMU_IS_FC_NORMAL sz
            then find (\<lambda>i. kfc_normal_list h ! i \<noteq> 0) [sz div 8..<HMU_NORMAL_NODE_CNT] else None) of
        Some node_idx \<Rightarrow> alloc_from_list node_idx sz h
      | None \<Rightarrow> alloc_from_tree sz h)"

definition alloc_hmu_ex :: "nat \<Rightarrow> gc_heap \<Rightarrow> (nat \<times> gc_heap) option" where
  "alloc_hmu_ex sz h = alloc_hmu sz h"

definition clear_bytes :: "nat \<Rightarrow> nat \<Rightarrow> gc_heap \<Rightarrow> gc_heap" where
  "clear_bytes a n h = h\<lparr>hmem := memset_zero (hmem h) a n\<rparr>"

definition gc_alloc_vo :: "nat \<Rightarrow> gc_heap \<Rightarrow> (nat \<times> gc_heap) option" where
  "gc_alloc_vo sz h =
     (let tot_size_unaligned = add32 HMU_SIZE sz;
          tot_size = GC_ALIGN_8 tot_size_unaligned
      in if tot_size < sz then Some (0, h)
         else if is_heap_corrupted h then Some (0, h)
         else
           (case alloc_hmu_ex tot_size h of
              None \<Rightarrow> None
            | Some (hmu, h) \<Rightarrow>
                if hmu = 0 then Some (0, h)
                else
                  let tot_size = hmu_get_size (hmem h) hmu;
                      h = h\<lparr>hmem := hmu_unfree_vo (hmu_set_ut (hmem h) hmu HMU_VO) hmu\<rparr>;
                      obj = hmu_to_obj hmu;
                      h = (if tot_size > tot_size_unaligned
                           then clear_bytes (obj + sz) (tot_size - tot_size_unaligned) h else h)
                  in Some (obj, h)))"

section \<open>Release\<close>

definition gci_is_heap_valid :: "gc_heap \<Rightarrow> nat \<Rightarrow> bool" where
  "gci_is_heap_valid h handle \<longleftrightarrow> handle \<noteq> 0 \<and> heap_id h = handle"

text \<open>The results of \<open>gc_free_vo\<close>: 0 for \<open>GC_SUCCESS\<close>, -1 for \<open>GC_ERROR\<close>.\<close>

definition join_prev :: "nat \<Rightarrow> gc_heap \<Rightarrow> (bool \<times> nat \<times> nat \<times> gc_heap) option" where
  "join_prev hmu h =
     (let sz = hmu_get_size (hmem h) hmu;
          prev = ptr_add hmu (- int32 (rd 4 (hmem h) (hmu - 4)))
      in if hmu_get_pinuse (hmem h) hmu = 0 \<and> hmu_is_in_heap prev h \<and> hmu_get_ut (hmem h) prev = HMU_FC then
           (case unlink_hmu prev h of
              None \<Rightarrow> None
            | Some (ok, h') \<Rightarrow> Some (ok, prev, add32 sz (hmu_get_size (hmem h) prev), h'))
         else Some (True, hmu, sz, h))"

definition join_next :: "nat \<Rightarrow> nat \<Rightarrow> gc_heap \<Rightarrow> (bool \<times> nat \<times> gc_heap) option" where
  "join_next hmu sz h =
     (if hmu_is_in_heap (hmu + sz) h \<and> hmu_get_ut (hmem h) (hmu + sz) = HMU_FC then
        (case unlink_hmu (hmu + sz) h of
           None \<Rightarrow> None
         | Some (ok, h') \<Rightarrow> Some (ok, add32 sz (hmu_get_size (hmem h) (hmu + sz)), h'))
      else Some (True, sz, h))"

definition gc_free_vo :: "nat \<Rightarrow> gc_heap \<Rightarrow> (int \<times> gc_heap) option" where
  "gc_free_vo obj h =
     (let hmu = obj_to_hmu obj in
      if obj = 0 then Some (0, h)
      else if is_heap_corrupted h then Some (- 1, h)
      else if \<not> hmu_is_in_heap hmu h then Some (0, h)
      else if hmu_get_ut (hmem h) hmu \<noteq> HMU_VO then Some (- 1, h)
      else if hmu_is_vo_freed (hmem h) hmu \<noteq> 0 then Some (- 1, h)
      else
        let h = h\<lparr>total_free_size := add32 (total_free_size h) (hmu_get_size (hmem h) hmu)\<rparr> in
        (case join_prev hmu h of
           None \<Rightarrow> None
         | Some (ok, hmu, sz, h) \<Rightarrow>
             if \<not> ok then Some (- 1, h)
             else
               (case join_next hmu sz h of
                  None \<Rightarrow> None
                | Some (ok, sz, h) \<Rightarrow>
                    if \<not> ok then Some (- 1, h)
                    else
                      (case gci_add_fc hmu sz h of
                         None \<Rightarrow> None
                       | Some (ok, h) \<Rightarrow>
                           if \<not> ok then Some (- 1, h)
                           else Some (0, if hmu_is_in_heap (hmu + sz) h
                                         then h\<lparr>hmem := hmu_unmark_pinuse (hmem h) (hmu + sz)\<rparr> else h)))))"

section \<open>Reallocation\<close>

text \<open>Growing into the free chunk behind.\<close>

definition grow_in_place :: "nat \<Rightarrow> nat \<Rightarrow> nat \<Rightarrow> gc_heap \<Rightarrow> (bool \<times> gc_heap) option" where
  "grow_in_place hmu_old tot_size tot_size_old h =
     (let hmu_next = hmu_old + tot_size_old;
          tot_size_next = hmu_get_size (hmem h) hmu_next
      in case unlink_hmu hmu_next h of
           None \<Rightarrow> None
         | Some (ok, h) \<Rightarrow>
             if \<not> ok then Some (False, h)
             else
               let h = h\<lparr>hmem := hmu_set_size (hmem h) hmu_old tot_size\<rparr>;
                   h = clear_bytes (hmu_old + tot_size_old) (tot_size - tot_size_old) h
               in if tot_size < add32 tot_size_old tot_size_next then
                    (case gci_add_fc (hmu_old + tot_size) (tot_size_old + tot_size_next - tot_size) h of
                       None \<Rightarrow> None
                     | Some (ok, h) \<Rightarrow>
                         if \<not> ok then Some (False, h)
                         else Some (True, h\<lparr>hmem := hmu_mark_pinuse (hmem h) (hmu_old + tot_size)\<rparr>))
                  else Some (True, h))"

text \<open>Moving to a new chunk. A misuse of \<open>memcpy\<close> would be undefined; it has no result here.\<close>

definition move_object :: "nat \<Rightarrow> nat \<Rightarrow> nat \<Rightarrow> gc_heap \<Rightarrow> (nat \<times> gc_heap) option" where
  "move_object obj_old tot_size tot_size_old h =
     (case alloc_hmu_ex tot_size h of
        None \<Rightarrow> None
      | Some (hmu, h) \<Rightarrow>
          if hmu = 0 then Some (0, h)
          else
            let tot_size = hmu_get_size (hmem h) hmu;
                h = h\<lparr>hmem := hmu_unfree_vo (hmu_set_ut (hmem h) hmu HMU_VO) hmu\<rparr>;
                obj = hmu_to_obj hmu;
                h = clear_bytes obj (tot_size - HMU_SIZE) h
            in if obj_old = 0 then Some (obj, h)
               else
                 (case b_memcpy_s (hmem h) obj (of_nat (tot_size - HMU_SIZE)) obj_old (of_nat (tot_size_old - HMU_SIZE)) of
                    Inl _ \<Rightarrow> None
                  | Inr (_, m) \<Rightarrow>
                      (case gc_free_vo obj_old (h\<lparr>hmem := m\<rparr>) of None \<Rightarrow> None | Some (_, h) \<Rightarrow> Some (obj, h))))"

definition gc_realloc_vo :: "nat \<Rightarrow> nat \<Rightarrow> gc_heap \<Rightarrow> (nat \<times> gc_heap) option" where
  "gc_realloc_vo obj_old sz h =
     (let tot_size = GC_ALIGN_8 (add32 HMU_SIZE sz);
          hmu_old = obj_to_hmu obj_old;
          tot_size_old = (if obj_old \<noteq> 0 then hmu_get_size (hmem h) hmu_old else 0);
          hmu_next = hmu_old + tot_size_old
      in if tot_size < sz then Some (0, h)
         else if is_heap_corrupted h then Some (0, h)
         else if obj_old \<noteq> 0 \<and> tot_size \<le> tot_size_old then Some (obj_old, h)
         else if obj_old \<noteq> 0 \<and> hmu_is_in_heap hmu_next h \<and> hmu_get_ut (hmem h) hmu_next = HMU_FC \<and>
                 tot_size \<le> add32 tot_size_old (hmu_get_size (hmem h) hmu_next) then
           (case grow_in_place hmu_old tot_size tot_size_old h of
              None \<Rightarrow> None
            | Some (ok, h) \<Rightarrow> Some (if ok then obj_old else 0, h))
         else move_object obj_old tot_size tot_size_old h)"

end
