(* ===== verification/Ems_Tree.thy ===== *)
theory Ems_Tree
  imports Ems_Heap "HOL-Library.Tree"
begin

text \<open>
  The tree of large free chunks as a tree in memory: removing a node and linking a new one keep it
  well formed, and in order they remove and insert an element.
\<close>

section \<open>Trees in memory\<close>

fun root_of :: "nat tree \<Rightarrow> nat" where
  "root_of Leaf = 0"
| "root_of (Node l p r) = p"

fun tree_at :: "(nat \<Rightarrow> nat) \<Rightarrow> (nat \<Rightarrow> nat) \<Rightarrow> (nat \<Rightarrow> nat) \<Rightarrow> nat \<Rightarrow> nat tree \<Rightarrow> bool" where
  "tree_at L R P par Leaf = True"
| "tree_at L R P par (Node l p r) \<longleftrightarrow>
     p \<noteq> 0 \<and> L p = root_of l \<and> R p = root_of r \<and> P p = par \<and> tree_at L R P p l \<and> tree_at L R P p r"

fun sub :: "nat \<Rightarrow> nat tree \<Rightarrow> nat tree" where
  "sub p Leaf = Leaf"
| "sub p (Node l x r) = (if x = p then Node l x r else if p \<in> set_tree l then sub p l else sub p r)"

fun replace :: "nat \<Rightarrow> nat tree \<Rightarrow> nat tree \<Rightarrow> nat tree" where
  "replace p new Leaf = Leaf"
| "replace p new (Node l x r) = (if x = p then new else Node (replace p new l) x (replace p new r))"

lemma root_of_in: "t \<noteq> Leaf \<Longrightarrow> root_of t \<in> set_tree t"
  by (cases t) simp_all

lemma tree_at_nonzero: "tree_at L R P par t \<Longrightarrow> x \<in> set_tree t \<Longrightarrow> x \<noteq> 0"
  by (induction t arbitrary: par) auto

lemma tree_at_children: "tree_at L R P par t \<Longrightarrow> x \<in> set_tree t \<Longrightarrow> L x \<in> insert 0 (set_tree t) \<and> R x \<in> insert 0 (set_tree t)"
proof (induction t arbitrary: par)
  case (Node l p r)
  then show ?case using root_of_in [of l] root_of_in [of r] by (cases "l = Leaf"; cases "r = Leaf"; force)
qed simp

lemma root_of_zero: "tree_at L R P par t \<Longrightarrow> root_of t = 0 \<longleftrightarrow> t = Leaf"
  by (cases t) simp_all

lemma reparent:
  assumes "tree_at L R P par t" and "distinct (inorder t)"
    and "\<And>y. y \<in> set_tree t \<Longrightarrow> L' y = L y \<and> R' y = R y \<and> (y \<noteq> root_of t \<longrightarrow> P' y = P y)"
    and "t \<noteq> Leaf \<Longrightarrow> P' (root_of t) = par'"
  shows "tree_at L' R' P' par' t"
proof (cases t)
  case (Node l p r)
  have same: "tree_at L R P q s \<Longrightarrow> (\<And>y. y \<in> set_tree s \<Longrightarrow> L' y = L y \<and> R' y = R y \<and> P' y = P y) \<Longrightarrow> tree_at L' R' P' q s" for q s
    by (induction s arbitrary: q) auto
  have "p \<notin> set_tree l" "p \<notin> set_tree r" using assms(2) Node by simp_all
  then have "tree_at L' R' P' p l" "tree_at L' R' P' p r"
    using assms(1,3) Node by (auto intro!: same)
  then show ?thesis using assms Node by simp
qed simp

lemma tree_at_cong:
  "tree_at L R P par t \<Longrightarrow> (\<And>y. y \<in> set_tree t \<Longrightarrow> L' y = L y \<and> R' y = R y \<and> P' y = P y) \<Longrightarrow> tree_at L' R' P' par t"
  by (induction t arbitrary: par) auto

lemma replace_other [simp]: "p \<notin> set_tree t \<Longrightarrow> replace p new t = t"
  by (induction t) auto

lemma root_of_replace: "p \<noteq> 0 \<Longrightarrow> root_of (replace p new t) = (if root_of t = p then root_of new else root_of t)"
  by (cases t) auto

lemma sub_subset: "set_tree (sub p t) \<subseteq> set_tree t"
  by (induction t) auto

lemma sub_node:
  assumes "tree_at L R P par t" and "distinct (inorder t)" and "p \<in> set_tree t"
  shows "tree_at L R P (P p) (sub p t)" and "\<exists>l r. sub p t = Node l p r" and "distinct (inorder (sub p t))"
  using assms by (induction t arbitrary: par) (auto split: if_splits)

lemma tree_at_replace:
  assumes "tree_at L R P par t" and "distinct (inorder t)" and "p \<in> set_tree t"
    and "\<And>x. x \<in> set_tree t \<Longrightarrow> x \<notin> set_tree (sub p t) \<Longrightarrow>
           P' x = P x \<and> L' x = (if L x = p then root_of new else L x) \<and> R' x = (if R x = p then root_of new else R x)"
    and "tree_at L' R' P' (P p) new"
  shows "tree_at L' R' P' par (replace p new t)"
  using assms(1-4)
proof (induction t arbitrary: par)
  case (Node l x r)
  have p0: "p \<noteq> 0" using tree_at_nonzero [OF Node.prems(1,3)] .
  show ?case
  proof (cases "x = p")
    case True
    then show ?thesis using Node.prems(1) assms(5) by simp
  next
    case False
    have d: "set_tree l \<inter> set_tree r = {}" "x \<notin> set_tree l" "x \<notin> set_tree r" "distinct (inorder l)" "distinct (inorder r)"
      using Node.prems(2) by auto
    have tl: "tree_at L R P x l" and tr: "tree_at L R P x r" using Node.prems(1) by simp_all
    have tops: "root_of l \<in> insert 0 (set_tree l)" "root_of r \<in> insert 0 (set_tree r)" using root_of_in by (cases l; cases r; simp)+
    have upd: "P' y = P y \<and> L' y = (if L y = p then root_of new else L y) \<and> R' y = (if R y = p then root_of new else R y)"
      if "y \<in> insert x (set_tree l \<union> set_tree r)" "y \<notin> set_tree (sub p (Node l x r))" for y
      using Node.prems(4) [of y] that by simp
    have keep: "tree_at L' R' P' x s" if "p \<notin> set_tree s" "tree_at L R P x s"
      "set_tree s \<subseteq> insert x (set_tree l \<union> set_tree r) - set_tree (sub p (Node l x r))" for s
    proof (rule tree_at_cong [OF that(2)])
      fix y assume y: "y \<in> set_tree s"
      then show "L' y = L y \<and> R' y = R y \<and> P' y = P y"
        using upd [of y] tree_at_children [OF that(2) y] that(1,3) p0 by auto
    qed
    show ?thesis
    proof (cases "p \<in> set_tree l")
      case True
      have sp: "sub p (Node l x r) = sub p l" using False True by simp
      have sl: "set_tree (sub p l) \<subseteq> set_tree l" by (rule sub_subset)
      have "tree_at L' R' P' x (replace p new l)"
        using Node.IH(1) [OF tl d(4) True] upd sp by simp
      moreover have "tree_at L' R' P' x r"
        using keep [OF _ tr] True d sl sp by auto
      moreover have "root_of r \<noteq> p" using tops(2) d(1) True p0 by auto
      moreover have "x \<notin> set_tree (sub p (Node l x r))" "p \<notin> set_tree r" using sp sl d True by auto
      ultimately show ?thesis
        using False Node.prems(1) upd [of x] p0 by (simp add: root_of_replace)
    next
      case pl: False
      then have pr: "p \<in> set_tree r" using Node.prems(3) False by simp
      have sp: "sub p (Node l x r) = sub p r" using False pl by simp
      have sl: "set_tree (sub p r) \<subseteq> set_tree r" by (rule sub_subset)
      have "tree_at L' R' P' x (replace p new r)"
        using Node.IH(2) [OF tr d(5) pr] upd sp by simp
      moreover have "tree_at L' R' P' x l"
        using keep [OF _ tl] pl d sl sp by auto
      moreover have "root_of l \<noteq> p" using tops(1) pl p0 by auto
      moreover have "x \<notin> set_tree (sub p (Node l x r))" using sp sl d pr by auto
      ultimately show ?thesis
        using False pl Node.prems(1) upd [of x] p0 by (simp add: root_of_replace)
    qed
  qed
qed simp

lemma inorder_replace:
  assumes "distinct (inorder t)" and "p \<in> set_tree t"
  shows "\<exists>ys zs. inorder t = ys @ inorder (sub p t) @ zs \<and> inorder (replace p new t) = ys @ inorder new @ zs"
  using assms
proof (induction t)
  case (Node l x r)
  consider "x = p" | "x \<noteq> p" "p \<in> set_tree l" "p \<notin> set_tree r" | "x \<noteq> p" "p \<notin> set_tree l" "p \<in> set_tree r"
    using Node.prems by auto
  then show ?case
  proof cases
    case 1
    then show ?thesis by (intro exI [of _ "[]"]) simp
  next
    case 2
    then obtain ys zs where "inorder l = ys @ inorder (sub p l) @ zs" "inorder (replace p new l) = ys @ inorder new @ zs"
      using Node by auto
    then show ?thesis using 2 by (intro exI [of _ ys] exI [of _ "zs @ x # inorder r"]) simp
  next
    case 3
    then obtain ys zs where "inorder r = ys @ inorder (sub p r) @ zs" "inorder (replace p new r) = ys @ inorder new @ zs"
      using Node by auto
    then show ?thesis using 3 by (intro exI [of _ "inorder l @ x # ys"] exI [of _ zs]) simp
  qed
qed simp

text \<open>The only pointer to a node is the one of its parent.\<close>

lemma tree_at_parent:
  assumes "tree_at L R P par t" and "distinct (inorder t)" and "p \<in> set_tree t"
  shows "p \<noteq> root_of t \<Longrightarrow> P p \<in> set_tree t \<and> P p \<notin> set_tree (sub p t) \<and> (L (P p) = p \<or> R (P p) = p) \<and> L (P p) \<noteq> R (P p)"
    and "\<And>x. x \<in> set_tree t \<Longrightarrow> L x = p \<or> R x = p \<Longrightarrow> x = P p"
proof -
  have main: "(p \<noteq> root_of t \<longrightarrow> P p \<in> set_tree t \<and> P p \<notin> set_tree (sub p t) \<and> (L (P p) = p \<or> R (P p) = p) \<and> L (P p) \<noteq> R (P p)) \<and>
     (\<forall>x. x \<in> set_tree t \<longrightarrow> L x = p \<or> R x = p \<longrightarrow> x = P p)"
    using assms
  proof (induction t arbitrary: par)
    case (Node l x r)
    have p0: "p \<noteq> 0" using tree_at_nonzero [OF Node.prems(1,3)] .
    have d: "set_tree l \<inter> set_tree r = {}" "x \<notin> set_tree l" "x \<notin> set_tree r" "distinct (inorder l)" "distinct (inorder r)"
      using Node.prems(2) by auto
    have tl: "tree_at L R P x l" and tr: "tree_at L R P x r" and x: "L x = root_of l" "R x = root_of r" using Node.prems(1) by simp_all
    have ch: "y \<in> set_tree s \<Longrightarrow> L y = p \<or> R y = p \<Longrightarrow> p \<in> set_tree s" if "tree_at L R P x s" for s y
      using tree_at_children [OF that, of y] p0 by auto
    have tops: "root_of l = p \<Longrightarrow> p \<in> set_tree l" "root_of r = p \<Longrightarrow> p \<in> set_tree r"
      using root_of_in p0 by (cases l; cases r; force)+
    consider "x = p" "p \<notin> set_tree l" "p \<notin> set_tree r" | "x \<noteq> p" "p \<in> set_tree l" "p \<notin> set_tree r"
      | "x \<noteq> p" "p \<notin> set_tree l" "p \<in> set_tree r"
      using Node.prems(3) d by auto
    then show ?case
    proof cases
      case 1
      then show ?thesis using ch [OF tl] ch [OF tr] tops x by auto
    next
      case 2
      note ih = Node.IH(1) [OF tl d(4) 2(2)] and s = sub_subset [of p l]
      have "P (root_of l) = x" using tl 2(2) by (cases l) simp_all
      then show ?thesis using 2 ih s ch [OF tr] tops x d p0 root_of_in [of r] by (cases "p = root_of l") auto
    next
      case 3
      note ih = Node.IH(2) [OF tr d(5) 3(3)] and s = sub_subset [of p r]
      have "P (root_of r) = x" using tr 3(3) by (cases r) simp_all
      then show ?thesis using 3 ih s ch [OF tl] tops x d p0 root_of_in [of l] by (cases "p = root_of r") auto
    qed
  qed simp
  then show "p \<noteq> root_of t \<Longrightarrow> P p \<in> set_tree t \<and> P p \<notin> set_tree (sub p t) \<and> (L (P p) = p \<or> R (P p) = p) \<and> L (P p) \<noteq> R (P p)"
    and "\<And>x. x \<in> set_tree t \<Longrightarrow> L x = p \<or> R x = p \<Longrightarrow> x = P p" by blast+
qed

section \<open>Updates of node fields\<close>

definition nodes_apart :: "nat \<Rightarrow> nat \<Rightarrow> bool" where
  "nodes_apart p q \<longleftrightarrow> p = q \<or> p + 32 \<le> q \<or> q + 32 \<le> p"

lemma nodes_apart_sym: "nodes_apart p q \<longleftrightarrow> nodes_apart q p"
  by (auto simp: nodes_apart_def)

lemma field_updates:
  assumes "nodes_apart p q"
  shows "v < 2 ^ 64 \<Longrightarrow> t_left (set_left q v h) p = (if p = q then v else t_left h p)"
    and "t_right (set_left q v h) p = t_right h p" and "t_parent (set_left q v h) p = t_parent h p"
    and "t_left (set_right q v h) p = t_left h p"
    and "v < 2 ^ 64 \<Longrightarrow> t_right (set_right q v h) p = (if p = q then v else t_right h p)"
    and "t_parent (set_right q v h) p = t_parent h p"
    and "t_left (set_parent q v h) p = t_left h p" and "t_right (set_parent q v h) p = t_right h p"
    and "v < 2 ^ 64 \<Longrightarrow> t_parent (set_parent q v h) p = (if p = q then v else t_parent h p)"
    and "t_size (set_left q v h) p = t_size h p" and "t_size (set_right q v h) p = t_size h p"
    and "t_size (set_parent q v h) p = t_size h p"
  using assms
  by (auto simp: nodes_apart_def t_left_def t_right_def t_parent_def t_size_def set_left_def set_right_def set_parent_def
      put_ptr_def rd_wr_other rd_wr_same)

lemma field_bounds: "t_left h p < 2 ^ 64" "t_right h p < 2 ^ 64" "t_parent h p < 2 ^ 64"
  using rd_bound [of 8 "hmem h" "p + 4"] rd_bound [of 8 "hmem h" "p + 12"] rd_bound [of 8 "hmem h" "p + 20"]
  by (simp_all add: t_left_def t_right_def t_parent_def)

text \<open>The bytes an operation may change.\<close>

definition changes :: "nat set \<Rightarrow> gc_heap \<Rightarrow> gc_heap \<Rightarrow> bool" where
  "changes A h h' \<longleftrightarrow> (\<exists>m. h' = h\<lparr>hmem := m\<rparr> \<and> (\<forall>a. a \<notin> A \<longrightarrow> m a = hmem h a))"

lemma changes_refl: "changes A h h"
  by (auto simp: changes_def intro!: exI [of _ "hmem h"])

lemma changes_trans: "changes A h h' \<Longrightarrow> changes A h' h'' \<Longrightarrow> changes A h h''"
  by (auto simp: changes_def)

lemma changes_mono: "changes A h h' \<Longrightarrow> A \<subseteq> B \<Longrightarrow> changes B h h'"
  by (auto simp: changes_def)

lemma changesD: "changes A h h' \<Longrightarrow> a \<notin> A \<Longrightarrow> hmem h' a = hmem h a"
  by (auto simp: changes_def)

lemma changes_sel:
  "changes A h h' \<Longrightarrow> base_addr h' = base_addr h \<and> current_size h' = current_size h \<and> kfc_normal_list h' = kfc_normal_list h \<and>
     kfc_tree_root h' = kfc_tree_root h \<and> is_heap_corrupted h' = is_heap_corrupted h \<and> highmark_size h' = highmark_size h \<and>
     total_free_size h' = total_free_size h \<and> heap_id h' = heap_id h \<and> init_size h' = init_size h"
  by (auto simp: changes_def)

definition links :: "nat \<Rightarrow> nat set" where
  "links p = {p + 4..<p + 28}"

lemma changes_setters:
  "links p \<subseteq> A \<Longrightarrow> changes A h (set_left p v h)" "links p \<subseteq> A \<Longrightarrow> changes A h (set_right p v h)"
  "links p \<subseteq> A \<Longrightarrow> changes A h (set_parent p v h)" "links p \<subseteq> A \<Longrightarrow> changes A h (clear_node p h)"
proof -
  have put: "{a..<a + 8} \<subseteq> A \<Longrightarrow> changes A h (put_ptr a v h)" for a v h
    unfolding changes_def put_ptr_def by (rule exI, rule conjI, rule refl) (auto simp: wr_apply)
  show s: "changes A h (set_left p v h)" "changes A h (set_right p v h)" "changes A h (set_parent p v h)" if "links p \<subseteq> A" for v h
    using that by (auto simp: set_left_def set_right_def set_parent_def links_def subset_eq intro!: put)
  show "changes A h (clear_node p h)" if "links p \<subseteq> A"
    unfolding clear_node_def using s [OF that] by (blast intro: changes_trans)
qed

lemma changes_fields:
  assumes "changes A h h'" and "\<And>a. p \<le> a \<Longrightarrow> a < p + 32 \<Longrightarrow> a \<notin> A"
  shows "t_left h' p = t_left h p" "t_right h' p = t_right h p" "t_parent h' p = t_parent h p" "t_size h' p = t_size h p"
  using assms unfolding t_left_def t_right_def t_parent_def t_size_def
  by (auto intro!: rd_cong changesD [OF assms(1)])

lemma changes_size: "changes (\<Union> (links ` S)) h h' \<Longrightarrow> (\<And>q. q \<in> S \<Longrightarrow> nodes_apart p q) \<Longrightarrow> t_size h' p = t_size h p"
  unfolding t_size_def by (rule rd_cong, rule changesD) (fastforce simp: links_def nodes_apart_def)+

section \<open>Removing a node\<close>

definition tree_ok :: "gc_heap \<Rightarrow> nat tree \<Rightarrow> bool" where
  "tree_ok h t \<longleftrightarrow>
     tree_at (t_left h) (t_right h) (t_parent h) 0 t \<and> distinct (inorder t) \<and>
     (\<forall>p \<in> set_tree t. p + 32 \<le> 2 ^ 64) \<and> (\<forall>p \<in> set_tree t. \<forall>q \<in> set_tree t. nodes_apart p q)"

lemma tree_okD:
  assumes "tree_ok h t"
  shows "tree_at (t_left h) (t_right h) (t_parent h) 0 t" "distinct (inorder t)"
    "p \<in> set_tree t \<Longrightarrow> q \<in> set_tree t \<Longrightarrow> nodes_apart p q" "p \<in> set_tree t \<Longrightarrow> p < 2 ^ 64"
  using assms by (fastforce simp: tree_ok_def)+

text \<open>The pointer to \<open>p\<close> in its parent, as the code finds it.\<close>

definition slot_of :: "gc_heap \<Rightarrow> nat \<Rightarrow> nat" where
  "slot_of h p = (if p = t_right h (t_parent h p) then t_parent h p + 12 else t_parent h p + 4)"

lemma slot_found:
  assumes "tree_ok h t" and "p \<in> set_tree t" and "p \<noteq> root_of t"
  shows "(if p = t_right h (t_parent h p) then Some (t_parent h p + 12)
          else if p = t_left h (t_parent h p) then Some (t_parent h p + 4) else None) = Some (slot_of h p)"
    and "t_parent h p \<in> set_tree t" "t_parent h p \<notin> set_tree (sub p t)" "t_parent h p \<noteq> 0"
  using tree_at_parent(1) [OF tree_okD(1,2) [OF assms(1)] assms(2,3)] tree_at_nonzero [OF tree_okD(1) [OF assms(1)]]
  by (auto simp: slot_of_def)

lemma slot_update:
  assumes "tree_ok h t" and "p \<in> set_tree t" and "p \<noteq> root_of t" and "v < 2 ^ 64"
  defines "h' \<equiv> put_ptr (slot_of h p) v h"
  shows "x \<in> set_tree t \<Longrightarrow> t_left h' x = (if t_left h x = p then v else t_left h x)"
    and "x \<in> set_tree t \<Longrightarrow> t_right h' x = (if t_right h x = p then v else t_right h x)"
    and "x \<in> set_tree t \<Longrightarrow> t_parent h' x = t_parent h x"
    and "nodes_apart x (t_parent h p) \<Longrightarrow> x \<noteq> t_parent h p \<Longrightarrow> t_left h' x = t_left h x \<and> t_right h' x = t_right h x \<and> t_parent h' x = t_parent h x"
    and "changes (links (t_parent h p)) h h'"
proof -
  let ?q = "t_parent h p"
  note par = tree_at_parent [OF tree_okD(1,2) [OF assms(1)] assms(2)]
  note s = par(1) [OF assms(3)]
  have h': "h' = (if p = t_right h ?q then set_right ?q v h else set_left ?q v h)"
    by (simp add: h'_def slot_of_def set_right_def set_left_def)
  show "t_left h' x = (if t_left h x = p then v else t_left h x)" "t_right h' x = (if t_right h x = p then v else t_right h x)"
    "t_parent h' x = t_parent h x" if x: "x \<in> set_tree t"
  proof -
    have a: "nodes_apart x ?q" using tree_okD(3) [OF assms(1) x] s by blast
    have "t_left h x = p \<longleftrightarrow> x = ?q \<and> t_left h ?q = p" "t_right h x = p \<longleftrightarrow> x = ?q \<and> t_right h ?q = p"
      using par(2) [OF x] by auto
    then show "t_left h' x = (if t_left h x = p then v else t_left h x)" "t_right h' x = (if t_right h x = p then v else t_right h x)"
      "t_parent h' x = t_parent h x"
      unfolding h' using s field_updates [OF a] assms(4) by (cases "p = t_right h ?q"; simp)+
  qed
  show "t_left h' x = t_left h x \<and> t_right h' x = t_right h x \<and> t_parent h' x = t_parent h x"
    if "nodes_apart x ?q" "x \<noteq> ?q" using field_updates [OF that(1)] that(2) assms(4) by (auto simp: h')
  show "changes (links ?q) h h'" by (auto simp: h' intro: changes_setters)
qed

lemma clear_other:
  assumes "nodes_apart x p" and "x \<noteq> p"
  shows "t_left (clear_node p h) x = t_left h x" "t_right (clear_node p h) x = t_right h x" "t_parent (clear_node p h) x = t_parent h x"
  using assms by (simp_all add: clear_node_def field_updates)

definition lift_child :: "nat \<Rightarrow> nat \<Rightarrow> nat \<Rightarrow> gc_heap \<Rightarrow> gc_heap" where
  "lift_child slot p c h =
     clear_node p (if c \<noteq> 0 then set_parent c (t_parent h p) (put_ptr slot c h) else put_ptr slot c h)"

lemma move_up_lift:
  assumes "tree_ok h t" and "p \<in> set_tree t" and "p \<noteq> root_of t" and "\<forall>x \<in> set_tree (sub p t). hmu_is_in_heap x h"
  shows "move_right_up (slot_of h p) p h = (True, lift_child (slot_of h p) p (t_right h p) h)"
    and "t_left h p \<noteq> 0 \<Longrightarrow> move_left_up (slot_of h p) p h = (True, lift_child (slot_of h p) p (t_left h p) h)"
proof -
  obtain l r where s: "sub p t = Node l p r" using sub_node(2) [OF tree_okD(1,2) [OF assms(1)] assms(2)] by blast
  have at: "tree_at (t_left h) (t_right h) (t_parent h) (t_parent h p) (Node l p r)"
    using sub_node(1) [OF tree_okD(1,2) [OF assms(1)] assms(2)] s by simp
  note sl = slot_found [OF assms(1-3)]
  have "t_parent h p \<noteq> p" using sl(3) s by auto
  then have keep: "t_left (put_ptr (slot_of h p) v h) p = t_left h p" "t_right (put_ptr (slot_of h p) v h) p = t_right h p"
    "t_parent (put_ptr (slot_of h p) v h) p = t_parent h p" if "v < 2 ^ 64" for v
    using slot_update(4) [OF assms(1-3) that, of p] tree_okD(3) [OF assms(1,2) sl(2)] by auto
  have heap: "hmu_is_in_heap x (put_ptr a v h) = hmu_is_in_heap x h" for x a v
    by (simp add: hmu_is_in_heap_def put_ptr_def)
  have "t_right h p \<noteq> 0 \<Longrightarrow> t_right h p \<in> set_tree (sub p t)" "t_left h p \<noteq> 0 \<Longrightarrow> t_left h p \<in> set_tree (sub p t)"
    using at s by (cases r; cases l; simp)+
  then show "move_right_up (slot_of h p) p h = (True, lift_child (slot_of h p) p (t_right h p) h)"
    "t_left h p \<noteq> 0 \<Longrightarrow> move_left_up (slot_of h p) p h = (True, lift_child (slot_of h p) p (t_left h p) h)"
    using assms(4) field_bounds [of h p]
    by (simp_all add: move_right_up_def move_left_up_def lift_child_def keep heap)
qed

lemma lift_ok:
  assumes ok: "tree_ok h t" and p: "p \<in> set_tree t" "p \<noteq> root_of t" and s: "sub p t = Node l p r"
    and c: "l = Leaf \<and> c = r \<or> r = Leaf \<and> c = l"
  defines "h' \<equiv> lift_child (slot_of h p) p (root_of c) h"
  shows "tree_at (t_left h') (t_right h') (t_parent h') 0 (replace p c t)"
    and "changes (\<Union> (links ` set_tree t)) h h'"
    and "\<And>x. x \<in> set_tree t \<Longrightarrow> x \<notin> set_tree (sub p t) \<Longrightarrow> t_parent h' x = t_parent h x \<and>
           t_left h' x = (if t_left h x = p then root_of c else t_left h x) \<and>
           t_right h' x = (if t_right h x = p then root_of c else t_right h x)"
proof -
  let ?h1 = "put_ptr (slot_of h p) (root_of c) h"
  have at: "tree_at (t_left h) (t_right h) (t_parent h) (t_parent h p) (Node l p r)" "distinct (inorder (Node l p r))"
    using sub_node(1,3) [OF tree_okD(1,2) [OF ok] p(1)] s by simp_all
  then have atc: "tree_at (t_left h) (t_right h) (t_parent h) p c" "distinct (inorder c)" "p \<notin> set_tree c"
    using c by auto
  have sub: "set_tree c \<subseteq> set_tree t" "set_tree c \<subseteq> set_tree (sub p t)" using sub_subset [of p t] s c by auto
  have cr: "root_of c \<noteq> 0 \<Longrightarrow> root_of c \<in> set_tree c" by (cases c) simp_all
  then have c64: "root_of c < 2 ^ 64" using tree_okD(4) [OF ok, of "root_of c"] sub(1) by (cases "root_of c = 0") auto
  note sl = slot_update [OF ok p c64]
  have h': "t_left h' x = t_left ?h1 x" "t_right h' x = t_right ?h1 x"
    "t_parent h' x = (if root_of c \<noteq> 0 \<and> x = root_of c then t_parent h p else t_parent ?h1 x)" if "x \<in> set_tree t" "x \<noteq> p" for x
  proof -
    have a: "nodes_apart x p" using tree_okD(3) [OF ok that(1) p(1)] .
    have b: "root_of c \<noteq> 0 \<Longrightarrow> nodes_apart x (root_of c)" using tree_okD(3) [OF ok that(1)] cr sub(1) by auto
    show "t_left h' x = t_left ?h1 x" "t_right h' x = t_right ?h1 x"
      "t_parent h' x = (if root_of c \<noteq> 0 \<and> x = root_of c then t_parent h p else t_parent ?h1 x)"
      using b field_bounds(3) [of h p] by (auto simp: h'_def lift_child_def clear_other [OF a that(2)] field_updates)
  qed
  show out: "t_parent h' x = t_parent h x \<and> t_left h' x = (if t_left h x = p then root_of c else t_left h x) \<and>
      t_right h' x = (if t_right h x = p then root_of c else t_right h x)" if "x \<in> set_tree t" "x \<notin> set_tree (sub p t)" for x
    using h' [of x] sl(1-3) [OF that(1)] that cr sub(2) s by auto
  have "tree_at (t_left h') (t_right h') (t_parent h') (t_parent h p) c"
  proof (rule reparent [OF atc(1,2)])
    fix y assume y: "y \<in> set_tree c"
    then have yt: "y \<in> set_tree t" "y \<noteq> p" using sub(1) atc(3) by auto
    have "t_left h y \<noteq> p" "t_right h y \<noteq> p"
      using tree_at_children [OF atc(1) y] atc(3) tree_at_nonzero [OF tree_okD(1) [OF ok] p(1)] by auto
    then show "t_left h' y = t_left h y \<and> t_right h' y = t_right h y \<and> (y \<noteq> root_of c \<longrightarrow> t_parent h' y = t_parent h y)"
      using h' [OF yt] sl(1-3) [OF yt(1)] by simp
  next
    assume "c \<noteq> Leaf"
    then have "root_of c \<noteq> 0" "root_of c \<in> set_tree c" using atc(1) by (cases c; simp)+
    then show "t_parent h' (root_of c) = t_parent h p" using h'(3) [of "root_of c"] sub(1) atc(3) by auto
  qed
  then show "tree_at (t_left h') (t_right h') (t_parent h') 0 (replace p c t)"
    using tree_at_replace [OF tree_okD(1,2) [OF ok] p(1)] out by blast
  have ls: "x \<in> set_tree t \<Longrightarrow> links x \<subseteq> \<Union> (links ` set_tree t)" for x by auto
  have "changes (\<Union> (links ` set_tree t)) h ?h1"
    using changes_mono [OF sl(5) ls] slot_found(2) [OF ok p] by blast
  moreover have "changes (\<Union> (links ` set_tree t)) ?h1 h'"
    unfolding h'_def lift_child_def using cr sub(1) p(1)
    by (auto intro!: changes_trans [OF changes_setters(3) changes_setters(4)] changes_setters(4) ls)
  ultimately show "changes (\<Union> (links ` set_tree t)) h h'" by (rule changes_trans)
qed

lemma inorder_lift:
  assumes "distinct (inorder t)" and "p \<in> set_tree t" and "sub p t = Node l p r" and "l = Leaf \<and> c = r \<or> r = Leaf \<and> c = l"
  shows "\<exists>ys zs. inorder t = ys @ p # zs \<and> inorder (replace p c t) = ys @ zs"
proof -
  obtain ys zs where "inorder t = ys @ inorder (sub p t) @ zs" "inorder (replace p c t) = ys @ inorder c @ zs"
    using inorder_replace [OF assms(1,2)] by blast
  then show ?thesis using assms(3,4)
    by (intro exI [of _ "ys @ inorder l"] exI [of _ "inorder r @ zs"]) auto
qed

lemma set_tree_inorder: "set_tree t = set (inorder t)"
  by simp

lemma tree_ok_subset:
  assumes "tree_ok h t" and "tree_at (t_left h') (t_right h') (t_parent h') 0 t'" and "inorder t = ys @ p # zs" and "inorder t' = ys @ zs"
  shows "tree_ok h' t'" and "set_tree t' = set_tree t - {p}"
proof -
  have d: "distinct (ys @ p # zs)" using tree_okD(2) [OF assms(1)] assms(3) by simp
  then show "set_tree t' = set_tree t - {p}" unfolding set_tree_inorder assms(3,4) by auto
  then show "tree_ok h' t'" using assms d unfolding tree_ok_def by auto
qed

text \<open>The predecessor of a node is the rightmost node of its left subtree.\<close>

fun rightmost :: "nat tree \<Rightarrow> nat" where
  "rightmost Leaf = 0"
| "rightmost (Node l p r) = (if r = Leaf then p else rightmost r)"

lemma predecessor_rightmost:
  assumes "tree_at (t_left h) (t_right h) (t_parent h) par t" and "t \<noteq> Leaf" and "\<And>x. x \<in> set_tree t \<Longrightarrow> hmu_is_in_heap x h"
  shows "predecessor h (root_of t) = Some (Some (rightmost t))"
  using assms
proof (induction t arbitrary: par)
  case (Node l p r)
  show ?case
  proof (cases "r = Leaf")
    case True
    then show ?thesis using Node.prems(1) by (subst predecessor.simps) simp
  next
    case False
    then have "root_of r \<in> set_tree r" "root_of r \<noteq> 0" using Node.prems(1) by (cases r; simp)+
    moreover have "predecessor h (root_of r) = Some (Some (rightmost r))"
      using Node.IH(2) [of p] Node.prems False by simp
    ultimately show ?thesis using False Node.prems by (subst predecessor.simps) simp
  qed
qed simp

lemma rightmost_last:
  assumes "t \<noteq> Leaf" and "distinct (inorder t)"
  shows "rightmost t \<in> set_tree t" and "\<exists>ql. sub (rightmost t) t = Node ql (rightmost t) Leaf \<and>
    inorder t = inorder (replace (rightmost t) ql t) @ [rightmost t]"
proof -
  have "rightmost t \<in> set_tree t \<and> (\<exists>ql. sub (rightmost t) t = Node ql (rightmost t) Leaf \<and>
      inorder t = inorder (replace (rightmost t) ql t) @ [rightmost t])" using assms
  proof (induction t)
    case (Node l p r)
    show ?case
    proof (cases "r = Leaf")
      case False
      then have ih: "rightmost r \<in> set_tree r" "\<exists>ql. sub (rightmost r) r = Node ql (rightmost r) Leaf \<and>
          inorder r = inorder (replace (rightmost r) ql r) @ [rightmost r]"
        using Node by auto
      moreover have "rightmost r \<noteq> p" "rightmost r \<notin> set_tree l" using ih(1) Node.prems(2) by auto
      ultimately show ?thesis using False by auto
    qed simp
  qed simp
  then show "rightmost t \<in> set_tree t" and "\<exists>ql. sub (rightmost t) t = Node ql (rightmost t) Leaf \<and>
    inorder t = inorder (replace (rightmost t) ql t) @ [rightmost t]" by blast+
qed

lemma sub_sub:
  assumes "distinct (inorder t)" and "p \<in> set_tree t" and "q \<in> set_tree (sub p t)"
  shows "sub q t = sub q (sub p t)"
  using assms
proof (induction t)
  case (Node l x r)
  have d: "set_tree l \<inter> set_tree r = {}" "x \<notin> set_tree l" "x \<notin> set_tree r" using Node.prems(1) by auto
  show ?case
  proof (cases "x = p")
    case False
    then have "q \<in> set_tree l" "q \<noteq> x" if "p \<in> set_tree l"
      using that Node.prems(3) sub_subset [of p l] d by auto
    moreover have "q \<in> set_tree r" "q \<noteq> x" "q \<notin> set_tree l" if "p \<notin> set_tree l"
      using that False Node.prems(3) sub_subset [of p r] d by auto
    ultimately show ?thesis using False Node by (cases "p \<in> set_tree l") simp_all
  qed simp
qed simp

lemma sub_replace:
  assumes "distinct (inorder t)" and "p \<in> set_tree t" and "q \<in> set_tree (sub p t)" and "q \<noteq> p"
  shows "sub p (replace q c t) = replace q c (sub p t)"
  using assms
proof (induction t)
  case (Node l x r)
  have d: "set_tree l \<inter> set_tree r = {}" "x \<notin> set_tree l" "x \<notin> set_tree r" "distinct (inorder l)" "distinct (inorder r)"
    using Node.prems(1) by auto
  consider "x = p" | "x \<noteq> p" "p \<in> set_tree l" | "x \<noteq> p" "p \<notin> set_tree l" "p \<in> set_tree r"
    using Node.prems(2) by auto
  then show ?case
  proof cases
    case 2
    then have q: "q \<in> set_tree (sub p l)" "q \<in> set_tree l" "q \<noteq> x" using Node.prems(3) sub_subset [of p l] d by auto
    have "p \<in> set_tree (replace q c l)"
    proof -
      have "sub p (replace q c l) = replace q c (sub p l)" using Node.IH(1) d(4) 2(2) q(1) Node.prems(4) by blast
      moreover have "\<exists>a b. sub p l = Node a p b" using 2(2) d(4) by (induction l) (auto split: if_splits)
      ultimately show ?thesis using Node.prems(4) sub_subset [of p "replace q c l"] by fastforce
    qed
    then show ?thesis using 2 q Node d by auto
  next
    case 3
    then have q: "q \<in> set_tree (sub p r)" "q \<in> set_tree r" "q \<noteq> x" "q \<notin> set_tree l"
      using Node.prems(3) sub_subset [of p r] d by auto
    then show ?thesis using 3 Node d by auto
  qed (use Node.prems in auto)
qed simp

definition put_in_place :: "nat \<Rightarrow> nat \<Rightarrow> nat \<Rightarrow> gc_heap \<Rightarrow> gc_heap" where
  "put_in_place slot p q h =
     clear_node p
       ((if t_right h p \<noteq> 0 then set_parent (t_right h p) q else id)
          ((if t_left h p \<noteq> 0 then set_parent (t_left h p) q else id)
             (set_right q (t_right h p) (set_left q (t_left h p) (set_parent q (t_parent h p) (put_ptr slot q h))))))"

lemma replace_node_eq:
  assumes ok: "tree_ok h t" and p: "p \<in> set_tree t" "p \<noteq> root_of t" and q: "q \<notin> set_tree t" "q < 2 ^ 64"
    and qa: "\<forall>x \<in> set_tree t. nodes_apart x q" and heap: "\<forall>x \<in> set_tree (sub p t). hmu_is_in_heap x h"
  shows "replace_node (slot_of h p) p q h = (True, put_in_place (slot_of h p) p q h)"
proof -
  obtain l r where s: "sub p t = Node l p r" using sub_node(2) [OF tree_okD(1,2) [OF ok] p(1)] by blast
  have at: "tree_at (t_left h) (t_right h) (t_parent h) (t_parent h p) (Node l p r)" "distinct (inorder (Node l p r))"
    using sub_node(1,3) [OF tree_okD(1,2) [OF ok] p(1)] s by simp_all
  note sl = slot_found [OF ok p]
  have pp: "t_parent h p \<noteq> p" using sl(3) s by auto
  have pq: "nodes_apart p q" "p \<noteq> q" "nodes_apart q p" using bspec [OF qa p(1)] p(1) q(1) by (auto simp: nodes_apart_def)
  have keep: "t_left (put_ptr (slot_of h p) q h) p = t_left h p" "t_right (put_ptr (slot_of h p) q h) p = t_right h p"
    "t_parent (put_ptr (slot_of h p) q h) p = t_parent h p"
    using slot_update(4) [OF ok p q(2), of p] tree_okD(3) [OF ok p(1) sl(2)] pp by auto
  have ch: "x \<noteq> 0 \<Longrightarrow> x = t_left h p \<or> x = t_right h p \<Longrightarrow> x \<in> set_tree (sub p t) \<and> x \<in> set_tree t \<and> x \<noteq> p" for x
    using at s sub_subset [of p t] by (cases l; cases r) auto
  have inh: "hmu_is_in_heap x (set_parent a b g) = hmu_is_in_heap x g" "hmu_is_in_heap x (set_left a b g) = hmu_is_in_heap x g"
    "hmu_is_in_heap x (set_right a b g) = hmu_is_in_heap x g" "hmu_is_in_heap x (put_ptr a b g) = hmu_is_in_heap x g" for x a b g
    by (simp_all add: hmu_is_in_heap_def set_left_def set_right_def set_parent_def put_ptr_def)
  have qq: "nodes_apart q q" by (simp add: nodes_apart_def)
  have aq: "nodes_apart q x" if "x \<noteq> 0" "x = t_left h p \<or> x = t_right h p" for x using qa ch [OF that] by (subst nodes_apart_sym) blast
  note fu = field_updates [OF pq(1)] field_updates [OF pq(3)] field_updates [OF qq]
  have la: "t_left h p \<noteq> 0 \<Longrightarrow> nodes_apart q (t_left h p)" "t_right h p \<noteq> 0 \<Longrightarrow> nodes_apart q (t_right h p)" using aq by auto
  have lh: "t_left h p = 0 \<or> hmu_is_in_heap (t_left h p) h" "t_right h p = 0 \<or> hmu_is_in_heap (t_right h p) h"
    using ch heap by auto
  show ?thesis
    unfolding replace_node_def Let_def
    using pq(2) field_bounds [of h p] lh
    by (simp add: keep fu inh put_in_place_def field_updates(2) [OF la(1)] field_updates(8) [OF la(1)])
qed

lemma place_fields:
  assumes ok: "tree_ok h t" and p: "p \<in> set_tree t" "p \<noteq> root_of t" and q: "q \<notin> set_tree t" "q < 2 ^ 64"
    and qa: "\<forall>x \<in> set_tree t. nodes_apart x q"
  defines "h' \<equiv> put_in_place (slot_of h p) p q h"
  shows "x \<in> set_tree t \<Longrightarrow> x \<noteq> p \<Longrightarrow> t_left h' x = (if t_left h x = p then q else t_left h x)"
    and "x \<in> set_tree t \<Longrightarrow> x \<noteq> p \<Longrightarrow> t_right h' x = (if t_right h x = p then q else t_right h x)"
    and "x \<in> set_tree t \<Longrightarrow> x \<noteq> p \<Longrightarrow>
           t_parent h' x = (if x = t_left h p \<and> x \<noteq> 0 \<or> x = t_right h p \<and> x \<noteq> 0 then q else t_parent h x)"
    and "t_left h' q = t_left h p" and "t_right h' q = t_right h p" and "t_parent h' q = t_parent h p"
    and "changes (\<Union> (links ` insert q (set_tree t))) h h'"
proof -
  let ?h1 = "put_ptr (slot_of h p) q h" and ?l = "t_left h p" and ?r = "t_right h p"
  note sl = slot_found [OF ok p] and su = slot_update [OF ok p q(2)]
  have ch: "?l \<in> insert 0 (set_tree t)" "?r \<in> insert 0 (set_tree t)"
    using tree_at_children [OF tree_okD(1) [OF ok] p(1)] by auto
  have ne: "?l \<noteq> 0 \<Longrightarrow> q \<noteq> ?l" "?r \<noteq> 0 \<Longrightarrow> q \<noteq> ?r" using ch q(1) by auto
  have step: "t_left h' x = t_left ?h1 x" "t_right h' x = t_right ?h1 x"
    "t_parent h' x = (if x = ?l \<and> x \<noteq> 0 \<or> x = ?r \<and> x \<noteq> 0 then q else t_parent ?h1 x)"
    if x: "x \<in> set_tree t" "x \<noteq> p" for x
  proof -
    have a: "nodes_apart x p" "nodes_apart x q" "x \<noteq> q" using tree_okD(3) [OF ok x(1) p(1)] bspec [OF qa x(1)] x(1) q(1) by auto
    have b: "?l \<noteq> 0 \<Longrightarrow> nodes_apart x ?l" "?r \<noteq> 0 \<Longrightarrow> nodes_apart x ?r" using ch tree_okD(3) [OF ok x(1)] by auto
    show "t_left h' x = t_left ?h1 x" "t_right h' x = t_right ?h1 x"
      "t_parent h' x = (if x = ?l \<and> x \<noteq> 0 \<or> x = ?r \<and> x \<noteq> 0 then q else t_parent ?h1 x)"
      using b a(3) q(2) field_bounds [of h p]
      by (auto simp: h'_def put_in_place_def clear_other [OF a(1) x(2)] field_updates [OF a(2)] field_updates)
  qed
  show "t_left h' x = (if t_left h x = p then q else t_left h x)" "t_right h' x = (if t_right h x = p then q else t_right h x)"
    "t_parent h' x = (if x = t_left h p \<and> x \<noteq> 0 \<or> x = t_right h p \<and> x \<noteq> 0 then q else t_parent h x)"
    if "x \<in> set_tree t" "x \<noteq> p" using step [OF that] su(1-3) [OF that(1)] by simp_all
  have a: "nodes_apart q p" "q \<noteq> p" "nodes_apart q q" using bspec [OF qa p(1)] p(1) q(1) by (auto simp: nodes_apart_def)
  have b: "?l \<noteq> 0 \<Longrightarrow> nodes_apart q ?l" "?r \<noteq> 0 \<Longrightarrow> nodes_apart q ?r" using ch qa by (auto simp: nodes_apart_def)
  show "t_left h' q = t_left h p" "t_right h' q = t_right h p" "t_parent h' q = t_parent h p"
    using b ne field_bounds [of h p] q(2)
    by (auto simp: h'_def put_in_place_def clear_other [OF a(1,2)] field_updates [OF a(3)] field_updates)
  let ?A = "\<Union> (links ` insert q (set_tree t))"
  have ls: "x \<in> insert q (set_tree t) \<Longrightarrow> links x \<subseteq> ?A" for x by blast
  have up: "changes ?A g ((if c \<noteq> 0 then set_parent c q else id) g)" if "c = ?l \<or> c = ?r" for c g
    using ch that ls [of c] by (auto intro: changes_setters(3) changes_refl)
  have q1: "changes ?A g (set_parent q v g)" "changes ?A g (set_left q v g)" "changes ?A g (set_right q v g)" "changes ?A g (clear_node p g)" for g v
    using ls [of q] ls [of p] p(1) by (auto intro: changes_setters)
  have "changes ?A h ?h1" using changes_mono [OF su(5) ls] sl(2) by blast
  note this [THEN changes_trans, OF q1(1), THEN changes_trans, OF q1(2), THEN changes_trans, OF q1(3),
      THEN changes_trans, OF up [OF disjI1 [OF refl]], THEN changes_trans, OF up [OF disjI2 [OF refl]], THEN changes_trans, OF q1(4)]
  then show "changes ?A h h'" unfolding h'_def put_in_place_def .
qed

lemma place_ok:
  assumes ok: "tree_ok h t" and p: "p \<in> set_tree t" "p \<noteq> root_of t" and q: "q \<notin> set_tree t" "q \<noteq> 0" "q + 32 \<le> 2 ^ 64"
    and qa: "\<forall>x \<in> set_tree t. nodes_apart x q" and s: "sub p t = Node l p r"
  defines "h' \<equiv> put_in_place (slot_of h p) p q h"
  shows "tree_ok h' (replace p (Node l q r) t)"
    and "\<exists>ys zs. inorder t = ys @ p # zs \<and> inorder (replace p (Node l q r) t) = ys @ q # zs"
proof -
  have at: "tree_at (t_left h) (t_right h) (t_parent h) (t_parent h p) (Node l p r)" "distinct (inorder (Node l p r))"
    using sub_node(1,3) [OF tree_okD(1,2) [OF ok] p(1)] s by simp_all
  have p0: "p \<noteq> 0" using at(1) by simp
  have sub: "set_tree l \<subseteq> set_tree t" "set_tree r \<subseteq> set_tree t" using sub_subset [of p t] s by auto
  have q64: "q < 2 ^ 64" using q(3) by simp
  note f = place_fields [OF ok p q(1) q64 qa, folded h'_def]
  have cr: "c \<noteq> Leaf \<Longrightarrow> root_of c \<in> set_tree c \<and> root_of c \<noteq> 0" if "tree_at (t_left h) (t_right h) (t_parent h) p c" for c
    using that by (cases c) simp_all
  have child: "tree_at (t_left h') (t_right h') (t_parent h') q c" if c: "c = l \<or> c = r" for c
  proof (rule reparent)
    show atc: "tree_at (t_left h) (t_right h) (t_parent h) p c" "distinct (inorder c)" using at c by auto
    have pc: "p \<notin> set_tree c" and other: "(root_of l \<in> set_tree c \<longrightarrow> c = l \<or> l = Leaf) \<and> (root_of r \<in> set_tree c \<longrightarrow> c = r \<or> r = Leaf)"
      using at c cr [of l] cr [of r] by auto
    fix y assume y: "y \<in> set_tree c"
    then have yt: "y \<in> set_tree t" "y \<noteq> p" "y \<noteq> 0" using c sub pc tree_at_nonzero [OF atc(1)] by auto
    have "t_left h y \<noteq> p" "t_right h y \<noteq> p" using tree_at_children [OF atc(1) y] pc p0 by auto
    moreover have "t_left h p = root_of l" "t_right h p = root_of r" using at(1) by simp_all
    ultimately show "t_left h' y = t_left h y \<and> t_right h' y = t_right h y \<and> (y \<noteq> root_of c \<longrightarrow> t_parent h' y = t_parent h y)"
      using f(1-3) [OF yt(1,2)] other y c yt(3) by auto
  next
    have atc: "tree_at (t_left h) (t_right h) (t_parent h) p c" "p \<notin> set_tree c" using at c by auto
    assume "c \<noteq> Leaf"
    then have "root_of c \<in> set_tree c" "root_of c \<noteq> 0" using cr [OF atc(1)] by auto
    moreover from this have "root_of c \<in> set_tree t" "root_of c \<noteq> p" using c sub atc(2) by auto
    ultimately show "t_parent h' (root_of c) = q" using f(3) [of "root_of c"] at(1) c by auto
  qed
  have "tree_at (t_left h') (t_right h') (t_parent h') (t_parent h p) (Node l q r)"
    using child [of l] child [of r] q(2) f(4-6) at(1) by simp
  moreover have "t_parent h' x = t_parent h x \<and> t_left h' x = (if t_left h x = p then root_of (Node l q r) else t_left h x) \<and>
      t_right h' x = (if t_right h x = p then root_of (Node l q r) else t_right h x)"
    if x: "x \<in> set_tree t" "x \<notin> set_tree (sub p t)" for x
  proof -
    have "x \<noteq> p" "x \<noteq> root_of l \<or> x = 0" "x \<noteq> root_of r \<or> x = 0"
      using x(2) s cr [of l] cr [of r] at(1) by (cases l; cases r; auto)+
    then show ?thesis using f(1-3) [OF x(1)] at(1) by auto
  qed
  ultimately have "tree_at (t_left h') (t_right h') (t_parent h') 0 (replace p (Node l q r) t)"
    using tree_at_replace [OF tree_okD(1,2) [OF ok] p(1)] by blast
  moreover obtain ys zs where yz: "inorder t = ys @ inorder (sub p t) @ zs" "inorder (replace p (Node l q r) t) = ys @ inorder (Node l q r) @ zs"
    using inorder_replace [OF tree_okD(2) [OF ok] p(1)] by blast
  moreover have "set_tree (replace p (Node l q r) t) = insert q (set_tree t - {p})"
    using tree_okD(2) [OF ok] unfolding set_tree_inorder yz s by auto
  moreover have "nodes_apart q x" if "x \<in> set_tree t" for x using bspec [OF qa that] by (subst nodes_apart_sym)
  moreover have "distinct (inorder (replace p (Node l q r) t))"
  proof -
    have "q \<notin> set (inorder t)" "distinct (inorder t)" using q(1) tree_okD(2) [OF ok] by simp_all
    then show ?thesis unfolding yz s by auto
  qed
  ultimately show "tree_ok h' (replace p (Node l q r) t)"
    using ok q qa unfolding tree_ok_def by (auto simp: nodes_apart_def [of q q])
  show "\<exists>ys zs. inorder t = ys @ p # zs \<and> inorder (replace p (Node l q r) t) = ys @ q # zs"
    using yz s by (intro exI [of _ "ys @ inorder l"] exI [of _ "inorder r @ zs"]) simp
qed

lemma root_not_below:
  assumes "distinct (inorder t)" and "p \<in> set_tree t" and "p \<noteq> root_of t"
  shows "root_of t \<notin> set_tree (sub p t)"
  using assms sub_subset by (cases t) (auto simp: subset_eq)

text \<open>A node of the tree that is not its root, as the code checks it.\<close>

definition removable :: "gc_heap \<Rightarrow> nat tree \<Rightarrow> nat \<Rightarrow> bool" where
  "removable h t p \<longleftrightarrow> tree_ok h t \<and> p \<in> set_tree t \<and> p \<noteq> root_of t \<and> kfc_tree_root h = root_of t \<and>
     (\<forall>x \<in> set_tree t. x \<noteq> root_of t \<longrightarrow> hmu_is_in_heap x h)"

lemma removable_below:
  assumes "removable h t p"
  shows "\<forall>x \<in> set_tree (sub p t). hmu_is_in_heap x h"
proof -
  have "root_of t \<notin> set_tree (sub p t)" using assms root_not_below [of t p] by (simp add: removable_def tree_ok_def)
  then show ?thesis using assms sub_subset [of p t] by (auto simp: removable_def)
qed

lemma remove_unfold:
  assumes "removable h t p"
  shows "remove_tree_node h p =
     (if t_left h p = 0 then Some (move_right_up (slot_of h p) p h)
      else if t_right h p = 0 then Some (move_left_up (slot_of h p) p h)
      else if \<not> hmu_is_in_heap (t_left h p) h then Some (False, corrupted h)
      else
        Option.bind (predecessor h (t_left h p))
          (\<lambda>r. case r of
             None \<Rightarrow> Some (False, corrupted h)
           | Some q \<Rightarrow>
               Option.bind (remove_tree_node h q)
                 (\<lambda>(ok, h'). if ok then Some (replace_node (slot_of h p) p q h') else Some (False, h'))))"
proof -
  have r: "tree_ok h t" "p \<in> set_tree t" "p \<noteq> root_of t" "kfc_tree_root h = root_of t"
    "\<forall>x \<in> set_tree t. x \<noteq> root_of t \<longrightarrow> hmu_is_in_heap x h" using assms by (simp_all add: removable_def)
  note s = slot_found [OF r(1-3)]
  have "\<not> (t_parent h p = 0 \<or> p = kfc_tree_root h \<or> \<not> hmu_is_in_heap p h \<or>
         (t_parent h p \<noteq> kfc_tree_root h \<and> \<not> hmu_is_in_heap (t_parent h p) h))"
    using s r by auto
  then show ?thesis by (subst remove_tree_node.simps) (simp only: s(1) if_False option.case)
qed

lemma remove_leafward:
  assumes "removable h t p" and "sub p t = Node l p r" and "l = Leaf \<and> c = r \<or> r = Leaf \<and> c = l"
  shows "remove_tree_node h p = Some (True, lift_child (slot_of h p) p (root_of c) h)"
proof -
  have r: "tree_ok h t" "p \<in> set_tree t" "p \<noteq> root_of t" using assms(1) by (simp_all add: removable_def)
  have at: "tree_at (t_left h) (t_right h) (t_parent h) (t_parent h p) (Node l p r)"
    using sub_node(1) [OF tree_okD(1,2) [OF r(1)] r(2)] assms(2) by simp
  then have lr: "t_left h p = root_of l" "t_right h p = root_of r" by simp_all
  note m = move_up_lift [OF r removable_below [OF assms(1)]]
  show ?thesis
  proof (cases "l = Leaf")
    case True
    then have "c = r" using assms(3) by auto
    then show ?thesis using True m(1) lr by (simp add: remove_unfold [OF assms(1)])
  next
    case False
    then have "r = Leaf" "c = l" "t_left h p \<noteq> 0" using assms(3) at by (cases l; auto)+
    then show ?thesis using m(2) lr by (simp add: remove_unfold [OF assms(1)])
  qed
qed

lemma replace_replace:
  assumes "distinct (inorder t)" and "p \<in> set_tree t" and "q \<in> set_tree (sub p t)" and "q \<noteq> p"
  shows "replace p new (replace q c t) = replace p new t"
  using assms
proof (induction t)
  case (Node l x r)
  have d: "set_tree l \<inter> set_tree r = {}" "x \<notin> set_tree l" "x \<notin> set_tree r" using Node.prems(1) by auto
  show ?case
  proof (cases "x = p")
    case False
    then have "q \<in> set_tree l" "q \<noteq> x" "q \<notin> set_tree r" if "p \<in> set_tree l"
      using that Node.prems(3) sub_subset [of p l] d by auto
    moreover have "q \<in> set_tree r" "q \<noteq> x" "q \<notin> set_tree l" if "p \<notin> set_tree l"
      using that False Node.prems(3) sub_subset [of p r] d by auto
    ultimately show ?thesis using False Node by (cases "p \<in> set_tree l") auto
  qed (use Node.prems(4) in simp)
qed simp

text \<open>Taking the predecessor \<open>q\<close> of an inner node \<open>p\<close> out of the tree leaves \<open>p\<close> in its place.\<close>

lemma take_predecessor:
  assumes rem: "removable h t p" and s: "sub p t = Node l p r" and inner: "l \<noteq> Leaf"
  obtains q ql h1 where "q = rightmost l" and "q \<in> set_tree t" and "q \<noteq> p" and "q \<noteq> 0" and "q + 32 \<le> 2 ^ 64"
    and "inorder l = inorder (replace q ql l) @ [q]" and "remove_tree_node h q = Some (True, h1)"
    and "tree_ok h1 (replace q ql t)" and "set_tree (replace q ql t) = set_tree t - {q}"
    and "root_of (replace q ql t) = root_of t" and "sub p (replace q ql t) = Node (replace q ql l) p r"
    and "slot_of h1 p = slot_of h p" and "changes (\<Union> (links ` set_tree t)) h h1"
    and "\<And>new. replace p new (replace q ql t) = replace p new t"
proof -
  have ok: "tree_ok h t" and p: "p \<in> set_tree t" "p \<noteq> root_of t" using rem by (simp_all add: removable_def)
  have at: "tree_at (t_left h) (t_right h) (t_parent h) (t_parent h p) (Node l p r)" "distinct (inorder (Node l p r))"
    using sub_node(1,3) [OF tree_okD(1,2) [OF ok] p(1)] s by simp_all
  define q where "q = rightmost l"
  have dl: "distinct (inorder l)" using at(2) by simp
  note rm = rightmost_last [OF inner dl, folded q_def]
  obtain ql where q: "sub q l = Node ql q Leaf" "inorder l = inorder (replace q ql l) @ [q]" using rm(2) by blast
  have qs: "q \<in> set_tree (sub p t)" "q \<noteq> p" "q \<notin> set_tree r" using rm(1) at(2) s by auto
  have qt: "q \<in> set_tree t" "q \<noteq> root_of t" using qs(1) sub_subset [of p t] root_not_below [OF tree_okD(2) [OF ok] p] by auto
  have q0: "q \<noteq> 0" "q + 32 \<le> 2 ^ 64" using tree_at_nonzero [OF tree_okD(1) [OF ok] qt(1)] ok qt(1) by (auto simp: tree_ok_def)
  have subq: "sub q t = Node ql q Leaf" using sub_sub [OF tree_okD(2) [OF ok] p(1) qs(1)] s qs(2) rm(1) q(1) by simp
  have remq: "removable h t q" using rem qt by (simp add: removable_def)
  define h1 where "h1 = lift_child (slot_of h q) q (root_of ql) h"
  have rq: "remove_tree_node h q = Some (True, h1)" unfolding h1_def by (rule remove_leafward [OF remq subq]) simp
  note lift = lift_ok [OF ok qt subq, of ql, simplified, folded h1_def]
  obtain ys zs where yz: "inorder t = ys @ q # zs" "inorder (replace q ql t) = ys @ zs"
    using inorder_lift [OF tree_okD(2) [OF ok] qt(1) subq, of ql] by auto
  note ok1 = tree_ok_subset [OF ok lift(1) yz]
  have p1: "p \<in> set_tree (replace q ql t)" "root_of (replace q ql t) = root_of t"
    using ok1(2) p qs(2) qt(2) q0 by (simp_all add: root_of_replace)
  have "p \<notin> set_tree (sub q t)" using subq rm(1) sub_subset [of q l] q(1) at(2) by auto
  then have par: "t_parent h1 p = t_parent h p" using lift(3) [OF p(1)] by simp
  have "set_tree (sub q t) \<subseteq> set_tree (sub p t)" using sub_sub [OF tree_okD(2) [OF ok] p(1) qs(1)] sub_subset by simp
  then have "t_parent h p \<notin> set_tree (sub q t)" using slot_found(3) [OF ok p] by auto
  note lp = lift(3) [OF slot_found(2) [OF ok p] this]
  have slot: "slot_of h1 p = slot_of h p"
  proof (cases "t_right h (t_parent h p) = p")
    case False
    then have "t_left h (t_parent h p) = p" using tree_at_parent(1) [OF tree_okD(1,2) [OF ok] p] by auto
    then have "t_left h1 (t_parent h1 p) = p" using lp par qs(2) by simp
    then have "t_right h1 (t_parent h1 p) \<noteq> p"
      using tree_at_parent(1) [OF tree_okD(1,2) [OF ok1(1)] p1(1)] p(2) p1(2) by auto
    then show ?thesis using False par by (simp add: slot_of_def)
  qed (use lp par qs(2) in \<open>simp add: slot_of_def\<close>)
  have s1: "sub p (replace q ql t) = Node (replace q ql l) p r"
    using sub_replace [OF tree_okD(2) [OF ok] p(1) qs(1,2)] s qs(2,3) by simp
  show thesis
    using replace_replace [OF tree_okD(2) [OF ok] p(1) qs(1,2)]
    by (intro that [OF q_def qt(1) qs(2) q0 q(2) rq ok1 p1(2) s1 slot lift(2)]) simp
qed

lemma remove_inner:
  assumes rem: "removable h t p" and s: "sub p t = Node l p r" and inner: "l \<noteq> Leaf" "r \<noteq> Leaf"
  shows "\<exists>h' t' ys zs. remove_tree_node h p = Some (True, h') \<and> tree_ok h' t' \<and> root_of t' = root_of t \<and>
     inorder t = ys @ p # zs \<and> inorder t' = ys @ zs \<and> changes (\<Union> (links ` set_tree t)) h h'"
proof -
  have ok: "tree_ok h t" and p: "p \<in> set_tree t" "p \<noteq> root_of t" using rem by (simp_all add: removable_def)
  have at: "tree_at (t_left h) (t_right h) (t_parent h) (t_parent h p) (Node l p r)" "distinct (inorder (Node l p r))"
    using sub_node(1,3) [OF tree_okD(1,2) [OF ok] p(1)] s by simp_all
  note below = removable_below [OF rem, unfolded s]
  obtain q ql h1 where q: "q = rightmost l" "q \<in> set_tree t" "q \<noteq> p" "q \<noteq> 0" "q + 32 \<le> 2 ^ 64"
    and ord: "inorder l = inorder (replace q ql l) @ [q]" and rq: "remove_tree_node h q = Some (True, h1)"
    and ok1: "tree_ok h1 (replace q ql t)" "set_tree (replace q ql t) = set_tree t - {q}" "root_of (replace q ql t) = root_of t"
    and s1: "sub p (replace q ql t) = Node (replace q ql l) p r" and slot: "slot_of h1 p = slot_of h p"
    and chg: "changes (\<Union> (links ` set_tree t)) h h1" and rr: "\<And>new. replace p new (replace q ql t) = replace p new t"
    by (rule take_predecessor [OF rem s inner(1)]) blast
  let ?t1 = "replace q ql t" and ?new = "Node (replace q ql l) q r"
  have p1: "p \<in> set_tree ?t1" "p \<noteq> root_of ?t1" using ok1(2,3) p q(3) by auto
  have q1: "q \<notin> set_tree ?t1" "\<forall>x \<in> set_tree ?t1. nodes_apart x q" "q < 2 ^ 64"
    using ok1(2) tree_okD(3) [OF ok _ q(2)] q(5) by auto
  have "set_tree (replace q ql l) \<subseteq> set_tree l" using ord unfolding set_tree_inorder by auto
  then have heap1: "\<forall>x \<in> set_tree (sub p ?t1). hmu_is_in_heap x h1"
    using below s1 changes_sel [OF chg] by (auto simp: hmu_is_in_heap_def)
  let ?h2 = "put_in_place (slot_of h p) p q h1"
  have rep: "replace_node (slot_of h p) p q h1 = (True, ?h2)"
    using replace_node_eq [OF ok1(1) p1 q1(1,3,2) heap1] slot by simp
  have lr: "t_left h p = root_of l" "t_right h p = root_of r" using at(1) by simp_all
  have ne: "root_of l \<noteq> 0" "root_of r \<noteq> 0" "root_of l \<in> set_tree l" using at(1) inner by (cases l; cases r; simp)+
  have "predecessor h (root_of l) = Some (Some q)"
    using predecessor_rightmost [of h p l] at(1) inner(1) below q(1) by simp
  then have result: "remove_tree_node h p = Some (True, ?h2)"
    using ne below by (simp add: remove_unfold [OF rem] lr rq rep)
  have "insert q (set_tree ?t1) = set_tree t" using ok1(2) q(2) by auto
  then have "changes (\<Union> (links ` set_tree t)) h1 ?h2"
    using place_fields(7) [OF ok1(1) p1 q1(1,3,2)] slot by simp
  then have all: "changes (\<Union> (links ` set_tree t)) h ?h2" by (rule changes_trans [OF chg])
  have ok2: "tree_ok ?h2 (replace p ?new t)"
    using place_ok(1) [OF ok1(1) p1 q1(1) q(4,5) q1(2) s1] slot rr by simp
  have root: "root_of (replace p ?new t) = root_of t"
    using p(2) tree_at_nonzero [OF tree_okD(1) [OF ok] p(1)] by (simp add: root_of_replace)
  obtain ys zs where "inorder t = ys @ inorder (sub p t) @ zs" "inorder (replace p ?new t) = ys @ inorder ?new @ zs"
    using inorder_replace [OF tree_okD(2) [OF ok] p(1)] by blast
  then have "inorder t = (ys @ inorder l) @ p # (inorder r @ zs)" "inorder (replace p ?new t) = (ys @ inorder l) @ (inorder r @ zs)"
    using s ord by simp_all
  then show ?thesis using result ok2 root all by blast
qed

lemma remove_tree_node_ok:
  assumes rem: "removable h t p"
  shows "\<exists>h' t' ys zs. remove_tree_node h p = Some (True, h') \<and> tree_ok h' t' \<and> root_of t' = root_of t \<and>
     inorder t = ys @ p # zs \<and> inorder t' = ys @ zs \<and> changes (\<Union> (links ` set_tree t)) h h'"
proof -
  have ok: "tree_ok h t" and p: "p \<in> set_tree t" "p \<noteq> root_of t" using rem by (simp_all add: removable_def)
  obtain l r where s: "sub p t = Node l p r" using sub_node(2) [OF tree_okD(1,2) [OF ok] p(1)] by blast
  show ?thesis
  proof (cases "l \<noteq> Leaf \<and> r \<noteq> Leaf")
    case True
    then show ?thesis using remove_inner [OF rem s] by blast
  next
    case False
    then obtain c where c: "l = Leaf \<and> c = r \<or> r = Leaf \<and> c = l" by blast
    note lift = lift_ok [OF ok p s c]
    obtain ys zs where yz: "inorder t = ys @ p # zs" "inorder (replace p c t) = ys @ zs"
      using inorder_lift [OF tree_okD(2) [OF ok] p(1) s c] by blast
    have "root_of (replace p c t) = root_of t"
      using p(2) tree_at_nonzero [OF tree_okD(1) [OF ok] p(1)] by (simp add: root_of_replace)
    then show ?thesis using remove_leafward [OF rem s c] tree_ok_subset(1) [OF ok lift(1) yz] yz lift(2) by blast
  qed
qed

section \<open>Linking a node\<close>

fun ins :: "(nat \<Rightarrow> nat) \<Rightarrow> nat \<Rightarrow> nat \<Rightarrow> nat tree \<Rightarrow> nat tree" where
  "ins Z x s Leaf = Node Leaf x Leaf"
| "ins Z x s (Node l p r) = (if Z p < s then Node l p (ins Z x s r) else Node (ins Z x s l) p r)"

lemma root_of_ins: "t \<noteq> Leaf \<Longrightarrow> root_of (ins Z x s t) = root_of t"
  by (cases t) auto

lemma set_tree_ins: "set_tree (ins Z x s t) = insert x (set_tree t)"
  by (induction t) auto

lemma inorder_ins:
  assumes "sorted (map Z (inorder t))"
  shows "inorder (ins Z x s t) = takeWhile (\<lambda>p. Z p < s) (inorder t) @ x # dropWhile (\<lambda>p. Z p < s) (inorder t)"
  using assms
proof (induction t)
  case (Node l p r)
  have srt: "sorted (map Z (inorder l))" "sorted (map Z (inorder r))" "\<forall>y \<in> set_tree l. Z y \<le> Z p"
    using Node.prems by (simp_all add: sorted_append)
  show ?case
  proof (cases "Z p < s")
    case True
    then have all: "\<forall>y \<in> set (inorder l). Z y < s" using srt(3) by fastforce
    then have "takeWhile (\<lambda>p. Z p < s) (inorder l) = inorder l" "dropWhile (\<lambda>p. Z p < s) (inorder l) = []"
      by (simp_all add: takeWhile_eq_all_conv)
    then show ?thesis using True all Node.IH(2) [OF srt(2)] by (simp add: takeWhile_append dropWhile_append)
  next
    case False
    then show ?thesis using Node.IH(1) [OF srt(1)] by (auto simp: takeWhile_append dropWhile_append dropWhile_eq_Nil_conv takeWhile_eq_all_conv)
  qed
qed simp

lemma changes_apart:
  assumes "changes (\<Union> (links ` S)) h h'" and "\<forall>q \<in> S. nodes_apart p q" and "p \<notin> S"
  shows "t_left h' p = t_left h p" "t_right h' p = t_right h p" "t_parent h' p = t_parent h p"
proof -
  have "a \<notin> \<Union> (links ` S)" if "p \<le> a" "a < p + 32" for a using assms(2,3) that by (fastforce simp: links_def nodes_apart_def)
  then show "t_left h' p = t_left h p" "t_right h' p = t_right h p" "t_parent h' p = t_parent h p"
    using changes_fields [OF assms(1)] by blast+
qed

text \<open>A node that is not yet linked: apart from the others, without children.\<close>

definition unlinked :: "gc_heap \<Rightarrow> nat tree \<Rightarrow> nat \<Rightarrow> bool" where
  "unlinked h t x \<longleftrightarrow> x \<noteq> 0 \<and> x < 2 ^ 64 \<and> x \<notin> set_tree t \<and> (\<forall>p \<in> set_tree t. nodes_apart p x) \<and> t_left h x = 0 \<and> t_right h x = 0"

lemma link_tree_node_at:
  assumes "tree_at (t_left h) (t_right h) (t_parent h) par t" and "t \<noteq> Leaf" and "distinct (inorder t)"
    and "\<forall>p \<in> set_tree t. p < 2 ^ 64 \<and> (\<forall>q \<in> set_tree t. nodes_apart p q) \<and> (p \<noteq> root_of t \<longrightarrow> hmu_is_in_heap p h)"
    and "unlinked h t x"
  shows "\<exists>h'. link_tree_node x s (root_of t) h = Some (True, h') \<and> changes (\<Union> (links ` insert x (set_tree t))) h h' \<and>
     tree_at (t_left h') (t_right h') (t_parent h') par (ins (t_size h) x s t)"
  using assms
proof (induction t arbitrary: par)
  case (Node l p r)
  have x: "x \<noteq> 0" "x < 2 ^ 64" "x \<noteq> p" "nodes_apart p x" "nodes_apart x p" "t_left h x = 0" "t_right h x = 0"
    using Node.prems(5) by (auto simp: unlinked_def nodes_apart_def)
  have p: "t_left h p = root_of l" "t_right h p = root_of r" "t_parent h p = par" "p < 2 ^ 64" "p \<noteq> 0" using Node.prems(1,4) by simp_all
  have self: "nodes_apart x x" "nodes_apart p p" by (simp_all add: nodes_apart_def)
  have d: "set_tree l \<inter> set_tree r = {}" "p \<notin> set_tree l" "p \<notin> set_tree r" "distinct (inorder l)" "distinct (inorder r)"
    using Node.prems(3) by auto
  have ap: "nodes_apart a b" if "a \<in> set_tree (Node l p r)" "b \<in> insert x (set_tree (Node l p r))" for a b
    using that Node.prems(4,5) by (auto simp: unlinked_def)
  have child: "\<exists>h'. link_tree_node x s (root_of c) h = Some (True, h') \<and> changes (\<Union> (links ` insert x (set_tree c))) h h' \<and>
      tree_at (t_left h') (t_right h') (t_parent h') p (ins (t_size h) x s c)"
    if "c = l \<or> c = r" "c \<noteq> Leaf" for c
  proof -
    have "tree_at (t_left h) (t_right h) (t_parent h) p c" "distinct (inorder c)" using that(1) Node.prems(1) d by auto
    moreover have "\<forall>p \<in> set_tree c. p < 2 ^ 64 \<and> (\<forall>q \<in> set_tree c. nodes_apart p q) \<and> (p \<noteq> root_of c \<longrightarrow> hmu_is_in_heap p h)"
      "unlinked h c x" using that(1) Node.prems(4,5) d by (auto simp: unlinked_def)
    ultimately show ?thesis using that Node.IH by blast
  qed
  have keep: "t_left h' y = t_left h y" "t_right h' y = t_right h y" "t_parent h' y = t_parent h y"
    if "changes (\<Union> (links ` insert x (set_tree c))) h h'" "y \<in> set_tree (Node l p r)" "y \<notin> set_tree c" "c = l \<or> c = r" for h' y c
  proof -
    have "\<forall>q \<in> insert x (set_tree c). nodes_apart y q" using ap [OF that(2)] that(4) by auto
    moreover have "y \<notin> insert x (set_tree c)" using that(2,3) Node.prems(5) by (auto simp: unlinked_def)
    ultimately show "t_left h' y = t_left h y" "t_right h' y = t_right h y" "t_parent h' y = t_parent h y"
      using changes_apart [OF that(1)] by blast+
  qed
  have sib: "tree_at (t_left h') (t_right h') (t_parent h') p b"
    if "changes (\<Union> (links ` insert x (set_tree c))) h h'" "b = l \<and> c = r \<or> b = r \<and> c = l" for h' b c
  proof (rule tree_at_cong [of "t_left h" "t_right h" "t_parent h"])
    show "tree_at (t_left h) (t_right h) (t_parent h) p b" using Node.prems(1) that(2) by auto
    show "t_left h' y = t_left h y \<and> t_right h' y = t_right h y \<and> t_parent h' y = t_parent h y" if "y \<in> set_tree b" for y
      using keep [OF \<open>changes _ h h'\<close>, of y] that \<open>b = l \<and> c = r \<or> b = r \<and> c = l\<close> d(1) by auto
  qed
  have here: "changes (\<Union> (links ` insert x (set_tree (Node l p r)))) h (set_parent x p (f x h))"
    if "\<And>v h. changes (links p) h (f v h)" for f
    by (rule changes_trans [OF changes_mono [OF that] changes_setters(3)]) auto
  have leaf: "tree_at (t_left (set_parent x p (f x h))) (t_right (set_parent x p (f x h))) (t_parent (set_parent x p (f x h))) p (Node Leaf x Leaf)"
    if "f = set_left p \<or> f = set_right p" for f
    using that x p(4) self by (auto simp: field_updates)
  have stay: "tree_at (t_left (set_parent x p (f x h))) (t_right (set_parent x p (f x h))) (t_parent (set_parent x p (f x h))) p b"
    if "f = set_left p \<or> f = set_right p" "b = l \<or> b = r" for f b
  proof (rule tree_at_cong [of "t_left h" "t_right h" "t_parent h"])
    show "tree_at (t_left h) (t_right h) (t_parent h) p b" using Node.prems(1) that(2) by auto
    fix y assume y: "y \<in> set_tree b"
    then have "nodes_apart y p" "nodes_apart y x" "y \<noteq> p" "y \<noteq> x" using ap [of y] that(2) d Node.prems(5) by (auto simp: unlinked_def)
    then show "t_left (set_parent x p (f x h)) y = t_left h y \<and> t_right (set_parent x p (f x h)) y = t_right h y \<and> t_parent (set_parent x p (f x h)) y = t_parent h y"
      using that(1) x(2) p(4) by (auto simp: field_updates)
  qed
  have rr: "root_of r = 0 \<longleftrightarrow> r = Leaf" "root_of l = 0 \<longleftrightarrow> l = Leaf" using Node.prems(1) by (cases r; cases l; simp)+
  show ?case
  proof (cases "t_size h p < s")
    case True
    show ?thesis
    proof (cases "r = Leaf")
      case leaf_r: True
      have "link_tree_node x s p h = Some (True, set_parent x p (set_right p x h))"
        using True p leaf_r by (subst link_tree_node.simps) simp
      then show ?thesis
        using True leaf_r leaf [of "set_right p"] stay [of "set_right p" l] here [of "set_right p"] changes_setters(2) [of p "links p"] x p self
        by (auto simp: field_updates)
    next
      case False
      obtain h' where h': "link_tree_node x s (root_of r) h = Some (True, h')" "changes (\<Union> (links ` insert x (set_tree r))) h h'"
        "tree_at (t_left h') (t_right h') (t_parent h') p (ins (t_size h) x s r)" using child [of r] False by blast
      have "hmu_is_in_heap (root_of r) h" using Node.prems(4) root_of_in [OF False] d(3) by auto
      then have "link_tree_node x s p h = Some (True, h')" using True p rr False h'(1) by (subst link_tree_node.simps) simp
      moreover have "changes (\<Union> (links ` insert x (set_tree (Node l p r)))) h h'" by (rule changes_mono [OF h'(2)]) auto
      ultimately show ?thesis
        using True h'(3) sib [OF h'(2), of l] keep [OF h'(2), of p] d p False by (auto simp: root_of_ins)
    qed
  next
    case ge: False
    show ?thesis
    proof (cases "l = Leaf")
      case leaf_l: True
      have "link_tree_node x s p h = Some (True, set_parent x p (set_left p x h))"
        using ge p leaf_l by (subst link_tree_node.simps) simp
      then show ?thesis
        using ge leaf_l leaf [of "set_left p"] stay [of "set_left p" r] here [of "set_left p"] changes_setters(1) [of p "links p"] x p self
        by (auto simp: field_updates)
    next
      case False
      obtain h' where h': "link_tree_node x s (root_of l) h = Some (True, h')" "changes (\<Union> (links ` insert x (set_tree l))) h h'"
        "tree_at (t_left h') (t_right h') (t_parent h') p (ins (t_size h) x s l)" using child [of l] False by blast
      have "hmu_is_in_heap (root_of l) h" using Node.prems(4) root_of_in [OF False] d(2) by auto
      then have "link_tree_node x s p h = Some (True, h')" using ge p rr False h'(1) by (subst link_tree_node.simps) simp
      moreover have "changes (\<Union> (links ` insert x (set_tree (Node l p r)))) h h'" by (rule changes_mono [OF h'(2)]) auto
      ultimately show ?thesis
        using ge h'(3) sib [OF h'(2), of r] keep [OF h'(2), of p] d p False by (auto simp: root_of_ins)
    qed
  qed
qed simp

section \<open>Searching\<close>

text \<open>The search ends at the first node, in the order of sizes, that is large enough.\<close>

lemma best_fit_first:
  assumes "tree_at (t_left h) (t_right h) (t_parent h) par t" and "\<forall>x \<in> set_tree t. hmu_is_in_heap x h"
    and "sorted (map (t_size h) (inorder t))"
  shows "best_fit h s (root_of t) last_tp =
     Some (Some (case dropWhile (\<lambda>q. t_size h q < s) (inorder t) of [] \<Rightarrow> last_tp | q # _ \<Rightarrow> q))"
  using assms
proof (induction t arbitrary: par last_tp)
  case Leaf
  then show ?case by (subst best_fit.simps) simp
next
  case (Node l p r)
  have p: "p \<noteq> 0" "hmu_is_in_heap p h" "t_left h p = root_of l" "t_right h p = root_of r" using Node.prems by auto
  have srt: "sorted (map (t_size h) (inorder l))" "sorted (map (t_size h) (inorder r))" "\<forall>y \<in> set_tree l. t_size h y \<le> t_size h p"
    using Node.prems(3) by (simp_all add: sorted_append)
  show ?case
  proof (cases "t_size h p < s")
    case True
    then have "\<forall>y \<in> set (inorder l). t_size h y < s" using srt(3) by fastforce
    then have "dropWhile (\<lambda>q. t_size h q < s) (inorder (Node l p r)) = dropWhile (\<lambda>q. t_size h q < s) (inorder r)"
      using True by (simp add: dropWhile_append)
    moreover have "best_fit h s p last_tp = best_fit h s (root_of r) last_tp" using True p by (subst best_fit.simps) simp
    ultimately show ?thesis using Node.IH(2) [of p last_tp] Node.prems srt(2) by simp
  next
    case False
    have "best_fit h s p last_tp = best_fit h s (root_of l) p" using False p by (subst best_fit.simps) simp
    moreover have "(case dropWhile (\<lambda>q. t_size h q < s) (inorder (Node l p r)) of [] \<Rightarrow> last_tp | q # _ \<Rightarrow> q) =
        (case dropWhile (\<lambda>q. t_size h q < s) (inorder l) of [] \<Rightarrow> p | q # _ \<Rightarrow> q)"
    proof (cases "\<forall>y \<in> set (inorder l). t_size h y < s")
      case True
      then have none: "dropWhile (\<lambda>q. t_size h q < s) (inorder l) = []" by simp
      show ?thesis using True False by (simp add: dropWhile_append none)
    next
      case ex: False
      then obtain q qs where some: "dropWhile (\<lambda>q. t_size h q < s) (inorder l) = q # qs"
        by (cases "dropWhile (\<lambda>q. t_size h q < s) (inorder l)") auto
      show ?thesis using ex by (auto simp: dropWhile_append some)
    qed
    ultimately show ?thesis using Node.IH(1) [of p p] Node.prems srt(1) by simp
  qed
qed

end
