(* ===== verification/Ems_Index.thy ===== *)
theory Ems_Index
  imports Ems_Tree
begin

text \<open>
  The index of the free chunks: the lists of small chunks and the tree of large ones. It is described
  by the set of free chunks it holds; taking a chunk out (\<open>unlink_hmu\<close>, and the two searches of
  \<open>alloc_hmu\<close>) and putting one in (\<open>gci_add_fc\<close>) are set operations on it.
\<close>

section \<open>Lists of small chunks\<close>

fun path :: "gc_heap \<Rightarrow> nat \<Rightarrow> nat list \<Rightarrow> nat \<Rightarrow> bool" where
  "path h p [] q \<longleftrightarrow> p = q"
| "path h p (x # xs) q \<longleftrightarrow> p = x \<and> x \<noteq> 0 \<and> path h (get_hmu_normal_node_next h x) xs q"

lemma path_append: "path h p (xs @ ys) q \<longleftrightarrow> (\<exists>r. path h p xs r \<and> path h r ys q)"
  by (induction xs arbitrary: p) auto

lemma path_cong:
  "(\<And>x. x \<in> set xs \<Longrightarrow> get_hmu_normal_node_next h' x = get_hmu_normal_node_next h x) \<Longrightarrow> path h' p xs q = path h p xs q"
  by (induction xs arbitrary: p) auto

text \<open>Two nodes that are less than 2 GiB apart: the 32-bit distance leads back to the node.\<close>

lemma next_set:
  assumes "node < 2 ^ 64" and "nxt < 2 ^ 64" and "nxt \<noteq> node" and "nxt \<noteq> 0 \<Longrightarrow> \<bar>int nxt - int node\<bar> < 2 ^ 31"
  shows "get_hmu_normal_node_next (set_hmu_normal_node_next node nxt h) node = nxt"
proof (cases "nxt = 0")
  case True
  then show ?thesis by (simp add: get_hmu_normal_node_next_def set_hmu_normal_node_next_def rd_wr_same)
next
  case False
  let ?d = "int nxt - int node"
  have d: "- (2 ^ 31) < ?d" "?d < 2 ^ 31" "?d \<noteq> 0" using assms(3,4) False by auto
  let ?v = "nat (?d mod 2 ^ 32)"
  have v: "?v \<noteq> 0 \<and> int32 ?v = ?d \<and> ?v < 2 ^ 32"
  proof (cases "0 \<le> ?d")
    case True
    then have "?d mod 2 ^ 32 = ?d" using d by simp
    then show ?thesis using True d by (simp add: int32_def)
  next
    case neg: False
    have "?d mod 2 ^ 32 = (?d + 2 ^ 32) mod 2 ^ 32" by simp
    also have "\<dots> = ?d + 2 ^ 32" using neg d by (intro mod_pos_pos_trivial) auto
    finally show ?thesis using neg d by (simp add: int32_def nat_less_iff)
  qed
  then have "rd 4 (hmem (set_hmu_normal_node_next node nxt h)) (node + 4) = ?v"
    using False by (simp add: set_hmu_normal_node_next_def rd_wr_same)
  then show ?thesis
    using v assms(2) by (simp add: get_hmu_normal_node_next_def ptr_add_nat)
qed

section \<open>Free chunks\<close>

text \<open>A chunk is its address and its size.\<close>

type_synonym chunk = "nat \<times> nat"

definition clear_of :: "chunk \<Rightarrow> chunk \<Rightarrow> bool" where
  "clear_of c d \<longleftrightarrow> fst c + snd c \<le> fst d \<or> fst d + snd d \<le> fst c"

definition chunk_ok :: "gc_heap \<Rightarrow> chunk \<Rightarrow> bool" where
  "chunk_ok h c \<longleftrightarrow> base_addr h \<le> fst c \<and> fst c + snd c \<le> base_addr h + current_size h \<and> 16 \<le> snd c \<and> 8 dvd snd c \<and>
     fst c mod 8 = 4"

definition geometry :: "gc_heap \<Rightarrow> bool" where
  "geometry h \<longleftrightarrow> 0 < base_addr h \<and> base_addr h + current_size h \<le> 2 ^ 64 \<and> current_size h < 2 ^ 30 \<and>
     length (kfc_normal_list h) = 32 \<and> kfc_tree_root h \<noteq> 0 \<and> kfc_tree_root h + 32 \<le> 2 ^ 64 \<and>
     (kfc_tree_root h + 32 \<le> base_addr h \<or> base_addr h + current_size h \<le> kfc_tree_root h)"

definition separate :: "gc_heap \<Rightarrow> chunk set \<Rightarrow> bool" where
  "separate h F \<longleftrightarrow> (\<forall>c \<in> F. chunk_ok h c) \<and> (\<forall>c \<in> F. \<forall>d \<in> F. c = d \<or> clear_of c d)"

definition list_holds :: "gc_heap \<Rightarrow> nat \<Rightarrow> nat set \<Rightarrow> bool" where
  "list_holds h i S \<longleftrightarrow> (\<exists>xs. path h (kfc_normal_list h ! i) xs 0 \<and> distinct xs \<and> set xs = S)"

definition tree_holds :: "gc_heap \<Rightarrow> chunk set \<Rightarrow> bool" where
  "tree_holds h B \<longleftrightarrow>
     (\<exists>t qs. tree_ok h t \<and> inorder t = kfc_tree_root h # qs \<and> root_of t = kfc_tree_root h \<and>
        sorted (map (t_size h) (inorder t)) \<and> t_size h (kfc_tree_root h) = 32 \<and> (\<lambda>q. (q, t_size h q)) ` set qs = B)"

definition small :: "chunk set \<Rightarrow> nat \<Rightarrow> nat set" where
  "small F i = {q. (q, 8 * i) \<in> F \<and> 8 * i < 248}"

definition large :: "chunk set \<Rightarrow> chunk set" where
  "large F = {c \<in> F. 248 \<le> snd c}"

definition free_index :: "gc_heap \<Rightarrow> chunk set \<Rightarrow> bool" where
  "free_index h F \<longleftrightarrow> geometry h \<and> separate h F \<and> (\<forall>i<32. list_holds h i (small F i)) \<and> tree_holds h (large F)"

text \<open>The bytes that hold links: of the chunks in the index, and of the root of the tree.\<close>

definition link_bytes :: "chunk \<Rightarrow> nat set" where
  "link_bytes c = (if snd c < 248 then {fst c + 4..<fst c + 8} else {fst c + 4..<fst c + 28})"

definition index_bytes :: "gc_heap \<Rightarrow> chunk set \<Rightarrow> nat set" where
  "index_bytes h F = {kfc_tree_root h + 4..<kfc_tree_root h + 28} \<union> \<Union> (link_bytes ` F)"

text \<open>What an operation on the index may change: these bytes and the heads of the lists.\<close>

definition touches :: "nat set \<Rightarrow> gc_heap \<Rightarrow> gc_heap \<Rightarrow> bool" where
  "touches A h h' \<longleftrightarrow> h' = h\<lparr>hmem := hmem h', kfc_normal_list := kfc_normal_list h'\<rparr> \<and> (\<forall>a. a \<notin> A \<longrightarrow> hmem h' a = hmem h a)"

lemma touches_refl: "touches A h h"
  by (simp add: touches_def)

lemma touches_trans: "touches A h h' \<Longrightarrow> touches A h' h'' \<Longrightarrow> touches A h h''"
  by (cases h; cases h'; cases h'') (auto simp: touches_def)

lemma touches_mono: "touches A h h' \<Longrightarrow> A \<subseteq> B \<Longrightarrow> touches B h h'"
  by (auto simp: touches_def)

lemma touchesD: "touches A h h' \<Longrightarrow> a \<notin> A \<Longrightarrow> hmem h' a = hmem h a"
  by (auto simp: touches_def)

lemma touches_changes: "changes A h h' \<Longrightarrow> touches A h h'"
  by (auto simp: changes_def touches_def)

lemma touches_heads: "touches A h (h\<lparr>kfc_normal_list := l\<rparr>)"
  by (simp add: touches_def)

lemma touches_mem: "(\<And>a. a \<notin> A \<Longrightarrow> m a = hmem h a) \<Longrightarrow> touches A h (h\<lparr>hmem := m\<rparr>)"
  by (simp add: touches_def)

lemma touches_sel:
  assumes "touches A h h'"
  shows "base_addr h' = base_addr h" "current_size h' = current_size h" "kfc_tree_root h' = kfc_tree_root h"
    "is_heap_corrupted h' = is_heap_corrupted h" "highmark_size h' = highmark_size h" "total_free_size h' = total_free_size h"
    "heap_id h' = heap_id h" "init_size h' = init_size h"
  using assms unfolding touches_def by (metis gc_heap.select_convs gc_heap.surjective gc_heap.update_convs(10,4))+

lemma touches_in_heap: "touches A h h' \<Longrightarrow> hmu_is_in_heap p h' = hmu_is_in_heap p h"
  using touches_sel [of A h h'] by (simp add: hmu_is_in_heap_def)

text \<open>No byte of \<open>A\<close> is one of the \<open>n\<close> bytes at \<open>a\<close>.\<close>

definition avoids :: "nat set \<Rightarrow> nat \<Rightarrow> nat \<Rightarrow> bool" where
  "avoids A a n \<longleftrightarrow> (\<forall>x \<in> A. x < a \<or> a + n \<le> x)"

lemma avoidsD: "avoids A a n \<Longrightarrow> a \<le> x \<Longrightarrow> x < a + n \<Longrightarrow> x \<notin> A"
  by (force simp: avoids_def)

lemma avoids_part: "avoids A a n \<Longrightarrow> a \<le> b \<Longrightarrow> b + k \<le> a + n \<Longrightarrow> avoids A b k"
  by (force simp: avoids_def)

lemma avoids_Un: "avoids (A \<union> B) a n \<longleftrightarrow> avoids A a n \<and> avoids B a n"
  by (auto simp: avoids_def)

lemma avoids_UN: "avoids (\<Union> (f ` S)) a n \<longleftrightarrow> (\<forall>c \<in> S. avoids (f c) a n)"
  by (auto simp: avoids_def)

lemma avoids_interval: "b + k \<le> a \<or> a + n \<le> b \<Longrightarrow> avoids {b..<b + k} a n"
  by (auto simp: avoids_def)

lemma touches_rd: "touches A h h' \<Longrightarrow> avoids A a n \<Longrightarrow> rd n (hmem h') a = rd n (hmem h) a"
  by (rule rd_cong, erule touchesD, erule avoidsD)

lemma touches_hmu: "touches A h h' \<Longrightarrow> avoids A p 4 \<Longrightarrow> hmu_is (hmem h') p ty pin s = hmu_is (hmem h) p ty pin s"
  by (rule hmu_is_cong, erule touchesD, erule avoidsD)

lemma touches_fields:
  assumes "touches A h h'" and "avoids A (p + 4) 28"
  shows "t_left h' p = t_left h p" "t_right h' p = t_right h p" "t_parent h' p = t_parent h p" "t_size h' p = t_size h p"
  unfolding t_left_def t_right_def t_parent_def t_size_def
  by (rule touches_rd [OF assms(1) avoids_part [OF assms(2)]], simp, simp)+

lemma touches_next: "touches A h h' \<Longrightarrow> avoids A (p + 4) 4 \<Longrightarrow> get_hmu_normal_node_next h' p = get_hmu_normal_node_next h p"
  using touches_rd [of A h h' "p + 4" 4] by (simp add: get_hmu_normal_node_next_def)

section \<open>Changes elsewhere\<close>

text \<open>A change outside the chunks of the index and the root of the tree does not matter to it.\<close>

lemma separate_touches: "touches A h h' \<Longrightarrow> separate h F \<Longrightarrow> separate h' F"
  using touches_sel [of A h h'] by (simp add: separate_def chunk_ok_def)

lemma list_holds_touches:
  assumes "touches A h h'" and "list_holds h i S" and "kfc_normal_list h' ! i = kfc_normal_list h ! i"
    and "\<forall>q \<in> S. avoids A (q + 4) 4"
  shows "list_holds h' i S"
proof -
  obtain xs where xs: "path h (kfc_normal_list h ! i) xs 0" "distinct xs" "set xs = S" using assms(2) by (auto simp: list_holds_def)
  have "path h' (kfc_normal_list h ! i) xs 0 = path h (kfc_normal_list h ! i) xs 0"
    using touches_next [OF assms(1)] assms(4) xs(3) by (intro path_cong) blast
  then show ?thesis using xs assms(3) by (auto simp: list_holds_def)
qed

lemma tree_holds_touches:
  assumes "touches A h h'" and "tree_holds h B" and "avoids A (kfc_tree_root h + 4) 28"
    and "\<forall>c \<in> B. avoids A (fst c + 4) 28"
  shows "tree_holds h' B"
proof -
  obtain t qs where t: "tree_ok h t" "inorder t = kfc_tree_root h # qs" "root_of t = kfc_tree_root h"
    "sorted (map (t_size h) (inorder t))" "t_size h (kfc_tree_root h) = 32" "(\<lambda>q. (q, t_size h q)) ` set qs = B"
    using assms(2) by (auto simp: tree_holds_def)
  have same: "t_left h' q = t_left h q \<and> t_right h' q = t_right h q \<and> t_parent h' q = t_parent h q \<and> t_size h' q = t_size h q"
    if "q \<in> set (inorder t)" for q
  proof -
    have "avoids A (q + 4) 28" using that t(2,6) assms(3,4) by auto
    then show ?thesis using touches_fields [OF assms(1)] by blast
  qed
  have "tree_at (t_left h') (t_right h') (t_parent h') 0 t"
    using same by (intro tree_at_cong [OF tree_okD(1) [OF t(1)]]) simp
  then have "tree_ok h' t" using t(1) by (simp add: tree_ok_def)
  moreover have "map (t_size h') (inorder t) = map (t_size h) (inorder t)" using same by simp
  with t(4) have "sorted (map (t_size h') (inorder t))" by (simp only:)
  moreover have "(\<lambda>q. (q, t_size h' q)) ` set qs = B" using same t(2,6) by (auto simp: image_def)
  moreover have "t_size h' (kfc_tree_root h) = 32" using same t(2,5) by simp
  ultimately show ?thesis unfolding tree_holds_def using t(2,3) touches_sel(3) [OF assms(1)]
    by (intro exI [of _ t] exI [of _ qs]) simp
qed

lemma free_index_elsewhere:
  assumes "free_index h F" and "touches A h h'" and "kfc_normal_list h' = kfc_normal_list h"
    and "\<forall>c \<in> F. avoids A (fst c + 4) (if snd c < 248 then 4 else 28)" and "avoids A (kfc_tree_root h + 4) 28"
  shows "free_index h' F"
proof -
  have ix: "geometry h" "separate h F" "\<forall>i<32. list_holds h i (small F i)" "tree_holds h (large F)"
    using assms(1) by (simp_all add: free_index_def)
  have "list_holds h' i (small F i)" if "i < 32" for i
  proof (rule list_holds_touches [OF assms(2)])
    show "\<forall>q \<in> small F i. avoids A (q + 4) 4" using assms(4) by (fastforce simp: small_def)
  qed (use ix(3) that assms(3) in auto)
  moreover have "tree_holds h' (large F)"
    by (rule tree_holds_touches [OF assms(2) ix(4) assms(5)]) (use assms(4) in \<open>fastforce simp: large_def\<close>)
  moreover have "geometry h'" using ix(1) touches_sel [OF assms(2)] assms(3) by (simp add: geometry_def)
  ultimately show ?thesis using separate_touches [OF assms(2) ix(2)] by (simp add: free_index_def)
qed

section \<open>Taking a small chunk\<close>

text \<open>The nodes of one list: in the pool, without overlap.\<close>

definition nodes_ok :: "gc_heap \<Rightarrow> nat set \<Rightarrow> bool" where
  "nodes_ok h S \<longleftrightarrow> base_addr h + current_size h \<le> 2 ^ 64 \<and> current_size h < 2 ^ 30 \<and>
     (\<forall>a \<in> S. a \<noteq> 0 \<and> hmu_is_in_heap a h) \<and> (\<forall>a \<in> S. \<forall>b \<in> S. a = b \<or> a + 8 \<le> b \<or> b + 8 \<le> a)"

lemma set_next_touches: "touches {a + 4..<a + 8} h (set_hmu_normal_node_next a n h)"
  by (auto simp: set_hmu_normal_node_next_def touches_def wr_apply)

lemma set_next_at:
  assumes "nodes_ok h S" and "a \<in> S" and "b \<in> S"
  shows "n \<in> insert 0 S \<Longrightarrow> n \<noteq> a \<Longrightarrow> get_hmu_normal_node_next (set_hmu_normal_node_next a n h) a = n"
    and "b \<noteq> a \<Longrightarrow> get_hmu_normal_node_next (set_hmu_normal_node_next a n h) b = get_hmu_normal_node_next h b"
proof -
  have a: "base_addr h \<le> a" "a < base_addr h + current_size h" using assms(1,2) by (auto simp: nodes_ok_def hmu_is_in_heap_def)
  have sz: "base_addr h + current_size h \<le> 2 ^ 64" "current_size h < 2 ^ 30" using assms(1) by (auto simp: nodes_ok_def)
  show "get_hmu_normal_node_next (set_hmu_normal_node_next a n h) a = n" if n: "n \<in> insert 0 S" "n \<noteq> a"
  proof (rule next_set)
    have "n = 0 \<or> base_addr h \<le> n \<and> n < base_addr h + current_size h" using n(1) assms(1) by (auto simp: nodes_ok_def hmu_is_in_heap_def)
    then show "n < 2 ^ 64" "n \<noteq> 0 \<Longrightarrow> \<bar>int n - int a\<bar> < 2 ^ 31" using a sz by auto
  qed (use a sz n in auto)
  show "get_hmu_normal_node_next (set_hmu_normal_node_next a n h) b = get_hmu_normal_node_next h b" if "b \<noteq> a"
    by (rule touches_next [OF set_next_touches]) (use assms that in \<open>force simp: avoids_def nodes_ok_def\<close>)
qed

lemma path_end: "path h p xs 0 \<Longrightarrow> p \<in> insert 0 (set xs)"
  by (cases xs) auto

lemma path_skip:
  assumes "nodes_ok h S" and "path h p (zs @ a # x # ys) 0" and "distinct (zs @ a # x # ys)" and "set (zs @ a # x # ys) \<subseteq> S"
  shows "path (set_hmu_normal_node_next a (get_hmu_normal_node_next h x) h) p (zs @ a # ys) 0"
proof -
  let ?n = "get_hmu_normal_node_next h x"
  let ?h = "set_hmu_normal_node_next a ?n h"
  have p: "path h p zs a" "a \<noteq> 0" "path h ?n ys 0" using assms(2) by (auto simp: path_append)
  have n: "?n \<in> insert 0 (set ys)" using path_end [OF p(3)] .
  have "path ?h p zs a = path h p zs a" "path ?h ?n ys 0 = path h ?n ys 0"
    by (rule path_cong, rule set_next_at(2) [OF assms(1)]; use assms(3,4) in auto)+
  moreover have "get_hmu_normal_node_next ?h a = ?n"
    by (rule set_next_at(1) [OF assms(1)]) (use assms(3,4) n p(2) in auto)
  ultimately show ?thesis using p by (auto simp: path_append)
qed

lemma unlink_normal_at:
  assumes "path h p (xs @ x # ys) 0" and "distinct (xs @ x # ys)" and "\<forall>y \<in> set (xs @ [x]). hmu_is_in_heap y h"
  shows "unlink_normal i x prev p h =
     Some (True, let n = get_hmu_normal_node_next h x; pr = last (prev # xs) in
                 if pr = 0 then h\<lparr>kfc_normal_list := (kfc_normal_list h)[i := n]\<rparr> else set_hmu_normal_node_next pr n h)"
  using assms
proof (induction xs arbitrary: prev p)
  case Nil
  then show ?case by (subst unlink_normal.simps) (simp add: Let_def)
next
  case (Cons a xs)
  have a: "p = a" "a \<noteq> 0" "a \<noteq> x" "hmu_is_in_heap a h" "path h (get_hmu_normal_node_next h a) (xs @ x # ys) 0" using Cons.prems by auto
  have "unlink_normal i x prev p h = unlink_normal i x a (get_hmu_normal_node_next h a) h"
    using a by (subst unlink_normal.simps) simp
  then show ?case using Cons.IH [OF a(5), of a] Cons.prems by simp
qed

lemma unlink_normal_holds:
  assumes "nodes_ok h S" and "list_holds h i S" and "x \<in> S" and "i < length (kfc_normal_list h)"
  shows "\<exists>h'. unlink_normal i x 0 (kfc_normal_list h ! i) h = Some (True, h') \<and> list_holds h' i (S - {x}) \<and>
     touches (\<Union>q \<in> S. {q + 4..<q + 8}) h h' \<and> length (kfc_normal_list h') = length (kfc_normal_list h) \<and>
     (\<forall>j. j \<noteq> i \<longrightarrow> kfc_normal_list h' ! j = kfc_normal_list h ! j)"
proof -
  obtain zs where zs: "path h (kfc_normal_list h ! i) zs 0" "distinct zs" "set zs = S" using assms(2) by (auto simp: list_holds_def)
  obtain xs ys where split: "zs = xs @ x # ys" using assms(3) zs(3) split_list by metis
  let ?n = "get_hmu_normal_node_next h x"
  have inh: "\<forall>y \<in> set (xs @ [x]). hmu_is_in_heap y h" using zs(3) assms(1) split by (auto simp: nodes_ok_def)
  note run = unlink_normal_at [OF zs(1) [unfolded split] zs(2) [unfolded split] inh, of i 0]
  have rest: "S - {x} = set (xs @ ys)" "distinct (xs @ ys)" using zs(2,3) split by auto
  show ?thesis
  proof (cases xs rule: rev_cases)
    case Nil
    have "path h ?n ys 0" using zs(1) split Nil by simp
    moreover have "path (h\<lparr>kfc_normal_list := l\<rparr>) p ys 0 = path h p ys 0" for l p
      by (rule path_cong) (simp add: get_hmu_normal_node_next_def)
    ultimately have "list_holds (h\<lparr>kfc_normal_list := (kfc_normal_list h)[i := ?n]\<rparr>) i (S - {x})"
      using rest Nil assms(4) by (auto simp: list_holds_def)
    then show ?thesis using run Nil touches_heads by (simp add: Let_def)
  next
    case (snoc as a)
    let ?h = "set_hmu_normal_node_next a ?n h"
    have a: "a \<noteq> 0" "a \<in> S" using zs(3) split snoc assms(1) by (auto simp: nodes_ok_def)
    have "path ?h (kfc_normal_list h ! i) (as @ a # ys) 0"
      by (rule path_skip [OF assms(1)]) (use zs split snoc in auto)
    then have "list_holds ?h i (S - {x})"
      unfolding list_holds_def using rest snoc
      by (intro exI [of _ "xs @ ys"]) (simp add: set_hmu_normal_node_next_def)
    moreover have "touches (\<Union>q \<in> S. {q + 4..<q + 8}) h ?h" by (rule touches_mono [OF set_next_touches]) (use a(2) in blast)
    ultimately show ?thesis using run snoc a(1) by (simp add: Let_def set_hmu_normal_node_next_def)
  qed
qed

section \<open>Taking a large chunk\<close>

text \<open>The chunks of the index, as the tree and the lists see them.\<close>

lemma free_indexD:
  assumes "free_index h F"
  shows "geometry h" "separate h F" "i < 32 \<Longrightarrow> list_holds h i (small F i)" "tree_holds h (large F)"
    "c \<in> F \<Longrightarrow> chunk_ok h c" "c \<in> F \<Longrightarrow> d \<in> F \<Longrightarrow> c = d \<or> clear_of c d"
  using assms by (simp_all add: free_index_def separate_def)

lemma chunk_in_heap: "geometry h \<Longrightarrow> chunk_ok h c \<Longrightarrow> hmu_is_in_heap (fst c) h \<and> fst c \<noteq> 0 \<and> snd c < 2 ^ 30"
  by (auto simp: chunk_ok_def geometry_def hmu_is_in_heap_def)

lemma large_root_apart:
  assumes "free_index h F" and "c \<in> F" and "32 \<le> snd c"
  shows "nodes_apart (fst c) (kfc_tree_root h)"
proof -
  have "chunk_ok h c" using free_indexD(5) [OF assms(1,2)] .
  then show ?thesis using free_indexD(1) [OF assms(1)] assms(3) by (auto simp: chunk_ok_def geometry_def nodes_apart_def)
qed

text \<open>The nodes of the tree: the root, and one for each large chunk.\<close>

definition tree_for :: "gc_heap \<Rightarrow> chunk set \<Rightarrow> nat tree \<Rightarrow> nat list \<Rightarrow> bool" where
  "tree_for h B t qs \<longleftrightarrow> tree_ok h t \<and> inorder t = kfc_tree_root h # qs \<and> root_of t = kfc_tree_root h \<and>
     sorted (map (t_size h) (inorder t)) \<and> t_size h (kfc_tree_root h) = 32 \<and> (\<lambda>q. (q, t_size h q)) ` set qs = B"

lemma tree_holds_for: "tree_holds h B \<longleftrightarrow> (\<exists>t qs. tree_for h B t qs)"
  by (simp add: tree_holds_def tree_for_def)

lemma tree_forD:
  assumes "tree_for h B t qs"
  shows "tree_ok h t" "inorder t = kfc_tree_root h # qs" "root_of t = kfc_tree_root h" "sorted (map (t_size h) (inorder t))"
    "t_size h (kfc_tree_root h) = 32" "set_tree t = insert (kfc_tree_root h) (set qs)" "set qs = fst ` B"
    "(q, s) \<in> B \<Longrightarrow> t_size h q = s" "distinct qs" "kfc_tree_root h \<notin> set qs"
proof -
  show f: "tree_ok h t" "inorder t = kfc_tree_root h # qs" "root_of t = kfc_tree_root h" "sorted (map (t_size h) (inorder t))"
    "t_size h (kfc_tree_root h) = 32" using assms unfolding tree_for_def by blast+
  show "set_tree t = insert (kfc_tree_root h) (set qs)" unfolding set_tree_inorder f(2) by simp
  show "set qs = fst ` B" "(q, s) \<in> B \<Longrightarrow> t_size h q = s" using assms by (auto simp: tree_for_def image_image)
  show "distinct qs" "kfc_tree_root h \<notin> set qs" using tree_okD(2) [OF f(1)] unfolding f(2) by simp_all
qed

lemma tree_in_heap:
  assumes "free_index h F" and "tree_for h (large F) t qs" and "q \<in> set qs"
  shows "hmu_is_in_heap q h"
proof -
  obtain c where "c \<in> F" "q = fst c" using assms(3) tree_forD(7) [OF assms(2)] by (auto simp: large_def)
  then show ?thesis using chunk_in_heap [OF free_indexD(1,5) [OF assms(1)]] by blast
qed

lemma tree_for_removed:
  assumes "tree_for h B t qs" and "tree_ok h' t'" and "root_of t' = root_of t" and "inorder t = ys @ p # zs" and "inorder t' = ys @ zs"
    and "changes (\<Union> (links ` set_tree t)) h h'" and "p \<noteq> kfc_tree_root h"
  shows "\<exists>qs'. tree_for h' {c \<in> B. fst c \<noteq> p} t' qs'"
proof -
  note f = tree_forD [OF assms(1)]
  obtain ys' where ys: "ys = kfc_tree_root h # ys'" "qs = ys' @ p # zs" using f(2) assms(4,7) by (cases ys) auto
  have same: "t_size h' q = t_size h q" if "q \<in> set_tree t" for q
    by (rule changes_size [OF assms(6)]) (rule tree_okD(3) [OF f(1) that])
  have sub: "set (inorder t') \<subseteq> set_tree t" unfolding assms(5) f(6) ys by auto
  then have eq: "map (t_size h') (inorder t') = map (t_size h) (inorder t')" using same by (intro map_cong) auto
  have "sorted (map (t_size h) (inorder t'))" using f(4) unfolding assms(4,5) by (simp add: sorted_append)
  then have "sorted (map (t_size h') (inorder t'))" unfolding eq .
  moreover have "(\<lambda>q. (q, t_size h' q)) ` set (ys' @ zs) = {c \<in> B. fst c \<noteq> p}"
  proof -
    have "(\<lambda>q. (q, t_size h' q)) ` set (ys' @ zs) = (\<lambda>q. (q, t_size h q)) ` set (ys' @ zs)"
      using same f(6) ys by (intro image_cong) auto
    also have "\<dots> = {c \<in> (\<lambda>q. (q, t_size h q)) ` set qs. fst c \<noteq> p}" using f(9) unfolding ys by auto
    finally show ?thesis using assms(1) by (simp add: tree_for_def)
  qed
  moreover have "kfc_tree_root h' = kfc_tree_root h" "t_size h' (kfc_tree_root h) = 32"
    using changes_sel [OF assms(6)] same [of "kfc_tree_root h"] f(5,6) by auto
  ultimately have "tree_for h' {c \<in> B. fst c \<noteq> p} t' (ys' @ zs)"
    using assms(2,3,5) f(3) ys by (simp add: tree_for_def)
  then show ?thesis by blast
qed

lemma remove_tree_node_holds:
  assumes "free_index h F" and "c \<in> large F"
  shows "\<exists>h'. remove_tree_node h (fst c) = Some (True, h') \<and> tree_holds h' (large F - {c}) \<and>
     changes ({kfc_tree_root h + 4..<kfc_tree_root h + 28} \<union> \<Union> (link_bytes ` large F)) h h'"
proof -
  obtain t qs where tq: "tree_for h (large F) t qs" using free_indexD(4) [OF assms(1)] by (auto simp: tree_holds_for)
  note f = tree_forD [OF tq]
  have p: "fst c \<in> set qs" using f(7) assms(2) by simp
  have "removable h t (fst c)"
    using f(1,3,6,10) p tree_in_heap [OF assms(1) tq] by (auto simp: removable_def)
  from remove_tree_node_ok [OF this] obtain h' t' ys zs where
    r: "remove_tree_node h (fst c) = Some (True, h')" "tree_ok h' t'" "root_of t' = root_of t" "inorder t = ys @ fst c # zs"
      "inorder t' = ys @ zs" "changes (\<Union> (links ` set_tree t)) h h'" by blast
  have "fst c \<noteq> kfc_tree_root h" using p f(10) by auto
  from tree_for_removed [OF tq r(2-6) this] have "tree_holds h' {d \<in> large F. fst d \<noteq> fst c}" by (auto simp: tree_holds_for)
  moreover have "{d \<in> large F. fst d \<noteq> fst c} = large F - {c}"
    using free_indexD(6) [OF assms(1)] assms(2) by (fastforce simp: large_def clear_of_def)
  moreover have "\<Union> (links ` set_tree t) = {kfc_tree_root h + 4..<kfc_tree_root h + 28} \<union> \<Union> (link_bytes ` large F)"
    unfolding f(6,7) by (auto simp: links_def link_bytes_def large_def)
  ultimately show ?thesis using r(1,6) by metis
qed

section \<open>Taking any chunk\<close>

lemma links_avoid:
  assumes "chunk_ok h c" and "chunk_ok h d" and "clear_of c d"
  shows "avoids (link_bytes d) (fst c) (snd c)"
  using assms by (auto simp: avoids_def link_bytes_def clear_of_def chunk_ok_def)

lemma root_avoids:
  assumes "geometry h" and "chunk_ok h c"
  shows "avoids {kfc_tree_root h + 4..<kfc_tree_root h + 28} (fst c) (snd c)" "avoids (link_bytes c) (kfc_tree_root h) 32"
  using assms by (auto simp: avoids_def link_bytes_def chunk_ok_def geometry_def)

lemma small_nodes:
  assumes "free_index h F"
  shows "nodes_ok h (small F i)"
proof -
  have "chunk_ok h (q, 8 * i)" "q \<noteq> 0 \<and> hmu_is_in_heap q h" if "q \<in> small F i" for q
    using that free_indexD(1,5) [OF assms] chunk_in_heap [of h "(q, 8 * i)"] by (auto simp: small_def)
  moreover have "p = q \<or> p + 8 \<le> q \<or> q + 8 \<le> p" if "p \<in> small F i" "q \<in> small F i" for p q
  proof -
    have "p = q \<or> clear_of (p, 8 * i) (q, 8 * i)" using that free_indexD(6) [OF assms, of "(p, 8 * i)" "(q, 8 * i)"] by (simp add: small_def)
    moreover have "16 \<le> 8 * i" using free_indexD(5) [OF assms, of "(p, 8 * i)"] that by (simp add: small_def chunk_ok_def)
    ultimately show ?thesis by (auto simp: clear_of_def)
  qed
  ultimately show ?thesis using free_indexD(1) [OF assms] unfolding nodes_ok_def geometry_def by blast
qed

lemma small_removed: "s < 248 \<Longrightarrow> 8 dvd s \<Longrightarrow> small (F - {(p, s)}) i = (if i = s div 8 then small F i - {p} else small F i)"
  by (auto simp: small_def)

lemma large_removed: "large (F - {c}) = large F - {c}"
  by (auto simp: large_def)

lemma small_large: "248 \<le> s \<Longrightarrow> small (F - {(p, s)}) i = small F i" "s < 248 \<Longrightarrow> large (F - {(p, s)}) = large F"
  by (auto simp: small_def large_def)

text \<open>When one list or the tree has been changed, the rest of the index is as before.\<close>

lemma other_lists:
  assumes "free_index h F" and "touches A h h'" and "kfc_normal_list h' ! i = kfc_normal_list h ! i" and "i < 32"
    and "\<forall>q \<in> small F i. avoids A q (8 * i)"
  shows "list_holds h' i (small F i)"
proof (rule list_holds_touches [OF assms(2) free_indexD(3) [OF assms(1,4)] assms(3)], rule)
  fix q assume q: "q \<in> small F i"
  then have "16 \<le> 8 * i" using free_indexD(5) [OF assms(1), of "(q, 8 * i)"] by (simp add: small_def chunk_ok_def)
  then show "avoids A (q + 4) 4" using bspec [OF assms(5) q] by (auto elim: avoids_part)
qed

lemma other_tree:
  assumes "free_index h F" and "touches A h h'" and "avoids A (kfc_tree_root h) 32" and "\<forall>c \<in> large F. avoids A (fst c) (snd c)"
  shows "tree_holds h' (large F)"
proof (rule tree_holds_touches [OF assms(2) free_indexD(4) [OF assms(1)] avoids_part [OF assms(3)]])
  show "\<forall>c \<in> large F. avoids A (fst c + 4) 28"
  proof
    fix c assume c: "c \<in> large F"
    then have "248 \<le> snd c" by (simp add: large_def)
    then show "avoids A (fst c + 4) 28" using bspec [OF assms(4) c] by (auto elim: avoids_part)
  qed
qed simp_all

lemma geometry_touches: "touches A h h' \<Longrightarrow> length (kfc_normal_list h') = length (kfc_normal_list h) \<Longrightarrow> geometry h \<Longrightarrow> geometry h'"
  using touches_sel [of A h h'] by (simp add: geometry_def)

lemma separate_subset: "separate h F \<Longrightarrow> G \<subseteq> F \<Longrightarrow> separate h G"
  unfolding separate_def by blast

lemma take_small:
  assumes ix: "free_index h F" and c: "(p, s) \<in> F" "s < 248"
    and h': "list_holds h' (s div 8) (small F (s div 8) - {p})" "touches (\<Union>q \<in> small F (s div 8). {q + 4..<q + 8}) h h'"
      "length (kfc_normal_list h') = length (kfc_normal_list h)" "\<forall>j. j \<noteq> s div 8 \<longrightarrow> kfc_normal_list h' ! j = kfc_normal_list h ! j"
  shows "free_index h' (F - {(p, s)})" "touches (index_bytes h F) h h'"
proof -
  let ?A = "\<Union>q \<in> small F (s div 8). {q + 4..<q + 8}"
  have s: "8 dvd s" using free_indexD(5) [OF ix c(1)] by (simp add: chunk_ok_def)
  have A: "?A = \<Union> (link_bytes ` {c \<in> F. snd c = s})"
    using c(2) s by (force simp: small_def link_bytes_def)
  have av: "avoids ?A (fst d) (snd d)" if "d \<in> F" "snd d \<noteq> s" for d
    unfolding A avoids_UN using that free_indexD(5,6) [OF ix] links_avoid by blast
  have "avoids ?A (kfc_tree_root h) 32"
    unfolding A avoids_UN using free_indexD(1,5) [OF ix] root_avoids by blast
  moreover have "\<forall>d \<in> large F. avoids ?A (fst d) (snd d)" using av c(2) by (auto simp: large_def)
  ultimately have "tree_holds h' (large F)" using other_tree [OF ix h'(2)] by blast
  moreover have "list_holds h' i (small F i)" if "i < 32" "i \<noteq> s div 8" for i
  proof (rule other_lists [OF ix h'(2) _ that(1)])
    show "\<forall>q \<in> small F i. avoids ?A q (8 * i)" using av that(2) by (fastforce simp: small_def)
  qed (use h'(4) that in blast)
  moreover have "geometry h'" "separate h' (F - {(p, s)})"
    using geometry_touches [OF h'(2,3)] separate_touches [OF h'(2)] separate_subset free_indexD(1,2) [OF ix] by blast+
  ultimately show "free_index h' (F - {(p, s)})"
    using h'(1) c(2) small_removed [OF c(2) s] by (simp add: free_index_def small_large)
  show "touches (index_bytes h F) h h'" by (rule touches_mono [OF h'(2)]) (auto simp: A index_bytes_def)
qed

lemma take_large:
  assumes ix: "free_index h F" and c: "c \<in> large F"
  shows "\<exists>h'. remove_tree_node h (fst c) = Some (True, h') \<and> free_index h' (F - {c}) \<and> touches (index_bytes h F) h h'"
proof -
  let ?A = "{kfc_tree_root h + 4..<kfc_tree_root h + 28} \<union> \<Union> (link_bytes ` large F)"
  obtain h' where r: "remove_tree_node h (fst c) = Some (True, h')" "tree_holds h' (large F - {c})" "changes ?A h h'"
    using remove_tree_node_holds [OF assms] by blast
  note t = touches_changes [OF r(3)]
  have same: "kfc_normal_list h' = kfc_normal_list h" using changes_sel [OF r(3)] by blast
  have av: "avoids ?A (fst d) (snd d)" if "d \<in> F" "snd d < 248" for d
  proof -
    have "d \<notin> large F" using that by (simp add: large_def)
    then have "avoids (link_bytes e) (fst d) (snd d)" if "e \<in> large F" for e
      using that \<open>d \<in> F\<close> free_indexD(6) [OF ix, of d e] free_indexD(5) [OF ix, of d] free_indexD(5) [OF ix, of e] by (auto simp: large_def intro!: links_avoid [of h])
    then show ?thesis using root_avoids(1) free_indexD(1,5) [OF ix] that(1) by (simp add: avoids_Un avoids_UN)
  qed
  have "list_holds h' i (small F i)" if "i < 32" for i
    by (rule other_lists [OF ix t _ that]) (use av same in \<open>auto simp: small_def\<close>)
  moreover have "small (F - {c}) i = small F i" for i using c by (cases c) (simp add: large_def small_large)
  moreover have "geometry h'" "separate h' (F - {c})"
    using geometry_touches [OF t] same separate_touches [OF t] separate_subset free_indexD(1,2) [OF ix] by (auto intro: separate_subset)
  ultimately have "free_index h' (F - {c})" using r(2) by (simp add: free_index_def large_removed)
  moreover have "touches (index_bytes h F) h h'" by (rule touches_mono [OF t]) (auto simp: index_bytes_def large_def)
  ultimately show ?thesis using r(1) by blast
qed

lemma unlink_hmu_law:
  assumes ix: "free_index h F" and c: "(p, s) \<in> F" and hd: "hmu_is (hmem h) p HMU_FC pin s"
  shows "\<exists>h'. unlink_hmu p h = Some (True, h') \<and> free_index h' (F - {(p, s)}) \<and> touches (index_bytes h F) h h'"
proof (cases "s < 248")
  case True
  have s: "8 dvd s" "s div 8 < 32" "s div 8 < length (kfc_normal_list h)"
    using free_indexD(1,5) [OF ix] c True by (auto simp: chunk_ok_def geometry_def)
  have p: "p \<in> small F (s div 8)" using c True s(1) by (simp add: small_def)
  obtain h' where "unlink_normal (s div 8) p 0 (kfc_normal_list h ! (s div 8)) h = Some (True, h')"
    "list_holds h' (s div 8) (small F (s div 8) - {p})" "touches (\<Union>q \<in> small F (s div 8). {q + 4..<q + 8}) h h'"
    "length (kfc_normal_list h') = length (kfc_normal_list h)" "\<forall>j. j \<noteq> s div 8 \<longrightarrow> kfc_normal_list h' ! j = kfc_normal_list h ! j"
    using unlink_normal_holds [OF small_nodes [OF ix] free_indexD(3) [OF ix s(2)] p s(3)] by blast
  with take_small [OF ix c True] hd True show ?thesis
    by (auto simp: unlink_hmu_def hmu_is_def Let_def HMU_IS_FC_NORMAL_def HMU_FC_NORMAL_MAX_SIZE_def HMU_NORMAL_NODE_CNT_def)
next
  case False
  then have "(p, s) \<in> large F" using c by (simp add: large_def)
  from take_large [OF ix this] hd False show ?thesis
    by (auto simp: unlink_hmu_def hmu_is_def Let_def HMU_IS_FC_NORMAL_def HMU_FC_NORMAL_MAX_SIZE_def HMU_NORMAL_NODE_CNT_def)
qed

section \<open>Adding a chunk\<close>

text \<open>The header and the size at the end are written first.\<close>

definition mark_free :: "nat \<Rightarrow> nat \<Rightarrow> gc_heap \<Rightarrow> gc_heap" where
  "mark_free p s h = h\<lparr>hmem := hmu_set_free_size (hmu_set_size (hmu_set_ut (hmem h) p HMU_FC) p s) p\<rparr>"

lemma mark_free_ok:
  assumes "16 \<le> s" and "8 dvd s" and "s < 2 ^ 30" and "hmu_get_pinuse (hmem h) p = (if pin then 1 else 0)"
  shows "hmu_is (hmem (mark_free p s h)) p HMU_FC pin s" "rd 4 (hmem (mark_free p s h)) (p + s - 4) = s"
    "touches {p..<p + s} h (mark_free p s h)" "kfc_normal_list (mark_free p s h) = kfc_normal_list h"
proof -
  let ?m = "hmu_set_size (hmu_set_ut (hmem h) p HMU_FC) p s"
  obtain ty z where "hmu_is (hmem h) p ty pin z" using assms(4) by (auto simp: hmu_is_def)
  then have "hmu_is (hmu_set_ut (hmem h) p HMU_FC) p HMU_FC pin z" by (rule hmu_after_set(1) [rotated]) (simp add: HMU_FC_def)
  then have h: "hmu_is ?m p HMU_FC pin s" by (rule hmu_after_set(5) [OF assms(3,2)])
  then have sz: "hmu_get_size ?m p = s" by (simp add: hmu_is_def)
  have m: "hmem (mark_free p s h) = wr 4 ?m (p + s - 4) s" by (simp add: mark_free_def hmu_set_free_size_def Let_def sz)
  show "hmu_is (hmem (mark_free p s h)) p HMU_FC pin s" unfolding m
    by (rule iffD1 [OF hmu_is_cong h]) (use assms(1) in auto)
  show "rd 4 (hmem (mark_free p s h)) (p + s - 4) = s" unfolding m rd_wr_same using assms(3) by simp
  show "touches {p..<p + s} h (mark_free p s h)"
    unfolding touches_def
  proof
    show "\<forall>a. a \<notin> {p..<p + s} \<longrightarrow> hmem (mark_free p s h) a = hmem h a"
      unfolding m using assms(1) by (auto simp: setters_outside wr_apply)
  qed (simp add: mark_free_def)
qed (simp add: mark_free_def)

lemma list_holds_push:
  assumes "nodes_ok h (insert p S)" and "p \<notin> S" and "list_holds h i S" and "i < length (kfc_normal_list h)"
  shows "list_holds ((set_hmu_normal_node_next p (kfc_normal_list h ! i) h)\<lparr>kfc_normal_list := (kfc_normal_list h)[i := p]\<rparr>) i (insert p S)"
proof -
  let ?a = "kfc_normal_list h ! i"
  let ?h = "set_hmu_normal_node_next p ?a h"
  obtain xs where xs: "path h ?a xs 0" "distinct xs" "set xs = S" using assms(3) by (auto simp: list_holds_def)
  have a: "?a \<in> insert 0 (insert p S)" "?a \<noteq> p" "p \<noteq> 0" using path_end [OF xs(1)] xs(3) assms(1,2) by (auto simp: nodes_ok_def)
  have "path ?h ?a xs 0 = path h ?a xs 0"
    by (rule path_cong, rule set_next_at(2) [OF assms(1)]) (use xs(3) assms(2) in auto)
  moreover have "get_hmu_normal_node_next ?h p = ?a" by (rule set_next_at(1) [OF assms(1), where b = p]) (use a in auto)
  ultimately have "path ?h p (p # xs) 0" using xs(1) a(3) by simp
  moreover have "path (?h\<lparr>kfc_normal_list := l\<rparr>) p (p # xs) 0 = path ?h p (p # xs) 0" for l
    by (rule path_cong) (simp add: get_hmu_normal_node_next_def)
  ultimately show ?thesis
    unfolding list_holds_def using xs assms(2,4)
    by (intro exI [of _ "p # xs"]) simp
qed

lemma sorted_insert_first:
  "sorted (map Z xs) \<Longrightarrow> sorted (map Z (takeWhile (\<lambda>q. Z q < Z x) xs @ x # dropWhile (\<lambda>q. Z q < Z x) xs))"
proof (induction xs)
  case (Cons a xs)
  then show ?case by (cases "Z a < Z x") (auto dest: set_takeWhileD set_dropWhileD)
qed simp

lemma insert_first_set:
  "set (takeWhile P xs @ x # dropWhile P xs) = insert x (set xs)"
  "x \<notin> set xs \<Longrightarrow> distinct xs \<Longrightarrow> distinct (takeWhile P xs @ x # dropWhile P xs)"
proof -
  show s: "set (takeWhile P xs @ x # dropWhile P xs) = insert x (set xs)" for xs by (induction xs) auto
  show "x \<notin> set xs \<Longrightarrow> distinct xs \<Longrightarrow> distinct (takeWhile P xs @ x # dropWhile P xs)"
  proof (induction xs)
    case (Cons a xs)
    then show ?case using s [of xs] by auto
  qed simp
qed

lemma tree_for_added:
  assumes tq: "tree_for h B t qs" and in_heap: "\<forall>q \<in> set qs. hmu_is_in_heap q h" and un: "unlinked h t p" and s: "t_size h p = s" "32 < s"
    and p: "p + 32 \<le> 2 ^ 64"
  shows "\<exists>h'. link_tree_node p s (kfc_tree_root h) h = Some (True, h') \<and> tree_holds h' (insert (p, s) B) \<and>
     changes (\<Union> (links ` insert p (set_tree t))) h h'"
proof -
  note f = tree_forD [OF tq]
  have tok: "tree_at (t_left h) (t_right h) (t_parent h) 0 t" "distinct (inorder t)" "t \<noteq> Leaf"
    using tree_okD(1,2) [OF f(1)] f(2) by auto
  have "\<forall>q \<in> set_tree t. q < 2 ^ 64 \<and> (\<forall>r \<in> set_tree t. nodes_apart q r) \<and> (q \<noteq> root_of t \<longrightarrow> hmu_is_in_heap q h)"
    using tree_okD(3,4) [OF f(1)] f(3,6) in_heap by auto
  from link_tree_node_at [OF tok(1,3,2) this un, of s] f(3) obtain h' where
    r: "link_tree_node p s (kfc_tree_root h) h = Some (True, h')" "changes (\<Union> (links ` insert p (set_tree t))) h h'"
      "tree_at (t_left h') (t_right h') (t_parent h') 0 (ins (t_size h) p s t)" by auto
  let ?t = "ins (t_size h) p s t"
  let ?qs = "takeWhile (\<lambda>q. t_size h q < s) qs @ p # dropWhile (\<lambda>q. t_size h q < s) qs"
  have ino: "inorder ?t = kfc_tree_root h # ?qs" using inorder_ins [OF f(4)] f(2,5) s(2) by simp
  have ap: "nodes_apart q r" if "q \<in> insert p (set_tree t)" "r \<in> insert p (set_tree t)" for q r
    using that un tree_okD(3) [OF f(1)] nodes_apart_sym [of r p] by (auto simp: unlinked_def nodes_apart_def [of p p])
  have st: "set_tree ?t = insert p (set_tree t)" by (rule set_tree_ins)
  have set_qs: "set ?qs = insert p (set qs)" by (rule insert_first_set(1))
  have pq: "p \<notin> set_tree t" using un by (simp add: unlinked_def)
  have dist: "distinct (inorder ?t)"
    unfolding ino using insert_first_set(2) [of p qs] pq f(6,9,10) set_qs by simp
  have "tree_ok h' ?t"
    unfolding tree_ok_def st using r(3) dist ap p f(1) by (auto simp: tree_ok_def)
  moreover have same: "t_size h' q = t_size h q" if "q \<in> insert p (set_tree t)" for q
    by (rule changes_size [OF r(2)]) (rule ap [OF that])
  moreover have "sorted (map (t_size h') (inorder ?t))"
  proof -
    have "sorted (map (t_size h) ?qs)" using sorted_insert_first [of "t_size h" qs p] f(2,4) s(1) by simp
    moreover have "\<forall>q \<in> set ?qs. 32 \<le> t_size h q" unfolding set_qs using f(2,4,5) s by simp
    ultimately have "sorted (map (t_size h) (inorder ?t))" unfolding ino using f(5) by auto
    moreover have "map (t_size h') (inorder ?t) = map (t_size h) (inorder ?t)"
      using same by (intro map_cong refl) (simp only: set_inorder st)
    ultimately show ?thesis by (simp only:)
  qed
  moreover have "(\<lambda>q. (q, t_size h' q)) ` set ?qs = insert (p, s) B"
  proof -
    have "(\<lambda>q. (q, t_size h' q)) ` set ?qs = (\<lambda>q. (q, t_size h q)) ` insert p (set qs)"
      unfolding set_qs using same f(6) by (intro image_cong) auto
    then show ?thesis using tq s(1) by (simp add: tree_for_def)
  qed
  ultimately have "tree_for h' (insert (p, s) B) ?t ?qs"
    using changes_sel [OF r(2)] ino f(3,5,6) same [of "kfc_tree_root h"] root_of_ins [OF tok(3)] unfolding tree_for_def by auto
  then show ?thesis using r(1,2) by (auto simp: tree_holds_for)
qed

lemma separate_insert:
  assumes "separate h F" and "chunk_ok h c" and "\<forall>d \<in> F. clear_of c d"
  shows "separate h (insert c F)"
  using assms by (auto simp: separate_def clear_of_def)

lemma small_insert: "s < 248 \<Longrightarrow> 8 dvd s \<Longrightarrow> small (insert (p, s) F) i = (if i = s div 8 then insert p (small F i) else small F i)"
  "248 \<le> s \<Longrightarrow> small (insert (p, s) F) i = small F i"
  by (auto simp: small_def)

lemma large_insert: "large (insert (p, s) F) = (if 248 \<le> s then insert (p, s) (large F) else large F)"
  by (auto simp: large_def)

text \<open>The chunk to be added: in the pool, clear of those in the index.\<close>

definition addable :: "gc_heap \<Rightarrow> chunk set \<Rightarrow> nat \<Rightarrow> nat \<Rightarrow> bool" where
  "addable h F p s \<longleftrightarrow> free_index h F \<and> chunk_ok h (p, s) \<and> (\<forall>c \<in> F. clear_of (p, s) c)"

lemma addableD:
  assumes "addable h F p s"
  shows "free_index h F" "chunk_ok h (p, s)" "c \<in> F \<Longrightarrow> clear_of (p, s) c" "16 \<le> s" "8 dvd s" "s < 2 ^ 30" "p \<noteq> 0"
    "hmu_is_in_heap p h" "(p, s) \<notin> F"
proof -
  show d: "free_index h F" "chunk_ok h (p, s)" "c \<in> F \<Longrightarrow> clear_of (p, s) c" for c using assms by (simp_all add: addable_def)
  show "16 \<le> s" "8 dvd s" "s < 2 ^ 30" "p \<noteq> 0" "hmu_is_in_heap p h"
    using chunk_in_heap [OF free_indexD(1) [OF d(1)] d(2)] d(2) by (simp_all add: chunk_ok_def)
  then show "(p, s) \<notin> F" using d(3) by (force simp: clear_of_def)
qed

lemma addable_avoids:
  assumes "addable h F p s"
  shows "c \<in> F \<Longrightarrow> avoids {p..<p + s} (fst c) (snd c)" "avoids {p..<p + s} (kfc_tree_root h) 32"
proof -
  show "c \<in> F \<Longrightarrow> avoids {p..<p + s} (fst c) (snd c)"
    using addableD(3) [OF assms, of c] by (auto simp: clear_of_def intro!: avoids_interval)
  show "avoids {p..<p + s} (kfc_tree_root h) 32"
    using addableD(2) [OF assms] free_indexD(1) [OF addableD(1) [OF assms]]
    by (auto simp: geometry_def chunk_ok_def intro!: avoids_interval)
qed

lemma addable_touches:
  assumes "addable h F p s" and "touches {p..<p + s} h h'" and "kfc_normal_list h' = kfc_normal_list h"
  shows "addable h' F p s"
proof -
  have "free_index h' F"
  proof (rule free_index_elsewhere [OF addableD(1) [OF assms(1)] assms(2,3)])
    show "\<forall>c \<in> F. avoids {p..<p + s} (fst c + 4) (if snd c < 248 then 4 else 28)"
    proof
      fix c assume c: "c \<in> F"
      then have "16 \<le> snd c" using free_indexD(5) [OF addableD(1) [OF assms(1)]] by (simp add: chunk_ok_def)
      then show "avoids {p..<p + s} (fst c + 4) (if snd c < 248 then 4 else 28)"
        by (intro avoids_part [OF addable_avoids(1) [OF assms(1) c]]) auto
    qed
    show "avoids {p..<p + s} (kfc_tree_root h + 4) 28" by (rule avoids_part [OF addable_avoids(2) [OF assms(1)]]) simp_all
  qed
  then show ?thesis using assms(1) touches_sel [OF assms(2)] by (simp add: addable_def chunk_ok_def)
qed

lemma add_small:
  assumes ad: "addable h F p s" and s: "s < 248"
  shows "free_index ((set_hmu_normal_node_next p (kfc_normal_list h ! (s div 8)) h)\<lparr>kfc_normal_list := (kfc_normal_list h)[s div 8 := p]\<rparr>)
     (insert (p, s) F)" (is "free_index ?h _")
proof -
  note ix = addableD(1) [OF ad] and s8 = addableD(4,5) [OF ad]
  let ?i = "s div 8"
  have i: "?i < 32" "?i < length (kfc_normal_list h)" using s free_indexD(1) [OF ix] by (auto simp: geometry_def)
  have t: "touches {p + 4..<p + 8} h ?h" by (rule touches_trans [OF set_next_touches touches_heads])
  have T: "touches {p..<p + s} h ?h" by (rule touches_mono [OF t]) (use s8 in auto)
  have geo: "geometry ?h" using geometry_touches [OF T] free_indexD(1) [OF ix] by simp
  have sep: "separate h (insert (p, s) F)" using separate_insert free_indexD(2) [OF ix] addableD(2,3) [OF ad] by blast
  have p: "p \<notin> small F ?i" using addableD(9) [OF ad] s8 by (auto simp: small_def)
  have nodes: "nodes_ok h (insert p (small F ?i))"
  proof -
    have "p + 8 \<le> q \<or> q + 8 \<le> p" if "q \<in> small F ?i" for q
      using that addableD(3) [OF ad, of "(q, s)"] s8 by (auto simp: small_def clear_of_def)
    then show ?thesis using small_nodes [OF ix, of ?i] addableD(7,8) [OF ad] by (auto simp: nodes_ok_def)
  qed
  have "list_holds ?h ?i (insert p (small F ?i))"
    by (rule list_holds_push [OF nodes p free_indexD(3) [OF ix i(1)] i(2)])
  moreover have "list_holds ?h j (small F j)" if "j < 32" "j \<noteq> ?i" for j
    by (rule other_lists [OF ix T _ that(1)])
      (use addable_avoids(1) [OF ad] that(2) in \<open>fastforce simp: small_def set_hmu_normal_node_next_def\<close>)+
  moreover have "tree_holds ?h (large F)"
    by (rule other_tree [OF ix T addable_avoids(2) [OF ad]]) (use addable_avoids(1) [OF ad] in \<open>simp add: large_def\<close>)
  ultimately show ?thesis
    unfolding free_index_def using geo separate_touches [OF T sep] s s8 by (simp add: small_insert large_insert)
qed

lemma add_large:
  assumes ad: "addable h F p s" and s: "248 \<le> s" and node: "t_size h p = s" "t_left h p = 0" "t_right h p = 0"
  shows "\<exists>h'. link_tree_node p s (kfc_tree_root h) h = Some (True, h') \<and> free_index h' (insert (p, s) F) \<and>
     touches (index_bytes h F \<union> {p + 4..<p + 28}) h h'"
proof -
  note ix = addableD(1) [OF ad]
  obtain t qs where tq: "tree_for h (large F) t qs" using free_indexD(4) [OF ix] by (auto simp: tree_holds_for)
  note f = tree_forD [OF tq]
  have end_ok: "p + 32 \<le> 2 ^ 64"
    using addableD(2) [OF ad] free_indexD(1) [OF ix] s by (auto simp: chunk_ok_def geometry_def)
  have ap: "q \<noteq> p \<and> nodes_apart q p" if q: "q \<in> set_tree t" for q
  proof -
    consider "q = kfc_tree_root h" | c where "c \<in> large F" "q = fst c" using q f(6,7) by auto
    then show ?thesis
    proof cases
      case 1
      then show ?thesis using addable_avoids(2) [OF ad] addableD(2) [OF ad] free_indexD(1) [OF ix] s
        by (auto simp: nodes_apart_def geometry_def chunk_ok_def)
    next
      case 2
      then show ?thesis using addableD(3) [OF ad, of c] s by (auto simp: large_def clear_of_def nodes_apart_def)
    qed
  qed
  then have "unlinked h t p" using addableD(7) [OF ad] end_ok node by (auto simp: unlinked_def)
  from tree_for_added [OF tq _ this node(1) _ end_ok] tree_in_heap [OF ix tq] s obtain h' where
    r: "link_tree_node p s (kfc_tree_root h) h = Some (True, h')" "tree_holds h' (insert (p, s) (large F))"
      "changes (\<Union> (links ` insert p (set_tree t))) h h'" by auto
  let ?A = "\<Union> (links ` insert p (set_tree t))"
  have A: "?A = {p + 4..<p + 28} \<union> {kfc_tree_root h + 4..<kfc_tree_root h + 28} \<union> \<Union> (link_bytes ` large F)"
    unfolding f(6,7) by (auto simp: links_def link_bytes_def large_def)
  note t = touches_changes [OF r(3)]
  have same: "kfc_normal_list h' = kfc_normal_list h" using changes_sel [OF r(3)] by blast
  have av: "avoids ?A (fst d) (snd d)" if "d \<in> F" "snd d < 248" for d
  proof -
    have "avoids (link_bytes e) (fst d) (snd d)" if e: "e \<in> large F" for e
    proof (rule links_avoid [of h])
      show "clear_of d e" using e \<open>d \<in> F\<close> \<open>snd d < 248\<close> free_indexD(6) [OF ix, of d e] by (auto simp: large_def)
    qed (use free_indexD(5) [OF ix] e \<open>d \<in> F\<close> in \<open>auto simp: large_def\<close>)
    moreover have "avoids {p + 4..<p + 28} (fst d) (snd d)"
      using addable_avoids(1) [OF ad that(1)] s by (auto simp: avoids_def)
    ultimately show ?thesis unfolding A using root_avoids(1) free_indexD(1,5) [OF ix] that(1) by (simp add: avoids_Un avoids_UN)
  qed
  have "list_holds h' i (small F i)" if "i < 32" for i
    by (rule other_lists [OF ix t _ that]) (use av same in \<open>auto simp: small_def\<close>)
  moreover have "geometry h'" using geometry_touches [OF t] same free_indexD(1) [OF ix] by simp
  moreover have "separate h' (insert (p, s) F)"
    using separate_touches [OF t] separate_insert free_indexD(2) [OF ix] addableD(2,3) [OF ad] by blast
  ultimately have "free_index h' (insert (p, s) F)" using r(2) s by (simp add: free_index_def small_insert large_insert)
  moreover have "touches (index_bytes h F \<union> {p + 4..<p + 28}) h h'"
    by (rule touches_mono [OF t]) (unfold A, auto simp: index_bytes_def large_def)
  ultimately show ?thesis using r(1) by blast
qed

lemma normal_iff: "HMU_IS_FC_NORMAL s \<longleftrightarrow> s < 248"
  by (simp add: HMU_IS_FC_NORMAL_def HMU_FC_NORMAL_MAX_SIZE_def HMU_NORMAL_NODE_CNT_def)

definition blank_node :: "nat \<Rightarrow> nat \<Rightarrow> gc_heap \<Rightarrow> gc_heap" where
  "blank_node p s h = set_left p 0 (set_right p 0 (set_parent p 0 (h\<lparr>hmem := wr 4 (hmem h) (p + 28) s\<rparr>)))"

lemma blank_node_ok:
  assumes "s < 2 ^ 30"
  shows "touches {p + 4..<p + 32} h (blank_node p s h)" "kfc_normal_list (blank_node p s h) = kfc_normal_list h"
    "t_size (blank_node p s h) p = s" "t_left (blank_node p s h) p = 0" "t_right (blank_node p s h) p = 0"
proof -
  let ?h = "h\<lparr>hmem := wr 4 (hmem h) (p + 28) s\<rparr>"
  have 1: "touches {p + 4..<p + 32} h ?h" by (auto simp: touches_def wr_apply)
  have 2: "changes {p + 4..<p + 32} ?h (blank_node p s h)"
    unfolding blank_node_def
    by (rule changes_trans [OF changes_trans [OF changes_setters(3) changes_setters(2)] changes_setters(1)]) (auto simp: links_def)
  show "touches {p + 4..<p + 32} h (blank_node p s h)" "kfc_normal_list (blank_node p s h) = kfc_normal_list h"
    using touches_trans [OF 1 touches_changes [OF 2]] changes_sel [OF 2] by simp_all
  show "t_size (blank_node p s h) p = s" "t_left (blank_node p s h) p = 0" "t_right (blank_node p s h) p = 0"
    unfolding blank_node_def using assms by (simp_all add: field_updates nodes_apart_def) (simp add: t_size_def rd_wr_same)
qed

lemma gci_add_fc_law:
  assumes ad: "addable h F p s" and pin: "hmu_get_pinuse (hmem h) p = (if pin then 1 else 0)"
  shows "\<exists>h'. gci_add_fc p s h = Some (True, h') \<and> free_index h' (insert (p, s) F) \<and>
     touches (index_bytes h F \<union> {p..<p + s}) h h' \<and> hmu_is (hmem h') p HMU_FC pin s \<and> rd 4 (hmem h') (p + s - 4) = s"
proof -
  note s = addableD(4,5,6) [OF ad]
  let ?h = "mark_free p s h"
  note mf = mark_free_ok [OF s pin]
  note ad1 = addable_touches [OF ad mf(3,4)]
  have in1: "hmu_is_in_heap p ?h" using addableD(8) [OF ad1] .
  have unf: "gci_add_fc p s h = (let h = ?h in
      if s < 248 then Some (True, (set_hmu_normal_node_next p (kfc_normal_list h ! (s div 8)) h)\<lparr>kfc_normal_list := (kfc_normal_list h)[s div 8 := p]\<rparr>)
      else link_tree_node p s (kfc_tree_root h) (blank_node p s h))"
    using in1 by (simp add: gci_add_fc_def mark_free_def normal_iff Let_def blank_node_def set_left_def set_right_def set_parent_def put_ptr_def
        set_hmu_normal_node_next_def)
  have sel: "index_bytes ?h F = index_bytes h F" "kfc_tree_root ?h = kfc_tree_root h"
    using touches_sel(3) [OF mf(3)] by (simp_all add: index_bytes_def)
  have finish: "\<exists>h'. gci_add_fc p s h = Some (True, h') \<and> free_index h' (insert (p, s) F) \<and>
     touches (index_bytes h F \<union> {p..<p + s}) h h' \<and> hmu_is (hmem h') p HMU_FC pin s \<and> rd 4 (hmem h') (p + s - 4) = s"
    if r: "gci_add_fc p s h = Some (True, h')" "free_index h' (insert (p, s) F)" "touches A ?h h'" "A \<subseteq> index_bytes h F \<union> {p + 4..<p + s - 4}" for h' A
  proof -
    have "avoids (index_bytes h F) p s"
    proof -
      have "avoids (link_bytes c) p s" if "c \<in> F" for c
        using links_avoid [OF addableD(2) [OF ad] free_indexD(5) [OF addableD(1) [OF ad] that] addableD(3) [OF ad that]] by simp
      then show ?thesis
        using root_avoids(1) [OF free_indexD(1) [OF addableD(1) [OF ad]] addableD(2) [OF ad]] by (simp add: index_bytes_def avoids_Un avoids_UN)
    qed
    then have av: "avoids A p 4" "avoids A (p + s - 4) 4" using r(4) s(1) by (fastforce simp: avoids_def)+
    have "A \<subseteq> index_bytes h F \<union> {p..<p + s}" by (rule order_trans [OF r(4)]) auto
    then have "touches (index_bytes h F \<union> {p..<p + s}) h h'"
      by (intro touches_trans [OF touches_mono [OF mf(3)] touches_mono [OF r(3)]]) auto
    then show ?thesis using r(1,2) touches_hmu [OF r(3) av(1)] touches_rd [OF r(3) av(2)] mf(1,2) by auto
  qed
  show ?thesis
  proof (cases "s < 248")
    case True
    let ?h' = "(set_hmu_normal_node_next p (kfc_normal_list ?h ! (s div 8)) ?h)\<lparr>kfc_normal_list := (kfc_normal_list ?h)[s div 8 := p]\<rparr>"
    show ?thesis
    proof (rule finish)
      show "gci_add_fc p s h = Some (True, ?h')" using unf True by (simp add: Let_def)
      show "free_index ?h' (insert (p, s) F)" by (rule add_small [OF ad1 True])
      show "touches {p + 4..<p + 8} ?h ?h'" by (rule touches_trans [OF set_next_touches touches_heads])
    qed (use s in auto)
  next
    case False
    let ?g = "blank_node p s ?h"
    have s32: "32 \<le> s" using False by simp
    note bl = blank_node_ok [OF s(3), of p ?h]
    have ad2: "addable ?g F p s" by (rule addable_touches [OF ad1 touches_mono [OF bl(1)] bl(2)]) (use s32 in auto)
    have root: "kfc_tree_root ?g = kfc_tree_root h" "index_bytes ?g F = index_bytes h F"
      using touches_sel(3) [OF bl(1)] sel by (simp_all add: index_bytes_def)
    obtain h' where r: "link_tree_node p s (kfc_tree_root h) ?g = Some (True, h')" "free_index h' (insert (p, s) F)"
      "touches (index_bytes h F \<union> {p + 4..<p + 28}) ?g h'" using add_large [OF ad2 _ bl(3-5)] False root by auto
    show ?thesis
    proof (rule finish)
      show "gci_add_fc p s h = Some (True, h')" using unf False r(1) sel by (simp add: Let_def)
      show "touches (index_bytes h F \<union> {p + 4..<p + 32}) ?h h'"
        by (rule touches_trans [OF touches_mono [OF bl(1)] touches_mono [OF r(3)]]) auto
    qed (use r(2) False in auto)
  qed
qed

section \<open>Searching the index\<close>

lemma list_head:
  assumes "list_holds h i S"
  shows "kfc_normal_list h ! i = 0 \<longleftrightarrow> S = {}" "kfc_normal_list h ! i \<in> insert 0 S"
proof -
  obtain xs where xs: "path h (kfc_normal_list h ! i) xs 0" "set xs = S" using assms by (auto simp: list_holds_def)
  then show "kfc_normal_list h ! i = 0 \<longleftrightarrow> S = {}" "kfc_normal_list h ! i \<in> insert 0 S" by (cases xs; auto)+
qed

lemma pop_small:
  assumes ix: "free_index h F" and i: "i < 32" and p: "p = kfc_normal_list h ! i" "p \<noteq> 0"
  defines "h' \<equiv> h\<lparr>kfc_normal_list := (kfc_normal_list h)[i := get_hmu_normal_node_next h p]\<rparr>"
  shows "(p, 8 * i) \<in> F" "8 * i < 248" "free_index h' (F - {(p, 8 * i)})" "touches (index_bytes h F) h h'"
proof -
  note l = free_indexD(3) [OF ix i]
  obtain xs where xs: "path h p xs 0" "distinct xs" "set xs = small F i" using l p(1) by (auto simp: list_holds_def)
  have len: "i < length (kfc_normal_list h)" using i free_indexD(1) [OF ix] by (simp add: geometry_def)
  show c: "(p, 8 * i) \<in> F" "8 * i < 248" using list_head(2) [OF l] p by (auto simp: small_def)
  obtain ys where ys: "xs = p # ys" using xs(1) p(2) by (cases xs) auto
  have "path h' q ys 0 = path h q ys 0" for q by (rule path_cong) (simp add: get_hmu_normal_node_next_def h'_def)
  then have "list_holds h' i (small F i - {p})"
    using xs ys len unfolding list_holds_def h'_def by (intro exI [of _ ys]) auto
  moreover have "touches A h h'" for A unfolding h'_def by (rule touches_heads)
  ultimately show "free_index h' (F - {(p, 8 * i)})" "touches (index_bytes h F) h h'"
    using take_small(1) [OF ix c, of h'] by (simp_all add: h'_def)
qed

lemma best_fit_law:
  assumes ix: "free_index h F"
  shows "best_fit h s (t_right h (kfc_tree_root h)) 0 = Some (Some 0) \<and> (\<forall>c \<in> large F. snd c < s) \<or>
    (\<exists>q z. best_fit h s (t_right h (kfc_tree_root h)) 0 = Some (Some q) \<and> q \<noteq> 0 \<and> (q, z) \<in> large F \<and> s \<le> z \<and> t_size h q = z \<and>
       (\<forall>c \<in> large F. s \<le> snd c \<longrightarrow> z \<le> snd c))"
proof -
  obtain t qs where tq: "tree_for h (large F) t qs" using free_indexD(4) [OF ix] by (auto simp: tree_holds_for)
  note f = tree_forD [OF tq]
  obtain l r where t: "t = Node l (kfc_tree_root h) r" using f(2,3) by (cases t) auto
  have qs: "inorder r = qs"
    using f(2,10) tree_okD(2) [OF f(1)] t by (cases l) (auto simp: append_eq_Cons_conv)
  have sub: "tree_at (t_left h) (t_right h) (t_parent h) (kfc_tree_root h) r" "t_right h (kfc_tree_root h) = root_of r"
    "sorted (map (t_size h) (inorder r))" "\<forall>x \<in> set_tree r. hmu_is_in_heap x h"
    using tree_okD(1) [OF f(1)] f(4) t tree_in_heap [OF ix tq] unfolding set_tree_inorder [of r] qs by (auto simp: sorted_append qs)
  let ?d = "dropWhile (\<lambda>q. t_size h q < s) qs"
  have run: "best_fit h s (t_right h (kfc_tree_root h)) 0 = Some (Some (case ?d of [] \<Rightarrow> 0 | q # _ \<Rightarrow> q))"
    using best_fit_first [OF sub(1,4,3), of s 0] unfolding sub(2) qs .
  have sz: "(q, t_size h q) \<in> large F \<longleftrightarrow> q \<in> set qs" for q using tq by (auto simp: tree_for_def)
  have snd_c: "fst c \<in> set qs" "t_size h (fst c) = snd c" if "c \<in> large F" for c using that f(7) f(8) [of "fst c" "snd c"] by auto
  show ?thesis
  proof (cases ?d)
    case Nil
    then have "\<forall>q \<in> set qs. t_size h q < s" by (simp add: dropWhile_eq_Nil_conv)
    then have "\<forall>c \<in> large F. snd c < s" using snd_c by metis
    then show ?thesis using run Nil by simp
  next
    case (Cons q ds)
    have split: "qs = takeWhile (\<lambda>q. t_size h q < s) qs @ q # ds" using takeWhile_dropWhile_id [of "\<lambda>q. t_size h q < s" qs] Cons by simp
    then have q: "q \<in> set qs" by (metis in_set_conv_decomp)
    have ge: "s \<le> t_size h q" using hd_dropWhile [of "\<lambda>q. t_size h q < s" qs] Cons by simp
    have "t_size h q \<le> t_size h x" if "x \<in> set qs" "s \<le> t_size h x" for x
    proof -
      have "x \<in> set (q # ds)" using that split by (metis Un_iff not_less set_append set_takeWhileD)
      moreover have "sorted (map (t_size h) (q # ds))" using sub(3) split unfolding qs by (metis map_append sorted_append)
      ultimately show ?thesis by auto
    qed
    then have "\<forall>c \<in> large F. s \<le> snd c \<longrightarrow> t_size h q \<le> snd c" using snd_c by metis
    moreover have "q \<noteq> 0" using q tree_at_nonzero [OF sub(1)] unfolding set_tree_inorder qs by blast
    ultimately show ?thesis using run Cons q ge sz by auto
  qed
qed

text \<open>
  The search of \<open>alloc_hmu\<close> as a whole: it fails when every free chunk is too small, and else takes
  out a smallest one that is large enough.
\<close>

definition best :: "chunk set \<Rightarrow> nat \<Rightarrow> chunk \<Rightarrow> bool" where
  "best F s c \<longleftrightarrow> c \<in> F \<and> s \<le> snd c \<and> (\<forall>d \<in> F. s \<le> snd d \<longrightarrow> snd c \<le> snd d)"

lemma align_8: "GC_ALIGN_8 n = unat (of_nat n + 7 :: u32) div 8 * 8"
proof -
  have "v AND NOT 7 = push_bit 3 (drop_bit 3 v)" for v :: u32
  proof -
    have seven: "(7 :: u32) = mask 3" by (simp add: mask_eq_exp_minus_1)
    show ?thesis unfolding seven by (rule bit_word_eqI) (auto simp only: bit_simps, auto)
  qed
  then have "GC_ALIGN_8 n = unat (push_bit 3 (drop_bit 3 (of_nat n + 7 :: u32)))" by (simp add: GC_ALIGN_8_def)
  also have "\<dots> = unat (of_nat n + 7 :: u32) div 8 * 8"
  proof -
    have "unat v div 8 * 8 < 2 ^ 32" for v :: u32 using unsigned_less [where ?'a = nat, of v] by simp
    then show ?thesis by (simp add: push_bit_eq_mult drop_bit_eq_div unat_word_ariths unat_div mult.commute)
  qed
  finally show ?thesis .
qed

lemma GC_SMALLEST: "GC_SMALLEST_SIZE = 16"
  by (simp add: GC_SMALLEST_SIZE_def align_8 HMU_SIZE_def)

lemma alloc_from_list_law:
  assumes ix: "free_index h F" and s: "8 dvd s" and i: "s div 8 \<le> i" "i < 32" "kfc_normal_list h ! i \<noteq> 0"
    and least: "\<forall>j. s div 8 \<le> j \<and> j < i \<longrightarrow> kfc_normal_list h ! j = 0"
  shows "\<exists>p z h'. best F s (p, z) \<and> free_index h' (F - {(p, z)}) \<and> touches (index_bytes h F) h h' \<and>
     alloc_from_list i s h = carve p z s (s + 16 \<le> z) h'"
proof -
  let ?p = "kfc_normal_list h ! i"
  note pop = pop_small [OF ix i(2) refl i(3)]
  have ge: "s \<le> 8 * i" using s i(1) by auto
  have "8 * i \<le> snd d" if d: "d \<in> F" "s \<le> snd d" for d
  proof (rule ccontr)
    assume less: "\<not> 8 * i \<le> snd d"
    obtain j where j: "snd d = 8 * j" using free_indexD(5) [OF ix d(1)] by (auto simp: chunk_ok_def elim: dvdE)
    have "fst d \<in> small F j" using d(1) j less pop(2) by (cases d) (simp add: small_def)
    moreover have "j < 32" "j < i" "s div 8 \<le> j" using less j i(2) d(2) by auto
    ultimately show False using least list_head(1) [OF free_indexD(3) [OF ix]] by blast
  qed
  then have "best F s (?p, 8 * i)" using pop(1) ge by (simp add: best_def)
  moreover have "hmu_is_in_heap ?p h" "hmu_to_obj ?p mod 8 = 0"
    using chunk_in_heap [OF free_indexD(1) [OF ix] free_indexD(5) [OF ix pop(1)]] free_indexD(5) [OF ix pop(1)]
    by (auto simp: chunk_ok_def hmu_to_obj_def HMU_SIZE_def mod_add_eq [symmetric])
  moreover have "(i \<noteq> s div 8 \<and> s + GC_SMALLEST_SIZE \<le> i * 8) = (s + 16 \<le> 8 * i)"
    using s by (auto simp: GC_SMALLEST)
  ultimately show ?thesis
    using pop(3,4) by (intro exI [of _ ?p] exI [of _ "8 * i"] exI) (auto simp: alloc_from_list_def Let_def mult.commute [of i 8])
qed

lemma alloc_from_tree_law:
  assumes ix: "free_index h F" and none: "\<forall>c \<in> F. snd c < 248 \<longrightarrow> snd c < s"
  shows "alloc_from_tree s h = Some (0, h) \<and> (\<forall>c \<in> F. snd c < s) \<or>
    (\<exists>p z h'. best F s (p, z) \<and> free_index h' (F - {(p, z)}) \<and> touches (index_bytes h F) h h' \<and>
     alloc_from_tree s h = carve p z s (s + 16 \<le> z) h')"
  using best_fit_law [OF ix, of s]
proof
  assume "best_fit h s (t_right h (kfc_tree_root h)) 0 = Some (Some 0) \<and> (\<forall>c \<in> large F. snd c < s)"
  then show ?thesis using none by (auto simp: alloc_from_tree_def large_def not_le)
next
  assume "\<exists>q z. best_fit h s (t_right h (kfc_tree_root h)) 0 = Some (Some q) \<and> q \<noteq> 0 \<and> (q, z) \<in> large F \<and> s \<le> z \<and> t_size h q = z \<and>
     (\<forall>c \<in> large F. s \<le> snd c \<longrightarrow> z \<le> snd c)"
  then obtain q z where q: "best_fit h s (t_right h (kfc_tree_root h)) 0 = Some (Some q)" "q \<noteq> 0" "(q, z) \<in> large F" "s \<le> z"
    "t_size h q = z" "\<forall>c \<in> large F. s \<le> snd c \<longrightarrow> z \<le> snd c" by blast
  obtain h' where r: "remove_tree_node h q = Some (True, h')" "free_index h' (F - {(q, z)})" "touches (index_bytes h F) h h'"
    using take_large [OF ix q(3)] by auto
  have qF: "(q, z) \<in> F" "248 \<le> z" using q(3) by (simp_all add: large_def)
  have av: "avoids (index_bytes h F) (q + 28) 4"
  proof -
    have "avoids (link_bytes c) (q + 28) 4" if c: "c \<in> F" for c
    proof (cases "c = (q, z)")
      case True
      then show ?thesis using qF(2) by (auto simp: link_bytes_def avoids_def)
    next
      case False
      then have "clear_of (q, z) c" using free_indexD(6) [OF ix qF(1) c] by auto
      then have "avoids (link_bytes c) q z" using links_avoid [OF free_indexD(5) [OF ix qF(1)] free_indexD(5) [OF ix c]] by simp
      then show ?thesis by (rule avoids_part) (use qF(2) in auto)
    qed
    moreover have "avoids {kfc_tree_root h + 4..<kfc_tree_root h + 28} (q + 28) 4"
      using root_avoids(1) [OF free_indexD(1) [OF ix] free_indexD(5) [OF ix qF(1)]] by (rule avoids_part) (use qF(2) in auto)
    ultimately show ?thesis by (simp add: index_bytes_def avoids_Un avoids_UN)
  qed
  then have size: "t_size h' q = z" using touches_rd [OF r(3)] q(5) by (simp add: t_size_def)
  have "z < 2 ^ 30" using chunk_in_heap [OF free_indexD(1) [OF ix] free_indexD(5) [OF ix qF(1)]] by simp
  then have "add32 s GC_SMALLEST_SIZE = s + 16" using q(4) by (simp add: GC_SMALLEST add32_nat)
  then have "alloc_from_tree s h = carve q z s (s + 16 \<le> z) h'" using q(1,2) r(1) size by (simp add: alloc_from_tree_def)
  moreover have "best F s (q, z)" using qF q(4,6) none by (auto simp: best_def large_def)
  ultimately show ?thesis using r(2,3) by blast
qed

lemma alloc_hmu_law:
  assumes ix: "free_index h F" and s: "8 dvd s"
  shows "alloc_hmu s h = Some (0, h) \<and> (\<forall>c \<in> F. snd c < max s 16) \<or>
    (\<exists>p z h'. best F (max s 16) (p, z) \<and> free_index h' (F - {(p, z)}) \<and> touches (index_bytes h F) h h' \<and>
     alloc_hmu s h = carve p z (max s 16) (max s 16 + 16 \<le> z) h')"
proof -
  let ?s = "max s 16"
  have s8: "8 dvd ?s" using s by (simp add: max_def)
  let ?f = "find (\<lambda>i. kfc_normal_list h ! i \<noteq> 0) [?s div 8..<32]"
  have unf: "alloc_hmu s h = (case (if ?s < 248 then ?f else None) of Some i \<Rightarrow> alloc_from_list i ?s h | None \<Rightarrow> alloc_from_tree ?s h)"
  proof -
    have "(if s < 16 then 16 else s) = ?s" by simp
    then show ?thesis unfolding alloc_hmu_def Let_def GC_SMALLEST normal_iff HMU_NORMAL_NODE_CNT_def by (simp only:)
  qed
  show ?thesis
  proof (cases "if ?s < 248 then ?f else None")
    case None
    have "snd c < ?s" if c: "c \<in> F" "snd c < 248" for c
    proof (rule ccontr)
      assume ge: "\<not> snd c < ?s"
      obtain i where i: "snd c = 8 * i" using free_indexD(5) [OF ix c(1)] by (auto simp: chunk_ok_def elim: dvdE)
      have "i < 32" "?s div 8 \<le> i" "?s < 248" using c(2) i ge by auto
      moreover have "fst c \<in> small F i" using c i by (cases c) (simp add: small_def)
      ultimately show False using None list_head(1) [OF free_indexD(3) [OF ix]] by (auto simp: find_None_iff)
    qed
    then show ?thesis using alloc_from_tree_law [OF ix, of ?s] None unf by simp
  next
    case (Some i)
    then have found: "?s div 8 \<le> i" "i < 32" "kfc_normal_list h ! i \<noteq> 0" "\<forall>j. ?s div 8 \<le> j \<and> j < i \<longrightarrow> kfc_normal_list h ! j = 0"
    proof -
      from Some have "?f = Some i" by (simp split: if_splits)
      then obtain k where k: "k < 32 - ?s div 8" "i = ?s div 8 + k" "kfc_normal_list h ! i \<noteq> 0"
        "\<forall>j<k. kfc_normal_list h ! (?s div 8 + j) = 0" by (auto simp: find_Some_iff)
      then show "?s div 8 \<le> i" "i < 32" "kfc_normal_list h ! i \<noteq> 0" by auto
      show "\<forall>j. ?s div 8 \<le> j \<and> j < i \<longrightarrow> kfc_normal_list h ! j = 0"
      proof (intro allI impI)
        fix j assume j: "?s div 8 \<le> j \<and> j < i"
        then have "j - ?s div 8 < k" "?s div 8 + (j - ?s div 8) = j" using k(2) by auto
        then show "kfc_normal_list h ! j = 0" using k(4) by metis
      qed
    qed
    show ?thesis using alloc_from_list_law [OF ix s8 found] Some unf by simp
  qed
qed

end
