(* ===== verification/Ems_Chunks.thy ===== *)
theory Ems_Chunks
  imports Ems_Index
begin

text \<open>
  The pool as a row of chunks, used and free, and the invariant of the heap: the row, the index of the
  free chunks, and the counters. Allocation and release open a gap in the row, change it, and close it.
\<close>

section \<open>Rows of chunks\<close>

text \<open>A chunk of a row is given by its size and whether it is in use.\<close>

type_synonym chunks = "(nat \<times> bool) list"

fun extent :: "chunks \<Rightarrow> nat" where
  "extent [] = 0"
| "extent ((s, u) # cs) = s + extent cs"

fun used_after :: "bool \<Rightarrow> chunks \<Rightarrow> bool" where
  "used_after pin [] = pin"
| "used_after pin ((s, u) # cs) = used_after u cs"

fun placed :: "nat \<Rightarrow> chunks \<Rightarrow> (chunk \<times> bool) list" where
  "placed a [] = []"
| "placed a ((s, u) # cs) = ((a, s), u) # placed (a + s) cs"

definition frees :: "nat \<Rightarrow> chunks \<Rightarrow> chunk set" where
  "frees a cs = {c. (c, False) \<in> set (placed a cs)}"

text \<open>
  Headers tell the kind and size of a chunk and whether the one before is in use. No two free chunks
  are neighbours, and a free chunk that is not the last one of the pool, which ends at \<open>e\<close>, has its
  size in its last four bytes.
\<close>

fun row :: "mem \<Rightarrow> nat \<Rightarrow> bool \<Rightarrow> nat \<Rightarrow> chunks \<Rightarrow> bool" where
  "row m e pin a [] \<longleftrightarrow> True"
| "row m e pin a ((s, u) # cs) \<longleftrightarrow>
     hmu_is m a (if u then HMU_VO else HMU_FC) pin s \<and> 16 \<le> s \<and> 8 dvd s \<and> (u \<longrightarrow> hmu_is_vo_freed m a = 0) \<and>
     (\<not> u \<longrightarrow> pin \<and> (a + s = e \<or> rd 4 m (a + s - 4) = s)) \<and> row m e u (a + s) cs"

lemma extent_append [simp]: "extent (xs @ ys) = extent xs + extent ys"
  by (induction xs rule: extent.induct) auto

lemma used_after_append [simp]: "used_after pin (xs @ ys) = used_after (used_after pin xs) ys"
  by (induction xs arbitrary: pin rule: extent.induct) auto

lemma placed_append [simp]: "placed a (xs @ ys) = placed a xs @ placed (a + extent xs) ys"
  by (induction xs arbitrary: a rule: extent.induct) (auto simp: add.assoc)

lemma row_append: "row m e pin a (xs @ ys) \<longleftrightarrow> row m e pin a xs \<and> row m e (used_after pin xs) (a + extent xs) ys"
  by (induction m e pin a xs rule: row.induct) (auto simp: add.assoc)

lemma frees_simps [simp]:
  "frees a [] = {}" "frees a ((s, True) # cs) = frees (a + s) cs" "frees a ((s, False) # cs) = insert (a, s) (frees (a + s) cs)"
  "frees a (xs @ ys) = frees a xs \<union> frees (a + extent xs) ys"
  by (auto simp: frees_def)

lemma placed_bounds: "(c, u) \<in> set (placed a cs) \<Longrightarrow> a \<le> fst c \<and> fst c + snd c \<le> a + extent cs"
  by (induction cs arbitrary: a rule: extent.induct) fastforce+

lemma frees_bounds: "c \<in> frees a cs \<Longrightarrow> a \<le> fst c \<and> fst c + snd c \<le> a + extent cs"
  using placed_bounds by (auto simp: frees_def)

lemma row_extent: "row m e pin a cs \<Longrightarrow> 8 dvd extent cs"
  by (induction m e pin a cs rule: row.induct) auto

lemma row_placed:
  "row m e pin a cs \<Longrightarrow> a mod 8 = 4 \<Longrightarrow> (c, u) \<in> set (placed a cs) \<Longrightarrow> 16 \<le> snd c \<and> 8 dvd snd c \<and> fst c mod 8 = 4"
proof (induction m e pin a cs rule: row.induct)
  case (2 m e pin a s u cs)
  have "(a + s) mod 8 = 4" using 2(2,3) by (auto simp: mod_add_eq [symmetric])
  then show ?case using 2 by auto
qed simp

lemma row_cong:
  assumes "row m e pin a cs" and "\<forall>x. x \<notin> A \<longrightarrow> m' x = m x"
    and "\<forall>(c, u) \<in> set (placed a cs). avoids A (fst c) 4 \<and> (\<not> u \<longrightarrow> avoids A (fst c + snd c - 4) 4)"
  shows "row m' e pin a cs"
  using assms(1,3)
proof (induction cs arbitrary: pin a)
  case (Cons c cs)
  obtain s u where c: "c = (s, u)" by (cases c)
  have same: "m' x = m x" if "avoids A p n" "p \<le> x" "x < p + n" for p n x using assms(2) avoidsD [OF that] by blast
  have head: "hmu_is m' a ty v z = hmu_is m a ty v z" "hmu_is_vo_freed m' a = hmu_is_vo_freed m a" for ty v z
  proof -
    have "header m' a = header m a" using Cons.prems(2) c by (intro header_cong same [of a 4]) auto
    then show "hmu_is m' a ty v z = hmu_is m a ty v z" "hmu_is_vo_freed m' a = hmu_is_vo_freed m a"
      by (simp_all add: hmu_is_def hmu_getters)
  qed
  have "\<not> u \<Longrightarrow> rd 4 m' (a + s - 4) = rd 4 m (a + s - 4)"
    using Cons.prems(2) c by (intro rd_cong same [of "a + s - 4" 4]) auto
  moreover have "row m' e u (a + s) cs" by (rule Cons.IH) (use Cons.prems c in auto)
  ultimately show ?case using Cons.prems(1) c head by auto
qed simp

lemma row_mark_next: "row m e pin a ((s, u) # cs) \<Longrightarrow> row (hmu_mark_pinuse m a) e True a ((s, u) # cs)"
  and row_unmark_next: "row m e pin a ((s, True) # cs) \<Longrightarrow> row (hmu_unmark_pinuse m a) e False a ((s, True) # cs)"
proof -
  have rest: "row m' e u (a + s) cs" if "row m e pin a ((s, u) # cs)" "\<forall>x. x \<notin> {a..<a + 4} \<longrightarrow> m' x = m x" for m' u
  proof (rule row_cong [of m])
    show "\<forall>(c, v) \<in> set (placed (a + s) cs). avoids {a..<a + 4} (fst c) 4 \<and> (\<not> v \<longrightarrow> avoids {a..<a + 4} (fst c + snd c - 4) 4)"
      using that(1) by (auto dest!: placed_bounds intro!: avoids_interval)
  qed (use that in auto)
  have foot: "16 \<le> s \<Longrightarrow> rd 4 (hmu_mark_pinuse m a) (a + s - 4) = rd 4 m (a + s - 4)"
    by (rule rd_cong, rule setters_outside(2)) auto
  have out: "\<forall>x. x \<notin> {a..<a + 4} \<longrightarrow> hmu_mark_pinuse m a x = m x" "\<forall>x. x \<notin> {a..<a + 4} \<longrightarrow> hmu_unmark_pinuse m a x = m x"
    using setters_outside by auto
  show "row m e pin a ((s, u) # cs) \<Longrightarrow> row (hmu_mark_pinuse m a) e True a ((s, u) # cs)"
    using rest [OF _ out(1), of u] foot by (auto simp: hmu_after_set freed_after_set)
  show "row m e pin a ((s, True) # cs) \<Longrightarrow> row (hmu_unmark_pinuse m a) e False a ((s, True) # cs)"
    using rest [OF _ out(2), of True] by (auto simp: hmu_after_set freed_after_set)
qed

section \<open>The invariant\<close>

definition pool_end :: "gc_heap \<Rightarrow> nat" where
  "pool_end h = base_addr h + current_size h"

definition heap_shape :: "gc_heap \<Rightarrow> chunks \<Rightarrow> bool" where
  "heap_shape h cs \<longleftrightarrow> row (hmem h) (pool_end h) True (base_addr h) cs \<and> extent cs = current_size h \<and>
     free_index h (frees (base_addr h) cs) \<and> base_addr h mod 8 = 4"

text \<open>Two rows with \<open>n\<close> bytes between them that belong to no chunk; a heap with such a gap.\<close>

definition rows :: "gc_heap \<Rightarrow> bool \<Rightarrow> chunks \<Rightarrow> nat \<Rightarrow> chunks \<Rightarrow> bool" where
  "rows h v xs n ys \<longleftrightarrow> row (hmem h) (pool_end h) True (base_addr h) xs \<and>
     row (hmem h) (pool_end h) v (base_addr h + extent xs + n) ys \<and> extent xs + n + extent ys = current_size h \<and>
     base_addr h mod 8 = 4 \<and> 8 dvd n"

definition gap_frees :: "gc_heap \<Rightarrow> chunks \<Rightarrow> nat \<Rightarrow> chunks \<Rightarrow> chunk set" where
  "gap_frees h xs n ys = frees (base_addr h) xs \<union> frees (base_addr h + extent xs + n) ys"

definition gap :: "gc_heap \<Rightarrow> bool \<Rightarrow> chunks \<Rightarrow> nat \<Rightarrow> chunks \<Rightarrow> bool" where
  "gap h v xs n ys \<longleftrightarrow> rows h v xs n ys \<and> free_index h (gap_frees h xs n ys)"

lemma rowsD:
  assumes "rows h v xs n ys"
  shows "row (hmem h) (pool_end h) True (base_addr h) xs" "row (hmem h) (pool_end h) v (base_addr h + extent xs + n) ys"
    "extent xs + n + extent ys = current_size h" "base_addr h mod 8 = 4" "8 dvd n"
    "(base_addr h + extent xs) mod 8 = 4" "(base_addr h + extent xs + n) mod 8 = 4"
proof -
  show r: "row (hmem h) (pool_end h) True (base_addr h) xs" "row (hmem h) (pool_end h) v (base_addr h + extent xs + n) ys"
    "extent xs + n + extent ys = current_size h" "base_addr h mod 8 = 4" "8 dvd n" using assms by (simp_all add: rows_def)
  have "8 dvd extent xs" using row_extent [OF r(1)] .
  then show "(base_addr h + extent xs) mod 8 = 4" "(base_addr h + extent xs + n) mod 8 = 4"
    using r(4,5) by (auto elim!: dvdE)
qed

text \<open>The headers and the sizes at the ends of the chunks are not in bytes that hold links.\<close>

lemma index_bytes_apart:
  assumes geo: "geometry h" and F: "\<forall>d \<in> F. chunk_ok h d" and c: "chunk_ok h c" and d: "\<forall>d \<in> F. d = c \<or> clear_of c d"
  shows "avoids (index_bytes h F) (fst c) 4" "avoids (index_bytes h F) (fst c + snd c - 4) 4"
    "c \<notin> F \<Longrightarrow> avoids (index_bytes h F) (fst c) (snd c)"
proof -
  have c16: "16 \<le> snd c" using c by (simp add: chunk_ok_def)
  have root: "avoids {kfc_tree_root h + 4..<kfc_tree_root h + 28} (fst c) (snd c)" using root_avoids(1) [OF geo c] .
  have own: "avoids (link_bytes c) (fst c) 4" "avoids (link_bytes c) (fst c + snd c - 4) 4"
    using c16 by (auto simp: link_bytes_def avoids_def)
  have other: "avoids (link_bytes d) (fst c) (snd c)" if "d \<in> F" "d \<noteq> c" for d
    using links_avoid [OF c, of d] that F d by blast
  have part: "avoids A (fst c) 4 \<and> avoids A (fst c + snd c - 4) 4" if "avoids A (fst c) (snd c)" for A
    using c16 by (auto intro!: avoids_part [OF that])
  show "avoids (index_bytes h F) (fst c) 4" "avoids (index_bytes h F) (fst c + snd c - 4) 4"
    unfolding index_bytes_def avoids_Un avoids_UN using part [OF root] part own other by metis+
  show "avoids (index_bytes h F) (fst c) (snd c)" if "c \<notin> F"
    unfolding index_bytes_def avoids_Un avoids_UN using root other that by metis
qed

lemma placed_clear:
  assumes "(c, u) \<in> set (placed a cs)" and "(d, v) \<in> set (placed a cs)"
  shows "(d, v) = (c, u) \<or> clear_of c d"
  using assms
proof (induction cs arbitrary: a rule: extent.induct)
  case (2 s w cs)
  then show ?case using placed_bounds [of c u "a + s" cs] placed_bounds [of d v "a + s" cs] by (auto simp: clear_of_def)
qed simp

text \<open>An operation on the index, and changes inside the gap, leave a row as it is.\<close>

lemma row_touches:
  assumes r: "row (hmem h) (pool_end h) pin a cs" and a: "a mod 8 = 4" "base_addr h \<le> a" "a + extent cs \<le> pool_end h"
    and h': "touches (index_bytes h F \<union> B) h h'" and ix: "geometry h" "\<forall>d \<in> F. chunk_ok h d"
    and F: "\<forall>d \<in> F. d \<in> frees a cs \<or> clear_of (a, extent cs) d" and B: "avoids B a (extent cs)"
  shows "row (hmem h') (pool_end h') pin a cs"
proof -
  have e: "pool_end h' = pool_end h" using touches_sel [OF h'] by (simp add: pool_end_def)
  show ?thesis unfolding e
  proof (rule row_cong [OF r])
    show "\<forall>x. x \<notin> index_bytes h F \<union> B \<longrightarrow> hmem h' x = hmem h x" using touchesD [OF h'] by blast
    show "\<forall>(c, u) \<in> set (placed a cs). avoids (index_bytes h F \<union> B) (fst c) 4 \<and> (\<not> u \<longrightarrow> avoids (index_bytes h F \<union> B) (fst c + snd c - 4) 4)"
    proof (rule, clarify)
      fix p s u assume c: "((p, s), u) \<in> set (placed a cs)"
      have b: "a \<le> p" "p + s \<le> a + extent cs" "16 \<le> s" "8 dvd s" "p mod 8 = 4"
        using placed_bounds [OF c] row_placed [OF r a(1) c] by simp_all
      have ok: "chunk_ok h (p, s)" using b a by (simp add: chunk_ok_def pool_end_def)
      have "d = (p, s) \<or> clear_of (p, s) d" if "d \<in> F" for d
      proof (cases "d \<in> frees a cs")
        case True
        then show ?thesis using placed_clear [OF c, of d False] by (auto simp: frees_def)
      next
        case False
        then show ?thesis using F that b by (auto simp: clear_of_def)
      qed
      then have "avoids (index_bytes h F) p 4" "avoids (index_bytes h F) (p + s - 4) 4"
        using index_bytes_apart [OF ix ok] by auto
      moreover have "avoids B p 4" "avoids B (p + s - 4) 4" using b by (auto intro!: avoids_part [OF B])
      ultimately show "avoids (index_bytes h F \<union> B) (fst (p, s)) 4 \<and> (\<not> u \<longrightarrow> avoids (index_bytes h F \<union> B) (fst (p, s) + snd (p, s) - 4) 4)"
        by (simp add: avoids_Un)
    qed
  qed
qed

lemma rows_touches:
  assumes r: "rows h v xs n ys" and h': "touches (index_bytes h F \<union> B) h h'" and ix: "geometry h" "\<forall>d \<in> F. chunk_ok h d"
    and F: "\<forall>d \<in> F. d \<in> gap_frees h xs n ys \<or> base_addr h + extent xs \<le> fst d \<and> fst d + snd d \<le> base_addr h + extent xs + n"
    and B: "B \<subseteq> {base_addr h + extent xs..<base_addr h + extent xs + n}"
  shows "rows h' v xs n ys"
proof -
  note d = rowsD [OF r]
  have sel: "base_addr h' = base_addr h" "current_size h' = current_size h" using touches_sel [OF h'] by simp_all
  have "row (hmem h') (pool_end h') True (base_addr h) xs"
  proof (rule row_touches [OF d(1,4) _ _ h' ix])
    show "\<forall>d \<in> F. d \<in> frees (base_addr h) xs \<or> clear_of (base_addr h, extent xs) d"
    proof
      fix d assume "d \<in> F"
      then show "d \<in> frees (base_addr h) xs \<or> clear_of (base_addr h, extent xs) d"
        using F frees_bounds [of d "base_addr h + extent xs + n" ys] by (auto simp: gap_frees_def clear_of_def)
    qed
    show "avoids B (base_addr h) (extent xs)" using B by (auto simp: avoids_def)
  qed (use d(3) in \<open>simp_all add: pool_end_def\<close>)
  moreover have "row (hmem h') (pool_end h') v (base_addr h + extent xs + n) ys"
  proof (rule row_touches [OF d(2,7) _ _ h' ix])
    show "\<forall>d \<in> F. d \<in> frees (base_addr h + extent xs + n) ys \<or> clear_of (base_addr h + extent xs + n, extent ys) d"
    proof
      fix d assume "d \<in> F"
      then show "d \<in> frees (base_addr h + extent xs + n) ys \<or> clear_of (base_addr h + extent xs + n, extent ys) d"
        using F frees_bounds [of d "base_addr h" xs] by (auto simp: gap_frees_def clear_of_def)
    qed
    show "avoids B (base_addr h + extent xs + n) (extent ys)" using B by (auto simp: avoids_def)
  qed (use d(3) in \<open>simp_all add: pool_end_def\<close>)
  ultimately show ?thesis using d sel by (simp add: rows_def)
qed

lemma gap_frees_cong: "touches A h h' \<Longrightarrow> gap_frees h' xs n ys = gap_frees h xs n ys"
  using touches_sel [of A h h'] by (simp add: gap_frees_def)

section \<open>Opening a gap\<close>

lemma shape_split:
  assumes "heap_shape h (xs @ (s, u) # ys)"
  shows "rows h u xs s ys" "hmu_is (hmem h) (base_addr h + extent xs) (if u then HMU_VO else HMU_FC) (used_after True xs) s"
    "16 \<le> s" "8 dvd s" "u \<Longrightarrow> hmu_is_vo_freed (hmem h) (base_addr h + extent xs) = 0" "\<not> u \<Longrightarrow> used_after True xs"
    "free_index h (if u then gap_frees h xs s ys else insert (base_addr h + extent xs, s) (gap_frees h xs s ys))"
    "\<not> u \<Longrightarrow> ys \<noteq> [] \<Longrightarrow> rd 4 (hmem h) (base_addr h + extent xs + s - 4) = s"
proof -
  have r: "row (hmem h) (pool_end h) True (base_addr h) xs" "row (hmem h) (pool_end h) (used_after True xs) (base_addr h + extent xs) ((s, u) # ys)"
    "extent xs + s + extent ys = current_size h" "base_addr h mod 8 = 4"
    "free_index h (frees (base_addr h) xs \<union> frees (base_addr h + extent xs) ((s, u) # ys))"
    using assms by (simp_all add: heap_shape_def row_append)
  show "rows h u xs s ys" using r by (simp add: rows_def)
  show "hmu_is (hmem h) (base_addr h + extent xs) (if u then HMU_VO else HMU_FC) (used_after True xs) s"
    "16 \<le> s" "8 dvd s" "u \<Longrightarrow> hmu_is_vo_freed (hmem h) (base_addr h + extent xs) = 0" "\<not> u \<Longrightarrow> used_after True xs"
    using r(2) by auto
  show "free_index h (if u then gap_frees h xs s ys else insert (base_addr h + extent xs, s) (gap_frees h xs s ys))"
    using r(5) by (cases u) (simp_all add: gap_frees_def)
  show "rd 4 (hmem h) (base_addr h + extent xs + s - 4) = s" if "\<not> u" "ys \<noteq> []"
  proof -
    obtain t w zs where "ys = (t, w) # zs" using \<open>ys \<noteq> []\<close> by (cases ys) auto
    then have "base_addr h + extent xs + s \<noteq> pool_end h" using r(2,3) by (auto simp: pool_end_def)
    then show ?thesis using r(2) that(1) by simp
  qed
qed

lemma gap_used: "heap_shape h (xs @ (s, True) # ys) \<Longrightarrow> gap h True xs s ys"
  using shape_split(1,7) [of h xs s True ys] by (simp add: gap_def)

lemma not_in_gap_frees: "0 < s \<Longrightarrow> (base_addr h + extent xs, s) \<notin> gap_frees h xs s ys"
  using frees_bounds [of "(base_addr h + extent xs, s)" "base_addr h" xs]
    frees_bounds [of "(base_addr h + extent xs, s)" "base_addr h + extent xs + s" ys]
  by (auto simp: gap_frees_def)

text \<open>A free chunk has been taken out of the index.\<close>

lemma gap_free:
  assumes sh: "heap_shape h (xs @ (s, False) # ys)" and p: "p = base_addr h + extent xs"
    and r: "free_index h' (insert (p, s) (gap_frees h xs s ys) - {(p, s)})" "touches (index_bytes h (insert (p, s) (gap_frees h xs s ys))) h h'"
  shows "gap h' False xs s ys" "hmu_is (hmem h') p HMU_FC True s"
proof -
  note sp = shape_split [OF sh, folded p]
  let ?F = "insert (p, s) (gap_frees h xs s ys)"
  have ix: "free_index h ?F" using sp(7) by simp
  have ok: "geometry h" "\<forall>d \<in> ?F. chunk_ok h d" using free_indexD(1,5) [OF ix] by auto
  have "rows h' False xs s ys"
    by (rule rows_touches [where F = ?F and B = "{}", OF sp(1) _ ok]) (use r(2) p in auto)
  moreover have "?F - {(p, s)} = gap_frees h' xs s ys"
    using not_in_gap_frees [of s h xs ys] sp(3) p gap_frees_cong [OF r(2)] by auto
  ultimately show "gap h' False xs s ys" using r(1) by (simp add: gap_def)
  have "\<forall>d \<in> ?F. d = (p, s) \<or> clear_of (p, s) d" using free_indexD(6) [OF ix] by blast
  then have "avoids (index_bytes h ?F) p 4" using index_bytes_apart(1) [OF ok, of "(p, s)"] ok(2) by simp
  then show "hmu_is (hmem h') p HMU_FC True s" using touches_hmu [OF r(2)] sp(2,6) by simp
qed

section \<open>Closing a gap\<close>

lemma shape_join:
  assumes "rows h u xs s ys" and "hmu_is (hmem h) (base_addr h + extent xs) (if u then HMU_VO else HMU_FC) (used_after True xs) s"
    and "16 \<le> s" and "u \<Longrightarrow> hmu_is_vo_freed (hmem h) (base_addr h + extent xs) = 0"
    and "\<not> u \<Longrightarrow> used_after True xs \<and> rd 4 (hmem h) (base_addr h + extent xs + s - 4) = s"
    and "free_index h (if u then gap_frees h xs s ys else insert (base_addr h + extent xs, s) (gap_frees h xs s ys))"
  shows "heap_shape h (xs @ (s, u) # ys)"
  using assms by (cases u) (auto simp: heap_shape_def rows_def row_append gap_frees_def)

text \<open>A change inside the gap.\<close>

lemma gap_touches:
  assumes g: "gap h v xs n ys" and h': "touches A h h'" "kfc_normal_list h' = kfc_normal_list h"
    and A: "A \<subseteq> {base_addr h + extent xs..<base_addr h + extent xs + n}"
  shows "gap h' v xs n ys"
proof -
  have g': "rows h v xs n ys" "free_index h (gap_frees h xs n ys)" using g by (simp_all add: gap_def)
  note geo = free_indexD(1) [OF g'(2)]
  have "touches (index_bytes h {} \<union> A) h h'" by (rule touches_mono [OF h'(1)]) simp
  then have "rows h' v xs n ys" using rows_touches [OF g'(1) _ geo, where F = "{}" and B = A] A by simp
  moreover have "free_index h' (gap_frees h xs n ys)"
  proof (rule free_index_elsewhere [OF g'(2) h'])
    show "\<forall>c \<in> gap_frees h xs n ys. avoids A (fst c + 4) (if snd c < 248 then 4 else 28)"
    proof
      fix c assume c: "c \<in> gap_frees h xs n ys"
      then have "16 \<le> snd c" using free_indexD(5) [OF g'(2)] by (simp add: chunk_ok_def)
      moreover have "fst c + snd c \<le> base_addr h + extent xs \<or> base_addr h + extent xs + n \<le> fst c"
        using c frees_bounds [of c "base_addr h" xs] frees_bounds [of c "base_addr h + extent xs + n" ys] by (auto simp: gap_frees_def)
      ultimately show "avoids A (fst c + 4) (if snd c < 248 then 4 else 28)" using A by (force simp: avoids_def)
    qed
    show "avoids A (kfc_tree_root h + 4) 28"
      using geo rowsD(3) [OF g'(1)] A by (force simp: avoids_def geometry_def)
  qed
  ultimately show ?thesis using gap_frees_cong [OF h'(1)] by (simp add: gap_def)
qed

lemma gap_addable:
  assumes g: "gap h v xs n ys" and q: "base_addr h + extent xs \<le> q" "q + k \<le> base_addr h + extent xs + n" "16 \<le> k" "8 dvd k" "q mod 8 = 4"
  shows "addable h (gap_frees h xs n ys) q k"
proof -
  have "rows h v xs n ys" "free_index h (gap_frees h xs n ys)" using g by (simp_all add: gap_def)
  moreover have "clear_of (q, k) c" if "c \<in> gap_frees h xs n ys" for c
    using that q frees_bounds [of c "base_addr h" xs] frees_bounds [of c "base_addr h + extent xs + n" ys]
    by (auto simp: gap_frees_def clear_of_def)
  ultimately show ?thesis using q rowsD(3) [of h v xs n ys] by (simp add: addable_def chunk_ok_def)
qed

text \<open>Adding the end of the gap to the index.\<close>

lemma gap_add:
  assumes g: "gap h v xs n ys" and q: "q = base_addr h + extent xs + s" "n = s + k" "8 dvd s" "16 \<le> k"
    and pin: "hmu_get_pinuse (hmem h) q = (if pin then 1 else 0)"
  shows "\<exists>h'. gci_add_fc q k h = Some (True, h') \<and> rows h' v xs n ys \<and> free_index h' (insert (q, k) (gap_frees h xs n ys)) \<and>
     hmu_is (hmem h') q HMU_FC pin k \<and> rd 4 (hmem h') (q + k - 4) = k \<and> touches (index_bytes h (gap_frees h xs n ys) \<union> {q..<q + k}) h h'"
proof -
  have g': "rows h v xs n ys" "free_index h (gap_frees h xs n ys)" using g by (simp_all add: gap_def)
  note d = rowsD [OF g'(1)]
  have k8: "8 dvd k" using d(5) q(2,3) by (simp add: dvd_add_right_iff)
  have "q mod 8 = 4" using d(6) q(1,3) by (auto elim!: dvdE)
  then have ad: "addable h (gap_frees h xs n ys) q k" by (intro gap_addable [OF g]) (use q k8 in auto)
  obtain h' where r: "gci_add_fc q k h = Some (True, h')" "free_index h' (insert (q, k) (gap_frees h xs n ys))"
    "touches (index_bytes h (gap_frees h xs n ys) \<union> {q..<q + k}) h h'" "hmu_is (hmem h') q HMU_FC pin k" "rd 4 (hmem h') (q + k - 4) = k"
    using gci_add_fc_law [OF ad pin] by blast
  have "rows h' v xs n ys"
    by (rule rows_touches [OF g'(1) r(3)]) (use free_indexD(1,5) [OF g'(2)] q in auto)
  then show ?thesis using r by blast
qed

text \<open>The mark in the chunk behind the gap.\<close>

lemma index_header:
  assumes ix: "free_index h F" and q: "chunk_ok h (q, k)" "\<forall>c \<in> F. c = (q, k) \<or> clear_of (q, k) c"
    and h': "touches {q..<q + 4} h h'" "kfc_normal_list h' = kfc_normal_list h"
  shows "free_index h' F"
proof (rule free_index_elsewhere [OF ix h'])
  show "\<forall>c \<in> F. avoids {q..<q + 4} (fst c + 4) (if snd c < 248 then 4 else 28)"
  proof
    fix c assume c: "c \<in> F"
    show "avoids {q..<q + 4} (fst c + 4) (if snd c < 248 then 4 else 28)"
    proof (cases "c = (q, k)")
      case False
      then have "clear_of (q, k) c" "16 \<le> snd c" "16 \<le> k" using q c free_indexD(5) [OF ix c] by (auto simp: chunk_ok_def)
      then show ?thesis by (auto simp: clear_of_def avoids_def)
    qed (simp add: avoids_def)
  qed
  show "avoids {q..<q + 4} (kfc_tree_root h + 4) 28"
    using free_indexD(1) [OF ix] q(1) by (auto simp: geometry_def chunk_ok_def avoids_def)
qed

lemma rows_next:
  assumes r: "rows h v xs n ((t, u) # ys)" and q: "q = base_addr h + extent xs + n" and geo: "geometry h"
    and m: "\<forall>x. x \<notin> {q..<q + 4} \<longrightarrow> m x = hmem h x" and r': "row m (pool_end h) w q ((t, u) # ys)"
  shows "rows (h\<lparr>hmem := m\<rparr>) w xs n ((t, u) # ys)"
proof -
  note d = rowsD [OF r]
  have t: "touches (index_bytes h {} \<union> {q..<q + 4}) h (h\<lparr>hmem := m\<rparr>)" by (rule touches_mem) (use m in auto)
  have "row (hmem (h\<lparr>hmem := m\<rparr>)) (pool_end (h\<lparr>hmem := m\<rparr>)) True (base_addr h) xs"
    by (rule row_touches [OF d(1,4) _ _ t geo]) (use d(3) q in \<open>auto simp: pool_end_def intro!: avoids_interval\<close>)
  then show ?thesis using d r' q by (simp add: rows_def pool_end_def)
qed

text \<open>The mark is written when there is a chunk behind the gap.\<close>

definition mark_next :: "(mem \<Rightarrow> nat \<Rightarrow> mem) \<Rightarrow> nat \<Rightarrow> gc_heap \<Rightarrow> gc_heap" where
  "mark_next f q h = (if hmu_is_in_heap q h then h\<lparr>hmem := f (hmem h) q\<rparr> else h)"

lemma rows_mark_next:
  assumes r: "rows h v xs n ys" and q: "q = base_addr h + extent xs + n" and ix: "free_index h F"
    and F: "\<forall>c \<in> F. fst c + snd c \<le> q \<or> c \<in> frees q ys"
    and f: "f = hmu_mark_pinuse \<and> w \<or> f = hmu_unmark_pinuse \<and> \<not> w \<and> (ys = [] \<or> snd (hd ys))"
  shows "rows (mark_next f q h) w xs n ys" "free_index (mark_next f q h) F" "touches {q..<q + 4} h (mark_next f q h)"
proof -
  have out: "\<forall>x. x \<notin> {q..<q + 4} \<longrightarrow> f (hmem h) q x = hmem h x" using f setters_outside [of _ q "hmem h"] by auto
  note d = rowsD [OF r]
  show t: "touches {q..<q + 4} h (mark_next f q h)"
    using out by (auto simp: mark_next_def touches_def)
  have "rows (mark_next f q h) w xs n ys \<and> free_index (mark_next f q h) F"
  proof (cases ys)
    case Nil
    then have "\<not> hmu_is_in_heap q h" using d(3) q by (simp add: hmu_is_in_heap_def)
    then show ?thesis using r ix Nil by (simp add: mark_next_def rows_def)
  next
    case (Cons c zs)
    obtain k u where c: "c = (k, u)" by (cases c)
    have r2: "row (hmem h) (pool_end h) v q ((k, u) # zs)" using d(2) Cons c q by simp
    have k: "16 \<le> k" "8 dvd k" using r2 by auto
    have inh: "hmu_is_in_heap q h" using d(3) Cons c q k by (simp add: hmu_is_in_heap_def)
    have "row (f (hmem h) q) (pool_end h) w q ((k, u) # zs)"
      using f row_mark_next [OF r2] row_unmark_next [of "hmem h" "pool_end h" v q k zs] r2 Cons c by auto
    then have "rows (mark_next f q h) w xs n ys"
      using rows_next [OF r [unfolded Cons c] q free_indexD(1) [OF ix] out] inh Cons c by (simp add: mark_next_def)
    moreover have "free_index (mark_next f q h) F"
    proof (rule index_header [OF ix _ _ t])
      show "chunk_ok h (q, k)" using d(3,7) q Cons c k by (simp add: chunk_ok_def)
      show "\<forall>c \<in> F. c = (q, k) \<or> clear_of (q, k) c"
      proof
        fix e assume "e \<in> F"
        then consider "fst e + snd e \<le> q" | "e \<in> frees q ys" using F by blast
        then show "e = (q, k) \<or> clear_of (q, k) e"
        proof cases
          case 2
          then have "e = (q, k) \<or> e \<in> frees (q + k) zs" using Cons c by (cases u) auto
          then show ?thesis using frees_bounds [of e "q + k" zs] by (auto simp: clear_of_def)
        qed (simp add: clear_of_def)
      qed
    qed (simp add: mark_next_def)
    ultimately show ?thesis by blast
  qed
  then show "rows (mark_next f q h) w xs n ys" "free_index (mark_next f q h) F" by blast+
qed

section \<open>Allocation\<close>

lemma path_counters: "path (h\<lparr>total_free_size := a, highmark_size := b\<rparr>) p xs q = path h p xs q"
  by (rule path_cong) (simp add: get_hmu_normal_node_next_def)

lemma free_index_counters: "free_index (h\<lparr>total_free_size := a, highmark_size := b\<rparr>) F = free_index h F"
proof -
  let ?h = "h\<lparr>total_free_size := a, highmark_size := b\<rparr>"
  have "t_left ?h = t_left h" "t_right ?h = t_right h" "t_parent ?h = t_parent h" "t_size ?h = t_size h"
    by (simp_all add: fun_eq_iff t_left_def t_right_def t_parent_def t_size_def)
  moreover have "list_holds ?h i S = list_holds h i S" for i S unfolding list_holds_def path_counters by simp
  ultimately show ?thesis
    unfolding free_index_def tree_holds_def tree_ok_def by (simp add: geometry_def separate_def chunk_ok_def)
qed

lemma count_alloc_eq:
  "\<exists>b. count_alloc n h = h\<lparr>total_free_size := sub32 (total_free_size h) n, highmark_size := b\<rparr> \<and>
     b = max (highmark_size h) (sub32 (current_size h) (sub32 (total_free_size h) n))"
  by (cases h) (auto simp: count_alloc_def Let_def max_def)

lemma gap_count: "gap (count_alloc n h) v xs k ys = gap h v xs k ys"
proof -
  obtain b where "count_alloc n h = h\<lparr>total_free_size := sub32 (total_free_size h) n, highmark_size := b\<rparr>"
    using count_alloc_eq by blast
  then show ?thesis by (simp add: gap_def rows_def gap_frees_def pool_end_def free_index_counters)
qed

lemma count_alloc_sel [simp]:
  "hmem (count_alloc n h) = hmem h" "base_addr (count_alloc n h) = base_addr h" "current_size (count_alloc n h) = current_size h"
  "kfc_normal_list (count_alloc n h) = kfc_normal_list h" "is_heap_corrupted (count_alloc n h) = is_heap_corrupted h"
  "kfc_tree_root (count_alloc n h) = kfc_tree_root h" "heap_id (count_alloc n h) = heap_id h" "init_size (count_alloc n h) = init_size h"
  by (simp_all add: count_alloc_def Let_def)

text \<open>The end of the gap becomes a free chunk.\<close>

lemma gap_split_off:
  assumes g: "gap h False xs z ys" and p: "p = base_addr h + extent xs" and s: "z = s + k" "8 dvd s" "16 \<le> k"
  shows "\<exists>h'. gci_add_fc (p + s) k h = Some (True, h') \<and>
     gap (h'\<lparr>hmem := hmu_mark_pinuse (hmem h') (p + s)\<rparr>) True xs s ((k, False) # ys) \<and>
     touches (index_bytes h (gap_frees h xs z ys) \<union> {p + s..<p + z}) h h'"
proof -
  let ?q = "p + s"
  obtain pin where "hmu_get_pinuse (hmem h) ?q = (if pin then 1 else 0)" using hmu_is_ex [of "hmem h" ?q] by (auto simp: hmu_is_def)
  from gap_add [OF g _ s(1-3) this, unfolded p] p obtain h' where
    r: "gci_add_fc ?q k h = Some (True, h')" "rows h' False xs z ys" "free_index h' (insert (?q, k) (gap_frees h xs z ys))"
      "hmu_is (hmem h') ?q HMU_FC pin k" "rd 4 (hmem h') (?q + k - 4) = k"
      "touches (index_bytes h (gap_frees h xs z ys) \<union> {?q..<?q + k}) h h'" by auto
  note d = rowsD [OF r(2)]
  have sel: "base_addr h' = base_addr h" using touches_sel [OF r(6)] by simp
  have rw: "row (hmem h') (pool_end h') pin ?q [] \<and> row (hmu_mark_pinuse (hmem h') ?q) (pool_end h') True ?q ((k, False) # ys)"
  proof -
    have out: "hmu_mark_pinuse (hmem h') ?q x = hmem h' x" if "x \<notin> {?q..<?q + 4}" for x using that setters_outside(2) [of x ?q] by auto
    have "row (hmu_mark_pinuse (hmem h') ?q) (pool_end h') False (?q + k) ys"
    proof (rule row_cong [where A = "{?q..<?q + 4}"])
      show "row (hmem h') (pool_end h') False (?q + k) ys" using d(2) p s(1) sel by (simp add: add.assoc)
    qed (use out s(3) placed_bounds in \<open>force simp: avoids_def\<close>)+
    moreover have "rd 4 (hmu_mark_pinuse (hmem h') ?q) (?q + k - 4) = k"
      using r(5) s(3) by (subst rd_cong [of _ _ _ "hmem h'"]) (auto intro!: out)
    moreover have "8 dvd k" using d(5) s(1,2) by (simp add: dvd_add_right_iff)
    ultimately show ?thesis using hmu_after_set(2) [OF r(4)] s(3) by auto
  qed
  let ?h = "h'\<lparr>hmem := hmu_mark_pinuse (hmem h') ?q\<rparr>"
  have t: "touches {?q..<?q + 4} h' ?h" by (rule touches_mem) (use setters_outside(2) [of _ ?q "hmem h'"] in auto)
  have "row (hmem ?h) (pool_end h') True (base_addr h') xs"
  proof (rule row_cong [OF d(1), where A = "{?q..<?q + 4}"])
    show "\<forall>(c, u) \<in> set (placed (base_addr h') xs). avoids {?q..<?q + 4} (fst c) 4 \<and> (\<not> u \<longrightarrow> avoids {?q..<?q + 4} (fst c + snd c - 4) 4)"
      using row_placed [OF d(1,4)] p sel by (fastforce simp: avoids_def dest: placed_bounds)
  qed (use touchesD [OF t] in blast)
  then have "rows ?h True xs s ((k, False) # ys)"
    using rw d(3,4) s(1,2) p sel by (simp add: rows_def pool_end_def)
  moreover have "free_index ?h (insert (?q, k) (gap_frees h xs z ys))"
  proof (rule index_header [OF r(3) _ _ t])
    show "chunk_ok h' (?q, k)" using free_indexD(5) [OF r(3)] by simp
    show "\<forall>c \<in> insert (?q, k) (gap_frees h xs z ys). c = (?q, k) \<or> clear_of (?q, k) c"
      using free_indexD(6) [OF r(3), of "(?q, k)"] by fastforce
  qed simp
  moreover have "gap_frees ?h xs s ((k, False) # ys) = insert (?q, k) (gap_frees h xs z ys)"
    using p s(1) sel by (simp add: gap_frees_def add.assoc)
  ultimately have "gap ?h True xs s ((k, False) # ys)" by (simp add: gap_def)
  then show ?thesis using r(1,6) s(1) by (simp add: add.assoc)
qed

definition same_heap :: "gc_heap \<Rightarrow> gc_heap \<Rightarrow> bool" where
  "same_heap h h' \<longleftrightarrow> base_addr h' = base_addr h \<and> current_size h' = current_size h \<and> kfc_tree_root h' = kfc_tree_root h \<and>
     is_heap_corrupted h' = is_heap_corrupted h \<and> heap_id h' = heap_id h \<and> init_size h' = init_size h"

lemma touches_same: "touches A h h' \<Longrightarrow> same_heap h h'"
  using touches_sel [of A h h'] by (simp add: same_heap_def)

text \<open>What the last steps of \<open>carve\<close> do to a gap of \<open>n\<close> bytes: the counters, and the size in the header.\<close>

lemma carve_end:
  assumes g: "gap h True xs n ys" and p: "p = base_addr h + extent xs" and hd: "hmu_is (hmem h) p HMU_FC True z" and n: "n < 2 ^ 30" "16 \<le> n"
    and h': "h' = (count_alloc n h)\<lparr>hmem := hmu_set_size (hmem h) p n\<rparr>"
  shows "gap h' True xs n ys" "hmu_is (hmem h') p HMU_FC True n" "same_heap h h'"
    "total_free_size h' = sub32 (total_free_size h) n" "highmark_size h' = max (highmark_size h) (sub32 (current_size h) (total_free_size h'))"
    "x \<notin> {p..<p + 4} \<Longrightarrow> hmem h' x = hmem h x"
proof -
  have n8: "8 dvd n" using g rowsD(5) by (auto simp: gap_def)
  have "touches {p..<p + 4} (count_alloc n h) h'"
    unfolding h' by (rule touches_mem) (use setters_outside(5) [of _ p "hmem h" n] in auto)
  then show "gap h' True xs n ys"
    using gap_touches [of "count_alloc n h" True xs n ys "{p..<p + 4}" h'] g p n h' by (auto simp: gap_count)
  show "hmu_is (hmem h') p HMU_FC True n" using hmu_after_set(5) [OF n(1) n8 hd] h' by simp
  show "same_heap h h'" by (simp add: h' same_heap_def)
  show "total_free_size h' = sub32 (total_free_size h) n" "highmark_size h' = max (highmark_size h) (sub32 (current_size h) (total_free_size h'))"
    by (simp_all add: h' count_alloc_def Let_def)
  show "hmem h' x = hmem h x" if "x \<notin> {p..<p + 4}" using that setters_outside(5) [of x p "hmem h" n] by (auto simp: h')
qed

text \<open>The counters after \<open>n\<close> bytes have been given out.\<close>

definition counted :: "nat \<Rightarrow> gc_heap \<Rightarrow> gc_heap \<Rightarrow> bool" where
  "counted n h h' \<longleftrightarrow> total_free_size h' = sub32 (total_free_size h) n \<and>
     highmark_size h' = max (highmark_size h) (sub32 (current_size h) (total_free_size h'))"

lemma carve_law:
  assumes g: "gap h False xs z ys" and p: "p = base_addr h + extent xs" and hd: "hmu_is (hmem h) p HMU_FC True z"
    and s: "s \<le> z" "16 \<le> s" "8 dvd s"
  shows "\<exists>h' n ys'. carve p z s (s + 16 \<le> z) h = Some (p, h') \<and> gap h' True xs n ys' \<and> hmu_is (hmem h') p HMU_FC True n \<and>
     same_heap h h' \<and> counted n h h' \<and> (\<forall>x. x \<notin> index_bytes h (gap_frees h xs z ys) \<union> {p..<p + z + 4} \<longrightarrow> hmem h' x = hmem h x) \<and>
     (if s + 16 \<le> z then n = s \<and> ys' = (z - s, False) # ys else n = z \<and> ys' = ys)"
proof -
  have g': "rows h False xs z ys" "free_index h (gap_frees h xs z ys)" using g by (simp_all add: gap_def)
  note d = rowsD [OF g'(1)]
  have z: "z < 2 ^ 30" using d(3) free_indexD(1) [OF g'(2)] by (simp add: geometry_def)
  show ?thesis
  proof (cases "s + 16 \<le> z")
    case True
    then obtain k where k: "z = s + k" "16 \<le> k" using that [of "z - s"] by simp
    obtain h1 where r: "gci_add_fc (p + s) k h = Some (True, h1)"
      "gap (h1\<lparr>hmem := hmu_mark_pinuse (hmem h1) (p + s)\<rparr>) True xs s ((k, False) # ys)"
      "touches (index_bytes h (gap_frees h xs z ys) \<union> {p + s..<p + z}) h h1" using gap_split_off [OF g p k(1) s(3) k(2)] by blast
    let ?h = "h1\<lparr>hmem := hmu_mark_pinuse (hmem h1) (p + s)\<rparr>"
    have t: "touches {p + s..<p + s + 4} h1 ?h" by (rule touches_mem) (use setters_outside(2) [of _ "p + s" "hmem h1"] in auto)
    have T: "touches (index_bytes h (gap_frees h xs z ys) \<union> {p + s..<p + z + 4}) h ?h"
      by (rule touches_trans [OF touches_mono [OF r(3)] touches_mono [OF t]]) (use k in auto)
    have "avoids (index_bytes h (gap_frees h xs z ys) \<union> {p + s..<p + z + 4}) p 4"
    proof -
      have ad: "addable h (gap_frees h xs z ys) p s" by (rule gap_addable [OF g]) (use p s d(6) in auto)
      then show ?thesis
        using index_bytes_apart(1) [of h "gap_frees h xs z ys" "(p, s)"] addableD(2,3) [OF ad] free_indexD(1,5) [OF g'(2)] s(2)
        by (simp add: avoids_Un) (simp add: avoids_def)
    qed
    then have hd': "hmu_is (hmem ?h) p HMU_FC True z" using touches_hmu [OF T] hd by blast
    let ?h' = "(count_alloc s ?h)\<lparr>hmem := hmu_set_size (hmem ?h) p s\<rparr>"
    have pos: "p = base_addr ?h + extent xs" using touches_sel [OF T] p by simp
    note e = carve_end [OF r(2) pos hd' _ s(2) refl]
    have "carve p z s (s + 16 \<le> z) h = Some (p, ?h')" using r(1) True k by (simp add: carve_def Let_def)
    moreover have "same_heap h ?h'" using e(3) touches_same [OF T] z s(1) by (simp add: same_heap_def)
    moreover have "hmem ?h' x = hmem h x" if "x \<notin> index_bytes h (gap_frees h xs z ys) \<union> {p..<p + z + 4}" for x
      using e(6) [of x] touchesD [OF T, of x] that z s(1) by auto
    moreover have "counted s h ?h'" using e(4,5) touches_sel [OF T] z s(1) by (simp add: counted_def)
    ultimately show ?thesis using e(1,2) True k z s(1) by (intro exI [of _ ?h'] exI [of _ s] exI [of _ "(k, False) # ys"]) auto
  next
    case False
    let ?h = "mark_next hmu_mark_pinuse (p + z) h"
    have q: "p + z = base_addr h + extent xs + z" using p by simp
    have F: "\<forall>c \<in> gap_frees h xs z ys. fst c + snd c \<le> p + z \<or> c \<in> frees (p + z) ys"
      using frees_bounds [of _ "base_addr h" xs] p by (fastforce simp: gap_frees_def)
    note m = rows_mark_next [OF g'(1) q g'(2) F, of hmu_mark_pinuse True, simplified]
    have gm: "gap ?h True xs z ys" using m(1,2) gap_frees_cong [OF m(3)] by (simp add: gap_def)
    have hd': "hmu_is (hmem ?h) p HMU_FC True z" using touches_hmu [OF m(3)] hd s by (simp add: avoids_def)
    let ?h' = "(count_alloc z ?h)\<lparr>hmem := hmu_set_size (hmem ?h) p z\<rparr>"
    have pos: "p = base_addr ?h + extent xs" using touches_sel [OF m(3)] p by simp
    note e = carve_end [OF gm pos hd' z _ refl]
    have "carve p z s (s + 16 \<le> z) h = Some (p, ?h')" using False by (simp add: carve_def Let_def mark_next_def)
    moreover have "same_heap h ?h'" using e(3) touches_same [OF m(3)] s by (simp add: same_heap_def)
    moreover have "hmem ?h' x = hmem h x" if "x \<notin> index_bytes h (gap_frees h xs z ys) \<union> {p..<p + z + 4}" for x
      using e(6) [of x] touchesD [OF m(3), of x] that s by auto
    moreover have "counted z h ?h'" using e(4,5) touches_sel [OF m(3)] s by (simp add: counted_def)
    ultimately show ?thesis using e(1,2) False s by (intro exI [of _ ?h'] exI [of _ z] exI [of _ ys]) auto
  qed
qed

text \<open>The size of a chunk for \<open>sz\<close> bytes: with its header, in units of eight bytes, and not below the least size.\<close>

definition chunk_size :: "nat \<Rightarrow> nat" where
  "chunk_size sz = max ((sz + 11) div 8 * 8) 16"

lemma request_chunk:
  assumes "sz < 2 ^ 32"
  shows "GC_ALIGN_8 (add32 HMU_SIZE sz) < sz \<longleftrightarrow> 2 ^ 32 \<le> sz + 11"
    and "sz + 11 < 2 ^ 32 \<Longrightarrow> GC_ALIGN_8 (add32 HMU_SIZE sz) = (sz + 11) div 8 * 8 \<and> add32 HMU_SIZE sz = sz + 4"
proof -
  have a: "GC_ALIGN_8 n = (n + 7) mod 2 ^ 32 div 8 * 8" for n
    by (simp add: align_8 unat_word_ariths unsigned_of_nat take_bit_eq_mod mod_simps)
  have ok: "GC_ALIGN_8 (add32 HMU_SIZE sz) = (sz + 11) div 8 * 8 \<and> add32 HMU_SIZE sz = sz + 4" if "sz + 11 < 2 ^ 32"
    using that by (simp add: a add32_def HMU_SIZE_def add.commute)
  show "sz + 11 < 2 ^ 32 \<Longrightarrow> GC_ALIGN_8 (add32 HMU_SIZE sz) = (sz + 11) div 8 * 8 \<and> add32 HMU_SIZE sz = sz + 4" by (rule ok)
  show "GC_ALIGN_8 (add32 HMU_SIZE sz) < sz \<longleftrightarrow> 2 ^ 32 \<le> sz + 11"
  proof (cases "sz + 11 < 2 ^ 32")
    case True
    have "sz \<le> (sz + 11) div 8 * 8" by linarith
    then show ?thesis using True conjunct1 [OF ok [OF True]] by (simp only: not_less) simp
  next
    case False
    then have "(add32 HMU_SIZE sz + 7) mod 2 ^ 32 \<le> 10"
      using assms by (auto simp: add32_def HMU_SIZE_def mod_if)
    then show ?thesis using False unfolding a by auto
  qed
qed

lemma frees_split: "(p, z) \<in> frees a cs \<Longrightarrow> \<exists>xs ys. cs = xs @ (z, False) # ys \<and> p = a + extent xs"
proof (induction cs arbitrary: a)
  case (Cons c cs)
  obtain s u where c: "c = (s, u)" by (cases c)
  show ?case
  proof (cases "\<not> u \<and> p = a \<and> z = s")
    case True
    then show ?thesis using c by (intro exI [of _ "[]"] exI [of _ cs]) auto
  next
    case False
    then have "(p, z) \<in> frees (a + s) cs" using Cons.prems c by (cases u) auto
    then obtain xs ys where "cs = xs @ (z, False) # ys" "p = a + s + extent xs" using Cons.IH by blast
    then show ?thesis using c by (intro exI [of _ "(s, u) # xs"] exI [of _ ys]) auto
  qed
qed simp

text \<open>A chunk of \<open>n\<close> bytes in the gap becomes an object, as the end of \<open>gc_alloc_vo\<close> makes it one.\<close>

lemma take_object:
  assumes g: "gap h True xs n ys" and p: "p = base_addr h + extent xs" and hd: "hmu_is (hmem h) p HMU_FC (used_after True xs) n" and n: "16 \<le> n"
    and m: "m = hmu_unfree_vo (hmu_set_ut (hmem h) p HMU_VO) p"
    and h': "touches A (h\<lparr>hmem := m\<rparr>) h'" "kfc_normal_list h' = kfc_normal_list h" "A \<subseteq> {p + 4..<p + n}"
  shows "heap_shape h' (xs @ (n, True) # ys)"
proof -
  have t1: "touches {p..<p + 4} h (h\<lparr>hmem := m\<rparr>)"
    by (rule touches_mem) (use setters_outside(1,4) [of _ p] in \<open>auto simp: m\<close>)
  have T: "touches {p..<p + n} h h'"
    by (rule touches_trans [OF touches_mono [OF t1] touches_mono [OF h'(1)]]) (use n h'(3) in auto)
  have g': "gap h' True xs n ys" by (rule gap_touches [OF g T h'(2)]) (simp add: p)
  have pos: "base_addr h' + extent xs = p" using touches_sel [OF T] p by simp
  have "hmu_is m p HMU_VO (used_after True xs) n" unfolding m
    by (rule hmu_after_set(4), rule hmu_after_set(1) [OF _ hd]) (simp add: HMU_VO_def)
  moreover have av: "avoids A p 4" using h'(3) by (auto simp: avoids_def)
  ultimately have "hmu_is (hmem h') p HMU_VO (used_after True xs) n" using touches_hmu [OF h'(1) av] by simp
  moreover have "hmu_is_vo_freed (hmem h') p = 0"
  proof -
    have "header (hmem h') p = header m p" by (rule header_cong) (use touchesD [OF h'(1)] avoidsD [OF av] in auto)
    then show ?thesis using freed_after_set(1) [of "hmu_set_ut (hmem h) p HMU_VO" p] by (simp add: hmu_getters m)
  qed
  ultimately show ?thesis using g' n pos by (intro shape_join) (auto simp: gap_def)
qed

text \<open>
  An allocation: \<open>need\<close> is the size of the chunk the request asks for. It fails when no free chunk is
  that large; else a best fitting one, of \<open>z\<close> bytes, is split, or given out as a whole.
\<close>

definition allocates :: "gc_heap \<Rightarrow> chunks \<Rightarrow> nat \<Rightarrow> nat \<Rightarrow> gc_heap \<Rightarrow> chunks \<Rightarrow> bool" where
  "allocates h cs need p h' cs' \<longleftrightarrow>
     (\<exists>xs z ys n. cs = xs @ (z, False) # ys \<and> p = base_addr h + extent xs \<and> best (frees (base_addr h) cs) need (p, z) \<and>
        n = (if need + 16 \<le> z then need else z) \<and> cs' = xs @ (n, True) # (if need + 16 \<le> z then [(z - need, False)] else []) @ ys \<and>
        heap_shape h' cs' \<and> same_heap h h' \<and> counted n h h' \<and>
        (\<forall>x. x \<notin> index_bytes h (frees (base_addr h) cs) \<union> {p..<p + z + 4} \<longrightarrow> hmem h' x = hmem h x))"

text \<open>The chunk that \<open>alloc_hmu\<close> returns is a gap; its header has the size, and the kind is still that of a free chunk.\<close>

lemma alloc_hmu_gap:
  assumes sh: "heap_shape h cs" and s: "8 dvd s" "16 \<le> s"
  shows "alloc_hmu s h = Some (0, h) \<and> (\<forall>c \<in> frees (base_addr h) cs. snd c < s) \<or>
    (\<exists>xs z ys p n ys' h'. cs = xs @ (z, False) # ys \<and> p = base_addr h + extent xs \<and> p \<noteq> 0 \<and> best (frees (base_addr h) cs) s (p, z) \<and>
       alloc_hmu s h = Some (p, h') \<and> gap h' True xs n ys' \<and> hmu_is (hmem h') p HMU_FC (used_after True xs) n \<and> same_heap h h' \<and> counted n h h' \<and>
       (\<forall>x. x \<notin> index_bytes h (frees (base_addr h) cs) \<union> {p..<p + z + 4} \<longrightarrow> hmem h' x = hmem h x) \<and>
       n = (if s + 16 \<le> z then s else z) \<and> ys' = (if s + 16 \<le> z then [(z - s, False)] else []) @ ys)"
proof -
  let ?F = "frees (base_addr h) cs"
  have ix: "free_index h ?F" using sh by (simp add: heap_shape_def)
  have need: "max s 16 = s" using s(2) by simp
  from alloc_hmu_law [OF ix s(1), unfolded need] show ?thesis
  proof (elim disjE exE conjE)
    fix p z h1
    assume b: "best ?F s (p, z)" and i1: "free_index h1 (?F - {(p, z)})" and t1: "touches (index_bytes h ?F) h h1"
      and r1: "alloc_hmu s h = carve p z s (s + 16 \<le> z) h1"
    obtain xs ys where cs: "cs = xs @ (z, False) # ys" "p = base_addr h + extent xs"
      using b frees_split [of p z "base_addr h" cs] unfolding best_def by blast
    have F: "?F = insert (p, z) (gap_frees h xs z ys)" by (simp add: cs gap_frees_def)
    have g: "gap h1 False xs z ys" and hd: "hmu_is (hmem h1) p HMU_FC True z"
      using gap_free [OF sh [unfolded cs(1)] cs(2)] i1 t1 F by simp_all
    have pos: "p = base_addr h1 + extent xs" using touches_sel [OF t1] cs(2) by simp
    have le: "s \<le> z" using b by (simp add: best_def)
    from carve_law [OF g pos hd le s(2,1)] obtain h2 n ys' where r2:
      "carve p z s (s + 16 \<le> z) h1 = Some (p, h2)" "gap h2 True xs n ys'" "hmu_is (hmem h2) p HMU_FC True n"
      "same_heap h1 h2" "counted n h1 h2" "\<forall>x. x \<notin> index_bytes h1 (gap_frees h1 xs z ys) \<union> {p..<p + z + 4} \<longrightarrow> hmem h2 x = hmem h1 x"
      "if s + 16 \<le> z then n = s \<and> ys' = (z - s, False) # ys else n = z \<and> ys' = ys" by blast
    have mem: "hmem h2 x = hmem h x" if x: "x \<notin> index_bytes h ?F \<union> {p..<p + z + 4}" for x
    proof -
      have "index_bytes h1 (gap_frees h1 xs z ys) \<subseteq> index_bytes h ?F"
        using touches_sel(3) [OF t1] gap_frees_cong [OF t1] F by (auto simp: index_bytes_def)
      then show ?thesis using x r2(6) touchesD [OF t1, of x] by auto
    qed
    show ?thesis
    proof (rule disjI2, intro exI conjI)
      show "p \<noteq> 0" using free_indexD(1) [OF ix] cs(2) by (simp add: geometry_def)
      show "alloc_hmu s h = Some (p, h2)" using r1 r2(1) by simp
      show "hmu_is (hmem h2) p HMU_FC (used_after True xs) n" using r2(3) shape_split(6) [OF sh [unfolded cs(1)]] by simp
      show "same_heap h h2" using r2(4) touches_same [OF t1] by (simp add: same_heap_def)
      show "counted n h h2" using r2(5) touches_sel [OF t1] by (simp add: counted_def)
      show "\<forall>x. x \<notin> index_bytes h ?F \<union> {p..<p + z + 4} \<longrightarrow> hmem h2 x = hmem h x" using mem by blast
    qed (use cs b r2(2,7) in \<open>auto split: if_splits\<close>)
  qed simp
qed

text \<open>Turning the gap into an object, and writing to its bytes \<open>A\<close>, completes an allocation.\<close>

lemma allocates_gap:
  assumes a: "cs = xs @ (z, False) # ys" "p = base_addr h + extent xs" "best (frees (base_addr h) cs) s (p, z)"
      "gap h2 True xs n ys'" "hmu_is (hmem h2) p HMU_FC (used_after True xs) n" "same_heap h h2" "counted n h h2"
      "\<forall>x. x \<notin> index_bytes h (frees (base_addr h) cs) \<union> {p..<p + z + 4} \<longrightarrow> hmem h2 x = hmem h x"
      "n = (if s + 16 \<le> z then s else z)" "ys' = (if s + 16 \<le> z then [(z - s, False)] else []) @ ys" "16 \<le> s"
    and m: "m = hmu_unfree_vo (hmu_set_ut (hmem h2) p HMU_VO) p"
    and h': "touches A (h2\<lparr>hmem := m\<rparr>) h'" "kfc_normal_list h' = kfc_normal_list h2" "A \<subseteq> {p + 4..<p + n}"
  shows "allocates h cs s p h' (xs @ (n, True) # ys')" "hmu_get_size (hmem h') p = n" "s \<le> n" "n \<le> z"
proof -
  show n: "s \<le> n" "n \<le> z" using a(3,9) by (auto simp: best_def)
  have pos: "p = base_addr h2 + extent xs" using a(2,6) by (simp add: same_heap_def)
  have n16: "16 \<le> n" using n a(11) by simp
  have sh': "heap_shape h' (xs @ (n, True) # ys')" by (rule take_object [OF a(4) pos a(5) n16 m h'])
  have sel: "base_addr h' = base_addr h2" "same_heap h2 h'" "total_free_size h' = total_free_size h2" "highmark_size h' = highmark_size h2"
    using touches_sel [OF h'(1)] by (simp_all add: same_heap_def)
  show "hmu_get_size (hmem h') p = n" using shape_split(2) [OF sh'] pos sel(1) by (simp add: hmu_is_def)
  have mem: "hmem h' x = hmem h x" if x: "x \<notin> index_bytes h (frees (base_addr h) cs) \<union> {p..<p + z + 4}" for x
  proof -
    have "{p + 4..<p + n} \<subseteq> {p..<p + z + 4}" using n(2) by auto
    then have "x \<notin> A" using x h'(3) by blast
    then have "hmem h' x = m x" using touchesD [OF h'(1), of x] by simp
    moreover have "m x = hmem h2 x" using x setters_outside(1,4) [of x p] by (auto simp: m)
    ultimately show ?thesis using a(8) x by simp
  qed
  show "allocates h cs s p h' (xs @ (n, True) # ys')"
    unfolding allocates_def
  proof (intro exI conjI)
    show "same_heap h h'" using a(6) sel(2) by (simp add: same_heap_def)
    show "counted n h h'" using a(7) sel(3,4) by (simp add: counted_def)
    show "\<forall>x. x \<notin> index_bytes h (frees (base_addr h) cs) \<union> {p..<p + z + 4} \<longrightarrow> hmem h' x = hmem h x" using mem by blast
  qed (use a sh' in auto)
qed

lemma chunk_size_facts: "16 \<le> chunk_size sz" "8 dvd chunk_size sz" "sz + 4 \<le> chunk_size sz"
  by (auto simp: chunk_size_def max_def)

lemma alloc_hmu_least: "alloc_hmu s h = alloc_hmu (max s 16) h"
  by (simp add: alloc_hmu_def GC_SMALLEST max_def)

lemma free_chunk_limit: "heap_shape h cs \<Longrightarrow> c \<in> frees (base_addr h) cs \<Longrightarrow> snd c < 2 ^ 30"
  using chunk_in_heap [OF free_indexD(1) [of h "frees (base_addr h) cs"] free_indexD(5) [of h "frees (base_addr h) cs" c]]
  by (simp add: heap_shape_def)

text \<open>What follows the choice of a chunk in \<open>gc_alloc_vo\<close>.\<close>

lemma gc_alloc_run:
  assumes ok: "\<not> is_heap_corrupted h" and sz: "sz + 11 < 2 ^ 32"
  shows "gc_alloc_vo sz h = (case alloc_hmu (chunk_size sz) h of None \<Rightarrow> None | Some (hmu, h) \<Rightarrow>
     if hmu = 0 then Some (0, h)
     else let tot_size = hmu_get_size (hmem h) hmu;
              h = h\<lparr>hmem := hmu_unfree_vo (hmu_set_ut (hmem h) hmu HMU_VO) hmu\<rparr>
          in Some (hmu + 4, if tot_size > sz + 4 then clear_bytes (hmu + 4 + sz) (tot_size - (sz + 4)) h else h))"
proof -
  let ?t = "(sz + 11) div 8 * 8"
  have req: "add32 HMU_SIZE sz = sz + 4" "GC_ALIGN_8 (sz + 4) = ?t" using request_chunk(2) [of sz] sz by auto
  have t: "sz + 4 \<le> ?t" by linarith
  have al: "alloc_hmu ?t h = alloc_hmu (chunk_size sz) h" by (simp add: chunk_size_def alloc_hmu_least [of ?t])
  show ?thesis
    unfolding gc_alloc_vo_def Let_def req alloc_hmu_ex_def hmu_to_obj_def al using ok t
    by (auto simp: HMU_SIZE_def Let_def split: option.splits prod.splits)
qed

lemma clear_nothing: "clear_bytes a 0 h = h"
proof -
  have "memset_zero (hmem h) a 0 = hmem h" by (auto simp: memset_zero_def fun_eq_iff)
  then show ?thesis by (simp add: clear_bytes_def)
qed

lemma gc_alloc_law:
  assumes sh: "heap_shape h cs" and ok: "\<not> is_heap_corrupted h" and sz: "sz < 2 ^ 32"
  shows "gc_alloc_vo sz h = Some (0, h) \<and> (\<forall>c \<in> frees (base_addr h) cs. snd c < chunk_size sz) \<or>
    (\<exists>p h' cs'. gc_alloc_vo sz h = Some (p + 4, h') \<and> allocates h cs (chunk_size sz) p h' cs' \<and>
       (\<forall>x. p + 4 + sz \<le> x \<and> x < p + hmu_get_size (hmem h') p \<longrightarrow> hmem h' x = 0))"
proof (cases "sz + 11 < 2 ^ 32")
  case False
  then have "gc_alloc_vo sz h = Some (0, h)" using request_chunk(1) [OF sz] by (simp add: gc_alloc_vo_def Let_def)
  moreover have "2 ^ 30 \<le> chunk_size sz" using False by (auto simp: chunk_size_def)
  ultimately show ?thesis using free_chunk_limit [OF sh] by fastforce
next
  case True
  note run = gc_alloc_run [OF ok True] and cz = chunk_size_facts [of sz]
  from alloc_hmu_gap [OF sh cz(2,1)] show ?thesis
  proof (elim disjE exE conjE)
    fix xs z ys p n ys' h2
    assume a: "cs = xs @ (z, False) # ys" "p = base_addr h + extent xs" "best (frees (base_addr h) cs) (chunk_size sz) (p, z)"
      "gap h2 True xs n ys'" "hmu_is (hmem h2) p HMU_FC (used_after True xs) n" "same_heap h h2" "counted n h h2"
      "\<forall>x. x \<notin> index_bytes h (frees (base_addr h) cs) \<union> {p..<p + z + 4} \<longrightarrow> hmem h2 x = hmem h x"
      "n = (if chunk_size sz + 16 \<le> z then chunk_size sz else z)" "ys' = (if chunk_size sz + 16 \<le> z then [(z - chunk_size sz, False)] else []) @ ys"
      and p0: "p \<noteq> 0" and r1: "alloc_hmu (chunk_size sz) h = Some (p, h2)"
    let ?m = "hmu_unfree_vo (hmu_set_ut (hmem h2) p HMU_VO) p"
    let ?h = "clear_bytes (p + 4 + sz) (n - (sz + 4)) (h2\<lparr>hmem := ?m\<rparr>)"
    have size2: "hmu_get_size (hmem h2) p = n" using a(5) by (simp add: hmu_is_def)
    have t: "touches {p + 4 + sz..<p + n} (h2\<lparr>hmem := ?m\<rparr>) ?h"
      unfolding clear_bytes_def by (rule touches_mem) (auto simp: memset_zero_def)
    note al = allocates_gap [OF a cz(1) refl t]
    have n: "sz + 4 \<le> n" using al(3) cz(3) by (simp add: clear_bytes_def)
    have "gc_alloc_vo sz h = Some (p + 4, ?h)"
      using run r1 p0 size2 n by (cases "sz + 4 < n") (simp_all add: Let_def clear_nothing)
    moreover have "hmem ?h x = 0" if "p + 4 + sz \<le> x" "x < p + n" for x using that n by (simp add: clear_bytes_def memset_zero_def)
    ultimately show ?thesis using al(1,2) by (auto simp: clear_bytes_def)
  qed (use run in simp)
qed

section \<open>Release\<close>

lemma gap_unlink:
  assumes g: "gap h v xs n ys" and c: "(q, r) \<in> gap_frees h xs n ys" and hd: "hmu_is (hmem h) q HMU_FC pin r"
  shows "\<exists>h'. unlink_hmu q h = Some (True, h') \<and> rows h' v xs n ys \<and> free_index h' (gap_frees h xs n ys - {(q, r)}) \<and>
     touches (index_bytes h (gap_frees h xs n ys)) h h' \<and> hmu_is (hmem h') q HMU_FC pin r \<and>
     (\<forall>x. base_addr h + extent xs \<le> x \<and> x < base_addr h + extent xs + n \<longrightarrow> hmem h' x = hmem h x)"
proof -
  let ?F = "gap_frees h xs n ys" and ?p = "base_addr h + extent xs"
  have g': "rows h v xs n ys" "free_index h ?F" using g by (simp_all add: gap_def)
  note ix = free_indexD [OF g'(2)]
  obtain h' where r: "unlink_hmu q h = Some (True, h')" "free_index h' (?F - {(q, r)})" "touches (index_bytes h ?F) h h'"
    using unlink_hmu_law [OF g'(2) c hd] by blast
  have ok: "\<forall>d \<in> ?F. chunk_ok h d" using ix(5) by blast
  have "rows h' v xs n ys" by (rule rows_touches [where F = ?F and B = "{}", OF g'(1) _ ix(1) ok]) (use r(3) in auto)
  moreover have "hmu_is (hmem h') q HMU_FC pin r"
  proof -
    have "\<forall>d \<in> ?F. d = (q, r) \<or> clear_of (q, r) d" using ix(6) [OF c] by blast
    then have "avoids (index_bytes h ?F) q 4" using index_bytes_apart(1) [OF ix(1) ok ix(5) [OF c]] by simp
    then show ?thesis using touches_hmu [OF r(3)] hd by blast
  qed
  moreover have "hmem h' x = hmem h x" if "?p \<le> x" "x < ?p + n" for x
  proof -
    have "avoids (index_bytes h ?F) ?p n"
    proof -
      have "avoids (link_bytes d) ?p n" if "d \<in> ?F" for d
        using that ix(5) [OF that] frees_bounds [of d "base_addr h" xs] frees_bounds [of d "?p + n" ys]
        by (auto simp: avoids_def link_bytes_def gap_frees_def chunk_ok_def split: if_splits)
      moreover have "avoids {kfc_tree_root h + 4..<kfc_tree_root h + 28} ?p n"
        using ix(1) rowsD(3) [OF g'(1)] by (auto simp: avoids_def geometry_def)
      ultimately show ?thesis by (simp add: index_bytes_def avoids_Un avoids_UN)
    qed
    then show ?thesis using touchesD [OF r(3)] avoidsD that by blast
  qed
  ultimately show ?thesis using r by blast
qed

lemma used_after_snoc: "\<not> used_after True xs \<Longrightarrow> \<exists>xs' r. xs = xs' @ [(r, False)]"
  by (cases xs rule: rev_cases) auto

text \<open>The chunk before the gap, when it is free, becomes part of it.\<close>

lemma join_prev_law:
  assumes g: "gap h v xs n ys" and p: "p = base_addr h + extent xs" and hd: "hmu_is (hmem h) p ty (used_after True xs) n" and n: "16 \<le> n"
  shows "\<exists>h' xs' k q ty'. join_prev p h = Some (True, q, k, h') \<and> gap h' v xs' k ys \<and> used_after True xs' \<and> q = base_addr h' + extent xs' \<and>
     hmu_is (hmem h') q ty' True (if used_after True xs then n else k - n) \<and> touches (index_bytes h (gap_frees h xs n ys)) h h' \<and>
     gap_frees h' xs' k ys \<subseteq> gap_frees h xs n ys \<and>
     (if used_after True xs then xs' = xs \<and> k = n else xs = xs' @ [(k - n, False)] \<and> n + 16 \<le> k)"
proof (cases "used_after True xs")
  case True
  then have "join_prev p h = Some (True, p, n, h)" using hd by (simp add: join_prev_def hmu_is_def Let_def)
  then show ?thesis using g p hd True touches_refl by (intro exI [of _ h] exI [of _ xs] exI [of _ n] exI [of _ p] exI [of _ ty]) simp
next
  case False
  obtain xs' r where xs: "xs = xs' @ [(r, False)]" using used_after_snoc [OF False] by blast
  have g': "rows h v xs n ys" "free_index h (gap_frees h xs n ys)" using g by (simp_all add: gap_def)
  note d = rowsD [OF g'(1)]
  let ?q = "base_addr h + extent xs'"
  have q: "p = ?q + r" using p xs by simp
  have "p \<noteq> pool_end h" using d(3) n p by (simp add: pool_end_def)
  then have hq: "hmu_is (hmem h) ?q HMU_FC True r" "16 \<le> r" "8 dvd r" "rd 4 (hmem h) (p - 4) = r" "used_after True xs'"
    using d(1) xs q by (auto simp: row_append)
  have c: "(?q, r) \<in> gap_frees h xs n ys" using xs by (simp add: gap_frees_def)
  have rl: "r < 2 ^ 30" "0 < base_addr h" "base_addr h + current_size h \<le> 2 ^ 64"
    using chunk_in_heap [OF free_indexD(1) [OF g'(2)] free_indexD(5) [OF g'(2) c]] free_indexD(1) [OF g'(2)] by (auto simp: geometry_def)
  have prev: "ptr_add p (- int32 (rd 4 (hmem h) (p - 4))) = ?q"
  proof -
    have "int32 r = int r" using rl(1) by (simp add: int32_def)
    moreover have "p < 2 ^ 64" using rl d(3) p n by linarith
    ultimately show ?thesis unfolding hq(4) using q by (simp add: ptr_add_def)
  qed
  obtain h' where r': "unlink_hmu ?q h = Some (True, h')" "rows h' v xs n ys" "free_index h' (gap_frees h xs n ys - {(?q, r)})"
    "touches (index_bytes h (gap_frees h xs n ys)) h h'" "hmu_is (hmem h') ?q HMU_FC True r" using gap_unlink [OF g c hq(1)] by blast
  have sel: "base_addr h' = base_addr h" using touches_sel [OF r'(4)] by simp
  have inh: "hmu_is_in_heap ?q h" using d(3) xs hq(2) by (simp add: hmu_is_in_heap_def)
  have "n + r < 2 ^ 32" using d(3) free_indexD(1) [OF g'(2)] xs by (simp add: geometry_def)
  then have "join_prev p h = Some (True, ?q, n + r, h')"
    using hd False hq(1) inh r'(1) unfolding join_prev_def Let_def prev by (simp add: hmu_is_def add32_nat)
  moreover have fr: "gap_frees h xs n ys - {(?q, r)} = gap_frees h' xs' (r + n) ys"
  proof -
    have "(?q, r) \<notin> frees (base_addr h) xs'" "(?q, r) \<notin> frees (?q + (r + n)) ys"
      using frees_bounds [of "(?q, r)" "base_addr h" xs'] frees_bounds [of "(?q, r)" "?q + (r + n)" ys] hq(2) by auto
    then show ?thesis using xs sel by (auto simp: gap_frees_def add.assoc)
  qed
  moreover have "gap h' v xs' (r + n) ys"
  proof -
    have "rows h' v xs' (r + n) ys" using r'(2) xs hq(3) by (simp add: rows_def row_append add.assoc)
    then show ?thesis using r'(3) fr by (simp add: gap_def)
  qed
  moreover have "gap_frees h' xs' (r + n) ys \<subseteq> gap_frees h xs n ys" using fr by blast
  ultimately show ?thesis
    using False xs hq(2,5) r'(4,5) sel by (intro exI [of _ h'] exI [of _ xs'] exI [of _ "n + r"] exI [of _ ?q] exI [of _ HMU_FC]) (simp add: add.commute)
qed

text \<open>And so does the chunk behind it.\<close>

lemma join_next_law:
  assumes g: "gap h v xs n ys" and p: "p = base_addr h + extent xs" and hd: "hmu_is (hmem h) p ty pin z" and n: "16 \<le> n"
  shows "\<exists>h' v' k ys'. join_next p n h = Some (True, k, h') \<and> gap h' v' xs k ys' \<and> (ys' = [] \<or> snd (hd ys')) \<and>
     hmu_is (hmem h') p ty pin z \<and> touches (index_bytes h (gap_frees h xs n ys)) h h' \<and> gap_frees h' xs k ys' \<subseteq> gap_frees h xs n ys \<and>
     (if ys = [] \<or> snd (hd ys) then ys' = ys \<and> k = n else ys = (k - n, False) # ys' \<and> n + 16 \<le> k \<and> \<not> v')"
proof -
  have g': "rows h v xs n ys" "free_index h (gap_frees h xs n ys)" using g by (simp_all add: gap_def)
  note d = rowsD [OF g'(1)]
  have q: "p + n = base_addr h + extent xs + n" using p by simp
  show ?thesis
  proof (cases "ys = [] \<or> snd (hd ys)")
    case True
    have "\<not> (hmu_is_in_heap (p + n) h \<and> hmu_get_ut (hmem h) (p + n) = HMU_FC)"
    proof (cases ys)
      case Nil
      then show ?thesis using d(3) q by (simp add: hmu_is_in_heap_def)
    next
      case (Cons c zs)
      then have "hmu_is (hmem h) (p + n) HMU_VO v (fst c)" using d(2) True q by (cases c) auto
      then show ?thesis by (simp add: hmu_is_def HMU_VO_def HMU_FC_def)
    qed
    then have "join_next p n h = Some (True, n, h)" by (auto simp: join_next_def)
    then show ?thesis using g hd True touches_refl by (intro exI [of _ h] exI [of _ v] exI [of _ n] exI [of _ ys]) simp
  next
    case False
    then obtain t zs where ys: "ys = (t, False) # zs" by (cases ys) auto
    have hq: "hmu_is (hmem h) (p + n) HMU_FC v t" "16 \<le> t" "8 dvd t" using d(2) q ys by auto
    have c: "(p + n, t) \<in> gap_frees h xs n ys" using ys q by (simp add: gap_frees_def)
    obtain h' where r: "unlink_hmu (p + n) h = Some (True, h')" "rows h' v xs n ys" "free_index h' (gap_frees h xs n ys - {(p + n, t)})"
      "touches (index_bytes h (gap_frees h xs n ys)) h h'" "\<forall>x. p \<le> x \<and> x < p + n \<longrightarrow> hmem h' x = hmem h x"
      using gap_unlink [OF g c hq(1)] p by auto
    have sel: "base_addr h' = base_addr h" using touches_sel [OF r(4)] by simp
    have inh: "hmu_is_in_heap (p + n) h" using d(3) ys hq(2) q by (simp add: hmu_is_in_heap_def)
    have "n + t < 2 ^ 32" using d(3) free_indexD(1) [OF g'(2)] ys by (simp add: geometry_def)
    then have "join_next p n h = Some (True, n + t, h')"
      using inh hq(1) r(1) by (simp add: join_next_def hmu_is_def add32_nat)
    moreover have rw: "rows h' False xs (n + t) zs" using r(2) ys hq(3) sel p by (simp add: rows_def add.assoc)
    moreover have fr: "gap_frees h xs n ys - {(p + n, t)} = gap_frees h' xs (n + t) zs"
    proof -
      have "(p + n, t) \<notin> frees (base_addr h) xs" "(p + n, t) \<notin> frees (p + n + t) zs"
        using frees_bounds [of "(p + n, t)" "base_addr h" xs] frees_bounds [of "(p + n, t)" "p + n + t" zs] hq(2) p n by auto
      then show ?thesis using ys sel p by (auto simp: gap_frees_def add.assoc)
    qed
    moreover have "gap_frees h' xs (n + t) zs \<subseteq> gap_frees h xs n ys" using fr by blast
    moreover have "zs = [] \<or> snd (hd zs)" using rowsD(2) [OF rw] by (cases zs) auto
    moreover have "hmu_is (hmem h') p ty pin z" using hd r(5) n hmu_is_cong [of p "hmem h'" "hmem h"] by simp
    ultimately show ?thesis
      using r(3,4) ys False hq(2) by (intro exI [of _ h'] exI [of _ False] exI [of _ "n + t"] exI [of _ zs]) (simp add: gap_def)
  qed
qed

text \<open>The gap becomes a free chunk.\<close>

lemma close_free:
  assumes g: "gap h v xs n ys" and p: "p = base_addr h + extent xs" and n: "16 \<le> n" and hd: "hmu_is (hmem h) p ty True z"
    and nb: "used_after True xs" "ys = [] \<or> snd (hd ys)"
  shows "\<exists>h1. gci_add_fc p n h = Some (True, h1) \<and> heap_shape (mark_next hmu_unmark_pinuse (p + n) h1) (xs @ (n, False) # ys) \<and>
     touches (index_bytes h (gap_frees h xs n ys) \<union> {p..<p + n + 4}) h (mark_next hmu_unmark_pinuse (p + n) h1)"
proof -
  have pin: "hmu_get_pinuse (hmem h) p = (if True then 1 else 0)" using hd by (simp add: hmu_is_def)
  let ?F = "insert (p, n) (gap_frees h xs n ys)"
  obtain h1 where r: "gci_add_fc p n h = Some (True, h1)" "rows h1 v xs n ys" "free_index h1 ?F" "hmu_is (hmem h1) p HMU_FC True n"
    "rd 4 (hmem h1) (p + n - 4) = n" "touches (index_bytes h (gap_frees h xs n ys) \<union> {p..<p + n}) h h1"
    using gap_add [OF g _ _ _ n pin, of 0] p by auto
  have sel: "base_addr h1 = base_addr h" using touches_sel [OF r(6)] by simp
  let ?h = "mark_next hmu_unmark_pinuse (p + n) h1"
  have F: "\<forall>c \<in> ?F. fst c + snd c \<le> p + n \<or> c \<in> frees (p + n) ys"
    using frees_bounds [of _ "base_addr h" xs] p by (fastforce simp: gap_frees_def)
  have q: "p + n = base_addr h1 + extent xs + n" using p sel by simp
  have m: "rows ?h False xs n ys" "free_index ?h ?F" "touches {p + n..<p + n + 4} h1 ?h"
    using rows_mark_next [OF r(2) q r(3) F, of hmu_unmark_pinuse False] nb(2) by simp_all
  have pos: "base_addr ?h + extent xs = p" "gap_frees ?h xs n ys = gap_frees h xs n ys"
    using touches_sel [OF m(3)] p sel gap_frees_cong [OF r(6)] gap_frees_cong [OF m(3)] by simp_all
  have "hmu_is (hmem ?h) p HMU_FC True n" "rd 4 (hmem ?h) (p + n - 4) = n"
    using touches_hmu [OF m(3), of p] touches_rd [OF m(3), of "p + n - 4" 4] r(4,5) n by (simp_all add: avoids_def)
  then have "heap_shape ?h (xs @ (n, False) # ys)" using m(1,2) pos n nb(1) by (intro shape_join) auto
  moreover have "touches (index_bytes h (gap_frees h xs n ys) \<union> {p..<p + n + 4}) h ?h"
    by (rule touches_trans [OF touches_mono [OF r(6)] touches_mono [OF m(3)]]) auto
  ultimately show ?thesis using r(1) by blast
qed

text \<open>
  A release: the chunk joins its free neighbours. \<open>xs\<close> and \<open>ys\<close> are the rows before and behind the
  new free chunk.
\<close>

definition releases :: "gc_heap \<Rightarrow> chunks \<Rightarrow> nat \<Rightarrow> nat \<Rightarrow> gc_heap \<Rightarrow> chunks \<Rightarrow> bool" where
  "releases h cs p s h' cs' \<longleftrightarrow>
     (\<exists>xs ys before behind k. cs = xs @ before @ (s, True) # behind @ ys \<and> p = base_addr h + extent (xs @ before) \<and>
        (before = [] \<or> (\<exists>r. before = [(r, False)])) \<and> (behind = [] \<or> (\<exists>r. behind = [(r, False)])) \<and>
        k = extent before + s + extent behind \<and> cs' = xs @ (k, False) # ys \<and> heap_shape h' cs' \<and> same_heap h h' \<and>
        total_free_size h' = add32 (total_free_size h) s \<and> highmark_size h' = highmark_size h \<and>
        (\<forall>x. x \<notin> index_bytes h (frees (base_addr h) cs) \<union> {base_addr h + extent xs..<base_addr h + extent xs + k + 4} \<longrightarrow> hmem h' x = hmem h x))"

lemma gap_total_free: "gap (h\<lparr>total_free_size := a\<rparr>) v xs n ys = gap h v xs n ys"
proof -
  have "h\<lparr>total_free_size := a, highmark_size := highmark_size h\<rparr> = h\<lparr>total_free_size := a\<rparr>" by simp
  then have "free_index (h\<lparr>total_free_size := a\<rparr>) F = free_index h F" for F using free_index_counters [where a = a and b = "highmark_size h" and h = h] by (simp only:)
  then show ?thesis by (simp add: gap_def rows_def gap_frees_def pool_end_def)
qed

lemma gc_free_law:
  assumes sh: "heap_shape h (xs @ (s, True) # ys)" and ok: "\<not> is_heap_corrupted h" and p: "p = base_addr h + extent xs"
  shows "\<exists>h' cs'. gc_free_vo (p + 4) h = Some (0, h') \<and> releases h (xs @ (s, True) # ys) p s h' cs'"
proof -
  note sp = shape_split [OF sh, folded p]
  let ?h = "h\<lparr>total_free_size := add32 (total_free_size h) s\<rparr>"
  have g0: "gap ?h True xs s ys" using gap_used [OF sh] by (simp add: gap_total_free)
  have p': "p = base_addr ?h + extent xs" using p by simp
  have hd0: "hmu_is (hmem ?h) p HMU_VO (used_after True xs) s" using sp(2) by simp
  obtain h1 xs1 k1 q ty1 where j1: "join_prev p ?h = Some (True, q, k1, h1)" "gap h1 True xs1 k1 ys" "used_after True xs1"
    "q = base_addr h1 + extent xs1" "hmu_is (hmem h1) q ty1 True (if used_after True xs then s else k1 - s)"
    "touches (index_bytes ?h (gap_frees ?h xs s ys)) ?h h1" "gap_frees h1 xs1 k1 ys \<subseteq> gap_frees ?h xs s ys"
    "if used_after True xs then xs1 = xs \<and> k1 = s else xs = xs1 @ [(k1 - s, False)] \<and> s + 16 \<le> k1"
    using join_prev_law [OF g0 p' hd0 sp(3)] by blast
  have k1: "16 \<le> k1" using j1(8) sp(3) by (auto split: if_splits)
  obtain h2 v k ys2 where j2: "join_next q k1 h1 = Some (True, k, h2)" "gap h2 v xs1 k ys2" "ys2 = [] \<or> snd (hd ys2)"
    "hmu_is (hmem h2) q ty1 True (if used_after True xs then s else k1 - s)" "touches (index_bytes h1 (gap_frees h1 xs1 k1 ys)) h1 h2" "gap_frees h2 xs1 k ys2 \<subseteq> gap_frees h1 xs1 k1 ys"
    "if ys = [] \<or> snd (hd ys) then ys2 = ys \<and> k = k1 else ys = (k - k1, False) # ys2 \<and> k1 + 16 \<le> k \<and> \<not> v"
    using join_next_law [OF j1(2,4,5) k1] by blast
  have sel: "base_addr h1 = base_addr h" "base_addr h2 = base_addr h" using touches_sel(1) [OF j1(6)] touches_sel(1) [OF j2(5)] by simp_all
  have q: "q = base_addr h2 + extent xs1" using j1(4) sel by simp
  have k: "16 \<le> k" using j2(7) k1 by (auto split: if_splits)
  obtain h3 where j3: "gci_add_fc q k h2 = Some (True, h3)" "heap_shape (mark_next hmu_unmark_pinuse (q + k) h3) (xs1 @ (k, False) # ys2)"
    "touches (index_bytes h2 (gap_frees h2 xs1 k ys2) \<union> {q..<q + k + 4}) h2 (mark_next hmu_unmark_pinuse (q + k) h3)"
    using close_free [OF j2(2) q k j2(4) j1(3) j2(3)] by blast
  let ?h' = "mark_next hmu_unmark_pinuse (q + k) h3"
  have run: "gc_free_vo (p + 4) h = Some (0, ?h')"
  proof -
    have "hmu_is_in_heap p h" using rowsD(3) [OF sp(1)] p sp(3) by (simp add: hmu_is_in_heap_def)
    then show ?thesis using ok sp(2,5) j1(1) j2(1) j3(1)
      by (simp add: gc_free_vo_def obj_to_hmu_def HMU_SIZE_def hmu_is_def mark_next_def)
  qed
  let ?F = "frees (base_addr h) (xs @ (s, True) # ys)"
  have F: "gap_frees ?h xs s ys = ?F" using p by (simp add: gap_frees_def)
  let ?A = "index_bytes h ?F \<union> {q..<q + k + 4}"
  have mono: "index_bytes g G \<subseteq> index_bytes h ?F" if "kfc_tree_root g = kfc_tree_root h" "G \<subseteq> ?F" for g G
    using that by (auto simp: index_bytes_def)
  have roots: "kfc_tree_root h1 = kfc_tree_root h" "kfc_tree_root h2 = kfc_tree_root h"
    using touches_sel(3) [OF j1(6)] touches_sel(3) [OF j2(5)] by simp_all
  have t1: "touches ?A ?h h1" by (rule touches_mono [OF j1(6)]) (use mono [of ?h] F in auto)
  have t2: "touches ?A h1 h2" by (rule touches_mono [OF j2(5)]) (use mono [OF roots(1) j1(7) [unfolded F]] in auto)
  have t3: "touches ?A h2 ?h'" by (rule touches_mono [OF j3(3)]) (use mono [OF roots(2) order_trans [OF j2(6) j1(7) [unfolded F]]] in auto)
  have T: "touches ?A ?h ?h'" using touches_trans [OF touches_trans [OF t1 t2] t3] .
  have "releases h (xs @ (s, True) # ys) p s ?h' (xs1 @ (k, False) # ys2)"
  proof -
    obtain before where b: "xs = xs1 @ before" "before = [] \<or> (\<exists>r. before = [(r, False)])" "extent before + s = k1"
    proof (cases "used_after True xs")
      case True
      then show ?thesis using that [of "[]"] j1(8) by simp
    next
      case False
      then show ?thesis using that [of "[(k1 - s, False)]"] j1(8) by simp
    qed
    obtain behind where e: "ys = behind @ ys2" "behind = [] \<or> (\<exists>r. behind = [(r, False)])" "k1 + extent behind = k"
    proof (cases "ys = [] \<or> snd (hd ys)")
      case True
      then show ?thesis using that [of "[]"] j2(7) by simp
    next
      case False
      then show ?thesis using that [of "[(k - k1, False)]"] j2(7) by simp
    qed
    show ?thesis unfolding releases_def
    proof (intro exI conjI)
      show "xs @ (s, True) # ys = xs1 @ before @ (s, True) # behind @ ys2" using b(1) e(1) by simp
      show "p = base_addr h + extent (xs1 @ before)" using p b(1) by simp
      show "k = extent before + s + extent behind" using b(3) e(3) by simp
      show "heap_shape ?h' (xs1 @ (k, False) # ys2)" by (rule j3(2))
      show "same_heap h ?h'" using touches_same [OF T] by (simp add: same_heap_def)
      show "total_free_size ?h' = add32 (total_free_size h) s" "highmark_size ?h' = highmark_size h" using touches_sel [OF T] by simp_all
      show "\<forall>x. x \<notin> index_bytes h ?F \<union> {base_addr h + extent xs1..<base_addr h + extent xs1 + k + 4} \<longrightarrow> hmem ?h' x = hmem h x"
        using touchesD [OF T] q sel by simp
    qed (use b(2) e(2) in simp_all)
  qed
  then show ?thesis using run by blast
qed

end
