(* ===== verification/Ems_Alloc.thy ===== *)
theory Ems_Alloc
  imports Ems_Chunks
begin

text \<open>
  The allocator as its callers see it: a heap holds objects; allocation adds one, release removes one,
  and neither touches the bytes of the others. The contract is an interface, proved for \<open>gc_alloc_vo\<close>
  and \<open>gc_free_vo\<close>; clients that only use it are correct with any provider.
\<close>

section \<open>Objects of a heap\<close>

text \<open>The row of chunks can be read off the headers.\<close>

function chunk_walk :: "mem \<Rightarrow> nat \<Rightarrow> nat \<Rightarrow> chunks" where
  "chunk_walk m e a = (if a < e \<and> hmu_get_size m a \<noteq> 0 then (hmu_get_size m a, hmu_get_ut m a = HMU_VO) # chunk_walk m e (a + hmu_get_size m a) else [])"
  by pat_completeness auto
termination by (relation "measure (\<lambda>(m, e, a). e - a)") auto

declare chunk_walk.simps [simp del]

definition heap_chunks :: "gc_heap \<Rightarrow> chunks" where
  "heap_chunks h = chunk_walk (hmem h) (pool_end h) (base_addr h)"

lemma chunk_walk_row: "row m e pin a cs \<Longrightarrow> a + extent cs = e \<Longrightarrow> chunk_walk m e a = cs"
proof (induction m e pin a cs rule: row.induct)
  case (1 m e pin a)
  then show ?case by (subst chunk_walk.simps) simp
next
  case (2 m e pin a s u cs)
  then have "hmu_get_size m a = s" "(hmu_get_ut m a = HMU_VO) = u" "16 \<le> s"
    by (auto simp: hmu_is_def HMU_VO_def HMU_FC_def split: if_splits)
  moreover have "chunk_walk m e (a + s) = cs" using 2 by simp
  ultimately show ?case using "2.prems" by (subst chunk_walk.simps) simp
qed

lemma shape_chunks: "heap_shape h cs \<Longrightarrow> heap_chunks h = cs"
  unfolding heap_chunks_def by (rule chunk_walk_row) (auto simp: heap_shape_def pool_end_def)

fun free_bytes :: "chunks \<Rightarrow> nat" where
  "free_bytes [] = 0"
| "free_bytes ((s, u) # cs) = (if u then 0 else s) + free_bytes cs"

lemma free_bytes_append [simp]: "free_bytes (xs @ ys) = free_bytes xs + free_bytes ys"
  by (induction xs rule: free_bytes.induct) auto

lemma free_bytes_le: "free_bytes cs \<le> extent cs"
  by (induction cs rule: free_bytes.induct) auto

definition in_use :: "nat \<Rightarrow> chunks \<Rightarrow> (nat \<times> nat) set" where
  "in_use a cs = {(p + 4, s - 4) | p s. ((p, s), True) \<in> set (placed a cs)}"

lemma in_use_simps [simp]:
  "in_use a [] = {}" "in_use a ((s, False) # cs) = in_use (a + s) cs"
  "in_use a ((s, True) # cs) = insert (a + 4, s - 4) (in_use (a + s) cs)"
  "in_use a (xs @ ys) = in_use a xs \<union> in_use (a + extent xs) ys"
  by (auto simp: in_use_def)

lemma in_use_bounds: "(p, n) \<in> in_use a cs \<Longrightarrow> row m e pin a cs \<Longrightarrow> a + 4 \<le> p \<and> p + n \<le> a + extent cs \<and> 12 \<le> n"
proof (induction cs arbitrary: pin a)
  case (Cons c cs)
  obtain s u where c: "c = (s, u)" by (cases c)
  have r: "16 \<le> s" "row m e u (a + s) cs" using Cons.prems(2) c by auto
  show ?case
  proof (cases "(p, n) \<in> in_use (a + s) cs")
    case True
    then show ?thesis using Cons.IH [OF True r(2)] c by auto
  next
    case False
    then have "p = a + 4 \<and> n = s - 4" using Cons.prems(1) c by (cases u) auto
    then show ?thesis using r(1) c by simp
  qed
qed simp

definition objects :: "gc_heap \<Rightarrow> (nat \<times> nat) set" where
  "objects h = in_use (base_addr h) (heap_chunks h)"

definition heap_ok :: "gc_heap \<Rightarrow> bool" where
  "heap_ok h \<longleftrightarrow> heap_shape h (heap_chunks h) \<and> \<not> is_heap_corrupted h \<and> total_free_size h = free_bytes (heap_chunks h) \<and>
     current_size h - total_free_size h \<le> highmark_size h \<and> highmark_size h \<le> current_size h"

lemma heap_okI:
  assumes "heap_shape h cs" "\<not> is_heap_corrupted h" "total_free_size h = free_bytes cs"
    "current_size h - total_free_size h \<le> highmark_size h" "highmark_size h \<le> current_size h"
  shows "heap_ok h" "objects h = in_use (base_addr h) cs"
  using assms shape_chunks [OF assms(1)] by (simp_all add: heap_ok_def objects_def)

lemma heap_ok_size: "heap_ok h \<Longrightarrow> current_size h < 2 ^ 30 \<and> extent (heap_chunks h) = current_size h"
  using free_indexD(1) [of h "frees (base_addr h) (heap_chunks h)"] by (auto simp: heap_ok_def heap_shape_def geometry_def)

lemma objects_apart:
  assumes "heap_ok h" and "(p, n) \<in> objects h" and "(q, k) \<in> objects h"
  shows "(p, n) = (q, k) \<or> p + n \<le> q \<or> q + k \<le> p"
proof -
  obtain a s b t where c: "((a, s), True) \<in> set (placed (base_addr h) (heap_chunks h))" "((b, t), True) \<in> set (placed (base_addr h) (heap_chunks h))"
    and e: "p = a + 4" "n = s - 4" "q = b + 4" "k = t - 4" using assms(2,3) by (auto simp: objects_def in_use_def)
  have "row (hmem h) (pool_end h) True (base_addr h) (heap_chunks h)" "base_addr h mod 8 = 4"
    using assms(1) by (auto simp: heap_ok_def heap_shape_def)
  from row_placed [OF this c(1)] row_placed [OF this c(2)] have "16 \<le> s" "16 \<le> t" by simp_all
  then show ?thesis using placed_clear [OF c] e by (auto simp: clear_of_def)
qed

text \<open>The bytes of an object hold no links and no headers, and are clear of every other stretch of chunks.\<close>

lemma object_clear:
  assumes sh: "heap_shape h (xs @ mid @ ys)" and o: "(q, k) \<in> in_use (base_addr h) xs \<union> in_use (base_addr h + extent xs + extent mid) ys"
    and x: "q \<le> x" "x < q + k"
  shows "x \<notin> index_bytes h (frees (base_addr h) (xs @ mid @ ys)) \<union> {base_addr h + extent xs..<base_addr h + extent xs + extent mid + 4}"
proof -
  let ?cs = "xs @ mid @ ys" and ?a = "base_addr h"
  have r: "row (hmem h) (pool_end h) True ?a ?cs" "?a mod 8 = 4" "extent ?cs = current_size h" "free_index h (frees ?a ?cs)"
    using sh by (simp_all add: heap_shape_def)
  have "(q, k) \<in> in_use ?a ?cs" using o by (auto simp: add.assoc)
  then obtain p s where c: "((p, s), True) \<in> set (placed ?a ?cs)" "q = p + 4" "k = s - 4" unfolding in_use_def by auto
  note b = placed_bounds [OF c(1)] row_placed [OF r(1,2) c(1)]
  have ok: "chunk_ok h (p, s)" using b r(3) by (simp add: chunk_ok_def)
  have cl: "\<forall>d \<in> frees ?a ?cs. d = (p, s) \<or> clear_of (p, s) d" using placed_clear [OF c(1)] by (auto simp: frees_def)
  have "(p, s) \<notin> frees ?a ?cs"
  proof
    assume "(p, s) \<in> frees ?a ?cs"
    then have f: "((p, s), False) \<in> set (placed ?a ?cs)" by (simp add: frees_def)
    then show False using placed_clear [OF c(1) f] b(2) by (simp add: clear_of_def)
  qed
  then have "avoids (index_bytes h (frees ?a ?cs)) p s"
    using index_bytes_apart(3) [OF free_indexD(1) [OF r(4)] _ ok cl] free_indexD(5) [OF r(4)] by simp
  then have "x \<notin> index_bytes h (frees ?a ?cs)" using avoidsD x c by fastforce
  moreover have "x < ?a + extent xs \<or> ?a + extent xs + extent mid + 4 \<le> x"
  proof -
    have "row (hmem h) (pool_end h) True ?a xs" "row (hmem h) (pool_end h) (used_after True (xs @ mid)) (?a + extent xs + extent mid) ys"
      using r(1) by (simp_all add: row_append add.assoc)
    then show ?thesis using o x in_use_bounds [of q k ?a xs] in_use_bounds [of q k "?a + extent xs + extent mid" ys] by fastforce
  qed
  ultimately show ?thesis by auto
qed

section \<open>The operations\<close>

definition keeps :: "(nat \<times> nat) set \<Rightarrow> gc_heap \<Rightarrow> gc_heap \<Rightarrow> bool" where
  "keeps S h h' \<longleftrightarrow> (\<forall>(q, k) \<in> S. \<forall>x. q \<le> x \<and> x < q + k \<longrightarrow> hmem h' x = hmem h x)"

lemma keeps_outside:
  assumes "heap_shape h (xs @ mid @ ys)"
    and "\<forall>x. x \<notin> index_bytes h (frees (base_addr h) (xs @ mid @ ys)) \<union> {base_addr h + extent xs..<base_addr h + extent xs + extent mid + 4} \<longrightarrow>
       hmem h' x = hmem h x"
  shows "keeps (in_use (base_addr h) xs \<union> in_use (base_addr h + extent xs + extent mid) ys) h h'"
  unfolding keeps_def using assms(2) object_clear [OF assms(1)] by blast

lemma counted_ok:
  assumes "counted n h h'" and "current_size h' = current_size h" and "current_size h < 2 ^ 30" and "n \<le> f" and "total_free_size h = f" and "f \<le> current_size h"
    and "current_size h - f \<le> highmark_size h" "highmark_size h \<le> current_size h"
  shows "total_free_size h' = f - n" "current_size h' - total_free_size h' \<le> highmark_size h'" "highmark_size h' \<le> current_size h'"
proof -
  have f: "sub32 f n = f - n" using assms(3,4,6) by (intro sub32_nat) auto
  moreover have "sub32 (current_size h) (f - n) = current_size h - (f - n)" using assms(3,6) by (intro sub32_nat) auto
  ultimately show "total_free_size h' = f - n" "current_size h' - total_free_size h' \<le> highmark_size h'" "highmark_size h' \<le> current_size h'"
    using assms by (auto simp: counted_def)
qed

lemma in_use_split: "(p, n) \<in> in_use a cs \<Longrightarrow> \<exists>xs s ys. cs = xs @ (s, True) # ys \<and> p = a + extent xs + 4 \<and> n = s - 4"
proof (induction cs arbitrary: a)
  case (Cons c cs)
  obtain s u where c: "c = (s, u)" by (cases c)
  show ?case
  proof (cases "u \<and> p = a + 4 \<and> n = s - 4")
    case True
    then show ?thesis using c by (intro exI [of _ "[]"] exI [of _ s] exI [of _ cs]) auto
  next
    case False
    then have "(p, n) \<in> in_use (a + s) cs" using Cons.prems c by (cases u) auto
    then obtain xs t ys where "cs = xs @ (t, True) # ys" "p = a + s + extent xs + 4" "n = t - 4" using Cons.IH by blast
    then show ?thesis using c by (intro exI [of _ "(s, u) # xs"] exI [of _ t] exI [of _ ys]) auto
  qed
qed simp

lemma heap_okD:
  assumes "heap_ok h"
  shows "heap_shape h (heap_chunks h)" "\<not> is_heap_corrupted h" "total_free_size h = free_bytes (heap_chunks h)"
    "current_size h - total_free_size h \<le> highmark_size h" "highmark_size h \<le> current_size h"
  using assms unfolding heap_ok_def by blast+

lemma object_bounds:
  assumes "heap_ok h" and "(p, n) \<in> objects h"
  shows "base_addr h + 4 \<le> p" "p + n \<le> base_addr h + current_size h" "12 \<le> n"
proof -
  have "row (hmem h) (pool_end h) True (base_addr h) (heap_chunks h)" "extent (heap_chunks h) = current_size h"
    using heap_okD(1) [OF assms(1)] by (simp_all add: heap_shape_def)
  then show "base_addr h + 4 \<le> p" "p + n \<le> base_addr h + current_size h" "12 \<le> n"
    using in_use_bounds [of p n "base_addr h" "heap_chunks h"] assms(2) by (auto simp: objects_def)
qed

text \<open>An allocation, as the row of chunks shows it, adds an object.\<close>

lemma allocates_objects:
  assumes ok: "heap_ok h" and al: "allocates h (heap_chunks h) need p h' cs'" and need: "16 \<le> need"
  defines "n \<equiv> hmu_get_size (hmem h') p"
  shows "heap_ok h'" "objects h' = insert (p + 4, n - 4) (objects h)" "(p + 4, n - 4) \<notin> objects h" "keeps (objects h) h h'"
    "(p + 4) mod 8 = 0" "need \<le> n" "total_free_size h' + n = total_free_size h" "same_heap h h'"
proof -
  let ?cs = "heap_chunks h" and ?a = "base_addr h"
  note h = heap_okD [OF ok]
  from al obtain xs z ys k where a: "?cs = xs @ (z, False) # ys" "p = ?a + extent xs" "best (frees ?a ?cs) need (p, z)"
    "k = (if need + 16 \<le> z then need else z)"
    "cs' = xs @ (k, True) # (if need + 16 \<le> z then [(z - need, False)] else []) @ ys" "heap_shape h' cs'" "same_heap h h'"
    "counted k h h'" "\<forall>x. x \<notin> index_bytes h (frees ?a ?cs) \<union> {p..<p + z + 4} \<longrightarrow> hmem h' x = hmem h x"
    unfolding allocates_def by blast
  let ?r = "if need + 16 \<le> z then [(z - need, False)] else []"
  have k: "need \<le> k" "k \<le> z" "k + extent ?r = z" using a(3,4) by (auto simp: best_def)
  have sel: "base_addr h' = ?a" "current_size h' = current_size h" "\<not> is_heap_corrupted h'" using a(7) h(2) by (simp_all add: same_heap_def)
  have n: "n = k" using shape_split(2) [OF a(6) [unfolded a(5)]] a(2) sel by (simp add: n_def hmu_is_def)
  show "need \<le> n" using k(1) n by simp
  have fb: "free_bytes ?cs = free_bytes xs + z + free_bytes ys" using a(1) by simp
  have fb': "free_bytes cs' = free_bytes ?cs - k" "k \<le> free_bytes ?cs" unfolding a(5) fb using k by auto
  have cnt: "total_free_size h' = free_bytes ?cs - k" "current_size h' - total_free_size h' \<le> highmark_size h'" "highmark_size h' \<le> current_size h'"
    using counted_ok [OF a(8) sel(2) _ fb'(2) h(3) _ h(4) [unfolded h(3)] h(5)] heap_ok_size [OF ok] free_bytes_le [of ?cs] by simp_all
  show "total_free_size h' + n = total_free_size h" using cnt(1) fb'(2) h(3) n by simp
  have ok': "heap_ok h'" "objects h' = in_use ?a cs'" using heap_okI [OF a(6) sel(3)] cnt fb' sel by simp_all
  show "heap_ok h'" by (rule ok'(1))
  have pz: "?a + extent xs + (k + extent ?r) = p + z" using k(3) a(2) by simp
  have obj: "objects h = in_use ?a xs \<union> in_use (p + z) ys" using a(1,2) by (simp add: objects_def)
  show "objects h' = insert (p + 4, n - 4) (objects h)"
    unfolding ok'(2) obj a(5) in_use_simps(4) in_use_simps(3) extent_append [symmetric] using pz a(2) n by (auto simp: add.assoc)
  have r: "row (hmem h) (pool_end h) True ?a xs" "row (hmem h) (pool_end h) False (p + z) ys"
    using h(1) a(2) unfolding heap_shape_def a(1) by (simp_all add: row_append)
  then show "(p + 4, n - 4) \<notin> objects h" unfolding obj
    using in_use_bounds [of "p + 4" "n - 4" ?a xs] in_use_bounds [of "p + 4" "n - 4" "p + z" ys] a(2) k need n by fastforce
  show "keeps (objects h) h h'" using keeps_outside [of h xs "[(z, False)]" ys h'] h(1) a(1,2,9) obj by simp
  have "p mod 8 = 4" using rowsD(6) [OF shape_split(1) [OF h(1) [unfolded a(1)]]] a(2) by simp
  then show "(p + 4) mod 8 = 0" by presburger
  show "same_heap h h'" by (rule a(7))
qed

lemma alloc_ok:
  assumes ok: "heap_ok h" and sz: "sz < 2 ^ 32"
  shows "gc_alloc_vo sz h = Some (0, h) \<and> (\<forall>c \<in> frees (base_addr h) (heap_chunks h). snd c < chunk_size sz) \<or>
    (\<exists>p n h'. gc_alloc_vo sz h = Some (p, h') \<and> p \<noteq> 0 \<and> p mod 8 = 0 \<and> sz \<le> n \<and> heap_ok h' \<and> objects h' = insert (p, n) (objects h) \<and>
       (p, n) \<notin> objects h \<and> keeps (objects h) h h' \<and> (\<forall>x. p + sz \<le> x \<and> x < p + n \<longrightarrow> hmem h' x = 0) \<and>
       total_free_size h' + n + 4 = total_free_size h \<and> same_heap h h')"
  using gc_alloc_law [OF heap_okD(1,2) [OF ok] sz]
proof (elim disjE exE conjE)
  fix p h' cs'
  assume run: "gc_alloc_vo sz h = Some (p + 4, h')" and al: "allocates h (heap_chunks h) (chunk_size sz) p h' cs'"
    and zero: "\<forall>x. p + 4 + sz \<le> x \<and> x < p + hmu_get_size (hmem h') p \<longrightarrow> hmem h' x = 0"
  note o = allocates_objects [OF ok al chunk_size_facts(1)]
  let ?n = "hmu_get_size (hmem h') p"
  have n: "sz + 4 \<le> ?n" using o(6) chunk_size_facts(3) [of sz] by simp
  show ?thesis
    using run o zero n by (intro disjI2 exI [of _ "p + 4"] exI [of _ "?n - 4"] exI [of _ h']) auto
qed simp

text \<open>Writing to the bytes of an object.\<close>

lemma write_object:
  assumes ok: "heap_ok h" and o: "(p, n) \<in> objects h" and h': "touches A h h'" "kfc_normal_list h' = kfc_normal_list h" "A \<subseteq> {p..<p + n}"
  shows "heap_ok h'" "objects h' = objects h"
proof -
  obtain xs s ys where cs: "heap_chunks h = xs @ (s, True) # ys" "p = base_addr h + extent xs + 4" "n = s - 4"
    using in_use_split o unfolding objects_def by blast
  note sh = heap_okD(1) [OF ok, unfolded cs(1)]
  note sp = shape_split [OF sh]
  let ?q = "base_addr h + extent xs"
  have sub: "A \<subseteq> {?q + 4..<?q + s}" using h'(3) cs(2,3) sp(3) by auto
  then have "A \<subseteq> {?q..<?q + s}" by auto
  then have g: "gap h' True xs s ys" by (rule gap_touches [OF gap_used [OF sh] h'(1,2)])
  have same: "header (hmem h') ?q = header (hmem h) ?q"
    by (rule header_cong, rule touchesD [OF h'(1)]) (use sub in force)
  have sel: "base_addr h' = base_addr h" using touches_sel [OF h'(1)] by simp
  have sh': "heap_shape h' (xs @ (s, True) # ys)"
    using g sp(2,3,5) same sel by (intro shape_join) (auto simp: gap_def hmu_is_def hmu_getters)
  show "heap_ok h'" "objects h' = objects h"
    using heap_okI [OF sh'] heap_okD [OF ok] touches_sel [OF h'(1)] cs(1) by (simp_all add: objects_def)
qed

lemma free_ok:
  assumes ok: "heap_ok h" and o: "(p, n) \<in> objects h"
  shows "\<exists>h'. gc_free_vo p h = Some (0, h') \<and> heap_ok h' \<and> objects h' = objects h - {(p, n)} \<and> keeps (objects h') h h' \<and>
     total_free_size h' = total_free_size h + n + 4 \<and> same_heap h h'"
proof -
  let ?cs = "heap_chunks h" and ?a = "base_addr h"
  note h = heap_okD [OF ok]
  obtain us s vs where cs0: "?cs = us @ (s, True) # vs" "p = ?a + extent us + 4" "n = s - 4" using in_use_split o unfolding objects_def by blast
  obtain h' cs' where run: "gc_free_vo p h = Some (0, h')" and rel: "releases h ?cs (?a + extent us) s h' cs'"
    using gc_free_law [OF h(1) [unfolded cs0(1)] h(2) refl] cs0 by auto
  from rel obtain xs ys before behind k where
    r: "?cs = xs @ before @ (s, True) # behind @ ys" "?a + extent us = ?a + extent (xs @ before)" "before = [] \<or> (\<exists>r. before = [(r, False)])"
      "behind = [] \<or> (\<exists>r. behind = [(r, False)])" "k = extent before + s + extent behind" "cs' = xs @ (k, False) # ys" "heap_shape h' cs'"
      "same_heap h h'" "total_free_size h' = add32 (total_free_size h) s" "highmark_size h' = highmark_size h"
      "\<forall>x. x \<notin> index_bytes h (frees ?a ?cs) \<union> {?a + extent xs..<?a + extent xs + k + 4} \<longrightarrow> hmem h' x = hmem h x"
    unfolding releases_def by blast
  have none: "in_use q before = {}" "in_use q behind = {}" "free_bytes before = extent before" "free_bytes behind = extent behind" for q using r(3,4) by auto
  let ?mid = "before @ (s, True) # behind"
  have cs: "?cs = xs @ ?mid @ ys" "extent ?mid = k" using r(1,5) by simp_all
  have p: "p = ?a + extent xs + extent before + 4" using cs0(2) r(2) by simp
  have s: "16 \<le> s" using shape_split(3) [OF h(1) [unfolded cs0(1)]] .
  have sel: "base_addr h' = ?a" "current_size h' = current_size h" "\<not> is_heap_corrupted h'" using r(8) h(2) by (simp_all add: same_heap_def)
  have fb: "free_bytes ?cs + s = free_bytes cs'" unfolding cs(1) r(6) using none r(5) by simp
  have lim: "free_bytes cs' \<le> current_size h" using free_bytes_le [of cs'] r(7) sel by (simp add: heap_shape_def)
  have tf: "total_free_size h' = free_bytes cs'" using r(9) h(3) fb lim heap_ok_size [OF ok] by (simp add: add32_nat)
  have ok': "heap_ok h'" "objects h' = in_use ?a cs'"
    using heap_okI [OF r(7) sel(3) tf] h(3-5) r(10) sel fb tf by auto
  have o': "objects h' = in_use ?a xs \<union> in_use (?a + extent xs + extent ?mid) ys" unfolding ok'(2) r(6) cs(2) by simp
  have oh0: "objects h = in_use ?a (xs @ ?mid @ ys)" using cs(1) by (simp only: objects_def)
  have oh: "objects h = insert (p, n) (objects h')"
    unfolding o' oh0 in_use_simps(4) using none p cs0(3) by (auto simp: add.assoc)
  have "(p, n) \<notin> objects h'"
  proof -
    have "row (hmem h) (pool_end h) True ?a xs" "row (hmem h) (pool_end h) (used_after True (xs @ ?mid)) (?a + extent xs + extent ?mid) ys"
      using h(1) unfolding heap_shape_def cs(1) row_append by (simp_all add: row_append add.assoc)
    then show ?thesis unfolding o' using in_use_bounds [of p n ?a xs] in_use_bounds [of p n "?a + extent xs + extent ?mid" ys] p s cs0(3) by fastforce
  qed
  moreover have "keeps (objects h') h h'"
    unfolding o' using keeps_outside [of h xs ?mid ys h'] h(1) r(11) unfolding cs by simp
  moreover have "total_free_size h' = total_free_size h + n + 4" using tf fb h(3) s cs0(3) by simp
  ultimately show ?thesis using run ok'(1) oh r(8) by auto
qed

text \<open>A heap without objects is one free chunk.\<close>

lemma no_objects:
  assumes "heap_ok h" and "objects h = {}" and "0 < current_size h"
  shows "heap_chunks h = [(current_size h, False)]"
proof -
  have r: "row (hmem h) (pool_end h) True (base_addr h) (heap_chunks h)" "extent (heap_chunks h) = current_size h"
    using heap_okD(1) [OF assms(1)] by (simp_all add: heap_shape_def)
  then obtain s u cs where cs: "heap_chunks h = (s, u) # cs" using assms(3) by (cases "heap_chunks h") auto
  have u: "\<not> u" using assms(2) cs by (cases u) (auto simp: objects_def)
  have "cs = []"
  proof (cases cs)
    case (Cons c ds)
    obtain t v where "c = (t, v)" by (cases c)
    then show ?thesis using r(1) u cs Cons assms(2) by (cases v) (auto simp: objects_def)
  qed
  then show ?thesis using cs u r(2) by simp
qed

section \<open>The contract\<close>

locale allocator =
  fixes alloc :: "nat \<Rightarrow> 'h \<Rightarrow> (nat \<times> 'h) option"
    and free :: "nat \<Rightarrow> 'h \<Rightarrow> (int \<times> 'h) option"
    and ok :: "'h \<Rightarrow> bool"
    and objs :: "'h \<Rightarrow> (nat \<times> nat) set"
    and byte :: "'h \<Rightarrow> nat \<Rightarrow> u8"
    and place :: "'h \<Rightarrow> 'p"
  assumes apart: "ok h \<Longrightarrow> (p, n) \<in> objs h \<Longrightarrow> (q, k) \<in> objs h \<Longrightarrow> (p, n) = (q, k) \<or> p + n \<le> q \<or> q + k \<le> p"
    and positive: "ok h \<Longrightarrow> (p, n) \<in> objs h \<Longrightarrow> 0 < n"
    and alloc_law: "ok h \<Longrightarrow> sz < 2 ^ 32 \<Longrightarrow> \<exists>p h'. alloc sz h = Some (p, h') \<and> ok h' \<and> place h' = place h \<and> (p = 0 \<longrightarrow> h' = h) \<and>
       (p \<noteq> 0 \<longrightarrow> (\<exists>n\<ge>sz. objs h' = insert (p, n) (objs h) \<and> (p, n) \<notin> objs h)) \<and>
       (\<forall>(q, k) \<in> objs h. \<forall>x. q \<le> x \<and> x < q + k \<longrightarrow> byte h' x = byte h x)"
    and free_law: "ok h \<Longrightarrow> (p, n) \<in> objs h \<Longrightarrow> \<exists>h'. free p h = Some (0, h') \<and> ok h' \<and> place h' = place h \<and> objs h' = objs h - {(p, n)} \<and>
       (\<forall>(q, k) \<in> objs h'. \<forall>x. q \<le> x \<and> x < q + k \<longrightarrow> byte h' x = byte h x)"

text \<open>A client: it asks for objects and gives back those it holds, by their place in its list.\<close>

datatype request = Get nat | Drop nat

fun serve_requests :: "(nat \<Rightarrow> 'h \<Rightarrow> (nat \<times> 'h) option) \<Rightarrow> (nat \<Rightarrow> 'h \<Rightarrow> (int \<times> 'h) option) \<Rightarrow> request list \<Rightarrow> nat list \<Rightarrow> 'h \<Rightarrow> (nat list \<times> 'h) option" where
  "serve_requests alloc free [] held h = Some (held, h)"
| "serve_requests alloc free (Get sz # rs) held h =
     (case alloc sz h of None \<Rightarrow> None | Some (p, h') \<Rightarrow> serve_requests alloc free rs (if p = 0 then held else held @ [p]) h')"
| "serve_requests alloc free (Drop i # rs) held h =
     (if i < length held then
        (case free (held ! i) h of
           None \<Rightarrow> None
         | Some (r, h') \<Rightarrow> if r = 0 then serve_requests alloc free rs (take i held @ drop (Suc i) held) h' else None)
      else serve_requests alloc free rs held h)"

context allocator
begin

lemma same_address:
  assumes "ok h" and "(p, n) \<in> objs h" and "(p, k) \<in> objs h"
  shows "n = k"
  using apart [OF assms] positive [OF assms(1)] assms(2,3) by fastforce

lemma serve_step_drop:
  assumes "ok h" and "distinct held" and "fst ` objs h = set held" and "i < length held"
  shows "\<exists>h' n. free (held ! i) h = Some (0, h') \<and> ok h' \<and> place h' = place h \<and> fst ` objs h' = set (take i held @ drop (Suc i) held) \<and>
     distinct (take i held @ drop (Suc i) held) \<and> objs h' = objs h - {(held ! i, n)}"
proof -
  have "held ! i \<in> fst ` objs h" using assms(3,4) by simp
  then obtain n where n: "(held ! i, n) \<in> objs h" by force
  obtain h' where h': "free (held ! i) h = Some (0, h')" "ok h'" "place h' = place h" "objs h' = objs h - {(held ! i, n)}"
    using free_law [OF assms(1) n] by blast
  have split: "held = take i held @ held ! i # drop (Suc i) held" using id_take_nth_drop [OF assms(4)] .
  then have d: "distinct (take i held @ held ! i # drop (Suc i) held)" using assms(2) by simp
  then have "set held - {held ! i} = set (take i held @ drop (Suc i) held)" by (subst split) auto
  moreover have "fst ` (objs h - {(held ! i, n)}) = fst ` objs h - {held ! i}"
    using same_address [OF assms(1) n] by force
  ultimately show ?thesis using h' d assms(3) by (intro exI [of _ h'] exI [of _ n]) auto
qed

text \<open>
  Every client is served to the end, and afterwards it holds distinct objects that are apart from each
  other; they are all the objects of the heap.
\<close>

lemma serve_total:
  assumes "ok h" and "distinct held" and "fst ` objs h = set held" and "\<forall>sz. Get sz \<in> set rs \<longrightarrow> sz < 2 ^ 32"
  shows "\<exists>held' h'. serve_requests alloc free rs held h = Some (held', h') \<and> ok h' \<and> place h' = place h \<and> distinct held' \<and> fst ` objs h' = set held'"
  using assms
proof (induction rs arbitrary: held h)
  case (Cons r rs)
  show ?case
  proof (cases r)
    case (Get sz)
    obtain p h' where a: "alloc sz h = Some (p, h')" "ok h'" "p = 0 \<longrightarrow> h' = h"
      "p \<noteq> 0 \<longrightarrow> (\<exists>n\<ge>sz. objs h' = insert (p, n) (objs h) \<and> (p, n) \<notin> objs h)" "place h' = place h" using alloc_law [OF Cons.prems(1), of sz] Cons.prems(4) Get by auto
    have "distinct (if p = 0 then held else held @ [p]) \<and> fst ` objs h' = set (if p = 0 then held else held @ [p])"
    proof (cases "p = 0")
      case False
      then obtain n where n: "objs h' = insert (p, n) (objs h)" "(p, n) \<notin> objs h" using a(4) by blast
      have "p \<notin> set held"
      proof
        assume "p \<in> set held"
        then obtain k where k: "(p, k) \<in> objs h" using Cons.prems(3) by force
        then show False using same_address [OF a(2), of p n k] n by auto
      qed
      then show ?thesis using n(1) False Cons.prems(2,3) by auto
    qed (use a(3) Cons.prems(2,3) in simp)
    then show ?thesis using Cons.IH [OF a(2)] Cons.prems(4) a(1,5) Get by auto
  next
    case (Drop i)
    show ?thesis
    proof (cases "i < length held")
      case True
      obtain h' where "free (held ! i) h = Some (0, h')" "ok h'" "place h' = place h" "fst ` objs h' = set (take i held @ drop (Suc i) held)"
        "distinct (take i held @ drop (Suc i) held)" using serve_step_drop [OF Cons.prems(1-3) True] by blast
      then show ?thesis using Cons.IH [of h' "take i held @ drop (Suc i) held"] Cons.prems(4) Drop True by auto
    next
      case False
      then show ?thesis using Cons.IH [OF Cons.prems(1-3)] Cons.prems(4) Drop by auto
    qed
  qed
qed simp

end

interpretation ems: allocator gc_alloc_vo gc_free_vo heap_ok objects hmem "\<lambda>h. (base_addr h, current_size h)"
proof
  fix h p n q k
  show "heap_ok h \<Longrightarrow> (p, n) \<in> objects h \<Longrightarrow> (q, k) \<in> objects h \<Longrightarrow> (p, n) = (q, k) \<or> p + n \<le> q \<or> q + k \<le> p"
    by (rule objects_apart)
  show "heap_ok h \<Longrightarrow> (p, n) \<in> objects h \<Longrightarrow> 0 < n"
    using object_bounds(3) [of h p n] by simp
next
  fix h and sz :: nat assume a: "heap_ok h" "sz < 2 ^ 32"
  show "\<exists>p h'. gc_alloc_vo sz h = Some (p, h') \<and> heap_ok h' \<and> (base_addr h', current_size h') = (base_addr h, current_size h) \<and> (p = 0 \<longrightarrow> h' = h) \<and>
     (p \<noteq> 0 \<longrightarrow> (\<exists>n\<ge>sz. objects h' = insert (p, n) (objects h) \<and> (p, n) \<notin> objects h)) \<and>
     (\<forall>(q, k) \<in> objects h. \<forall>x. q \<le> x \<and> x < q + k \<longrightarrow> hmem h' x = hmem h x)"
    using alloc_ok [OF a] a(1) unfolding keeps_def same_heap_def by (elim disjE exE conjE) auto
next
  fix h p n assume "heap_ok h" "(p, n) \<in> objects h"
  then show "\<exists>h'. gc_free_vo p h = Some (0, h') \<and> heap_ok h' \<and> (base_addr h', current_size h') = (base_addr h, current_size h) \<and> objects h' = objects h - {(p, n)} \<and>
     (\<forall>(q, k) \<in> objects h'. \<forall>x. q \<le> x \<and> x < q + k \<longrightarrow> hmem h' x = hmem h x)"
    using free_ok [of h p n] unfolding keeps_def same_heap_def by auto
qed

end
