(* ===== verification/Ems_Realloc.thy ===== *)
theory Ems_Realloc
  imports Ems_Alloc
begin

text \<open>
  Reallocation. An object that is large enough stays; one with a free chunk behind it that makes up for
  the rest grows in place; any other is moved. Growing in place is where the code falls short of the
  invariant: it never counts the bytes it takes, it does not tell the chunk behind an exact fit that its
  neighbour is in use now, and a rest of eight bytes is too small for a chunk of its own.
\<close>

section \<open>Growing in place\<close>

definition grown_heap :: "nat \<Rightarrow> nat \<Rightarrow> nat \<Rightarrow> gc_heap \<Rightarrow> gc_heap" where
  "grown_heap p tot s h = clear_bytes (p + s) (tot - s) (h\<lparr>hmem := hmu_set_size (hmem h) p tot\<rparr>)"

lemma gap_limit: "gap h v xs n ys \<Longrightarrow> n < 2 ^ 30"
  using rowsD(3) [of h v xs n ys] free_indexD(1) [of h "gap_frees h xs n ys"] by (auto simp: gap_def geometry_def)

lemma unlink_behind:
  assumes sh: "heap_shape h (xs @ (s, True) # (t, False) # ys)" and p: "p = base_addr h + extent xs"
  shows "\<exists>h1. unlink_hmu (p + s) h = Some (True, h1) \<and> gap h1 False xs (s + t) ys \<and> (\<forall>x. p \<le> x \<and> x < p + s \<longrightarrow> hmem h1 x = hmem h x) \<and>
     touches (index_bytes h (frees (base_addr h) (xs @ (s, True) # (t, False) # ys))) h h1"
proof -
  let ?ys = "(t, False) # ys" and ?F = "frees (base_addr h) (xs @ (s, True) # (t, False) # ys)"
  note sp = shape_split [OF sh]
  have F: "gap_frees h xs s ?ys = ?F" by (simp add: gap_frees_def)
  have rw: "row (hmem h) (pool_end h) True (p + s) ?ys" using rowsD(2) [OF sp(1)] p by simp
  have c: "(p + s, t) \<in> gap_frees h xs s ?ys" using p by (simp add: gap_frees_def)
  have hd: "hmu_is (hmem h) (p + s) HMU_FC True t" "16 \<le> t" "8 dvd t" using rw by auto
  from gap_unlink [OF gap_used [OF sh] c hd(1)] obtain h1 where r: "unlink_hmu (p + s) h = Some (True, h1)" "rows h1 True xs s ?ys"
    "free_index h1 (gap_frees h xs s ?ys - {(p + s, t)})" "touches (index_bytes h (gap_frees h xs s ?ys)) h h1"
    "\<forall>x. p \<le> x \<and> x < p + s \<longrightarrow> hmem h1 x = hmem h x" using p by blast
  have sel: "base_addr h1 = base_addr h" using touches_sel [OF r(4)] by simp
  have "rows h1 False xs (s + t) ys" using r(2) hd(3) by (simp add: rows_def add.assoc)
  moreover have "gap_frees h xs s ?ys - {(p + s, t)} = gap_frees h1 xs (s + t) ys"
  proof -
    have "(p + s, t) \<notin> frees (base_addr h) xs" "(p + s, t) \<notin> frees (p + s + t) ys"
      using frees_bounds [of "(p + s, t)" "base_addr h" xs] frees_bounds [of "(p + s, t)" "p + s + t" ys] hd(2) sp(3) p by auto
    then show ?thesis using sel p by (auto simp: gap_frees_def add.assoc)
  qed
  ultimately show ?thesis using r F by (auto simp: gap_def)
qed

lemma grown_gap:
  assumes g: "gap h False xs z ys" and p: "p = base_addr h + extent xs" and hd: "hmu_is (hmem h) p HMU_VO pin s" "hmu_is_vo_freed (hmem h) p = 0"
    and s: "16 \<le> s" "s < tot" "tot \<le> z" "8 dvd tot"
  shows "gap (grown_heap p tot s h) False xs z ys" "hmu_is (hmem (grown_heap p tot s h)) p HMU_VO pin tot" "hmu_is_vo_freed (hmem (grown_heap p tot s h)) p = 0"
    "touches ({p..<p + 4} \<union> {p + s..<p + tot}) h (grown_heap p tot s h)" "p + s \<le> x \<Longrightarrow> x < p + tot \<Longrightarrow> hmem (grown_heap p tot s h) x = 0"
proof -
  let ?h = "grown_heap p tot s h"
  have lim: "tot < 2 ^ 30" using gap_limit [OF g] s(3) by simp
  have mem: "hmem ?h x = (if p + s \<le> x \<and> x < p + tot then 0 else hmu_set_size (hmem h) p tot x)" for x
    using s by (simp add: grown_heap_def clear_bytes_def memset_zero_def)
  show t: "touches ({p..<p + 4} \<union> {p + s..<p + tot}) h ?h"
    unfolding touches_def
  proof
    show "\<forall>a. a \<notin> {p..<p + 4} \<union> {p + s..<p + tot} \<longrightarrow> hmem ?h a = hmem h a"
      unfolding mem using setters_outside(5) [of _ p "hmem h" tot] by auto
  qed (simp add: grown_heap_def clear_bytes_def)
  show "gap ?h False xs z ys" by (rule gap_touches [OF g t]) (use p s in \<open>auto simp: grown_heap_def clear_bytes_def\<close>)
  have same: "header (hmem ?h) p = header (hmu_set_size (hmem h) p tot) p" by (rule header_cong) (use s in \<open>simp add: mem\<close>)
  have "hmu_is (hmu_set_size (hmem h) p tot) p HMU_VO pin tot" by (rule hmu_after_set(5) [OF lim s(4) hd(1)])
  then show "hmu_is (hmem ?h) p HMU_VO pin tot" using same by (simp add: hmu_is_def hmu_getters)
  have "hmu_is_vo_freed (hmu_set_size (hmem h) p tot) p = 0" using freed_after_set(4) [OF lim s(4)] hd(2) by simp
  then show "hmu_is_vo_freed (hmem ?h) p = 0" using same by (simp add: hmu_getters)
  show "hmem ?h x = 0" if "p + s \<le> x" "x < p + tot" using that by (simp add: mem)
qed

text \<open>The rest of the gap behind the object becomes a free chunk.\<close>

lemma grow_rest:
  assumes g: "gap h False xs (tot + k) ys" and p: "p = base_addr h + extent xs" and tot: "16 \<le> tot" "8 dvd tot" "16 \<le> k"
    and hd: "hmu_is (hmem h) p HMU_VO (used_after True xs) tot" "hmu_is_vo_freed (hmem h) p = 0"
  shows "\<exists>h2. gci_add_fc (p + tot) k h = Some (True, h2) \<and>
     heap_shape (h2\<lparr>hmem := hmu_mark_pinuse (hmem h2) (p + tot)\<rparr>) (xs @ (tot, True) # (k, False) # ys) \<and>
     touches (index_bytes h (gap_frees h xs (tot + k) ys) \<union> {p + tot..<p + (tot + k)}) h (h2\<lparr>hmem := hmu_mark_pinuse (hmem h2) (p + tot)\<rparr>) \<and>
     (\<forall>x. p \<le> x \<and> x < p + tot \<longrightarrow> hmu_mark_pinuse (hmem h2) (p + tot) x = hmem h x)"
proof -
  let ?F = "gap_frees h xs (tot + k) ys"
  let ?B = "index_bytes h ?F \<union> {p + tot..<p + (tot + k)}"
  obtain h2 where r: "gci_add_fc (p + tot) k h = Some (True, h2)" "touches ?B h h2"
    "gap (h2\<lparr>hmem := hmu_mark_pinuse (hmem h2) (p + tot)\<rparr>) True xs tot ((k, False) # ys)"
    using gap_split_off [OF g p refl tot(2,3)] by blast
  let ?h = "h2\<lparr>hmem := hmu_mark_pinuse (hmem h2) (p + tot)\<rparr>"
  have tm: "touches ?B h2 ?h" by (rule touches_mem) (use setters_outside(2) [of _ "p + tot" "hmem h2"] tot(3) in auto)
  note T = touches_trans [OF r(2) tm]
  have "avoids (index_bytes h ?F) p (tot + k)"
  proof -
    have "rows h False xs (tot + k) ys" using g by (simp add: gap_def)
    from rowsD(5,6) [OF this] have ad: "addable h ?F p (tot + k)" by (intro gap_addable [OF g]) (use p tot in auto)
    note ix = addableD(1) [OF ad]
    show ?thesis
      using index_bytes_apart(3) [OF free_indexD(1) [OF ix] _ addableD(2) [OF ad]] free_indexD(5) [OF ix] addableD(3,9) [OF ad] by simp
  qed
  then have av: "x \<notin> ?B" if "p \<le> x" "x < p + tot" for x using that avoidsD [of _ p "tot + k" x] by auto
  have inside: "hmem ?h x = hmem h x" if "p \<le> x" "x < p + tot" for x by (rule touchesD [OF T av [OF that]])
  have "header (hmem ?h) p = header (hmem h) p" by (rule header_cong) (use inside tot in auto)
  moreover have "base_addr ?h + extent xs = p" using touches_sel(1) [OF T] p by simp
  ultimately have "heap_shape ?h (xs @ (tot, True) # (k, False) # ys)"
    using r(3) hd tot(1) by (intro shape_join) (auto simp: gap_def hmu_is_def hmu_getters)
  then show ?thesis using r(1) T inside by auto
qed

text \<open>The growth leaves a chunk of \<open>s + t - tot\<close> bytes, or nothing.\<close>

lemma grow_in_place_law:
  assumes sh: "heap_shape h (xs @ (s, True) # (t, False) # ys)" and p: "p = base_addr h + extent xs"
    and tot: "s < tot" "tot \<le> s + t" "8 dvd tot" "tot = s + t \<or> tot + 16 \<le> s + t"
  shows "\<exists>h'. grow_in_place p tot s h = Some (True, h') \<and> same_heap h h' \<and> total_free_size h' = total_free_size h \<and> highmark_size h' = highmark_size h \<and>
     (if tot < s + t then heap_shape h' (xs @ (tot, True) # (s + t - tot, False) # ys)
      else gap h' False xs tot ys \<and> hmu_is (hmem h') p HMU_VO (used_after True xs) tot \<and> hmu_is_vo_freed (hmem h') p = 0) \<and>
     (\<forall>x. p + 4 \<le> x \<and> x < p + s \<longrightarrow> hmem h' x = hmem h x) \<and> (\<forall>x. p + s \<le> x \<and> x < p + tot \<longrightarrow> hmem h' x = 0) \<and>
     (\<forall>x. x \<notin> index_bytes h (frees (base_addr h) (xs @ (s, True) # (t, False) # ys)) \<union> {p..<p + s + t} \<longrightarrow> hmem h' x = hmem h x)"
proof -
  let ?F = "frees (base_addr h) (xs @ (s, True) # (t, False) # ys)"
  note sp = shape_split [OF sh, folded p]
  have nxt: "hmu_is (hmem h) (p + s) HMU_FC True t" "16 \<le> t" using rowsD(2) [OF sp(1)] p by auto
  obtain h1 where u: "unlink_hmu (p + s) h = Some (True, h1)" "gap h1 False xs (s + t) ys" "\<forall>x. p \<le> x \<and> x < p + s \<longrightarrow> hmem h1 x = hmem h x"
    "touches (index_bytes h ?F) h h1" using unlink_behind [OF sh p] by blast
  have sel1: "base_addr h1 = base_addr h" using touches_sel [OF u(4)] by simp
  have p1: "p = base_addr h1 + extent xs" using p sel1 by simp
  have same: "header (hmem h1) p = header (hmem h) p" by (rule header_cong) (use u(3) sp(3) in simp)
  have hd: "hmu_is (hmem h1) p HMU_VO (used_after True xs) s" "hmu_is_vo_freed (hmem h1) p = 0"
    using sp(2,5) same by (simp_all add: hmu_is_def hmu_getters)
  let ?h = "grown_heap p tot s h1"
  note g = grown_gap [OF u(2) p1 hd sp(3) tot(1,2,3)]
  have T1: "touches (index_bytes h ?F \<union> {p..<p + s + t}) h ?h"
    by (rule touches_trans [OF touches_mono [OF u(4)] touches_mono [OF g(4)]]) (use tot sp(3) in auto)
  have old: "hmem ?h x = hmem h x" if "p + 4 \<le> x" "x < p + s" for x using touchesD [OF g(4), of x] u(3) that by simp
  have lim: "add32 s t = s + t" using gap_limit [OF u(2)] by (simp add: add32_nat)
  have unf: "grow_in_place p tot s h =
      (if tot < s + t then (case gci_add_fc (p + tot) (s + t - tot) ?h of None \<Rightarrow> None
          | Some (ok, h) \<Rightarrow> if \<not> ok then Some (False, h) else Some (True, h\<lparr>hmem := hmu_mark_pinuse (hmem h) (p + tot)\<rparr>))
       else Some (True, ?h))"
    using u(1) nxt(1) lim by (simp add: grow_in_place_def hmu_is_def grown_heap_def Let_def)
  show ?thesis
  proof (cases "tot < s + t")
    case False
    then show ?thesis using unf g(1-3,5) T1 touches_same [OF T1] touches_sel [OF T1] old touchesD [OF T1] tot(2)
      by (intro exI [of _ ?h]) (auto simp: add.assoc)
  next
    case True
    define k where "k = s + t - tot"
    have k: "s + t = tot + k" "16 \<le> k" using True tot(4) by (auto simp: k_def)
    have ph: "p = base_addr ?h + extent xs" using touches_sel(1) [OF T1] p by simp
    have tot16: "16 \<le> tot" using tot(1) sp(3) by simp
    let ?B = "index_bytes ?h (gap_frees ?h xs (s + t) ys) \<union> {p + tot..<p + (s + t)}"
    obtain h2 where r: "gci_add_fc (p + tot) k ?h = Some (True, h2)"
      "heap_shape (h2\<lparr>hmem := hmu_mark_pinuse (hmem h2) (p + tot)\<rparr>) (xs @ (tot, True) # (k, False) # ys)"
      "touches ?B ?h (h2\<lparr>hmem := hmu_mark_pinuse (hmem h2) (p + tot)\<rparr>)"
      "\<forall>x. p \<le> x \<and> x < p + tot \<longrightarrow> hmu_mark_pinuse (hmem h2) (p + tot) x = hmem ?h x"
      using grow_rest [OF g(1) [unfolded k(1)] ph tot16 tot(3) k(2) g(2,3)] unfolding k(1) by blast
    let ?h' = "h2\<lparr>hmem := hmu_mark_pinuse (hmem h2) (p + tot)\<rparr>"
    have "?B \<subseteq> index_bytes h ?F \<union> {p..<p + s + t}"
    proof -
      have "gap_frees ?h xs (s + t) ys = gap_frees h xs (s + t) ys" by (rule gap_frees_cong [OF T1])
      moreover have "gap_frees h xs (s + t) ys \<subseteq> ?F" by (auto simp: gap_frees_def add.assoc)
      ultimately show ?thesis using touches_sel(3) [OF T1] by (auto simp: index_bytes_def)
    qed
    from touches_trans [OF T1 touches_mono [OF r(3) this]] have T: "touches (index_bytes h ?F \<union> {p..<p + s + t}) h ?h'" .
    have "grow_in_place p tot s h = Some (True, ?h')" using unf r(1) True by (simp add: k_def)
    then show ?thesis using r(2,4) touches_same [OF T] touches_sel [OF T] touchesD [OF T] old g(5) tot True
      by (intro exI [of _ ?h']) (auto simp: k_def [symmetric])
  qed
qed

text \<open>A rest of eight bytes: the link of the list takes the place of the size at the end of the chunk.\<close>

lemma small_rest_loses_tag:
  assumes "hmu_is_in_heap q h" and "kfc_normal_list h ! 1 = 0"
  shows "\<exists>h'. gci_add_fc q 8 h = Some (True, h') \<and> hmu_get_size (hmem h') q = 8 \<and> rd 4 (hmem h') (q + 8 - 4) = 0"
proof -
  let ?m = "hmu_set_size (hmu_set_ut (hmem h) q HMU_FC) q 8"
  obtain ty pin z where "hmu_is (hmu_set_ut (hmem h) q HMU_FC) q ty pin z" using hmu_is_ex by blast
  then have "hmu_is ?m q ty pin 8" by (intro hmu_after_set(5)) simp_all
  then have sz: "hmu_get_size ?m q = 8" by (simp add: hmu_is_def)
  let ?h = "h\<lparr>hmem := wr 4 (wr 4 ?m (q + 4) 8) (q + 4) 0, kfc_normal_list := (kfc_normal_list h)[1 := q]\<rparr>"
  have "gci_add_fc q 8 h = Some (True, ?h)"
    using assms sz by (simp add: gci_add_fc_def hmu_set_free_size_def Let_def normal_iff hmu_is_in_heap_def set_hmu_normal_node_next_def add.commute [of 4 q])
  moreover have "header (hmem ?h) q = header ?m q" by (rule header_cong) simp
  then have "hmu_get_size (hmem ?h) q = 8" using sz by (simp add: hmu_getters)
  moreover have "rd 4 (hmem ?h) (q + 8 - 4) = 0" by (simp add: rd_wr_same add.commute [of 4 q])
  ultimately show ?thesis by blast
qed

section \<open>The operation\<close>

text \<open>The size asked for, as a chunk; unlike in an allocation there is no least size.\<close>

definition grow_size :: "nat \<Rightarrow> nat" where
  "grow_size sz = (sz + 11) div 8 * 8"

lemma realloc_run:
  assumes "\<not> is_heap_corrupted h" and "sz + 11 < 2 ^ 32"
  shows "gc_realloc_vo (p + 4) sz h =
     (let s = hmu_get_size (hmem h) p in
      if grow_size sz \<le> s then Some (p + 4, h)
      else if hmu_is_in_heap (p + s) h \<and> hmu_get_ut (hmem h) (p + s) = HMU_FC \<and> grow_size sz \<le> add32 s (hmu_get_size (hmem h) (p + s)) then
        map_option (\<lambda>(ok, h). (if ok then p + 4 else 0, h)) (grow_in_place p (grow_size sz) s h)
      else move_object (p + 4) (grow_size sz) s h)"
proof -
  have "add32 HMU_SIZE sz = sz + 4" "GC_ALIGN_8 (sz + 4) = grow_size sz" using request_chunk(2) [of sz] assms(2) by (auto simp: grow_size_def)
  moreover have "sz \<le> grow_size sz" by (simp add: grow_size_def)
  ultimately show ?thesis using assms(1)
    by (auto simp: gc_realloc_vo_def Let_def obj_to_hmu_def HMU_SIZE_def split: option.splits)
qed

lemma shape_size: "heap_shape h (xs @ (s, u) # ys) \<Longrightarrow> hmu_get_size (hmem h) (base_addr h + extent xs) = s"
  using shape_split(2) [of h xs s u ys] by (simp add: hmu_is_def)

lemma realloc_grows:
  assumes ok: "heap_ok h" and cs: "heap_chunks h = xs @ (s, True) # (t, False) # ys" and p: "p = base_addr h + extent xs"
    and sz: "sz < 2 ^ 32" "s < grow_size sz" "grow_size sz = s + t \<or> grow_size sz + 16 \<le> s + t"
  shows "\<exists>h'. gc_realloc_vo (p + 4) sz h = Some (p + 4, h') \<and> same_heap h h' \<and> total_free_size h' = total_free_size h \<and>
     (if grow_size sz < s + t then heap_shape h' (xs @ (grow_size sz, True) # (s + t - grow_size sz, False) # ys)
      else gap h' False xs (grow_size sz) ys \<and> hmu_is (hmem h') p HMU_VO (used_after True xs) (grow_size sz)) \<and>
     (\<forall>x. p + 4 \<le> x \<and> x < p + s \<longrightarrow> hmem h' x = hmem h x) \<and> (\<forall>x. p + s \<le> x \<and> x < p + grow_size sz \<longrightarrow> hmem h' x = 0) \<and>
     keeps (objects h - {(p + 4, s - 4)}) h h'"
proof -
  note sh = heap_okD(1) [OF ok, unfolded cs]
  have lim: "s + t < 2 ^ 30" using heap_ok_size [OF ok] cs by simp
  have tot: "grow_size sz \<le> s + t" "8 dvd grow_size sz" using sz(3) by (auto simp: grow_size_def)
  have sz11: "sz + 11 < 2 ^ 32" using tot(1) lim unfolding grow_size_def by simp
  have nxt: "hmu_is (hmem h) (p + s) HMU_FC True t" "16 \<le> t" using rowsD(2) [OF shape_split(1) [OF sh]] p by auto
  have "hmu_is_in_heap (p + s) h" using rowsD(3) [OF shape_split(1) [OF sh]] p nxt(2) by (simp add: hmu_is_in_heap_def)
  moreover have "add32 s t = s + t" using lim by (simp add: add32_nat)
  ultimately have run: "gc_realloc_vo (p + 4) sz h = map_option (\<lambda>(ok, h). (if ok then p + 4 else 0, h)) (grow_in_place p (grow_size sz) s h)"
    using realloc_run [OF heap_okD(2) [OF ok] sz11, of p] shape_size [OF sh] p nxt(1) sz(2) tot(1) by (simp add: hmu_is_def Let_def)
  let ?F = "frees (base_addr h) (xs @ (s, True) # (t, False) # ys)"
  obtain h' where g: "grow_in_place p (grow_size sz) s h = Some (True, h')" "same_heap h h'" "total_free_size h' = total_free_size h"
    "if grow_size sz < s + t then heap_shape h' (xs @ (grow_size sz, True) # (s + t - grow_size sz, False) # ys)
      else gap h' False xs (grow_size sz) ys \<and> hmu_is (hmem h') p HMU_VO (used_after True xs) (grow_size sz) \<and> hmu_is_vo_freed (hmem h') p = 0"
    "\<forall>x. p + 4 \<le> x \<and> x < p + s \<longrightarrow> hmem h' x = hmem h x" "\<forall>x. p + s \<le> x \<and> x < p + grow_size sz \<longrightarrow> hmem h' x = 0"
    "\<forall>x. x \<notin> index_bytes h ?F \<union> {p..<p + s + t} \<longrightarrow> hmem h' x = hmem h x"
    using grow_in_place_law [OF sh p sz(2) tot sz(3)] by blast
  have "keeps (in_use (base_addr h) xs \<union> in_use (base_addr h + extent xs + extent [(s, True), (t, False)]) ys) h h'"
    by (rule keeps_outside) (use sh g(7) p in \<open>auto simp: add.assoc\<close>)
  moreover have "objects h - {(p + 4, s - 4)} \<subseteq> in_use (base_addr h) xs \<union> in_use (base_addr h + extent xs + extent [(s, True), (t, False)]) ys"
    using cs p by (auto simp: objects_def add.assoc)
  ultimately have "keeps (objects h - {(p + 4, s - 4)}) h h'" unfolding keeps_def by blast
  moreover have "gc_realloc_vo (p + 4) sz h = Some (p + 4, h')" using run g(1) by simp
  ultimately show ?thesis using g(2-6) by auto
qed

text \<open>Moving: a new object with the old bytes, then zeroes; the old one is gone.\<close>

lemma move_object_law:
  assumes ok: "heap_ok h" and o: "(old, k) \<in> objects h" and t: "16 \<le> t" "8 dvd t" "k + 4 \<le> t"
  shows "move_object old t (k + 4) h = Some (0, h) \<and> (\<forall>c \<in> frees (base_addr h) (heap_chunks h). snd c < t) \<or>
    (\<exists>q n h'. move_object old t (k + 4) h = Some (q, h') \<and> q \<noteq> 0 \<and> t \<le> n + 4 \<and> heap_ok h' \<and> (q, n) \<notin> objects h \<and>
       objects h' = insert (q, n) (objects h - {(old, k)}) \<and> keeps (objects h - {(old, k)}) h h' \<and>
       (\<forall>i<n. hmem h' (q + i) = (if i < k then hmem h (old + i) else 0)))"
  using alloc_hmu_gap [OF heap_okD(1) [OF ok] t(2,1)]
proof (elim disjE exE conjE)
  assume "alloc_hmu t h = Some (0, h)" and "\<forall>c \<in> frees (base_addr h) (heap_chunks h). snd c < t"
  then show ?thesis by (simp add: move_object_def alloc_hmu_ex_def)
next
  fix xs z ys p n ys' h2
  assume a: "heap_chunks h = xs @ (z, False) # ys" "p = base_addr h + extent xs" "best (frees (base_addr h) (heap_chunks h)) t (p, z)"
    "gap h2 True xs n ys'" "hmu_is (hmem h2) p HMU_FC (used_after True xs) n" "same_heap h h2" "counted n h h2"
    "\<forall>x. x \<notin> index_bytes h (frees (base_addr h) (heap_chunks h)) \<union> {p..<p + z + 4} \<longrightarrow> hmem h2 x = hmem h x"
    "n = (if t + 16 \<le> z then t else z)" "ys' = (if t + 16 \<le> z then [(z - t, False)] else []) @ ys"
    and p0: "p \<noteq> 0" and r1: "alloc_hmu t h = Some (p, h2)"
  let ?m = "hmu_unfree_vo (hmu_set_ut (hmem h2) p HMU_VO) p"
  let ?h3 = "clear_bytes (p + 4) (n - 4) (h2\<lparr>hmem := ?m\<rparr>)"
  have size2: "hmu_get_size (hmem h2) p = n" using a(5) by (simp add: hmu_is_def)
  have t3: "touches {p + 4..<p + n} (h2\<lparr>hmem := ?m\<rparr>) ?h3" unfolding clear_bytes_def by (rule touches_mem) (auto simp: memset_zero_def)
  have heads: "kfc_normal_list ?h3 = kfc_normal_list h2" by (simp add: clear_bytes_def)
  note al = allocates_gap [OF a t(1) refl t3 heads order_refl]
  note ob = allocates_objects [OF ok al(1) t(1), unfolded al(2)]
  have kn: "k \<le> n - 4" "4 \<le> n" using t al(3) by auto
  have old3: "(old, k) \<in> objects ?h3" "(p + 4, n - 4) \<in> objects ?h3" using o ob(2) by auto
  have ne: "(p + 4, n - 4) \<noteq> (old, k)" using ob(3) o by auto
  have ap: "p + 4 + (n - 4) \<le> old \<or> old + k \<le> p + 4" using objects_apart [OF ob(1) old3(2,1)] ne by auto
  have zero: "hmem ?h3 x = 0" if "p + 4 \<le> x" "x < p + 4 + (n - 4)" for x using that kn(2) by (simp add: clear_bytes_def memset_zero_def)
  have bytes_old: "hmem ?h3 (old + i) = hmem h (old + i)" if "i < k" for i using ob(4) o that by (force simp: keeps_def)
  let ?m4 = "copy_bytes (hmem ?h3) (p + 4) old k"
  let ?h4 = "?h3\<lparr>hmem := ?m4\<rparr>"
  have t4: "touches {p + 4..<p + 4 + (n - 4)} ?h3 ?h4" by (rule touches_mem) (use kn(1) in \<open>auto simp: copy_bytes_def\<close>)
  have ok4: "heap_ok ?h4" "objects ?h4 = objects ?h3" using write_object [OF ob(1) old3(2) t4] by simp_all
  obtain h5 where f: "gc_free_vo old ?h4 = Some (0, h5)" "heap_ok h5" "objects h5 = objects ?h4 - {(old, k)}" "keeps (objects h5) ?h4 h5"
    using free_ok [OF ok4(1), of old k] ok4(2) old3(1) by auto
  have o5: "objects h5 = insert (p + 4, n - 4) (objects h - {(old, k)})" using f(3) ok4(2) ob(2) ne by auto
  have lim: "n - 4 < 2 ^ 32" "k < 2 ^ 32" "old \<noteq> 0"
    using gap_limit [OF a(4)] kn(1) object_bounds(1) [OF ok o] by auto
  have "b_memcpy_s (hmem ?h3) (p + 4) (of_nat (n - 4)) old (of_nat k) = Inr (0, ?m4)"
  proof -
    have u: "unat (of_nat k :: u32) = k" "unat (of_nat (n - 4) :: u32) = n - 4" using lim by (simp_all add: unsigned_of_nat take_bit_nat_eq_self)
    have "disjnt_range (p + 4) (unat (of_nat k :: u32)) old (unat (of_nat k :: u32))" unfolding u disjnt_range_def using ap kn by auto
    moreover have "(of_nat k :: u32) \<le> of_nat (n - 4)" unfolding word_le_nat_alt u by (rule kn(1))
    moreover have "(of_nat k :: u32) \<noteq> 0" using u(1) object_bounds(3) [OF ok o] by (metis not_numeral_le_zero unsigned_0)
    ultimately show ?thesis using b_memcpy_s_cases [of "p + 4" "of_nat k" old] lim(3) u(1) by simp
  qed
  then have run: "move_object old t (k + 4) h = Some (p + 4, h5)"
    using r1 p0 size2 lim(3) f(1) by (simp add: move_object_def alloc_hmu_ex_def hmu_to_obj_def HMU_SIZE_def Let_def clear_bytes_def)
  have others: "hmem h5 x = hmem h x" if ql: "(q, l) \<in> objects h - {(old, k)}" and x: "q \<le> x" "x < q + l" for q l x
  proof -
    have q: "(q, l) \<in> objects h" "(q, l) \<noteq> (old, k)" using ql by auto
    have "(q, l) \<in> objects h5" "(q, l) \<in> objects ?h3" using q o5 ob(2) by auto
    then have "hmem h5 x = ?m4 x" using f(4) x by (force simp: keeps_def)
    moreover have "p + 4 + (n - 4) \<le> q \<or> q + l \<le> p + 4"
      using objects_apart [OF ob(1) old3(2) \<open>(q, l) \<in> objects ?h3\<close>] ob(3) q(1) by auto
    then have "?m4 x = hmem ?h3 x" using x kn(1) by (auto simp: copy_bytes_def)
    moreover have "hmem ?h3 x = hmem h x" using ob(4) q(1) x by (force simp: keeps_def)
    ultimately show ?thesis by simp
  qed
  have "keeps (objects h - {(old, k)}) h h5" unfolding keeps_def using others by blast
  moreover have "hmem h5 (p + 4 + i) = (if i < k then hmem h (old + i) else 0)" if "i < n - 4" for i
  proof -
    have "hmem h5 (p + 4 + i) = ?m4 (p + 4 + i)" using f(4) o5 that by (force simp: keeps_def)
    then show ?thesis using bytes_old zero that by (simp add: copy_bytes_def)
  qed
  ultimately show ?thesis using run f(2) o5 ob(3) al(3) kn(2)
    by (intro disjI2 exI [of _ "p + 4"] exI [of _ "n - 4"] exI [of _ h5]) simp
qed

lemma shape_behind:
  assumes sh: "heap_shape h (xs @ (s, True) # ys)" and p: "p = base_addr h + extent xs"
  shows "hmu_is_in_heap (p + s) h \<and> hmu_get_ut (hmem h) (p + s) = HMU_FC \<longleftrightarrow> (\<exists>t zs. ys = (t, False) # zs)"
    and "ys = (t, False) # zs \<Longrightarrow> hmu_get_size (hmem h) (p + s) = t"
proof -
  note d = rowsD(2,3) [OF shape_split(1) [OF sh]]
  have "hmu_is_in_heap (p + s) h \<longleftrightarrow> ys \<noteq> []"
  proof (cases ys)
    case (Cons c zs)
    then have "16 \<le> extent ys" using d(1) by (cases c) auto
    then show ?thesis using d(2) p Cons by (simp add: hmu_is_in_heap_def)
  qed (use d(2) p in \<open>simp add: hmu_is_in_heap_def\<close>)
  moreover have "hmu_get_ut (hmem h) (p + s) = HMU_FC \<longleftrightarrow> \<not> u" if "ys = (t, u) # zs" for t u zs
    using d(1) p that by (auto simp: hmu_is_def HMU_VO_def HMU_FC_def)
  ultimately show "hmu_is_in_heap (p + s) h \<and> hmu_get_ut (hmem h) (p + s) = HMU_FC \<longleftrightarrow> (\<exists>t zs. ys = (t, False) # zs)"
    by (cases ys) force+
  show "ys = (t, False) # zs \<Longrightarrow> hmu_get_size (hmem h) (p + s) = t" using d(1) p by (simp add: hmu_is_def)
qed

text \<open>An object with no room behind it: it stays, or it is moved, or there is no chunk for it.\<close>

lemma realloc_moves:
  assumes ok: "heap_ok h" and o: "(p, k) \<in> objects h" and sz: "sz < 2 ^ 32"
    and room: "\<not> (\<exists>xs t ys. heap_chunks h = xs @ (k + 4, True) # (t, False) # ys \<and> p = base_addr h + extent xs + 4 \<and> grow_size sz \<le> k + 4 + t)"
  shows "gc_realloc_vo p sz h = Some (p, h) \<and> sz \<le> k \<or>
    gc_realloc_vo p sz h = Some (0, h) \<and> k < sz \<and> (\<forall>c \<in> frees (base_addr h) (heap_chunks h). snd c < grow_size sz) \<or>
    (\<exists>q n h'. gc_realloc_vo p sz h = Some (q, h') \<and> q \<noteq> 0 \<and> sz \<le> n \<and> k < sz \<and> heap_ok h' \<and> (q, n) \<notin> objects h \<and>
       objects h' = insert (q, n) (objects h - {(p, k)}) \<and> keeps (objects h - {(p, k)}) h h' \<and>
       (\<forall>i<n. hmem h' (q + i) = (if i < k then hmem h (p + i) else 0)))"
proof -
  obtain xs s ys where cs: "heap_chunks h = xs @ (s, True) # ys" "p = base_addr h + extent xs + 4" "k = s - 4"
    using in_use_split o unfolding objects_def by blast
  note sh = heap_okD(1) [OF ok, unfolded cs(1)]
  note sp = shape_split(3,4) [OF sh]
  have s: "s = k + 4" using cs(3) sp(1) by simp
  let ?q = "base_addr h + extent xs"
  have lim: "s < 2 ^ 30" using heap_ok_size [OF ok] cs(1) by simp
  have gs: "sz + 4 \<le> grow_size sz" "8 dvd grow_size sz" "grow_size sz \<le> sz + 11" by (auto simp: grow_size_def)
  show ?thesis
  proof (cases "sz + 11 < 2 ^ 32")
    case False
    then have "gc_realloc_vo p sz h = Some (0, h)" using request_chunk(1) [OF sz] by (simp add: gc_realloc_vo_def Let_def)
    moreover have "2 ^ 30 \<le> grow_size sz" using False by (auto simp: grow_size_def)
    ultimately show ?thesis using free_chunk_limit [OF heap_okD(1) [OF ok]] lim s False by fastforce
  next
    case True
    have behind: "\<not> (hmu_is_in_heap (?q + s) h \<and> hmu_get_ut (hmem h) (?q + s) = HMU_FC \<and> grow_size sz \<le> add32 s (hmu_get_size (hmem h) (?q + s)))"
    proof
      assume b: "hmu_is_in_heap (?q + s) h \<and> hmu_get_ut (hmem h) (?q + s) = HMU_FC \<and> grow_size sz \<le> add32 s (hmu_get_size (hmem h) (?q + s))"
      then obtain t zs where ys: "ys = (t, False) # zs" using shape_behind(1) [OF sh refl] by blast
      have "s + t < 2 ^ 32" using heap_ok_size [OF ok] cs(1) ys by simp
      then have "grow_size sz \<le> s + t" using b shape_behind(2) [OF sh refl ys] by (simp add: add32_nat)
      then have "heap_chunks h = xs @ (k + 4, True) # (t, False) # zs \<and> p = base_addr h + extent xs + 4 \<and> grow_size sz \<le> k + 4 + t"
        using cs(1,2) ys s by simp
      then show False using room by blast
    qed
    have run: "gc_realloc_vo p sz h = (if grow_size sz \<le> s then Some (p, h) else move_object p (grow_size sz) s h)"
      using realloc_run [OF heap_okD(2) [OF ok] True, of ?q, unfolded Let_def shape_size [OF sh] if_not_P [OF behind]] cs(2) by (simp only:)
    show ?thesis
    proof (cases "grow_size sz \<le> s")
      case True
      then show ?thesis using run gs s by simp
    next
      case False
      have kz: "k < sz" using False s sp(2) unfolding grow_size_def by auto
      have t: "16 \<le> grow_size sz" "k + 4 \<le> grow_size sz" using False s sp(1) by auto
      have mv: "gc_realloc_vo p sz h = move_object p (grow_size sz) (k + 4) h" using run False s by simp
      from move_object_law [OF ok o t(1) gs(2) t(2)] show ?thesis
      proof (elim disjE exE conjE)
        fix q n h'
        assume r: "move_object p (grow_size sz) (k + 4) h = Some (q, h')" "q \<noteq> 0" "grow_size sz \<le> n + 4" "heap_ok h'" "(q, n) \<notin> objects h"
          "objects h' = insert (q, n) (objects h - {(p, k)})" "keeps (objects h - {(p, k)}) h h'"
          "\<forall>i<n. hmem h' (q + i) = (if i < k then hmem h (p + i) else 0)"
        have fits: "sz \<le> n" using r(3) gs(1) by simp
        show ?thesis
        proof (rule disjI2, rule disjI2, rule exI [of _ q], rule exI [of _ n], rule exI [of _ h'])
        qed (use r kz mv fits in simp)
      qed (use kz mv in simp)
    qed
  qed
qed

end
