(* ===== verification/Ems_Kfc.thy ===== *)
theory Ems_Kfc
  imports Ems_Alloc
begin

text \<open>
  Making and ending a heap, and what it reports about itself (\<open>ems_kfc.c\<close>), and the interface of the
  allocator to the rest of the runtime (\<open>mem_alloc.c\<close>). The heap structure is laid out as on 64-bit
  Linux, where a mutex has 40 bytes: it has 384 bytes, and the root of the tree is at offset 324.
\<close>

section \<open>Making a heap\<close>

definition GC_HEAP_STRUCT_SIZE :: nat where "GC_HEAP_STRUCT_SIZE = 384"
definition KFC_TREE_ROOT_BUF :: nat where "KFC_TREE_ROOT_BUF = 324"
definition TREE_NODE_SIZE :: nat where "TREE_NODE_SIZE = 32"

definition gc_get_heap_struct_size :: nat where "gc_get_heap_struct_size = GC_HEAP_STRUCT_SIZE"

text \<open>\<open>lock_ok\<close> is the result of \<open>os_mutex_init\<close>. Memory is changed even when that fails.\<close>

definition gc_init_internal :: "bool \<Rightarrow> nat \<Rightarrow> nat \<Rightarrow> nat \<Rightarrow> mem \<Rightarrow> mem \<times> gc_heap option" where
  "gc_init_internal lock_ok hp base heap_max_size m =
     (let m = memset_zero (memset_zero m hp GC_HEAP_STRUCT_SIZE) base heap_max_size in
      if \<not> lock_ok then (m, None)
      else
        let root = hp + KFC_TREE_ROOT_BUF;
            m = memset_zero m root TREE_NODE_SIZE;
            m = wr 4 m (root + 28) TREE_NODE_SIZE;
            m = hmu_set_size (hmu_set_ut m root HMU_FC) root TREE_NODE_SIZE;
            q = base;
            m = memset_zero m q TREE_NODE_SIZE;
            m = hmu_set_size (hmu_set_ut m q HMU_FC) q heap_max_size;
            m = hmu_mark_pinuse m q;
            m = wr 8 m (root + 12) q;
            m = wr 8 m (q + 20) root;
            m = wr 4 m (q + 28) heap_max_size
        in (m, Some \<lparr>heap_id = hp, base_addr = base, current_size = heap_max_size,
                     kfc_normal_list = replicate HMU_NORMAL_NODE_CNT 0, kfc_tree_root = root, is_heap_corrupted = False,
                     init_size = 0, highmark_size = 0, total_free_size = heap_max_size, hmem = m\<rparr>))"

text \<open>Pointers are rounded up to a multiple of eight; a difference of pointers is cut to 32 bits.\<close>

definition gc_align_ptr :: "nat \<Rightarrow> nat" where
  "gc_align_ptr a = (a + 7) mod 2 ^ 64 div 8 * 8"

definition ptr_diff_32 :: "nat \<Rightarrow> nat \<Rightarrow> nat" where
  "ptr_diff_32 a b = nat ((int a - int b) mod 2 ^ 32)"

definition gc_init_with_pool :: "bool \<Rightarrow> nat \<Rightarrow> nat \<Rightarrow> mem \<Rightarrow> mem \<times> gc_heap option" where
  "gc_init_with_pool lock_ok buf buf_size m =
     (let buf_end = buf + buf_size;
          buf_aligned = gc_align_ptr buf
      in if buf_size < APP_HEAP_SIZE_MIN then (m, None)
         else
           let base = gc_align_ptr (buf_aligned + GC_HEAP_STRUCT_SIZE) + GC_HEAD_PADDING;
               heap_max_size = ptr_diff_32 buf_end base div 8 * 8
           in gc_init_internal lock_ok buf_aligned base heap_max_size m)"

definition gc_init_with_struct_and_pool :: "bool \<Rightarrow> nat \<Rightarrow> nat \<Rightarrow> nat \<Rightarrow> nat \<Rightarrow> mem \<Rightarrow> mem \<times> gc_heap option" where
  "gc_init_with_struct_and_pool lock_ok struct_buf struct_buf_size pool_buf pool_buf_size m =
     (let base = pool_buf + GC_HEAD_PADDING;
          pool_buf_end = pool_buf + pool_buf_size
      in if struct_buf mod 8 \<noteq> 0 then (m, None)
         else if struct_buf_size < 8 then (m, None)
         else if pool_buf mod 8 \<noteq> 0 then (m, None)
         else if pool_buf_size < APP_HEAP_SIZE_MIN then (m, None)
         else gc_init_internal lock_ok struct_buf base (ptr_diff_32 pool_buf_end base div 8 * 8) m)"

text \<open>Ending a heap clears its pool and its structure.\<close>

definition gc_destroy_with_pool :: "gc_heap \<Rightarrow> int \<times> mem" where
  "gc_destroy_with_pool h =
     (0, memset_zero (memset_zero (hmem h) (base_addr h) (current_size h)) (heap_id h) GC_HEAP_STRUCT_SIZE)"

section \<open>Moving a heap\<close>

text \<open>
  \<open>gc_migrate\<close> is called after the pool has been copied to a new place: it sets the pointers of the tree
  right. The loop ends because a chunk without a size is an error; its result is the memory, and
  whether all headers were plausible.
\<close>

definition adjust_ptr :: "nat \<Rightarrow> int \<Rightarrow> mem \<Rightarrow> mem" where
  "adjust_ptr a offset m = (if rd 8 m a = 0 then m else wr 8 m a (ptr_add (rd 8 m a) offset))"

definition adjust_node :: "nat \<Rightarrow> nat \<Rightarrow> int \<Rightarrow> mem \<Rightarrow> mem" where
  "adjust_node root p offset m =
     (let m = adjust_ptr (p + 12) offset (adjust_ptr (p + 4) offset m)
      in if rd 8 m (p + 20) \<noteq> root then adjust_ptr (p + 20) offset m else m)"

function adjust_nodes :: "nat \<Rightarrow> int \<Rightarrow> nat \<Rightarrow> nat \<Rightarrow> mem \<Rightarrow> bool \<times> mem" where
  "adjust_nodes root offset e cur m =
     (if cur < e then
        let sz = hmu_get_size m cur in
        if sz = 0 \<or> sz > e - cur then (False, m)
        else adjust_nodes root offset e (cur + sz)
               (if hmu_get_ut m cur = HMU_FC \<and> \<not> HMU_IS_FC_NORMAL sz then adjust_node root cur offset m else m)
      else (cur = e, m))"
  by pat_completeness auto
termination by (relation "measure (\<lambda>(root, offset, e, cur, m). e - cur)") auto

declare adjust_nodes.simps [simp del]

definition gc_migrate :: "nat \<Rightarrow> nat \<Rightarrow> gc_heap \<Rightarrow> int \<times> gc_heap" where
  "gc_migrate pool_buf_new pool_buf_size h =
     (let base_new = pool_buf_new + GC_HEAD_PADDING;
          pool_buf_end = pool_buf_new + pool_buf_size;
          offset = int base_new - int (base_addr h);
          heap_max_size = ptr_diff_32 pool_buf_end base_new div 8 * 8
      in if pool_buf_new mod 8 \<noteq> 0 then (- 1, h)
         else if pool_buf_end < base_new \<or> heap_max_size < current_size h then (- 1, h)
         else if offset = 0 then (0, h)
         else if is_heap_corrupted h then (- 1, h)
         else
           let root = kfc_tree_root h;
               m = adjust_ptr (root + 20) offset (adjust_ptr (root + 12) offset (adjust_ptr (root + 4) offset (hmem h)));
               (ok, m) = adjust_nodes root offset (base_new + current_size h) base_new m;
               h = h\<lparr>base_addr := base_new, hmem := m\<rparr>
           in if ok then (0, h) else (- 1, corrupted h))"

definition gc_is_heap_corrupted :: "gc_heap \<Rightarrow> bool" where
  "gc_is_heap_corrupted h = is_heap_corrupted h"

section \<open>Statistics\<close>

record gc_stat_t =
  usage :: nat
  usage_block :: nat
  vo_usage :: nat
  wo_usage :: nat
  free_sum :: nat
  free_block :: nat
  vo_free :: nat
  wo_free :: nat
  usage_sizes :: "nat list"
  free_sizes :: "nat list"

definition GC_HEAP_STAT_SIZE :: nat where "GC_HEAP_STAT_SIZE = 32"

definition stat_class :: "nat \<Rightarrow> nat" where
  "stat_class sz = (if sz div 4 < GC_HEAP_STAT_SIZE - 1 then sz div 4 else GC_HEAP_STAT_SIZE - 1)"

definition count_free :: "u32 \<Rightarrow> nat \<Rightarrow> gc_stat_t \<Rightarrow> gc_stat_t" where
  "count_free ut sz st =
     st\<lparr>vo_free := vo_free st + (if ut = HMU_VO then sz else 0), wo_free := wo_free st + (if ut = HMU_WO then sz else 0),
        free_sum := free_sum st + sz, free_block := free_block st + 1,
        free_sizes := (free_sizes st)[stat_class sz := free_sizes st ! stat_class sz + 1]\<rparr>"

definition count_used :: "u32 \<Rightarrow> nat \<Rightarrow> gc_stat_t \<Rightarrow> gc_stat_t" where
  "count_used ut sz st =
     st\<lparr>vo_usage := vo_usage st + (if ut = HMU_VO then sz else 0), wo_usage := wo_usage st + (if ut = HMU_WO then sz else 0),
        usage := usage st + sz, usage_block := usage_block st + 1,
        usage_sizes := (usage_sizes st)[stat_class sz := usage_sizes st ! stat_class sz + 1]\<rparr>"

definition hmu_is_wo_marked :: "mem \<Rightarrow> nat \<Rightarrow> nat" where
  "hmu_is_wo_marked m p = GETBIT (header m p) HMU_VO_FB_OFFSET"

text \<open>The mark of a collected object is the bit that tells a released one. A chunk without a size would keep the loop running.\<close>

partial_function (option) stat_chunks :: "mem \<Rightarrow> nat \<Rightarrow> nat \<Rightarrow> gc_stat_t \<Rightarrow> gc_stat_t option" where
  "stat_chunks m e cur st =
     (if cur < e then
        stat_chunks m e (cur + hmu_get_size m cur)
          (let ut = hmu_get_ut m cur in
           if ut = HMU_FC \<or> ut = HMU_FM \<or> (ut = HMU_VO \<and> hmu_is_vo_freed m cur \<noteq> 0) \<or> (ut = HMU_WO \<and> hmu_is_wo_marked m cur = 0)
           then count_free ut (hmu_get_size m cur) st else count_used ut (hmu_get_size m cur) st)
      else Some st)"

definition gc_heap_stat :: "gc_heap \<Rightarrow> gc_stat_t option" where
  "gc_heap_stat h =
     stat_chunks (hmem h) (base_addr h + current_size h) (base_addr h)
       \<lparr>usage = 0, usage_block = 0, vo_usage = 0, wo_usage = 0, free_sum = 0, free_block = 0, vo_free = 0, wo_free = 0,
        usage_sizes = replicate GC_HEAP_STAT_SIZE 0, free_sizes = replicate GC_HEAP_STAT_SIZE 0\<rparr>"

text \<open>\<open>stats\<close> has at least \<open>sz\<close> entries; those past the third are left alone without garbage collection.\<close>

definition gc_heap_stats :: "gc_heap \<Rightarrow> nat \<Rightarrow> nat \<Rightarrow> nat list \<Rightarrow> nat \<times> nat list" where
  "gc_heap_stats h handle sz stats =
     (if \<not> gci_is_heap_valid h handle then (0, replicate sz 0 @ drop sz stats)
      else (handle, map (\<lambda>i. if i \<ge> sz then stats ! i else if i = 0 then current_size h else if i = 1 then total_free_size h
                              else if i = 2 then highmark_size h else stats ! i) [0..<length stats]))"

text \<open>The largest sizes of the tree, written from the end of the array.\<close>

partial_function (option) gc_traverse_tree :: "gc_heap \<Rightarrow> nat \<Rightarrow> nat list \<Rightarrow> nat \<Rightarrow> (nat list \<times> nat) option" where
  "gc_traverse_tree h node stats n =
     (if node = 0 then Some (stats, n)
      else
        Option.bind (if n > 0 then gc_traverse_tree h (t_right h node) stats n else Some (stats, n))
          (\<lambda>(stats, n).
             let (stats, n) = (if n > 0 then (stats[n - 1 := t_size h node], n - 1) else (stats, n))
             in if n > 0 then gc_traverse_tree h (t_left h node) stats n else Some (stats, n)))"

section \<open>The allocator interface\<close>

definition mem_allocator_create :: "bool \<Rightarrow> nat \<Rightarrow> nat \<Rightarrow> mem \<Rightarrow> mem \<times> gc_heap option" where
  "mem_allocator_create lock_ok p sz m = gc_init_with_pool lock_ok p sz m"

definition mem_allocator_create_with_struct_and_pool :: "bool \<Rightarrow> nat \<Rightarrow> nat \<Rightarrow> nat \<Rightarrow> nat \<Rightarrow> mem \<Rightarrow> mem \<times> gc_heap option" where
  "mem_allocator_create_with_struct_and_pool lock_ok struct_buf struct_buf_size pool_buf pool_buf_size m =
     gc_init_with_struct_and_pool lock_ok struct_buf struct_buf_size pool_buf pool_buf_size m"

definition mem_allocator_destroy :: "gc_heap \<Rightarrow> int \<times> mem" where
  "mem_allocator_destroy h = gc_destroy_with_pool h"

definition mem_allocator_get_heap_struct_size :: nat where
  "mem_allocator_get_heap_struct_size = gc_get_heap_struct_size"

definition mem_allocator_malloc :: "nat \<Rightarrow> gc_heap \<Rightarrow> (nat \<times> gc_heap) option" where
  "mem_allocator_malloc sz h = gc_alloc_vo sz h"

definition mem_allocator_realloc :: "nat \<Rightarrow> nat \<Rightarrow> gc_heap \<Rightarrow> (nat \<times> gc_heap) option" where
  "mem_allocator_realloc ptr sz h = gc_realloc_vo ptr sz h"

definition mem_allocator_free :: "nat \<Rightarrow> gc_heap \<Rightarrow> gc_heap option" where
  "mem_allocator_free ptr h = (if ptr \<noteq> 0 then map_option snd (gc_free_vo ptr h) else Some h)"

definition mem_allocator_migrate :: "nat \<Rightarrow> nat \<Rightarrow> gc_heap \<Rightarrow> int \<times> gc_heap" where
  "mem_allocator_migrate pool_buf_new pool_buf_size h = gc_migrate pool_buf_new pool_buf_size h"

definition mem_allocator_is_heap_corrupted :: "gc_heap \<Rightarrow> bool" where
  "mem_allocator_is_heap_corrupted h = gc_is_heap_corrupted h"

definition mem_allocator_get_alloc_info :: "gc_heap \<Rightarrow> nat \<Rightarrow> nat list \<Rightarrow> bool \<times> nat list" where
  "mem_allocator_get_alloc_info h handle info = (True, snd (gc_heap_stats h handle 3 info))"

section \<open>A new heap\<close>

lemma rd_memset:
  "dest \<le> a \<Longrightarrow> a + k \<le> dest + n \<Longrightarrow> rd k (memset_zero m dest n) a = 0"
  "a + k \<le> dest \<or> dest + n \<le> a \<Longrightarrow> rd k (memset_zero m dest n) a = rd k m a"
proof -
  have zero: "le_value (replicate k 0) = 0" for k by (induction k) auto
  show "rd k (memset_zero m dest n) a = 0" if "dest \<le> a" "a + k \<le> dest + n"
  proof -
    have "map (memset_zero m dest n) [a..<a + k] = replicate k 0" using that by (intro nth_equalityI) (auto simp: memset_zero_def)
    then show ?thesis by (simp add: rd_def zero)
  qed
  show "rd k (memset_zero m dest n) a = rd k m a" if "a + k \<le> dest \<or> dest + n \<le> a"
    using that by (intro rd_cong) (auto simp: memset_zero_def)
qed

text \<open>The memory of a new heap, in terms of its two nodes.\<close>

definition fresh :: "nat \<Rightarrow> nat \<Rightarrow> nat \<Rightarrow> mem \<Rightarrow> mem" where
  "fresh root q s m =
     (let m = wr 4 (memset_zero m root 32) (root + 28) 32;
          m = hmu_set_size (hmu_set_ut m root HMU_FC) root 32;
          m = hmu_mark_pinuse (hmu_set_size (hmu_set_ut (memset_zero m q 32) q HMU_FC) q s) q
      in wr 4 (wr 8 (wr 8 m (root + 12) q) (q + 20) root) (q + 28) s)"

lemma fresh_fields:
  assumes "root + 32 \<le> q \<or> q + 32 \<le> root" and "root < 2 ^ 64" "q < 2 ^ 64" "s < 2 ^ 30"
  shows "rd 8 (fresh root q s m) (root + 4) = 0" "rd 8 (fresh root q s m) (root + 12) = q" "rd 8 (fresh root q s m) (root + 20) = 0"
    "rd 4 (fresh root q s m) (root + 28) = 32" "rd 8 (fresh root q s m) (q + 4) = 0" "rd 8 (fresh root q s m) (q + 12) = 0"
    "rd 8 (fresh root q s m) (q + 20) = root" "rd 4 (fresh root q s m) (q + 28) = s"
  using assms unfolding fresh_def Let_def hmu_setters put_header_def
  by (auto simp: rd_wr_other rd_wr_same rd_memset)

lemma fresh_header:
  assumes "root + 32 \<le> q \<or> q + 32 \<le> root" and "8 dvd s" "s < 2 ^ 30"
  shows "hmu_is (fresh root q s m) q HMU_FC True s"
proof -
  let ?m = "memset_zero (hmu_set_size (hmu_set_ut (wr 4 (memset_zero m root 32) (root + 28) 32) root HMU_FC) root 32) q 32"
  let ?m1 = "hmu_mark_pinuse (hmu_set_size (hmu_set_ut ?m q HMU_FC) q s) q"
  obtain ty pin z where "hmu_is ?m q ty pin z" using hmu_is_ex by blast
  then have "hmu_is (hmu_set_ut ?m q HMU_FC) q HMU_FC pin z" by (rule hmu_after_set(1) [rotated]) (simp add: HMU_FC_def)
  then have "hmu_is ?m1 q HMU_FC True s" by (intro hmu_after_set(2) hmu_after_set(5) assms)
  moreover have "fresh root q s m x = ?m1 x" if "q \<le> x" "x < q + 4" for x
    using assms(1) that by (auto simp: fresh_def Let_def wr_apply)
  ultimately show ?thesis using hmu_is_cong [of q "fresh root q s m" ?m1] by blast
qed

lemma init_internal_ok:
  assumes max: "248 \<le> s" "8 dvd s" "s < 2 ^ 30" and base: "base mod 8 = 4" "base + s \<le> 2 ^ 64"
    and hp: "hp + 384 \<le> 2 ^ 64" "hp + 384 \<le> base \<or> base + s \<le> hp"
  shows "\<exists>h. gc_init_internal True hp base s m = (hmem h, Some h) \<and> heap_ok h \<and> heap_chunks h = [(s, False)] \<and>
     heap_id h = hp \<and> base_addr h = base \<and> current_size h = s \<and> total_free_size h = s"
proof -
  let ?r = "hp + 324"
  let ?m = "fresh ?r base s (memset_zero (memset_zero m hp 384) base s)"
  let ?h = "\<lparr>heap_id = hp, base_addr = base, current_size = s, kfc_normal_list = replicate 32 0, kfc_tree_root = ?r,
     is_heap_corrupted = False, init_size = 0, highmark_size = 0, total_free_size = s, hmem = ?m\<rparr>"
  have run: "gc_init_internal True hp base s m = (?m, Some ?h)"
    by (simp add: gc_init_internal_def GC_HEAP_STRUCT_SIZE_def KFC_TREE_ROOT_BUF_def TREE_NODE_SIZE_def HMU_NORMAL_NODE_CNT_def fresh_def Let_def)
  have ap: "?r + 32 \<le> base \<or> base + 32 \<le> ?r" using hp(2) max(1) by auto
  have b: "?r < 2 ^ 64" "base < 2 ^ 64" "0 < base" using hp(1) base max(1) by (auto intro: gr0I)
  note f = fresh_fields [OF ap b(1,2) max(3), where m = "memset_zero (memset_zero m hp 384) base s"]
  have fields: "t_left ?h ?r = 0" "t_right ?h ?r = base" "t_parent ?h ?r = 0" "t_size ?h ?r = 32"
    "t_left ?h base = 0" "t_right ?h base = 0" "t_parent ?h base = ?r" "t_size ?h base = s"
    unfolding t_left_def t_right_def t_parent_def t_size_def gc_heap.select_convs using f by simp_all
  let ?t = "Node Leaf ?r (Node Leaf base Leaf)"
  have "tree_ok ?h ?t" using fields b ap hp(1) base(2) max(1) unfolding tree_ok_def by (auto simp: nodes_apart_def)
  then have tree: "tree_holds ?h {(base, s)}"
    unfolding tree_holds_def using fields max(1) by (intro exI [of _ ?t] exI [of _ "[base]"]) simp
  have geo: "geometry ?h" using b hp base max by (auto simp: geometry_def)
  have ok1: "chunk_ok ?h (base, s)" using base max by (simp add: chunk_ok_def)
  have "list_holds ?h i {}" if "i < 32" for i using that by (simp add: list_holds_def)
  moreover have "small {(base, s)} i = {}" "large {(base, s)} = {(base, s)}" for i using max(1) by (auto simp: small_def large_def)
  ultimately have "free_index ?h {(base, s)}" using geo ok1 tree by (simp add: free_index_def separate_def)
  moreover have "hmu_is ?m base HMU_FC True s" by (rule fresh_header [OF ap max(2,3)])
  ultimately have sh: "heap_shape ?h [(s, False)]" using base max by (simp add: heap_shape_def pool_end_def)
  have "heap_ok ?h" by (rule heap_okI [OF sh]) simp_all
  then show ?thesis using run shape_chunks [OF sh] by (intro exI [of _ ?h]) simp
qed

lemma gc_align_ptr_bounds: "a + 7 < 2 ^ 64 \<Longrightarrow> a \<le> gc_align_ptr a \<and> gc_align_ptr a \<le> a + 7 \<and> gc_align_ptr a mod 8 = 0"
  by (simp add: gc_align_ptr_def)

lemma gc_align_ptr_id: "a mod 8 = 0 \<Longrightarrow> a + 7 < 2 ^ 64 \<Longrightarrow> gc_align_ptr a = a"
  using gc_align_ptr_bounds [of a] by presburger

lemma ptr_diff_32_nat: "b \<le> a \<Longrightarrow> a - b < 2 ^ 32 \<Longrightarrow> ptr_diff_32 a b = a - b"
proof -
  assume "b \<le> a" "a - b < 2 ^ 32"
  then have "(int a - int b) mod 2 ^ 32 = int (a - b)" by (simp add: of_nat_diff)
  then show ?thesis by (simp add: ptr_diff_32_def)
qed

text \<open>A buffer with room for the structure and for a chunk of the tree makes a heap without objects.\<close>

lemma init_with_pool_law:
  assumes "643 \<le> sz" and "sz < 2 ^ 30" and "buf + sz + 8 \<le> 2 ^ 64"
  shows "\<exists>h. gc_init_with_pool True buf sz m = (hmem h, Some h) \<and> heap_ok h \<and> objects h = {} \<and> buf \<le> heap_id h \<and>
     heap_id h + 384 \<le> base_addr h \<and> base_addr h + current_size h \<le> buf + sz \<and> buf + sz < base_addr h + current_size h + 8 \<and>
     frees (base_addr h) (heap_chunks h) = {(base_addr h, current_size h)}"
proof -
  let ?hp = "gc_align_ptr buf"
  let ?base = "?hp + 388"
  have hp: "buf \<le> ?hp" "?hp \<le> buf + 7" "?hp mod 8 = 0" using gc_align_ptr_bounds [of buf] assms by auto
  have "(?hp + 384) mod 8 = 0" using hp(3) by presburger
  then have base: "gc_align_ptr (?hp + 384) + 4 = ?base" using gc_align_ptr_id [of "?hp + 384"] hp assms by simp
  have d: "ptr_diff_32 (buf + sz) ?base = buf + sz - ?base" using hp assms by (intro ptr_diff_32_nat) auto
  let ?s = "(buf + sz - ?base) div 8 * 8"
  have s: "248 \<le> ?s" "8 dvd ?s" "?s < 2 ^ 30" "?base + ?s \<le> buf + sz" "buf + sz < ?base + ?s + 8" using hp assms by auto
  have run: "gc_init_with_pool True buf sz m = gc_init_internal True ?hp ?base ?s m"
    unfolding gc_init_with_pool_def GC_HEAP_STRUCT_SIZE_def GC_HEAD_PADDING_def APP_HEAP_SIZE_MIN_def Let_def base d
    using assms(1) by simp
  have "?base mod 8 = 4" using hp(3) by presburger
  from init_internal_ok [OF s(1-3) this, of ?hp m] s(4) assms(3) obtain h where
    h: "gc_init_internal True ?hp ?base ?s m = (hmem h, Some h)" "heap_ok h" "heap_chunks h = [(?s, False)]" "heap_id h = ?hp"
      "base_addr h = ?base" "current_size h = ?s" by auto
  then show ?thesis using run s(4,5) hp(1) by (intro exI [of _ h]) (simp add: objects_def)
qed

text \<open>A smaller buffer passes the check of the code, but has no room for the structure: the size of the pool wraps around.\<close>

lemma init_small_pool_law:
  assumes "256 \<le> sz" and "sz < 388" and "buf mod 8 = 0" and "buf + 400 < 2 ^ 64"
  shows "\<exists>m' h. gc_init_with_pool True buf sz m = (m', Some h) \<and> base_addr h = buf + 388 \<and> 2 ^ 32 - 136 \<le> current_size h"
proof -
  have hp: "gc_align_ptr buf = buf" "gc_align_ptr (buf + 384) = buf + 384"
    using gc_align_ptr_id assms by (simp_all add: mod_add_eq [symmetric])
  have "(int (buf + sz) - int (buf + 388)) mod 2 ^ 32 = (int sz - 388 + 2 ^ 32) mod 2 ^ 32" by (simp only: mod_add_self2) simp
  also have "\<dots> = int sz - 388 + 2 ^ 32" using assms(1,2) by (intro mod_pos_pos_trivial) auto
  finally have "ptr_diff_32 (buf + sz) (buf + 388) = sz + 2 ^ 32 - 388" using assms(1,2) by (simp add: ptr_diff_32_def nat_diff_distrib)
  then have "ptr_diff_32 (buf + sz) (388 + buf) = sz + 2 ^ 32 - 388" by (simp add: add.commute)
  then show ?thesis using assms(1,2) hp
    by (auto simp: gc_init_with_pool_def gc_init_internal_def GC_HEAP_STRUCT_SIZE_def GC_HEAD_PADDING_def APP_HEAP_SIZE_MIN_def Let_def)
qed

section \<open>Reports\<close>

lemma stat_class_less: "stat_class sz < 32"
  by (simp add: stat_class_def GC_HEAP_STAT_SIZE_def)

fun used_blocks :: "chunks \<Rightarrow> nat" where
  "used_blocks [] = 0"
| "used_blocks ((s, u) # cs) = (if u then 1 else 0) + used_blocks cs"

definition stat_is :: "gc_stat_t \<Rightarrow> nat \<Rightarrow> nat \<Rightarrow> nat \<Rightarrow> nat \<Rightarrow> bool" where
  "stat_is st f u fb ub \<longleftrightarrow> free_sum st = f \<and> usage st = u \<and> free_block st = fb \<and> usage_block st = ub \<and> vo_usage st = u \<and> wo_usage st = 0 \<and>
     vo_free st = 0 \<and> wo_free st = 0 \<and> length (free_sizes st) = 32 \<and> length (usage_sizes st) = 32 \<and>
     sum_list (free_sizes st) = fb \<and> sum_list (usage_sizes st) = ub"

lemma sum_list_incr: "i < length xs \<Longrightarrow> sum_list (xs[i := Suc (xs ! i)]) = Suc (sum_list xs)"
  by (induction xs arbitrary: i) (auto split: nat.splits)

lemma stat_chunks_row:
  assumes "row m e pin a cs" and "a + extent cs = e" and "stat_is st f u fb ub"
  shows "\<exists>st'. stat_chunks m e a st = Some st' \<and>
     stat_is st' (f + free_bytes cs) (u + (extent cs - free_bytes cs)) (fb + (length cs - used_blocks cs)) (ub + used_blocks cs)"
  using assms
proof (induction cs arbitrary: pin a st f u fb ub)
  case Nil
  then show ?case by (subst stat_chunks.simps) simp
next
  case (Cons c cs)
  obtain s w where c: "c = (s, w)" by (cases c)
  have hd: "hmu_get_size m a = s" "hmu_get_ut m a = (if w then HMU_VO else HMU_FC)" "w \<Longrightarrow> hmu_is_vo_freed m a = 0" "16 \<le> s"
    "row m e w (a + s) cs" using Cons.prems(1) c by (auto simp: hmu_is_def)
  have le: "free_bytes cs \<le> extent cs" "used_blocks cs \<le> length cs" by (rule free_bytes_le) (induction cs rule: used_blocks.induct, auto)
  have unf: "stat_chunks m e a st = stat_chunks m e (a + s) (if w then count_used HMU_VO s st else count_free HMU_FC s st)"
    using hd Cons.prems(2) c by (subst stat_chunks.simps) (simp add: Let_def HMU_VO_def HMU_FC_def HMU_FM_def HMU_WO_def)
  have "stat_is (if w then count_used HMU_VO s st else count_free HMU_FC s st)
      (f + (if w then 0 else s)) (u + (if w then s else 0)) (fb + (if w then 0 else 1)) (ub + (if w then 1 else 0))"
    using Cons.prems(3) stat_class_less [of s]
    by (auto simp: stat_is_def count_used_def count_free_def sum_list_incr HMU_VO_def HMU_FC_def HMU_WO_def)
  from Cons.IH [OF hd(5) _ this] Cons.prems(2) c obtain st' where st':
    "stat_chunks m e (a + s) (if w then count_used HMU_VO s st else count_free HMU_FC s st) = Some st'"
    "stat_is st' (f + (if w then 0 else s) + free_bytes cs) (u + (if w then s else 0) + (extent cs - free_bytes cs))
       (fb + (if w then 0 else 1) + (length cs - used_blocks cs)) (ub + (if w then 1 else 0) + used_blocks cs)" by auto
  then show ?case using unf c le by (cases w) (auto simp: add.assoc Suc_diff_le)
qed

lemma gc_heap_stat_law:
  assumes "heap_ok h"
  shows "\<exists>st. gc_heap_stat h = Some st \<and>
     stat_is st (total_free_size h) (current_size h - total_free_size h)
       (length (heap_chunks h) - used_blocks (heap_chunks h)) (used_blocks (heap_chunks h))"
proof -
  have r: "row (hmem h) (base_addr h + current_size h) True (base_addr h) (heap_chunks h)" "base_addr h + extent (heap_chunks h) = base_addr h + current_size h"
    "total_free_size h = free_bytes (heap_chunks h)" using assms by (auto simp: heap_ok_def heap_shape_def pool_end_def)
  show ?thesis
    using stat_chunks_row [OF r(1,2), where f = 0 and u = 0 and fb = 0 and ub = 0] r(2,3)
    by (fastforce simp: gc_heap_stat_def stat_is_def GC_HEAP_STAT_SIZE_def)
qed

end
