(* ===== verification/Ems_Migrate.thy ===== *)
theory Ems_Migrate
  imports Ems_Kfc
begin

text \<open>
  Moving a heap to another place. When the linear memory of an instance is enlarged, its bytes may move
  in the address space of the process, and with them the pool of the heap that lives in it; \<open>gc_migrate\<close>
  then sets the absolute pointers right. It does so for the tree, but not for the heads of the lists.
\<close>

section \<open>Pointers\<close>

text \<open>The new place of a pointer: null and the root, which is not in the pool, stay.\<close>

definition moved_ptr :: "nat \<Rightarrow> int \<Rightarrow> nat \<Rightarrow> nat" where
  "moved_ptr root d x = (if x = 0 then 0 else if x = root then root else nat (int x + d))"

lemma moved_zero [simp]: "moved_ptr root d 0 = 0"
  by (simp add: moved_ptr_def)

lemma tree_at_moved:
  assumes "tree_at L R P par t"
    and "\<And>x. x \<in> set_tree t \<Longrightarrow> L' (f x) = f (L x) \<and> R' (f x) = f (R x) \<and> P' (f x) = f (P x) \<and> f x \<noteq> 0"
    and "f 0 = 0"
  shows "tree_at L' R' P' (f par) (map_tree f t)"
  using assms(1,2)
proof (induction t arbitrary: par)
  case (Node l x r)
  have root: "root_of (map_tree f c) = f (root_of c)" for c by (cases c) (simp_all add: assms(3))
  show ?case using Node by (auto simp: root)
qed simp

lemma inorder_map_tree: "inorder (map_tree f t) = map f (inorder t)"
  by (induction t) auto

section \<open>Rows elsewhere\<close>

lemma rd_moved: "(\<And>i. i < n \<Longrightarrow> m' (b + i) = m (a + i)) \<Longrightarrow> rd n m' b = rd n m a"
proof -
  assume s: "\<And>i. i < n \<Longrightarrow> m' (b + i) = m (a + i)"
  have "map m' [b..<b + n] = map m [a..<a + n]" by (intro nth_equalityI) (auto simp: s)
  then show ?thesis by (simp add: rd_def)
qed

lemma row_moved:
  assumes "row m e pin a cs" and "\<And>x. x < extent cs \<Longrightarrow> m' (b + x) = m (a + x)" and "int b - int a = int e' - int e"
  shows "row m' e' pin b cs"
  using assms
proof (induction cs arbitrary: pin a b)
  case (Cons c cs)
  obtain s u where c: "c = (s, u)" by (cases c)
  have s: "16 \<le> s" using Cons.prems(1) c by simp
  have "header m' b = header m a" unfolding header_def
    by (rule arg_cong [of _ _ of_nat], rule rd_moved) (use Cons.prems(2) c s in simp)
  then have h: "hmu_is m' b ty v z = hmu_is m a ty v z" "hmu_is_vo_freed m' b = hmu_is_vo_freed m a" for ty v z
    by (simp_all add: hmu_is_def hmu_getters)
  have foot: "rd 4 m' (b + s - 4) = rd 4 m (a + s - 4)"
  proof (rule rd_moved)
    fix i :: nat assume "i < 4"
    then show "m' (b + s - 4 + i) = m (a + s - 4 + i)" using Cons.prems(2) [of "s - 4 + i"] s c by (simp add: add.assoc)
  qed
  have "row m' e' u (b + s) cs"
  proof (rule Cons.IH)
    show "row m e u (a + s) cs" using Cons.prems(1) c by simp
    show "m' (b + s + x) = m (a + s + x)" if "x < extent cs" for x using Cons.prems(2) [of "s + x"] that c by (simp add: add.assoc)
  qed (use Cons.prems(3) in simp)
  moreover have "a + s = e \<longleftrightarrow> b + s = e'" using Cons.prems(3) by linarith
  ultimately show ?case using Cons.prems(1) c h foot by auto
qed simp

section \<open>The loop\<close>

text \<open>What the loop does to one node.\<close>

definition adjusted :: "nat \<Rightarrow> int \<Rightarrow> nat \<Rightarrow> nat" where
  "adjusted root d v = (if v = 0 then 0 else ptr_add v d)"

lemma ptr_add_bound: "ptr_add v d < 2 ^ 64"
  by (simp add: ptr_add_def nat_less_iff)

lemma adjust_ptr_at:
  "rd 8 (adjust_ptr a d m) a = adjusted root d (rd 8 m a)"
  "b + 8 \<le> a \<or> a + 8 \<le> b \<Longrightarrow> rd 8 (adjust_ptr a d m) b = rd 8 m b"
  "x < a \<or> a + 8 \<le> x \<Longrightarrow> adjust_ptr a d m x = m x"
  using ptr_add_bound [of "rd 8 m a" d] by (simp_all add: adjust_ptr_def adjusted_def rd_wr_same rd_wr_other)

lemma adjust_node_at:
  shows "rd 8 (adjust_node root p d m) (p + 4) = adjusted root d (rd 8 m (p + 4))"
    "rd 8 (adjust_node root p d m) (p + 12) = adjusted root d (rd 8 m (p + 12))"
    "rd 8 (adjust_node root p d m) (p + 20) = (if rd 8 m (p + 20) = root then root else adjusted root d (rd 8 m (p + 20)))"
    "x \<notin> links p \<Longrightarrow> adjust_node root p d m x = m x"
proof -
  have "rd 8 (adjust_ptr (p + 12) d (adjust_ptr (p + 4) d m)) (p + 20) = rd 8 m (p + 20)" by (simp add: adjust_ptr_at(2))
  then show "rd 8 (adjust_node root p d m) (p + 4) = adjusted root d (rd 8 m (p + 4))"
    "rd 8 (adjust_node root p d m) (p + 12) = adjusted root d (rd 8 m (p + 12))"
    "rd 8 (adjust_node root p d m) (p + 20) = (if rd 8 m (p + 20) = root then root else adjusted root d (rd 8 m (p + 20)))"
    by (simp_all add: adjust_node_def Let_def adjust_ptr_at(1) [where root = root] adjust_ptr_at(2))
  show "x \<notin> links p \<Longrightarrow> adjust_node root p d m x = m x"
    by (auto simp: adjust_node_def Let_def links_def adjust_ptr_at(3))
qed

definition node_set :: "nat \<Rightarrow> chunks \<Rightarrow> nat set" where
  "node_set a cs = fst ` large (frees a cs)"

lemma adjust_nodes_row:
  assumes "row m e pin a cs" and "a + extent cs = e"
  shows "\<exists>m'. adjust_nodes root d e a m = (True, m') \<and> (\<forall>x. x \<notin> \<Union> (links ` node_set a cs) \<longrightarrow> m' x = m x) \<and>
     (\<forall>p \<in> node_set a cs. rd 8 m' (p + 4) = adjusted root d (rd 8 m (p + 4)) \<and> rd 8 m' (p + 12) = adjusted root d (rd 8 m (p + 12)) \<and>
        rd 8 m' (p + 20) = (if rd 8 m (p + 20) = root then root else adjusted root d (rd 8 m (p + 20))))"
  using assms
proof (induction cs arbitrary: pin a m)
  case Nil
  then show ?case by (subst adjust_nodes.simps) (simp add: node_set_def large_def)
next
  case (Cons c cs)
  obtain s u where c: "c = (s, u)" by (cases c)
  have hd: "hmu_get_size m a = s" "hmu_get_ut m a = HMU_FC \<longleftrightarrow> \<not> u" "16 \<le> s" "row m e u (a + s) cs"
    using Cons.prems(1) c by (auto simp: hmu_is_def HMU_VO_def HMU_FC_def)
  define here where "here \<longleftrightarrow> \<not> u \<and> 248 \<le> s"
  let ?m = "if here then adjust_node root a d m else m"
  have unf: "adjust_nodes root d e a m = adjust_nodes root d e (a + s) ?m"
    using hd Cons.prems(2) c by (subst adjust_nodes.simps) (auto simp: Let_def normal_iff here_def not_less)
  have out: "?m x = m x" if "\<not> here \<or> x \<notin> links a" for x using that adjust_node_at(4) [of x a] by auto
  have big: "248 \<le> s" if here using that by (simp add: here_def)
  have ns: "node_set a (c # cs) = (if here then insert a (node_set (a + s) cs) else node_set (a + s) cs)"
    using c by (cases u) (auto simp: node_set_def large_insert here_def)
  have later: "a + s \<le> p" if "p \<in> node_set (a + s) cs" for p using that frees_bounds [of _ "a + s" cs] by (auto simp: node_set_def large_def)
  have "row ?m e u (a + s) cs"
  proof (rule row_cong [OF hd(4), where A = "if here then links a else {}"])
    show "\<forall>x. x \<notin> (if here then links a else {}) \<longrightarrow> ?m x = m x" using out by auto
    show "\<forall>(c, v) \<in> set (placed (a + s) cs). avoids (if here then links a else {}) (fst c) 4 \<and> (\<not> v \<longrightarrow> avoids (if here then links a else {}) (fst c + snd c - 4) 4)"
      using big by (fastforce simp: avoids_def links_def dest: placed_bounds)
  qed
  from Cons.IH [OF this] Cons.prems(2) c obtain m' where r: "adjust_nodes root d e (a + s) ?m = (True, m')"
    "\<forall>x. x \<notin> \<Union> (links ` node_set (a + s) cs) \<longrightarrow> m' x = ?m x"
    "\<forall>p \<in> node_set (a + s) cs. rd 8 m' (p + 4) = adjusted root d (rd 8 ?m (p + 4)) \<and> rd 8 m' (p + 12) = adjusted root d (rd 8 ?m (p + 12)) \<and>
       rd 8 m' (p + 20) = (if rd 8 ?m (p + 20) = root then root else adjusted root d (rd 8 ?m (p + 20)))" by auto
  have same: "rd 8 ?m (p + k) = rd 8 m (p + k)" if "p \<in> node_set (a + s) cs" "4 \<le> k" for p k
    by (rule rd_cong, rule out) (use later [OF that(1)] big that(2) in \<open>auto simp: links_def\<close>)
  have own: "rd 8 m' (a + k) = rd 8 ?m (a + k)" if here "k + 8 \<le> 28" for k
  proof (rule rd_cong)
    fix x assume "a + k \<le> x" "x < a + k + 8"
    then have "x \<notin> \<Union> (links ` node_set (a + s) cs)" using later big [OF that(1)] that(2) by (fastforce simp: links_def)
    then show "m' x = ?m x" using r(2) by blast
  qed
  have "\<forall>x. x \<notin> \<Union> (links ` node_set a (c # cs)) \<longrightarrow> m' x = m x" using r(2) out unfolding ns by auto
  moreover have "\<forall>p \<in> node_set a (c # cs). rd 8 m' (p + 4) = adjusted root d (rd 8 m (p + 4)) \<and> rd 8 m' (p + 12) = adjusted root d (rd 8 m (p + 12)) \<and>
       rd 8 m' (p + 20) = (if rd 8 m (p + 20) = root then root else adjusted root d (rd 8 m (p + 20)))"
    using r(3) same own adjust_node_at(1-3) [of root a d m] unfolding ns by (auto split: if_splits)
  ultimately show ?case using unf r(1) by auto
qed

section \<open>The heap at its new place\<close>

text \<open>Positions in the pool, from the old base \<open>b\<close> to the new one.\<close>

definition shift :: "nat \<Rightarrow> nat \<Rightarrow> nat \<Rightarrow> nat" where
  "shift b b' x = x - b + b'"

lemma placed_shift: "placed b' cs = map (\<lambda>((q, s), u). ((shift b b' q, s), u)) (placed b cs)"
proof -
  have "placed (b' + k) cs = map (\<lambda>((q, s), u). ((shift b b' q, s), u)) (placed (b + k) cs)" for k
  proof (induction cs arbitrary: k)
    case (Cons c cs)
    obtain s u where c: "c = (s, u)" by (cases c)
    show ?case using Cons.IH [of "k + s"] c by (simp add: shift_def add.assoc)
  qed simp
  from this [of 0] show ?thesis by simp
qed

lemma frees_shift: "frees b' cs = (\<lambda>(q, s). (shift b b' q, s)) ` frees b cs"
  unfolding frees_def placed_shift [of b' cs b] by force

lemma in_use_shift: "in_use b' cs = (\<lambda>(p, n). (shift b b' p, n)) ` in_use b cs"
proof -
  have "shift b b' q + 4 = shift b b' (q + 4)" if "((q, s), u) \<in> set (placed b cs)" for q s u
    using placed_bounds [OF that] by (simp add: shift_def)
  then show ?thesis unfolding in_use_def placed_shift [of b' cs b] by (force simp: image_iff)
qed

lemma node_set_shift: "node_set b' cs = shift b b' ` node_set b cs"
  unfolding node_set_def frees_shift [of b' cs b] large_def by force

text \<open>
  The pool of \<open>h\<close> has been copied to \<open>b'\<close>, where \<open>m\<close> has it, clear of the heap structure; the rest of what
  the code checks about the new buffer.
\<close>

definition copied :: "gc_heap \<Rightarrow> nat \<Rightarrow> nat \<Rightarrow> mem \<Rightarrow> bool" where
  "copied h pool n m \<longleftrightarrow> pool mod 8 = 0 \<and> current_size h + 4 \<le> n \<and> n < 2 ^ 32 \<and> pool + n \<le> 2 ^ 64 \<and> pool + 4 \<noteq> base_addr h \<and>
     (kfc_tree_root h + 32 \<le> pool \<or> pool + n \<le> kfc_tree_root h) \<and>
     (\<forall>x < current_size h. m (pool + 4 + x) = hmem h (base_addr h + x)) \<and>
     (\<forall>x. kfc_tree_root h \<le> x \<and> x < kfc_tree_root h + 32 \<longrightarrow> m x = hmem h x)"

text \<open>The memory after the pointers have been set right.\<close>

definition relinked :: "gc_heap \<Rightarrow> nat \<Rightarrow> mem \<Rightarrow> mem \<Rightarrow> bool" where
  "relinked h pool m m' \<longleftrightarrow>
     (let root = kfc_tree_root h; adj = adjusted root (int (pool + 4) - int (base_addr h)); nodes = node_set (pool + 4) (heap_chunks h) in
      (\<forall>x. x \<notin> links root \<union> \<Union> (links ` nodes) \<longrightarrow> m' x = m x) \<and>
      (\<forall>k \<in> {4, 12, 20}. rd 8 m' (root + k) = adj (rd 8 m (root + k))) \<and>
      (\<forall>p \<in> nodes. rd 8 m' (p + 4) = adj (rd 8 m (p + 4)) \<and> rd 8 m' (p + 12) = adj (rd 8 m (p + 12)) \<and>
         rd 8 m' (p + 20) = (if rd 8 m (p + 20) = root then root else adj (rd 8 m (p + 20)))))"

lemma migrate_runs:
  assumes ok: "heap_ok h" and cp: "copied h pool n m"
  shows "\<exists>m'. gc_migrate pool n (h\<lparr>hmem := m\<rparr>) = (0, h\<lparr>base_addr := pool + 4, hmem := m'\<rparr>) \<and> relinked h pool m m'"
proof -
  define root where "root = kfc_tree_root h"
  define d where "d = int (pool + 4) - int (base_addr h)"
  let ?b = "pool + 4" and ?cs = "heap_chunks h" and ?c = "current_size h"
  let ?m1 = "adjust_ptr (root + 20) d (adjust_ptr (root + 12) d (adjust_ptr (root + 4) d m))"
  note sh = heap_okD(1) [OF ok]
  have cpD: "pool mod 8 = 0" "?c + 4 \<le> n" "n < 2 ^ 32" "?b \<noteq> base_addr h" "root + 32 \<le> pool \<or> pool + n \<le> root"
    "\<forall>x < ?c. m (?b + x) = hmem h (base_addr h + x)" using cp by (simp_all add: copied_def root_def)
  have r: "row (hmem h) (pool_end h) True (base_addr h) ?cs" "extent ?cs = ?c" using sh by (simp_all add: heap_shape_def)
  have rm: "row m (?b + ?c) True ?b ?cs" by (rule row_moved [OF r(1)]) (use cpD(6) r(2) in \<open>auto simp: pool_end_def\<close>)
  have m1: "?m1 x = m x" if "x \<notin> links root" for x
  proof -
    have "x < root + 4 \<or> root + 28 \<le> x" using that by (auto simp: links_def)
    then show ?thesis by (elim disjE) (simp_all add: adjust_ptr_at(3))
  qed
  have nodes: "?b \<le> p \<and> p + 248 \<le> ?b + ?c" if "p \<in> node_set ?b ?cs" for p
    using that frees_bounds [of _ ?b ?cs] r(2) by (fastforce simp: node_set_def large_def)
  have rm1: "row ?m1 (?b + ?c) True ?b ?cs"
  proof (rule row_cong [OF rm, where A = "links root"])
    show "\<forall>(c, u) \<in> set (placed ?b ?cs). avoids (links root) (fst c) 4 \<and> (\<not> u \<longrightarrow> avoids (links root) (fst c + snd c - 4) 4)"
    proof (clarify)
      fix q s u assume q: "((q, s), u) \<in> set (placed ?b ?cs)"
      have "(?b) mod 8 = 4" using cpD(1) by presburger
      from row_placed [OF rm this q] placed_bounds [OF q] have "16 \<le> s" "?b \<le> q" "q + s \<le> ?b + ?c" using r(2) by auto
      then show "avoids (links root) (fst (q, s)) 4 \<and> (\<not> u \<longrightarrow> avoids (links root) (fst (q, s) + snd (q, s) - 4) 4)"
        using cpD(2,5) by (auto simp: avoids_def links_def)
    qed
  qed (use m1 in blast)
  from adjust_nodes_row [OF rm1, of root d] r(2) obtain m' where a: "adjust_nodes root d (?b + ?c) ?b ?m1 = (True, m')"
    "\<forall>x. x \<notin> \<Union> (links ` node_set ?b ?cs) \<longrightarrow> m' x = ?m1 x"
    "\<forall>p \<in> node_set ?b ?cs. rd 8 m' (p + 4) = adjusted root d (rd 8 ?m1 (p + 4)) \<and> rd 8 m' (p + 12) = adjusted root d (rd 8 ?m1 (p + 12)) \<and>
        rd 8 m' (p + 20) = (if rd 8 ?m1 (p + 20) = root then root else adjusted root d (rd 8 ?m1 (p + 20)))" by auto
  have same: "rd 8 ?m1 (p + k) = rd 8 m (p + k)" if "p \<in> node_set ?b ?cs" "k + 8 \<le> 28" for p k
    by (rule rd_cong, rule m1) (use nodes [OF that(1)] that(2) cpD(2,5) in \<open>auto simp: links_def\<close>)
  have own: "rd 8 m' (root + k) = rd 8 ?m1 (root + k)" if "4 \<le> k" "k + 8 \<le> 28" for k
  proof (rule rd_cong)
    fix x assume "root + k \<le> x" "x < root + k + 8"
    then have "x \<notin> \<Union> (links ` node_set ?b ?cs)" using nodes that cpD(2,5) by (fastforce simp: links_def)
    then show "m' x = ?m1 x" using a(2) by blast
  qed
  have rootf: "rd 8 ?m1 (root + k) = adjusted root d (rd 8 m (root + k))" if "k \<in> {4, 12, 20}" for k
    using that by (auto simp: adjust_ptr_at(1) [where root = root] adjust_ptr_at(2))
  have "ptr_diff_32 (pool + n) ?b = n - 4" using cpD(2,3) by (subst ptr_diff_32_nat) auto
  moreover have "8 dvd ?c" using row_extent [OF r(1)] r(2) by simp
  ultimately have room: "\<not> ptr_diff_32 (pool + n) ?b div 8 * 8 < ?c" using cpD(2) by (auto elim!: dvdE)
  have "gc_migrate pool n (h\<lparr>hmem := m\<rparr>) = (0, h\<lparr>base_addr := ?b, hmem := m'\<rparr>)"
    using cpD(1,2,4) room a(1) heap_okD(2) [OF ok]
    by (simp add: gc_migrate_def GC_HEAD_PADDING_def Let_def root_def d_def)
  moreover have "m' x = m x" if "x \<notin> links root \<union> \<Union> (links ` node_set ?b ?cs)" for x using that a(2) m1 by auto
  moreover have "\<forall>k \<in> {4, 12, 20}. rd 8 m' (root + k) = adjusted root d (rd 8 m (root + k))" using own rootf by auto
  ultimately show ?thesis
    unfolding relinked_def Let_def root_def [symmetric] d_def [symmetric] using a(3) same by (intro exI [of _ m']) simp
qed

text \<open>When every free chunk is in the tree, the tree has moved with its chunks.\<close>

lemma moved_pool:
  assumes "0 < b" and "b \<le> v" and "v < b + c" and "b' + c \<le> 2 ^ 64" and "\<not> (b \<le> root \<and> root < b + c)"
  shows "moved_ptr root (int b' - int b) v = shift b b' v" "adjusted root (int b' - int b) v = shift b b' v"
proof -
  have "int v + (int b' - int b) = int (shift b b' v)" using assms(2) by (simp add: shift_def)
  moreover have "int (shift b b' v) < 2 ^ 64" using assms(2-4) by (simp add: shift_def)
  ultimately show "moved_ptr root (int b' - int b) v = shift b b' v" "adjusted root (int b' - int b) v = shift b b' v"
    using assms by (auto simp: moved_ptr_def adjusted_def ptr_add_def)
qed

lemma tree_fields_closed:
  assumes tq: "tree_for h B t qs" and x: "x \<in> set_tree t"
  shows "t_left h x \<in> insert 0 (set qs)" "t_right h x \<in> insert 0 (set qs)" "t_parent h x \<in> insert 0 (set_tree t)"
    "x = kfc_tree_root h \<Longrightarrow> t_parent h x = 0"
proof -
  note f = tree_forD [OF tq]
  note t = tree_okD(1,2) [OF f(1)]
  have root_par: "t_parent h (kfc_tree_root h) = 0" using t(1) f(2,3) by (cases t) auto
  then show "x = kfc_tree_root h \<Longrightarrow> t_parent h x = 0" by simp
  have "kfc_tree_root h \<in> set_tree t" using f(6) by simp
  then have "y \<noteq> kfc_tree_root h" if "y = t_left h x \<or> y = t_right h x" for y
    using tree_at_parent(2) [OF t, of "kfc_tree_root h" x] x that root_par tree_at_nonzero [OF t(1) x] by auto
  then show "t_left h x \<in> insert 0 (set qs)" "t_right h x \<in> insert 0 (set qs)"
    using tree_at_children [OF t(1) x] f(6) by auto
  show "t_parent h x \<in> insert 0 (set_tree t)" using tree_at_parent(1) [OF t x] root_par f(3) by (cases "x = root_of t") auto
qed

lemma migrate_tree:
  assumes ok: "heap_ok h" and cp: "copied h pool n m" and tq: "tree_for h (large (frees (base_addr h) (heap_chunks h))) t qs"
    and mg: "relinked h pool m m'" and h': "h' = h\<lparr>base_addr := pool + 4, hmem := m'\<rparr>"
    and f: "f = moved_ptr (kfc_tree_root h) (int (pool + 4) - int (base_addr h))" and x: "x \<in> set_tree t"
  shows "t_left h' (f x) = f (t_left h x)" "t_right h' (f x) = f (t_right h x)" "t_parent h' (f x) = f (t_parent h x)" "t_size h' (f x) = t_size h x"
proof -
  let ?b = "base_addr h" and ?b' = "pool + 4" and ?c = "current_size h" and ?root = "kfc_tree_root h" and ?N = "node_set (pool + 4) (heap_chunks h)"
  let ?adj = "adjusted ?root (int ?b' - int ?b)"
  note tf = tree_forD [OF tq] and cl = tree_fields_closed [OF tq x]
  have ix: "free_index h (frees ?b (heap_chunks h))" using heap_okD(1) [OF ok] by (simp add: heap_shape_def)
  note geo = free_indexD(1) [OF ix]
  have g: "0 < ?b" "?root \<noteq> 0" "\<not> (?b \<le> ?root \<and> ?root < ?b + ?c)" using geo by (auto simp: geometry_def)
  have c: "?b' + ?c \<le> 2 ^ 64" "?root + 32 \<le> ?b' \<or> ?b' + ?c \<le> ?root" using cp by (auto simp: copied_def)
  have qs: "set qs = node_set ?b (heap_chunks h)" using tf(7) by (simp add: node_set_def)
  have pool: "?b \<le> v \<and> v + 248 \<le> ?b + ?c" if v: "v \<in> set qs" for v
  proof -
    obtain s where "(v, s) \<in> large (frees ?b (heap_chunks h))" using v tf(7) by auto
    then show ?thesis using free_indexD(5) [OF ix, of "(v, s)"] by (simp add: large_def chunk_ok_def)
  qed
  have fv: "f v = shift ?b ?b' v \<and> ?adj v = f v" if "v \<in> set qs" for v
    using moved_pool [OF g(1) _ _ c(1) g(3), of v] pool [OF that] f by simp
  have adj: "?adj v = f v" if "v \<in> insert 0 (set qs)" for v
  proof (cases "v = 0")
    case True
    then show ?thesis using f by (simp add: adjusted_def)
  next
    case False
    then show ?thesis using that fv by blast
  qed
  have N: "?N = shift ?b ?b' ` set qs" using node_set_shift [of ?b' "heap_chunks h" ?b] qs by simp
  note rl = mg [unfolded relinked_def Let_def]
  have size: "rd 4 m' (y + 28) = rd 4 m (y + 28)" if y: "y \<notin> ?N \<Longrightarrow> y = ?root" "\<forall>p \<in> insert ?root ?N. nodes_apart y p" for y
  proof (rule rd_cong)
    fix z assume "y + 28 \<le> z" "z < y + 28 + 4"
    then have "z \<notin> links ?root \<union> \<Union> (links ` ?N)" using y(2) by (fastforce simp: links_def nodes_apart_def)
    then show "m' z = m z" using rl by blast
  qed
  have ap: "nodes_apart (shift ?b ?b' v) (shift ?b ?b' w)" if "v \<in> set qs" "w \<in> set qs" for v w
    using tree_okD(3) [OF tf(1), of v w] tf(6) that pool by (fastforce simp: nodes_apart_def shift_def)
  have apr: "nodes_apart (shift ?b ?b' v) ?root" "nodes_apart ?root (shift ?b ?b' v)" if "v \<in> set qs" for v
    using pool [OF that] c(2) by (auto simp: nodes_apart_def shift_def)
  have old_root: "rd k m (?root + j) = rd k (hmem h) (?root + j)" if "j + k \<le> 32" for k j
    by (rule rd_cong) (use cp that in \<open>auto simp: copied_def\<close>)
  have old: "rd k m (shift ?b ?b' v + j) = rd k (hmem h) (v + j)" if v: "v \<in> set qs" and "j + k \<le> 32" for k j v
  proof (rule rd_moved)
    fix i assume "i < k"
    then have "v - ?b + j + i < ?c" using pool [OF v] \<open>j + k \<le> 32\<close> by linarith
    then have "m (?b' + (v - ?b + j + i)) = hmem h (?b + (v - ?b + j + i))" using cp by (simp add: copied_def)
    then show "m (shift ?b ?b' v + j + i) = hmem h (v + j + i)" using pool [OF v] by (simp add: shift_def ac_simps)
  qed
  show "t_left h' (f x) = f (t_left h x)" "t_right h' (f x) = f (t_right h x)" "t_parent h' (f x) = f (t_parent h x)" "t_size h' (f x) = t_size h x"
  proof -
    consider "x = ?root" | "x \<in> set qs" using x tf(6) by auto
    then have "t_left h' (f x) = f (t_left h x) \<and> t_right h' (f x) = f (t_right h x) \<and> t_parent h' (f x) = f (t_parent h x) \<and> t_size h' (f x) = t_size h x"
    proof cases
      case 1
      have fr: "f x = ?root" using 1 f g(2) by (simp add: moved_ptr_def)
      have "\<forall>p \<in> insert ?root ?N. nodes_apart ?root p" using apr(2) unfolding N by (auto simp: nodes_apart_def [of ?root ?root])
      then show ?thesis using rl size [of ?root] old_root adj [OF cl(1)] adj [OF cl(2)] adj [of 0] cl(4) 1
        unfolding fr by (simp add: h' t_left_def t_right_def t_parent_def t_size_def)
    next
      case 2
      let ?y = "shift ?b ?b' x"
      have fx: "f x = ?y" and yN: "?y \<in> ?N" using fv [OF 2] 2 N by auto
      have "\<forall>p \<in> insert ?root ?N. nodes_apart ?y p" using ap [OF 2] apr(1) [OF 2] unfolding N by auto
      then have sz: "rd 4 m' (?y + 28) = rd 4 (hmem h) (x + 28)" using size [of ?y] yN old [OF 2, of 28 4] by simp
      have par: "(if t_parent h x = ?root then ?root else ?adj (t_parent h x)) = f (t_parent h x)"
        using cl(3) adj [of "t_parent h x"] tf(6) f g(2) by (auto simp: moved_ptr_def)
      note b = bspec [OF conjunct2 [OF conjunct2 [OF rl]] yN]
      have "t_parent h' ?y = f (t_parent h x)"
        using b old [OF 2, of 20 8] unfolding par [symmetric] by (simp add: h' t_parent_def)
      then show ?thesis using b old [OF 2] sz adj [OF cl(1)] adj [OF cl(2)]
        unfolding fx by (simp add: h' t_left_def t_right_def t_size_def)
    qed
    then show "t_left h' (f x) = f (t_left h x)" "t_right h' (f x) = f (t_right h x)" "t_parent h' (f x) = f (t_parent h x)" "t_size h' (f x) = t_size h x"
      by blast+
  qed
qed

lemma copied_row:
  assumes ok: "heap_ok h" and cp: "copied h pool n m"
  shows "row m (pool + 4 + current_size h) True (pool + 4) (heap_chunks h)" "(pool + 4) mod 8 = 4"
    "row (hmem h) (pool_end h) True (base_addr h) (heap_chunks h)" "extent (heap_chunks h) = current_size h"
proof -
  show r: "row (hmem h) (pool_end h) True (base_addr h) (heap_chunks h)" "extent (heap_chunks h) = current_size h"
    using heap_okD(1) [OF ok] by (simp_all add: heap_shape_def)
  show "row m (pool + 4 + current_size h) True (pool + 4) (heap_chunks h)"
    by (rule row_moved [OF r(1)]) (use cp r(2) in \<open>auto simp: pool_end_def copied_def\<close>)
  have "pool mod 8 = 0" using cp by (simp add: copied_def)
  then show "(pool + 4) mod 8 = 4" by presburger
qed

text \<open>No header, no size at an end of a chunk and no object is in the bytes that were changed.\<close>

lemma relinked_avoids:
  assumes ok: "heap_ok h" and cp: "copied h pool n m" and c: "((q, s), u) \<in> set (placed (pool + 4) (heap_chunks h))"
  defines "A \<equiv> links (kfc_tree_root h) \<union> \<Union> (links ` node_set (pool + 4) (heap_chunks h))"
  shows "avoids A q 4" "avoids A (q + s - 4) 4" "u \<Longrightarrow> avoids A q s"
proof -
  note r = copied_row [OF ok cp]
  have b: "16 \<le> s" "pool + 4 \<le> q" "q + s \<le> pool + 4 + current_size h" using row_placed [OF r(1,2) c] placed_bounds [OF c] r(4) by auto
  have root: "avoids (links (kfc_tree_root h)) q s" using cp b by (auto simp: copied_def avoids_def links_def)
  have node: "\<exists>t. ((p, t), False) \<in> set (placed (pool + 4) (heap_chunks h)) \<and> 248 \<le> t" if "p \<in> node_set (pool + 4) (heap_chunks h)" for p
    using that by (auto simp: node_set_def large_def frees_def)
  have other: "avoids (links p) q s" if p: "p \<in> node_set (pool + 4) (heap_chunks h)" "p \<noteq> q \<or> u" for p
  proof -
    obtain t where t: "((p, t), False) \<in> set (placed (pool + 4) (heap_chunks h))" "248 \<le> t" using node [OF p(1)] by blast
    have "clear_of (q, s) (p, t)" using placed_clear [OF c t(1)] p(2) by auto
    then show ?thesis using t(2) by (auto simp: clear_of_def avoids_def links_def)
  qed
  have own: "avoids (links q) q 4 \<and> avoids (links q) (q + s - 4) 4" if q: "q \<in> node_set (pool + 4) (heap_chunks h)"
  proof -
    obtain t where t: "((q, t), False) \<in> set (placed (pool + 4) (heap_chunks h))" "248 \<le> t" using node [OF q] by blast
    have "s = t" using placed_clear [OF c t(1)] t(2) b(1) by (auto simp: clear_of_def)
    then show ?thesis using t(2) by (auto simp: avoids_def links_def)
  qed
  have ends: "avoids B q 4 \<and> avoids B (q + s - 4) 4" if "avoids B q s" for B using b(1) by (auto intro!: avoids_part [OF that])
  have "avoids (links p) q 4 \<and> avoids (links p) (q + s - 4) 4" if "p \<in> node_set (pool + 4) (heap_chunks h)" for p
    using own other ends that by (cases "p = q") auto
  then show "avoids A q 4" "avoids A (q + s - 4) 4" using ends [OF root] by (auto simp: A_def avoids_Un avoids_UN)
  show "u \<Longrightarrow> avoids A q s" using root other by (auto simp: A_def avoids_Un avoids_UN)
qed

lemma relinked_outside: "relinked h pool m m' \<Longrightarrow> x \<notin> links (kfc_tree_root h) \<union> \<Union> (links ` node_set (pool + 4) (heap_chunks h)) \<Longrightarrow> m' x = m x"
  by (simp add: relinked_def Let_def)

lemma relinked_row:
  assumes "heap_ok h" and "copied h pool n m" and "relinked h pool m m'"
  shows "row m' (pool + 4 + current_size h) True (pool + 4) (heap_chunks h)"
  by (rule row_cong [OF copied_row(1) [OF assms(1,2)], where A = "links (kfc_tree_root h) \<union> \<Union> (links ` node_set (pool + 4) (heap_chunks h))"])
    (use relinked_outside [OF assms(3)] relinked_avoids [OF assms(1,2)] in auto)

lemma shift_chunk:
  assumes "chunk_ok h (q, s)" and "base_addr h mod 8 = 4" and "(pool + 4) mod 8 = 4"
  shows "chunk_ok (h\<lparr>base_addr := pool + 4, hmem := m'\<rparr>) (shift (base_addr h) (pool + 4) q, s)"
proof -
  have q: "base_addr h \<le> q" "q mod 8 = 4" using assms(1) by (simp_all add: chunk_ok_def)
  then have "8 dvd q - base_addr h" using assms(2) by (metis mod_eq_dvd_iff_nat)
  then have "shift (base_addr h) (pool + 4) q mod 8 = 4" using assms(3) by (auto simp: shift_def elim!: dvdE)
  then show ?thesis using assms(1) by (auto simp: chunk_ok_def shift_def)
qed

lemma migrate_index:
  assumes ok: "heap_ok h" and cp: "copied h pool n m" and mg: "relinked h pool m m'" and big: "\<forall>c \<in> frees (base_addr h) (heap_chunks h). 248 \<le> snd c"
    and h': "h' = h\<lparr>base_addr := pool + 4, hmem := m'\<rparr>"
  shows "tree_holds h' (large (frees (pool + 4) (heap_chunks h)))"
proof -
  let ?F = "frees (base_addr h) (heap_chunks h)" and ?b = "base_addr h" and ?b' = "pool + 4" and ?c = "current_size h" and ?root = "kfc_tree_root h"
  have ix: "free_index h ?F" using heap_okD(1) [OF ok] by (simp add: heap_shape_def)
  obtain t qs where tq: "tree_for h (large ?F) t qs" using free_indexD(4) [OF ix] by (auto simp: tree_holds_for)
  note tf = tree_forD [OF tq]
  define f where "f = moved_ptr ?root (int ?b' - int ?b)"
  note fl = migrate_tree [OF ok cp tq mg h' f_def]
  have g: "0 < ?b" "?root \<noteq> 0" "\<not> (?b \<le> ?root \<and> ?root < ?b + ?c)" "?root + 32 \<le> 2 ^ 64" using free_indexD(1) [OF ix] by (auto simp: geometry_def)
  have c: "?b' + ?c \<le> 2 ^ 64" "?root + 32 \<le> ?b' \<or> ?b' + ?c \<le> ?root" using cp by (auto simp: copied_def)
  have pool: "?b \<le> v \<and> v + 248 \<le> ?b + ?c" if v: "v \<in> set qs" for v
  proof -
    obtain s where "(v, s) \<in> large ?F" using v tf(7) by auto
    then show ?thesis using free_indexD(5) [OF ix, of "(v, s)"] by (simp add: large_def chunk_ok_def)
  qed
  have fr: "f ?root = ?root" using g(2) by (simp add: f_def moved_ptr_def)
  have fq: "f v = shift ?b ?b' v" if "v \<in> set qs" for v
    using moved_pool(1) [OF g(1) _ _ c(1) g(3), of v] pool [OF that] by (simp add: f_def)
  have ap: "nodes_apart (f v) (f w)" "f v = f w \<Longrightarrow> v = w" "f v \<noteq> 0" "f v + 32 \<le> 2 ^ 64" if "v \<in> set_tree t" "w \<in> set_tree t" for v w
  proof -
    have cases: "v = ?root \<or> v \<in> set qs" "w = ?root \<or> w \<in> set qs" using that tf(6) by auto
    have old: "nodes_apart v w" using tree_okD(3) [OF tf(1) that] .
    show "nodes_apart (f v) (f w)" "f v = f w \<Longrightarrow> v = w" "f v \<noteq> 0" "f v + 32 \<le> 2 ^ 64"
      using cases fr fq pool [of v] pool [of w] c old g(2,4) by (auto simp: nodes_apart_def shift_def)
  qed
  have "tree_at (t_left h') (t_right h') (t_parent h') (f 0) (map_tree f t)"
    by (rule tree_at_moved [OF tree_okD(1) [OF tf(1)]]) (use fl ap(3) in \<open>auto simp: f_def\<close>)
  moreover have "distinct (inorder (map_tree f t))"
    unfolding inorder_map_tree distinct_map using tree_okD(2) [OF tf(1)] ap(2) by (auto simp: inj_on_def)
  moreover have st: "set_tree (map_tree f t) = f ` set_tree t" by (simp add: tree.set_map)
  ultimately have tok: "tree_ok h' (map_tree f t)" unfolding tree_ok_def st using ap by (auto simp: f_def)
  have sizes: "map (t_size h') (inorder (map_tree f t)) = map (t_size h) (inorder t)" using fl(4) by (simp add: inorder_map_tree)
  have "tree_for h' (large (frees ?b' (heap_chunks h))) (map_tree f t) (map f qs)"
    unfolding tree_for_def sizes
  proof (intro conjI)
    show "inorder (map_tree f t) = kfc_tree_root h' # map f qs" unfolding inorder_map_tree tf(2) using fr h' by simp
    show "root_of (map_tree f t) = kfc_tree_root h'" using tf(2,3) fr h' by (cases t) auto
    show "t_size h' (kfc_tree_root h') = 32" using fl(4) [of ?root] fr tf(5,6) h' by simp
    have "(\<lambda>q. (q, t_size h' q)) ` set (map f qs) = (\<lambda>(q, s). (shift ?b ?b' q, s)) ` ((\<lambda>q. (q, t_size h q)) ` set qs)"
    proof -
      have "t_size h' (shift ?b ?b' x) = t_size h x" if "x \<in> set qs" for x using fl(4) [of x] fq [OF that] tf(6) that by simp
      then show ?thesis unfolding set_map image_image using fq by (intro image_cong) auto
    qed
    also have "\<dots> = (\<lambda>(q, s). (shift ?b ?b' q, s)) ` large ?F" using tq by (simp add: tree_for_def)
    also have "\<dots> = large (frees ?b' (heap_chunks h))" unfolding frees_shift [of ?b' "heap_chunks h" ?b] large_def by force
    finally show "(\<lambda>q. (q, t_size h' q)) ` set (map f qs) = large (frees ?b' (heap_chunks h))" .
  qed (use tok tf(4) in auto)
  then show ?thesis by (auto simp: tree_holds_for)
qed

lemma migrate_ok:
  assumes ok: "heap_ok h" and cp: "copied h pool n m" and big: "\<forall>c \<in> frees (base_addr h) (heap_chunks h). 248 \<le> snd c"
  shows "\<exists>h'. gc_migrate pool n (h\<lparr>hmem := m\<rparr>) = (0, h') \<and> heap_ok h' \<and> heap_chunks h' = heap_chunks h \<and>
     objects h' = (\<lambda>(p, k). (shift (base_addr h) (pool + 4) p, k)) ` objects h \<and>
     (\<forall>(p, k) \<in> objects h. \<forall>i<k. hmem h' (shift (base_addr h) (pool + 4) p + i) = hmem h (p + i))"
proof -
  let ?cs = "heap_chunks h" and ?b = "base_addr h" and ?b' = "pool + 4"
  obtain m' where r: "gc_migrate pool n (h\<lparr>hmem := m\<rparr>) = (0, h\<lparr>base_addr := ?b', hmem := m'\<rparr>)" "relinked h pool m m'"
    using migrate_runs [OF ok cp] by blast
  let ?h = "h\<lparr>base_addr := ?b', hmem := m'\<rparr>"
  note row = copied_row [OF ok cp] and hk = heap_okD [OF ok]
  have ix: "free_index h (frees ?b ?cs)" and base: "?b mod 8 = 4" using hk(1) by (simp_all add: heap_shape_def)
  have geo: "geometry ?h" using free_indexD(1) [OF ix] cp by (auto simp: geometry_def copied_def)
  have sep: "separate ?h (frees ?b' ?cs)"
    unfolding separate_def frees_shift [of ?b' ?cs ?b]
  proof (intro conjI ballI)
    fix c assume "c \<in> (\<lambda>(q, s). (shift ?b ?b' q, s)) ` frees ?b ?cs"
    then show "chunk_ok ?h c" using shift_chunk [OF _ base row(2)] free_indexD(5) [OF ix] by auto
  next
    fix c d assume "c \<in> (\<lambda>(q, s). (shift ?b ?b' q, s)) ` frees ?b ?cs" "d \<in> (\<lambda>(q, s). (shift ?b ?b' q, s)) ` frees ?b ?cs"
    then obtain q s p k where e: "c = (shift ?b ?b' q, s)" "(q, s) \<in> frees ?b ?cs" "d = (shift ?b ?b' p, k)" "(p, k) \<in> frees ?b ?cs" by auto
    then show "c = d \<or> clear_of c d"
      using free_indexD(6) [OF ix e(2,4)] frees_bounds [OF e(2)] frees_bounds [OF e(4)] by (auto simp: clear_of_def shift_def)
  qed
  have "small (frees ?b ?cs) i = {}" "small (frees ?b' ?cs) i = {}" for i
    using big unfolding frees_shift [of ?b' ?cs ?b] by (auto simp: small_def)
  then have "list_holds ?h i (small (frees ?b' ?cs) i)" if "i < 32" for i
    using list_head(1) [OF free_indexD(3) [OF ix that]] by (simp add: list_holds_def)
  then have "free_index ?h (frees ?b' ?cs)" using geo sep migrate_index [OF ok cp r(2) big refl] by (simp add: free_index_def)
  then have sh: "heap_shape ?h ?cs" using relinked_row [OF ok cp r(2)] row(2,4) by (simp add: heap_shape_def pool_end_def)
  have ok': "heap_ok ?h" "objects ?h = in_use ?b' ?cs" using heap_okI [OF sh] hk by simp_all
  have "hmem ?h (shift ?b ?b' p + i) = hmem h (p + i)" if p: "(p, k) \<in> objects h" and "i < k" for p k i
  proof -
    obtain q s where q: "((q, s), True) \<in> set (placed ?b ?cs)" "p = q + 4" "k = s - 4" using p by (auto simp: objects_def in_use_def)
    then have q': "((shift ?b ?b' q, s), True) \<in> set (placed ?b' ?cs)" unfolding placed_shift [of ?b' ?cs ?b] by force
    have bd: "?b \<le> q" "q + s \<le> ?b + current_size h" using placed_bounds [OF q(1)] row(4) by simp_all
    have pos: "shift ?b ?b' p + i = shift ?b ?b' q + (4 + i)" using bd(1) q(2) by (simp add: shift_def)
    have "m' (shift ?b ?b' p + i) = m (shift ?b ?b' p + i)"
      unfolding pos by (rule relinked_outside [OF r(2)], rule avoidsD [OF relinked_avoids(3) [OF ok cp q']]) (use that(2) q(3) in auto)
    also have "\<dots> = m (?b' + (q - ?b + (4 + i)))" unfolding pos by (simp add: shift_def ac_simps)
    also have "\<dots> = hmem h (?b + (q - ?b + (4 + i)))"
    proof -
      have "q - ?b + (4 + i) < current_size h" using bd that(2) q(3) by linarith
      then show ?thesis using cp unfolding copied_def by blast
    qed
    also have "?b + (q - ?b + (4 + i)) = p + i" using bd(1) q(2) by simp
    finally show ?thesis by simp
  qed
  then show ?thesis using r(1) ok' shape_chunks [OF sh] in_use_shift [of ?b' ?cs ?b] by (intro exI [of _ ?h]) (auto simp: objects_def)
qed

text \<open>The head of a list still points to the old place: the next allocation from it finds the heap corrupted.\<close>

lemma migrate_loses_lists:
  assumes ok: "heap_ok h" and cp: "copied h pool n m" and away: "pool + n \<le> base_addr h \<or> base_addr h + current_size h \<le> pool"
    and c: "(q, chunk_size sz) \<in> frees (base_addr h) (heap_chunks h)" "chunk_size sz < 248"
  shows "\<exists>h'. gc_migrate pool n (h\<lparr>hmem := m\<rparr>) = (0, h') \<and> gc_alloc_vo sz h' = Some (0, corrupted h')"
proof -
  obtain m' where r: "gc_migrate pool n (h\<lparr>hmem := m\<rparr>) = (0, h\<lparr>base_addr := pool + 4, hmem := m'\<rparr>)"
    using migrate_runs [OF ok cp] by blast
  let ?h = "h\<lparr>base_addr := pool + 4, hmem := m'\<rparr>" and ?F = "frees (base_addr h) (heap_chunks h)" and ?i = "chunk_size sz div 8"
  have ix: "free_index h ?F" using heap_okD(1) [OF ok] by (simp add: heap_shape_def)
  have i: "chunk_size sz = 8 * ?i" "?i < 32" "16 \<le> chunk_size sz" using chunk_size_facts [of sz] c(2) by auto
  have "q \<in> small ?F ?i" using c i(1) by (simp add: small_def)
  then have hd: "kfc_normal_list h ! ?i \<noteq> 0" "kfc_normal_list h ! ?i \<in> small ?F ?i"
    using list_head [OF free_indexD(3) [OF ix i(2)]] by auto
  have "hmu_is_in_heap (kfc_normal_list h ! ?i) h"
    using hd(2) chunk_in_heap [OF free_indexD(1) [OF ix] free_indexD(5) [OF ix, of "(kfc_normal_list h ! ?i, 8 * ?i)"]] by (simp add: small_def)
  then have out: "\<not> hmu_is_in_heap (kfc_normal_list ?h ! ?i) ?h" using away cp by (auto simp: hmu_is_in_heap_def copied_def)
  have "find (\<lambda>j. kfc_normal_list ?h ! j \<noteq> 0) [?i..<32] = Some ?i" using hd(1) i(2) by (simp add: upt_conv_Cons)
  then have "alloc_hmu (chunk_size sz) ?h = alloc_from_list ?i (chunk_size sz) ?h"
    using i(3) c(2) unfolding alloc_hmu_def Let_def GC_SMALLEST normal_iff HMU_NORMAL_NODE_CNT_def by simp
  moreover have "sz + 11 < 2 ^ 32" using c(2) by (simp add: chunk_size_def)
  ultimately have "gc_alloc_vo sz ?h = Some (0, corrupted ?h)"
    using gc_alloc_run [of ?h sz] heap_okD(2) [OF ok] out by (simp add: alloc_from_list_def Let_def)
  then show ?thesis using r by blast
qed

end
