(* ===== verification/Runtime_Heap.thy ===== *)
theory Runtime_Heap
  imports Ems_Realloc Ems_Migrate
begin

text \<open>
  The properties of the heap allocator (\<open>mem-alloc\<close>): creation, allocation, release, reallocation,
  clients, statistics and migration.
\<close>

section \<open>Heaps for examples\<close>

text \<open>An empty heap, then with one object, with two, and with the first of two released.\<close>

definition demo_heap :: gc_heap where
  "demo_heap = the (snd (gc_init_internal True 4096 4484 3704 (\<lambda>_. 0)))"

definition demo_one :: gc_heap where "demo_one = snd (the (gc_alloc_vo 10 demo_heap))"
definition demo_two :: gc_heap where "demo_two = snd (the (gc_alloc_vo 10 demo_one))"
definition demo_hole :: gc_heap where "demo_hole = snd (the (gc_free_vo 4488 demo_two))"

lemma demo_heap_facts:
  "heap_ok demo_heap" "heap_chunks demo_heap = [(3704, False)]" "base_addr demo_heap = 4484" "current_size demo_heap = 3704" "kfc_tree_root demo_heap = 4420"
proof -
  obtain h where h: "gc_init_internal True 4096 4484 3704 (\<lambda>_. 0) = (hmem h, Some h)" "heap_ok h" "heap_chunks h = [(3704, False)]"
    "base_addr h = 4484" "current_size h = 3704" using init_internal_ok [of 3704 4484 4096 "\<lambda>_. 0"] by auto
  moreover have "kfc_tree_root h = 4420"
    using h(1) by (auto simp: gc_init_internal_def Let_def GC_HEAP_STRUCT_SIZE_def KFC_TREE_ROOT_BUF_def)
  ultimately show "heap_ok demo_heap" "heap_chunks demo_heap = [(3704, False)]" "base_addr demo_heap = 4484" "current_size demo_heap = 3704"
    "kfc_tree_root demo_heap = 4420" by (simp_all add: demo_heap_def)
qed

lemma alloc_shows:
  assumes "heap_ok h" and "sz < 2 ^ 32" and "c \<in> frees (base_addr h) (heap_chunks h)" "chunk_size sz \<le> snd c"
  shows "\<exists>p h'. gc_alloc_vo sz h = Some (p + 4, h') \<and> heap_ok h' \<and> same_heap h h' \<and> allocates h (heap_chunks h) (chunk_size sz) p h' (heap_chunks h')"
proof -
  obtain p h' cs' where a: "gc_alloc_vo sz h = Some (p + 4, h')" "allocates h (heap_chunks h) (chunk_size sz) p h' cs'"
    using gc_alloc_law [OF heap_okD(1,2) [OF assms(1)] assms(2)] assms(3,4) by fastforce
  have "heap_shape h' cs'" using a(2) by (auto simp: allocates_def)
  then show ?thesis using a allocates_objects(1,8) [OF assms(1) a(2) chunk_size_facts(1)] shape_chunks by blast
qed

lemma alloc_last:
  assumes "heap_ok h" and "heap_chunks h = xs @ [(z, False)]" and "\<forall>c \<in> set xs. snd c" and "sz < 2 ^ 32" "chunk_size sz + 16 \<le> z"
  shows "\<exists>h'. gc_alloc_vo sz h = Some (base_addr h + extent xs + 4, h') \<and> heap_ok h' \<and> same_heap h h' \<and>
     heap_chunks h' = xs @ [(chunk_size sz, True), (z - chunk_size sz, False)]"
proof -
  let ?c = "(base_addr h + extent xs, z)"
  have "?c \<in> frees (base_addr h) (heap_chunks h)" using assms(2) by simp
  from alloc_shows [OF assms(1,4) this] assms(5) obtain p h' where
    a: "gc_alloc_vo sz h = Some (p + 4, h')" "heap_ok h'" "same_heap h h'" "allocates h (heap_chunks h) (chunk_size sz) p h' (heap_chunks h')" by auto
  from a(4) obtain us w vs where u: "heap_chunks h = us @ (w, False) # vs" "p = base_addr h + extent us"
    "heap_chunks h' = us @ (if chunk_size sz + 16 \<le> w then chunk_size sz else w, True) # (if chunk_size sz + 16 \<le> w then [(w - chunk_size sz, False)] else []) @ vs"
    unfolding allocates_def by blast
  have "us = xs \<and> w = z \<and> vs = []"
    using u(1) assms(2,3) by (auto simp: append_eq_append_conv2 Cons_eq_append_conv append_eq_Cons_conv)
  then show ?thesis using a(1-3) u(2,3) assms(5) by auto
qed

lemma demo_one_facts:
  "gc_alloc_vo 10 demo_heap = Some (4488, demo_one)" "heap_ok demo_one" "same_heap demo_heap demo_one"
  "heap_chunks demo_one = [(16, True), (3688, False)]"
  using alloc_last [OF demo_heap_facts(1), of "[]" 3704 10] by (auto simp: demo_heap_facts chunk_size_def demo_one_def)

lemma demo_two_facts:
  "gc_alloc_vo 10 demo_one = Some (4504, demo_two)" "heap_ok demo_two" "same_heap demo_heap demo_two"
  "heap_chunks demo_two = [(16, True), (16, True), (3672, False)]"
  using alloc_last [OF demo_one_facts(2), of "[(16, True)]" 3688 10] demo_one_facts(3,4)
  by (auto simp: demo_heap_facts chunk_size_def demo_two_def same_heap_def)

lemma demo_base [simp]:
  "base_addr demo_one = 4484" "base_addr demo_two = 4484" "current_size demo_one = 3704" "current_size demo_two = 3704"
  "kfc_tree_root demo_one = 4420" "kfc_tree_root demo_two = 4420"
  using demo_one_facts(3) demo_two_facts(3) by (simp_all add: same_heap_def demo_heap_facts)

lemma demo_hole_facts:
  "heap_ok demo_hole" "same_heap demo_heap demo_hole" "heap_chunks demo_hole = [(16, False), (16, True), (3672, False)]"
proof -
  have sh: "heap_shape demo_two ([] @ (16, True) # [(16, True), (3672, False)])" "\<not> is_heap_corrupted demo_two"
    using heap_okD(1,2) [OF demo_two_facts(2)] by (simp_all add: demo_two_facts(4))
  obtain h' cs' where f: "gc_free_vo 4488 demo_two = Some (0, h')" "releases demo_two [(16, True), (16, True), (3672, False)] 4484 16 h' cs'"
    using gc_free_law [OF sh refl] by auto
  have h': "h' = demo_hole" using f(1) by (simp add: demo_hole_def)
  have o: "(4488, 12) \<in> objects demo_two" by (simp add: objects_def demo_two_facts(4))
  then show "heap_ok demo_hole" using free_ok [OF demo_two_facts(2) o] f(1) h' by auto
  from f(2) have "same_heap demo_two h' \<and> heap_shape h' cs' \<and> cs' = [(16, False), (16, True), (3672, False)]"
    unfolding releases_def by (auto simp: Cons_eq_append_conv append_eq_Cons_conv)
  then show "same_heap demo_heap demo_hole" "heap_chunks demo_hole = [(16, False), (16, True), (3672, False)]"
    using demo_two_facts(3) h' shape_chunks by (auto simp: same_heap_def)
qed

section \<open>Creation\<close>



section \<open>Allocation and release\<close>

text \<open>
  C33: \<open>gc_alloc_vo\<close> on a well-formed heap always returns. It gives NULL, and changes nothing, only when
  every free chunk is smaller than the request with its header, rounded up to a multiple of eight.
  Otherwise it gives the address, a multiple of eight, of a new object with at least the requested
  bytes: the heap stays well formed, the bytes of all other objects are kept, the slack behind the
  request is zero and the counter of free bytes is exact.
\<close>

theorem heap_allocation:
  assumes "heap_ok h" and "sz < 2 ^ 32"
  shows "\<exists>p h'. gc_alloc_vo sz h = Some (p, h') \<and> heap_ok h' \<and>
     (if p = 0 then h' = h \<and> (\<forall>c \<in> frees (base_addr h) (heap_chunks h). snd c < chunk_size sz)
      else p mod 8 = 0 \<and> (\<exists>n\<ge>sz. (p, n) \<notin> objects h \<and> objects h' = insert (p, n) (objects h) \<and> keeps (objects h) h h' \<and>
        (\<forall>x. p + sz \<le> x \<and> x < p + n \<longrightarrow> hmem h' x = 0) \<and> total_free_size h' + n + 4 = total_free_size h))"
  using alloc_ok [OF assms] assms(1) by (elim disjE exE conjE) (simp_all, blast)

theorem heap_allocation_witness:
  "\<exists>p h'. gc_alloc_vo 10 demo_heap = Some (p, h') \<and> heap_ok h' \<and> p \<noteq> 0 \<and> (\<exists>n\<ge>10. objects h' = insert (p, n) (objects demo_heap))"
  using heap_allocation [OF demo_heap_facts(1), of 10] demo_one_facts(1) by auto

text \<open>
  C34: \<open>gc_free_vo\<close> on an object of a well-formed heap returns success. Exactly that object is gone, the
  bytes of the others are kept, the counter of free bytes grows by the object and its header, and
  the chunk is joined with its free neighbours: a heap is well formed only when no two free chunks
  touch.
\<close>

theorem heap_release:
  assumes "heap_ok h" and "(p, n) \<in> objects h"
  shows "\<exists>h'. gc_free_vo p h = Some (0, h') \<and> heap_ok h' \<and> objects h' = objects h - {(p, n)} \<and> keeps (objects h') h h' \<and>
     total_free_size h' = total_free_size h + n + 4 \<and> same_heap h h'"
  using assms by (rule free_ok)

theorem heap_release_witness:
  "\<exists>h'. gc_free_vo 4488 demo_two = Some (0, h') \<and> heap_ok h' \<and> objects h' = {(4504, 12)} \<and> total_free_size h' = total_free_size demo_two + 16"
proof -
  have o: "objects demo_two = {(4488, 12), (4504, 12)}" by (simp add: objects_def demo_two_facts(4))
  then show ?thesis using heap_release [OF demo_two_facts(2), of 4488 12] by auto
qed

text \<open>
  C32: Any sequence of allocations and releases, started on an empty heap, is served to the end: no
  call fails to return and no release of a held object is refused. The objects held at the end are
  distinct, they are all the objects of the heap, and they do not overlap. When nothing is held any
  more the heap is again one free chunk, so nothing is lost and nothing stays fragmented.
\<close>

theorem heap_clients:
  assumes "heap_ok h" and "objects h = {}" and "0 < current_size h" and "\<forall>sz. Get sz \<in> set rs \<longrightarrow> sz < 2 ^ 32"
  shows "\<exists>held h'. serve_requests gc_alloc_vo gc_free_vo rs [] h = Some (held, h') \<and> heap_ok h' \<and> distinct held \<and> fst ` objects h' = set held \<and>
     (\<forall>(p, n) \<in> objects h'. \<forall>(q, k) \<in> objects h'. (p, n) = (q, k) \<or> p + n \<le> q \<or> q + k \<le> p) \<and>
     (held = [] \<longrightarrow> heap_chunks h' = heap_chunks h \<and> total_free_size h' = current_size h)"
proof -
  obtain held h' where s: "serve_requests gc_alloc_vo gc_free_vo rs [] h = Some (held, h')" "heap_ok h'" "current_size h' = current_size h"
    "distinct held" "fst ` objects h' = set held" using ems.serve_total [OF assms(1), of "[]" rs] assms(2,4) by auto
  have "heap_chunks h' = heap_chunks h \<and> total_free_size h' = current_size h" if "held = []"
  proof -
    have "objects h' = {}" using s(5) that by simp
    then have "heap_chunks h' = [(current_size h, False)]" using no_objects [OF s(2)] s(3) assms(3) by simp
    then show ?thesis using no_objects [OF assms(1-3)] heap_okD(3) [OF s(2)] by simp
  qed
  then show ?thesis using s objects_apart [OF s(2)] by blast
qed

theorem heap_clients_witness:
  "\<exists>held h'. serve_requests gc_alloc_vo gc_free_vo [Get 10, Get 100, Drop 0, Get 5000, Get 4294967295, Drop 0] [] demo_heap = Some (held, h') \<and>
     heap_ok h' \<and> distinct held \<and> fst ` objects h' = set held"
proof -
  have "objects demo_heap = {}" "0 < current_size demo_heap" by (simp_all add: objects_def demo_heap_facts)
  then show ?thesis
    using heap_clients [OF demo_heap_facts(1), of "[Get 10, Get 100, Drop 0, Get 5000, Get 4294967295, Drop 0]"] by auto
qed

text \<open>
  C38: The walk of \<open>gc_heap_stat\<close> over a well-formed heap ends, although a chunk of size zero would keep it
  running, and its sums are right: the free bytes are those the counter of the heap tells, free and
  used bytes make up the pool, and the counts by size add up to the counts of blocks.
\<close>

theorem heap_statistics:
  assumes "heap_ok h"
  shows "\<exists>st. gc_heap_stat h = Some st \<and> free_sum st = total_free_size h \<and> free_sum st + usage st = current_size h \<and>
     free_block st + usage_block st = length (heap_chunks h) \<and> usage_block st = used_blocks (heap_chunks h) \<and>
     sum_list (free_sizes st) = free_block st \<and> sum_list (usage_sizes st) = usage_block st"
proof -
  have "total_free_size h \<le> current_size h" using heap_okD(3) [OF assms] heap_ok_size [OF assms] free_bytes_le by metis
  moreover have "used_blocks cs \<le> length cs" for cs by (induction cs rule: used_blocks.induct) auto
  ultimately show ?thesis using gc_heap_stat_law [OF assms] by (fastforce simp: stat_is_def)
qed

theorem heap_statistics_witness:
  "\<exists>st. gc_heap_stat demo_hole = Some st \<and> free_block st + usage_block st = 3 \<and> usage_block st = 1"
  using heap_statistics [OF demo_hole_facts(1)] by (auto simp: demo_hole_facts(3))

section \<open>Reallocation\<close>

text \<open>
  C35: \<open>gc_realloc_vo\<close> on an object that cannot grow in place returns, and there are three outcomes: the
  object is large enough and nothing changes; no free chunk is large enough and nothing changes; or
  a new object of the requested size has the bytes of the old one followed by zeros, the old one is
  gone, and the bytes of all others are kept.
\<close>

theorem heap_realloc_moves:
  assumes "heap_ok h" and "(p, k) \<in> objects h" and "sz < 2 ^ 32"
    and "\<not> (\<exists>xs t ys. heap_chunks h = xs @ (k + 4, True) # (t, False) # ys \<and> p = base_addr h + extent xs + 4 \<and> grow_size sz \<le> k + 4 + t)"
  shows "gc_realloc_vo p sz h = Some (p, h) \<and> sz \<le> k \<or>
    gc_realloc_vo p sz h = Some (0, h) \<and> k < sz \<and> (\<forall>c \<in> frees (base_addr h) (heap_chunks h). snd c < grow_size sz) \<or>
    (\<exists>q n h'. gc_realloc_vo p sz h = Some (q, h') \<and> q \<noteq> 0 \<and> sz \<le> n \<and> k < sz \<and> heap_ok h' \<and> (q, n) \<notin> objects h \<and>
       objects h' = insert (q, n) (objects h - {(p, k)}) \<and> keeps (objects h - {(p, k)}) h h' \<and>
       (\<forall>i<n. hmem h' (q + i) = (if i < k then hmem h (p + i) else 0)))"
  using assms by (rule realloc_moves)

theorem heap_realloc_moves_witness:
  "\<exists>q n h'. gc_realloc_vo 4488 100 demo_two = Some (q, h') \<and> 100 \<le> n \<and> heap_ok h' \<and> objects h' = {(q, n), (4504, 12)} \<and>
     (\<forall>i<n. hmem h' (q + i) = (if i < 12 then hmem demo_two (4488 + i) else 0))"
proof -
  have o: "objects demo_two = {(4488, 12), (4504, 12)}" by (simp add: objects_def demo_two_facts(4))
  have room: "\<not> (\<exists>xs t ys. heap_chunks demo_two = xs @ (12 + 4, True) # (t, False) # ys \<and> 4488 = base_addr demo_two + extent xs + 4 \<and>
    grow_size 100 \<le> 12 + 4 + t)"
  proof (intro notI, elim exE conjE)
    fix xs t ys assume a: "heap_chunks demo_two = xs @ (12 + 4, True) # (t, False) # ys" "4488 = base_addr demo_two + extent xs + 4"
    then show False by (cases xs) (auto simp: demo_two_facts(4))
  qed
  have c: "(4516, 3672) \<in> frees (base_addr demo_two) (heap_chunks demo_two)" "\<not> 3672 < grow_size 100" by (simp_all add: demo_two_facts(4) grow_size_def)
  have in1: "(4488, 12) \<in> objects demo_two" and sz: "(100 :: nat) < 2 ^ 32" using o by simp_all
  have rest: "{(4488 :: nat, 12 :: nat), (4504, 12)} - {(4488, 12)} = {(4504, 12)}" by auto
  have "\<not> (\<forall>c \<in> frees (base_addr demo_two) (heap_chunks demo_two). snd c < grow_size 100)" using c by force
  moreover have "\<not> (100 :: nat) \<le> 12" by simp
  ultimately show ?thesis using heap_realloc_moves [OF demo_two_facts(2) in1 sz room] unfolding o rest by blast
qed

text \<open>
  C36: \<open>gc_realloc_vo\<close> grows an object into the free chunk behind it: the address stays, the old bytes are
  kept, the new ones are zero and the bytes of all other objects are kept. With a rest of at least
  sixteen bytes the chunks are in order, but the counter of free bytes is not reduced: it is too
  large by the growth. When the whole free chunk is used, the chunk behind it is still marked as
  following a free one.
\<close>

theorem heap_realloc_in_place:
  assumes "heap_ok h" and "heap_chunks h = xs @ (s, True) # (t, False) # ys" and "p = base_addr h + extent xs"
    and "sz < 2 ^ 32" "s < grow_size sz" "grow_size sz = s + t \<or> grow_size sz + 16 \<le> s + t"
  shows "\<exists>h'. gc_realloc_vo (p + 4) sz h = Some (p + 4, h') \<and> (\<forall>x. p + 4 \<le> x \<and> x < p + s \<longrightarrow> hmem h' x = hmem h x) \<and>
     (\<forall>x. p + s \<le> x \<and> x < p + grow_size sz \<longrightarrow> hmem h' x = 0) \<and> keeps (objects h - {(p + 4, s - 4)}) h h' \<and>
     (if grow_size sz < s + t
      then heap_shape h' (xs @ (grow_size sz, True) # (s + t - grow_size sz, False) # ys) \<and>
        total_free_size h' = free_bytes (heap_chunks h') + (grow_size sz - s)
      else (\<forall>k u zs. ys = (k, u) # zs \<longrightarrow> hmu_is (hmem h') (p + grow_size sz) HMU_VO False k))"
proof -
  obtain h' where g: "gc_realloc_vo (p + 4) sz h = Some (p + 4, h')" "same_heap h h'" "total_free_size h' = total_free_size h"
    "if grow_size sz < s + t then heap_shape h' (xs @ (grow_size sz, True) # (s + t - grow_size sz, False) # ys)
      else gap h' False xs (grow_size sz) ys \<and> hmu_is (hmem h') p HMU_VO (used_after True xs) (grow_size sz)"
    "\<forall>x. p + 4 \<le> x \<and> x < p + s \<longrightarrow> hmem h' x = hmem h x" "\<forall>x. p + s \<le> x \<and> x < p + grow_size sz \<longrightarrow> hmem h' x = 0"
    "keeps (objects h - {(p + 4, s - 4)}) h h'"
    using realloc_grows [OF assms] by blast
  have "total_free_size h' = free_bytes (heap_chunks h') + (grow_size sz - s)" if "grow_size sz < s + t"
  proof -
    have "heap_chunks h' = xs @ (grow_size sz, True) # (s + t - grow_size sz, False) # ys" using g(4) that shape_chunks by simp
    then show ?thesis using g(3) heap_okD(3) [OF assms(1)] assms(2,5) that by simp
  qed
  moreover have "hmu_is (hmem h') (p + grow_size sz) HMU_VO False k" if "\<not> grow_size sz < s + t" "ys = (k, u) # zs" for k u zs
  proof -
    have "rows h' False xs (grow_size sz) ys" using g(4) that(1) by (simp add: gap_def)
    then have "row (hmem h') (pool_end h') False (p + grow_size sz) ys" using rowsD(2) [of h' False xs "grow_size sz" ys] g(2) assms(3) by (simp add: same_heap_def)
    then show ?thesis using that(2) by (auto split: if_splits)
  qed
  ultimately show ?thesis using g by (intro exI [of _ h']) simp
qed

theorem heap_realloc_in_place_witness:
  "\<exists>h'. gc_realloc_vo 4488 100 demo_one = Some (4488, h') \<and> (\<forall>x. 4488 \<le> x \<and> x < 4500 \<longrightarrow> hmem h' x = hmem demo_one x) \<and>
     heap_shape h' [(104, True), (3600, False)] \<and> total_free_size h' = free_bytes (heap_chunks h') + 88"
  using heap_realloc_in_place [OF demo_one_facts(2), of "[]" 16 3688 "[]" 4484 100] by (auto simp: demo_one_facts(4) grow_size_def)

section \<open>Migration\<close>

text \<open>
  C39: After the pool of a heap has been copied to a new place, \<open>gc_migrate\<close> makes it a well-formed heap
  there, with the same chunks, every object at the same distance from the start and with the same
  bytes, provided that no free chunk is small enough to be in one of the lists.
\<close>

theorem heap_migration:
  assumes "heap_ok h" and "copied h pool n m" and "\<forall>c \<in> frees (base_addr h) (heap_chunks h). 248 \<le> snd c"
  shows "\<exists>h'. gc_migrate pool n (h\<lparr>hmem := m\<rparr>) = (0, h') \<and> heap_ok h' \<and> heap_chunks h' = heap_chunks h \<and>
     objects h' = (\<lambda>(p, k). (shift (base_addr h) (pool + 4) p, k)) ` objects h \<and>
     (\<forall>(p, k) \<in> objects h. \<forall>i<k. hmem h' (shift (base_addr h) (pool + 4) p + i) = hmem h (p + i))"
  using assms by (rule migrate_ok)

text \<open>A copy of the pool of a heap of 3704 bytes to address 65536.\<close>

definition demo_copy :: "gc_heap \<Rightarrow> mem" where
  "demo_copy h x = (if 65540 \<le> x \<and> x < 69244 then hmem h (x - 61056) else hmem h x)"

lemma demo_copied: "same_heap demo_heap h \<Longrightarrow> copied h 65536 3712 (demo_copy h)"
  by (auto simp: copied_def demo_copy_def same_heap_def demo_heap_facts)

theorem heap_migration_witness:
  "\<exists>h'. gc_migrate 65536 3712 (demo_one\<lparr>hmem := demo_copy demo_one\<rparr>) = (0, h') \<and> heap_ok h' \<and> objects h' = {(65544, 12)} \<and>
     (\<forall>i<12. hmem h' (65544 + i) = hmem demo_one (4488 + i))"
proof -
  have "objects demo_one = {(4488, 12)}" by (simp add: objects_def demo_one_facts(4))
  then show ?thesis
    using heap_migration [OF demo_one_facts(2) demo_copied [OF demo_one_facts(3)]] by (auto simp: demo_one_facts(4) shift_def)
qed

text \<open>
  C40: With a free chunk in one of the lists of small chunks \<open>gc_migrate\<close> reports success too, but the
  head of the list still has the old address: the next allocation of that size returns NULL and
  declares the heap corrupted, although the chunk is free.
\<close>

theorem heap_migration_loses_lists:
  assumes "heap_ok h" and "copied h pool n m" and "pool + n \<le> base_addr h \<or> base_addr h + current_size h \<le> pool"
    and "(q, chunk_size sz) \<in> frees (base_addr h) (heap_chunks h)" "chunk_size sz < 248"
  shows "\<exists>h'. gc_migrate pool n (h\<lparr>hmem := m\<rparr>) = (0, h') \<and> gc_alloc_vo sz h' = Some (0, corrupted h')"
  using assms by (rule migrate_loses_lists)

theorem heap_migration_loses_lists_witness:
  "\<exists>h'. gc_migrate 65536 3712 (demo_hole\<lparr>hmem := demo_copy demo_hole\<rparr>) = (0, h') \<and> gc_alloc_vo 10 h' = Some (0, corrupted h')"
proof -
  have "base_addr demo_hole = 4484" "current_size demo_hole = 3704" using demo_hole_facts(2) by (simp_all add: same_heap_def demo_heap_facts)
  then show ?thesis
    using heap_migration_loses_lists [OF demo_hole_facts(1) demo_copied [OF demo_hole_facts(2)], of 4484 10]
    by (simp add: demo_hole_facts(3) chunk_size_def)
qed

end
