(* ===== verification/Spec2Isabelle.thy ===== *)
theory Spec2Isabelle
  imports Demo Runtime_Utils Runtime_Memory Runtime_Heap
begin

text \<open>
  Femail is a mail server in C (\<open>src/src\<close>). \<open>main\<close> (\<open>femail.c\<close>) reads the mail domain from the
  environment (\<open>dns.c\<close>), sets up TLS, starts five services on listening sockets (\<open>comm.c\<close>) and runs
  the master service (\<open>master.c\<close>) in a thread: it polls the sockets, puts accepted connections into
  a mutex-protected ring buffer, takes the oldest one out each round, gives it to the handler of
  its protocol (\<open>smtp.c\<close>, \<open>http.c\<close>) and queues it again or closes it, until a signal asks it to
  stop. The repository also carries the WebAssembly Micro Runtime (\<open>src/wamr\<close>), which the server is
  linked with and does not call yet; its utility library, its heap allocator and its linear memories,
  from the system calls to the memory instructions of the interpreter, are modelled as well.

  \<^bold>\<open>Style.\<close> C functions that touch the outside world are programs in a state monad with faults
  (\<open>Prelude\<close>): the state is the \<open>world\<close> (open descriptors, bound and listening sockets, heap blocks,
  TLS objects, a trace of events), and a fault is an undefined behaviour, a call outside a library's
  documented domain, or \<open>abort\<close>. The operating system, OpenSSL, the C library's allocator and the
  peer are a parameter \<open>env\<close> of every definition: what a call answers may depend on the whole
  history. What the code relies on (fresh descriptors, a working mutex, and so on) is a named
  hypothesis, and \<open>Demo\<close> holds an environment that satisfies all of them. Predicates \<open>wp m Q E w\<close> say
  that a program ends with \<open>Q\<close> or in a fault that \<open>E\<close> allows. Debug messages are left out.

  \<^bold>\<open>Theories of the server.\<close>
  \<^item> \<open>Prelude\<close>: the monad, weakest preconditions, C strings. \<open>World\<close>: the system calls. \<open>Fifo\<close>: the
    contract of a bounded queue, shared by the two queues of the program.
  \<^item> \<open>Comm\<close>: \<open>comm.c\<close>; the contract of a service is a locale with the five services as instances.
  \<^item> \<open>Connections\<close>, \<open>Conn_Queue\<close>: the connection life cycle and the queue of \<open>master.c\<close>; the ring buffer
    is an instance of the queue contract.
  \<^item> \<open>Smtp\<close>, \<open>Http\<close>: parsers, replies and handlers; \<open>Handlers\<close>: the contract that every handler keeps,
    with the five handlers as instances, and the protocol table the SMTP commands implement.
  \<^item> \<open>Dns\<close>: \<open>dns.c\<close>. \<open>Trace\<close>: every operation lets the trace grow, which bounds the number of polls
    before a stop request is seen.
  \<^item> \<open>Master\<close>: dispatching and the polling loop, with the invariant of the connection pool, as a
    reachability relation. \<open>Femail\<close>: \<open>main\<close>.

  \<^bold>\<open>Theories of the runtime's utilities\<close> (\<open>wamr/core/shared/utils\<close>), one per file: \<open>Bh_Leb128\<close>,
  \<open>Bh_Bitmap\<close>, \<open>Bh_Vector\<close>, \<open>Bh_Hashmap\<close>, \<open>Bh_List\<close>, \<open>Bh_Queue\<close>, \<open>Runtime_Timer\<close>, \<open>Bh_Common\<close>. Each states
  what the component implements (a set of indices, a list, a finite map, a sequence in a heap, a
  bounded queue, a sorted agenda, a byte copy), as a locale where it is an interface, and proves that
  it does; \<open>Runtime_Utils\<close> holds their properties.

  \<^bold>\<open>Theories of the runtime's linear memories.\<close>
  \<^item> \<open>Os_Memmap\<close>: \<open>posix_memmap.c\<close>; the kernel is a parameter \<open>vm_env\<close>, an address space is a
    protection and a byte for every address.
  \<^item> \<open>Wasm_Memory\<close>: the address checks and conversions, growing, allocation and deallocation of
    \<open>wasm_memory.c\<close>; \<open>Wasm_Instance\<close>: \<open>memory_instantiate\<close> of \<open>wasm_runtime.c\<close> with the placement of
    the application heap. Both with out of bounds accesses caught by the processor (the 8 GB
    reservation) or by comparison.
  \<^item> \<open>Interp_Memory\<close>: the memory instructions of \<open>wasm_interp_fast.c\<close> and the signal handler of
    \<open>wasm_runtime_common.c\<close>; \<open>Memory_Machine\<close>: WebAssembly's own steps on a list of bytes, the
    contract of an interpreter as a locale, and the proof that this one keeps it.
    \<open>Runtime_Memory\<close> holds the properties.

  \<^bold>\<open>Theories of the runtime's heap allocator\<close> (\<open>wamr/core/shared/mem-alloc\<close>, the default EMS allocator).
  \<^item> \<open>Ems_Memory\<close>: chunk headers, links and sizes as bytes of a memory (\<open>ems_gc_internal.h\<close>).
    \<open>Ems_Heap\<close>: the operations of \<open>ems_alloc.c\<close>, which change these bytes and the heap structure.
  \<^item> \<open>Ems_Tree\<close>: the search tree of large free chunks, with parent pointers in memory, is a binary tree;
    removal and insertion are those of the tree. \<open>Ems_Index\<close>: tree and lists together hold a set of
    free chunks, with the laws of taking out, adding and searching (best fit).
  \<^item> \<open>Ems_Chunks\<close>: the pool is a row of chunks; splitting, joining, allocation and release on rows.
    \<open>Ems_Alloc\<close>: the objects a caller sees, and the contract of an allocator as a locale with any
    client's run; \<open>Ems_Realloc\<close>: growing in place and moving.
  \<^item> \<open>Ems_Kfc\<close>: creation, migration, statistics (\<open>ems_kfc.c\<close>) and the interface \<open>mem_alloc.c\<close>;
    \<open>Ems_Migrate\<close>: migration is right for the tree and wrong for the lists. \<open>Runtime_Heap\<close> holds the
    properties. The structure of a heap is laid out as on 64-bit Linux.

  \<^bold>\<open>What is shown.\<close> C1 to C6: the server as a whole (the pool of connections stays sound in every
  reachable state, the service and the program end, handlers keep their contract). C7 to C10: the
  queue. C11 to C16: SMTP. C17 and C18: services and start-up. C19 to C24: the utilities. C25 to C31:
  linear memories (instructions cannot leave the reserved range and do what WebAssembly says,
  hardware and software checks agree, memories are created and released without leaks). C32 to C40:
  the heap allocator. C10, C15, C16, C18, C36, C37 and C40 and the lemmas \<open>stop_closes_stdin\<close>,
  \<open>vector_insert_remove\<close> and \<open>small_rest_loses_tag\<close> characterise behaviour that looks unintended, as
  does the rule \<open>init_ignored\<close> of the abstract memory steps.

  \<^bold>\<open>Bounds and fuel.\<close> Only the polling loop takes fuel, the number of polls; C2 shows how much is
  enough. The retries of \<open>mmap\<close> are a partial function that is shown to return when interruptions
  end (C31). The reader of the message queue follows a script of what other threads do; it ends with
  the request to end. Loops over heap lists, strings and the chunks of a pool are partial functions and shown to return on
  well-formed data. All other loops are total. Machine words have their C width; sizes are 64 bits.

  \<^bold>\<open>Not modelled.\<close> The rest of the runtime (the other instructions, loaders, compilers,
  garbage collection, shared heaps, shared and 64-bit memories, libraries, other platforms), which the server does not
  call; build and container files; debug logging; the
  real interleaving of threads other than the points where the code waits or is signalled: the
  server has one worker thread and its main thread only waits.
\<close>

section \<open>The server as a whole\<close>







text \<open>
  Without a \<open>MAIL_DOMAIN\<close> of 1 to 254 bytes the program returns 1 and has touched nothing but
  the log.
\<close>

lemma femail_without_domain:
  assumes "\<forall>w. \<not> valid_domain (env_getenv e w ''MAIL_DOMAIN'')"
  shows "\<exists>g w'. femail_main n e stack b w = Inr (Some (1, g), w') \<and> quiet w w'"
  using wp_no_domain [OF assms, of n stack b w] by (auto elim!: wp_no_faultE)

section \<open>Connections\<close>

text \<open>
  C4: Whatever handler the master picks for a sound connection, it gives back a connection that
  owns its resources, keeps its socket open and its kind, leaves everything other connections own
  alone, and faults only for one of the named reasons.
\<close>

theorem every_handler_keeps_contract:
  assumes "env_ok e" and "conn_ok c w" and "conn_ready c" and "finite (ssls w)"
  shows "wp (run_handler e g c) (\<lambda>(r, c') w'. handler_post c w r c' w')
           (hazard e (get_mail_domain (maildomain g)) (sslctx g)) w"
  using wp_run_handler [OF assms] .

theorem every_handler_keeps_contract_witness:
  "conn_ok demo_conn demo_world \<and>
   wp (run_handler demo_env zero_femail demo_conn)
     (\<lambda>(r, c') w'. handler_post demo_conn demo_world r c' w')
     (hazard demo_env (get_mail_domain (maildomain zero_femail)) (sslctx zero_femail)) demo_world"
  using every_handler_keeps_contract [OF demo_env_ok demo_conn_ok] demo_conn_ok by simp



text \<open>
  A new connection whose local variable started from clean stack bytes joins the pool: it gets
  a TLS object of its own when its kind needs one, and is queued or closed again.
\<close>

lemma accept_keeps_pool:
  assumes "fresh_ssls e" and "mutex_works e" and "clean_stack stack" and "master_ok B S X g w"
    and "0 \<le> client" and "client \<notin> fds w" and "strat_fits ty strat"
  shows "wp (handle_connection e stack g ty client strat)
           (\<lambda>(r, g') w'. same_setup g g' \<and> master_ok B S X g' w')
           (hazard e (get_mail_domain (maildomain g)) (sslctx g)) (emit ev (open_fd client w))"
  using wp_handle_connection [OF assms(1-4) _ assms(7), of client ev] assms(5,6)
  by (auto elim!: wp_mono)

text \<open>
  C6: When \<open>connection_deinit\<close> runs on a connection that owns its resources it never frees twice;
  afterwards the socket is closed, TLS object and message buffer are gone, and nothing else is.
\<close>

theorem deinit_releases_exactly:
  assumes "conn_owns c w"
  shows "\<exists>w'. connection_deinit c w = Inr (c\<lparr>live := False\<rparr>, w') \<and> frame c w w' \<and>
           fds w' = fds w - {clientsocket c} \<and> ssls w' = ssls w - set_option (sslconn c) \<and>
           dom (world.heap w') = dom (world.heap w) - set_option (messagebuffer c)"
  using wp_connection_deinit [OF assms] by (auto elim!: wp_no_faultE)

theorem deinit_releases_exactly_witness:
  "\<exists>w'. connection_deinit demo_conn demo_world = Inr (demo_conn\<lparr>live := False\<rparr>, w') \<and> fds w' = {0, 1}"
proof -
  have "conn_owns demo_conn demo_world" using demo_conn_ok by (simp add: conn_ok_def)
  moreover have "clientsocket demo_conn = 2" by (simp add: demo_conn_def)
  ultimately show ?thesis using deinit_releases_exactly [of demo_conn demo_world] by auto
qed

section \<open>The connection queue\<close>

text \<open>
  C7: With a working mutex the ring buffer is a bounded first-in first-out queue: enqueueing on a
  queue with room appends the connection and returns 0, on a full queue it changes nothing and
  returns 1.
\<close>

theorem enqueue_refines_list:
  assumes "mutex_works e" and "queue_inv q"
  shows "\<exists>r q' w'. conn_queue_enqueue e q c w = Inr ((r, q'), w') \<and> quiet w w' \<and>
     (if length (queue_contents q) < 512
      then r = 0 \<and> queue_inv q' \<and> (\<exists>t. queue_contents q' = queue_contents q @ [c\<lparr>timerefreshed := t\<rparr>])
      else r = 1 \<and> q' = q)"
proof -
  obtain r q' w' where "conn_queue_enqueue e q c w = Inr ((r, q'), w')"
    and "quiet w w' \<and>
      (if unat (q_count q) < 512
       then r = 0 \<and> queue_inv q' \<and> (\<exists>t. queue_contents q' = queue_contents q @ [c\<lparr>timerefreshed := t\<rparr>])
       else r = 1 \<and> q' = q)"
    using wp_conn_queue_enqueue [OF assms, of c w] by (rule wp_no_fault_pairE)
  then show ?thesis by (intro exI [of _ r] exI [of _ q'] exI [of _ w']) simp
qed

theorem enqueue_refines_list_witness:
  "\<exists>r q' w'. conn_queue_enqueue demo_env zero_queue demo_conn demo_world = Inr ((r, q'), w') \<and>
     r = 0 \<and> (\<exists>t. queue_contents q' = [demo_conn\<lparr>timerefreshed := t\<rparr>])"
  using enqueue_refines_list [OF demo_mutex demo_queue(1), of demo_conn demo_world] demo_queue(2)
  by (auto simp: zero_queue_def)

text \<open>
  C8: Dequeueing gives the oldest connection and keeps the rest in order; on an empty queue it
  returns 1 and changes nothing.
\<close>

theorem dequeue_refines_list:
  assumes "mutex_works e" and "queue_inv q"
  shows "\<exists>r q' c' w'. conn_queue_dequeue e q c w = Inr ((r, q', c'), w') \<and> quiet w w' \<and>
     (case queue_contents q of
        [] \<Rightarrow> r = 1 \<and> q' = q \<and> c' = c
      | x # xs \<Rightarrow> r = 0 \<and> queue_inv q' \<and> c' = x \<and> queue_contents q' = xs)"
  using wp_conn_queue_dequeue [OF assms, of c w] by (auto elim!: wp_no_faultE)

theorem dequeue_refines_list_witness:
  "\<exists>r q' c' w'. conn_queue_dequeue demo_env zero_queue demo_conn demo_world = Inr ((r, q', c'), w') \<and>
     r = 1 \<and> q' = zero_queue \<and> c' = demo_conn"
  using dequeue_refines_list [OF demo_mutex demo_queue(1), of demo_conn demo_world] demo_queue(2)
  by auto

text \<open>
  C9: First in, first out: after pushing the connections \<open>xs\<close>, as many pops as the queue holds
  give what it held before and then \<open>xs\<close>, in order, wherever head and tail stand in the ring.
\<close>

theorem queue_is_fifo:
  assumes "queue_inv q" and "length (queue_contents q) + length xs \<le> 512"
  shows "fst (pop_n queue_pop (length (queue_contents q) + length xs) (fold queue_push xs q)) =
         queue_contents q @ xs"
  using assms by (rule conn_fifo.fifo_order)

theorem queue_is_fifo_witness:
  "fst (pop_n queue_pop 2 (fold queue_push [demo_conn, zero_connection] zero_queue)) =
   [demo_conn, zero_connection]"
  using queue_is_fifo [OF demo_queue(1), of "[demo_conn, zero_connection]"] demo_queue(2)
  by (simp del: pop_n.simps add: numeral_2_eq_2)

text \<open>
  C10: The fault in the error path: when unlocking fails after a connection was stored, the
  connection is queued and closed, so the queue holds a connection whose socket is not open.
\<close>

theorem unlock_failure_queues_closed_socket:
  assumes "queue_inv (connqueue g)" and "length (queue_contents (connqueue g)) < 512"
    and "\<And>w. env_lock e w = 0" and "\<And>w. env_unlock e w \<noteq> 0" and "conn_owns c w"
  shows "\<exists>g' w' t. enqueue_or_drop e msg g c w = Inr (g', w') \<and>
     queue_contents (connqueue g') = queue_contents (connqueue g) @ [c\<lparr>timerefreshed := t\<rparr>] \<and>
     clientsocket c \<notin> fds w'"
proof -
  have "wp (enqueue_or_drop e msg g c) (\<lambda>g' w'. \<exists>t.
      queue_contents (connqueue g') = queue_contents (connqueue g) @ [c\<lparr>timerefreshed := t\<rparr>] \<and>
      clientsocket c \<notin> fds w') no_fault w"
    unfolding enqueue_or_drop_def wp_bindM
  proof (rule wp_mono [OF enqueue_unlock_failure_quiet [OF assms(1) _ assms(3,4)]], goal_cases)
    case (2 x w1)
    then obtain q t where q: "x = (1, q)" "quiet w w1"
      "queue_contents q = queue_contents (connqueue g) @ [c\<lparr>timerefreshed := t\<rparr>]" by auto
    have own: "conn_owns c (emit ev w1)" for ev using assms(5) conn_owns_quiet [OF q(2)] by simp
    show ?case
      using q(3) by (auto simp: q(1) wp_seqM wp_sys_log wp_ret intro!: wp_mono [OF wp_connection_deinit [OF own]])
  qed (use assms in auto)
  then show ?thesis by (auto elim!: wp_no_faultE)
qed

theorem unlock_failure_queues_closed_socket_witness:
  "\<exists>g' w' t. enqueue_or_drop (demo_env\<lparr>env_unlock := \<lambda>_. 1\<rparr>) ''x'' zero_femail demo_conn demo_world = Inr (g', w') \<and>
     queue_contents (connqueue g') = [demo_conn\<lparr>timerefreshed := t\<rparr>] \<and> clientsocket demo_conn \<notin> fds w'"
proof -
  have q: "connqueue zero_femail = zero_queue" by (simp add: zero_femail_def)
  have "conn_owns demo_conn demo_world" using demo_conn_ok by (simp add: conn_ok_def)
  then show ?thesis
    using unlock_failure_queues_closed_socket
        [of zero_femail "demo_env\<lparr>env_unlock := \<lambda>_. 1\<rparr>" demo_conn demo_world "''x''"] demo_queue
    by (simp add: q demo_env_def zero_queue_def)
qed

section \<open>SMTP\<close>

text \<open>
  C11: One chunk of message data of \<open>r\<close> bytes never writes outside the message buffer. When the
  buffer would pass the announced size limit the message is refused and the connection reset; when
  memory runs out the connection is dropped; otherwise the bytes are appended to the message, and
  the message is complete exactly when it now contains the end mark, wherever the chunks were cut.
\<close>

theorem data_chunk_appended:
  assumes "conn_ok c w" and "conn_ready c" and "finite (ssls w)" and "fresh_heap e"
    and "length buffer = SMALL_BUFFER_SIZE" and "unat r \<le> SMALL_BUFFER_SIZE"
  shows "wp (smtp_handle_data e c buffer r)
    (\<lambda>(res, c') w'. handler_post c w res c' w' \<and>
       (unat (alloccount c) = 10239 \<longrightarrow> res = CONNECTION_RESET \<and> conn_state c' = conn_state c) \<and>
       (unat (alloccount c) < 10239 \<longrightarrow>
          (messagebuffer c' = None \<longrightarrow> res = CONNECTION_ERROR) \<and>
          (messagebuffer c' \<noteq> None \<longrightarrow>
             message c' w' = message c w @ take (unat r) buffer \<and>
             (if sublist end_mark (cstr (message c' w'))
              then res = CONNECTION_RESET \<and> conn_state c' = MAIL_CONNECTION_GREETED
              else res = CONNECTION_CONTINUE \<and> conn_state c' = conn_state c)))) no_fault w"
  using wp_handle_data [OF assms] unfolding data_post_def .

theorem data_chunk_appended_witness:
  "wp (smtp_handle_data demo_env demo_conn (read_buffer ''hi'') 2)
     (\<lambda>(res, c') w'. messagebuffer c' \<noteq> None \<longrightarrow> message c' w' = ''hi'' \<and> res = CONNECTION_CONTINUE)
     no_fault demo_world"
proof -
  have c: "alloccount demo_conn = 0" "messagebuffer demo_conn = None" "messagebufferend demo_conn = 0"
    by (simp_all add: demo_conn_def zero_connection_def)
  have "\<not> sublist end_mark ''hi''"
    using sublist_length_le [of end_mark "''hi''"] by (auto simp: end_mark_def)
  moreover have "cstr ''hi'' = ''hi''" by (simp add: cstr_def)
  moreover have "fresh_heap demo_env" using demo_env_ok by (simp add: env_ok_def)
  ultimately show ?thesis
    by (intro wp_mono [OF data_chunk_appended [OF demo_conn_ok]])
       (auto simp: c read_buffer_def SMALL_BUFFER_SIZE_def message_def [of demo_conn] old_block_def split: if_splits)
qed



text \<open>
  C13: The parser is a lookup in the command table: the first command whose name is a prefix of
  the line, compared without regard to letter case.
\<close>

theorem parser_is_table_lookup:
  "parse_client_command buffer =
     map_option (\<lambda>(_, c, k). \<lparr>command = c, param = k\<rparr>)
       (find (\<lambda>(name, _). length name \<le> length buffer \<and>
                map tolower (take (length name) buffer) = map tolower name) command_table)"
  unfolding parse_find starts_with_def ..

text \<open>
  Letter case does not matter to the parser, and the parameter of a command other than HELP
  points inside the line or at its terminator.
\<close>

lemma parser_case_and_bounds:
  "parse_client_command (map tolower buffer) = parse_client_command buffer \<and>
   (\<forall>cmd k. parse_client_command buffer = Some cmd \<longrightarrow> param cmd = Some k \<longrightarrow>
      command cmd \<noteq> SMTP_HELP \<longrightarrow> k \<le> strlen buffer)"
  using parse_param_bound by (auto simp: parse_find starts_with_tolower)

text \<open>
  C14: On a terminated buffer the search for the end of a message ends inside the buffer and finds
  the end mark exactly when it occurs in the string.
\<close>

theorem found_crlf_end_correct:
  assumes "has_nul s"
  shows "found_crlf_end s = Some (sublist end_mark (cstr s))"
  using found_crlf_end_sublist [OF assms] .

theorem found_crlf_end_correct_witness:
  "found_crlf_end (''a'' @ end_mark @ [NUL]) = Some True"
proof -
  have "has_nul (''a'' @ end_mark @ [NUL])" by (simp add: has_nul_def)
  moreover have "cstr (''a'' @ end_mark @ [NUL]) = ''a'' @ end_mark" by (simp add: cstr_def end_mark_def)
  moreover have "sublist end_mark (''a'' @ end_mark)" 
    unfolding sublist_def by (rule exI [of _ "''a''"], rule exI [of _ "[]"]) simp
  ultimately show ?thesis using found_crlf_end_correct [of "''a'' @ end_mark @ [NUL]"] by (simp only:)
qed

text \<open>
  C15: Copying the client's domain of \<open>n\<close> bytes into its array of 255: a shorter word is stored
  with its terminator and nothing else changes, a longer one is refused, and a word of exactly 255
  bytes writes its terminator one past the array.
\<close>

theorem domain_copy_by_length:
  assumes "length dest = 255" and "NUL \<in> set prm"
  shows "if length (word_of prm) < 255
         then move_domain_loop prm 0 255 dest =
                Inr (0, word_of prm @ NUL # drop (length (word_of prm) + 1) dest)
         else if length (word_of prm) = 255 then move_domain_loop prm 0 255 dest = Inl Out_of_bounds
         else \<exists>dest'. move_domain_loop prm 0 255 dest = Inr (1, dest') \<and> length dest' = 255"
proof -
  have ends: "\<exists>c \<in> set prm. ends_word c" using assms(2) by (auto simp: ends_word_def)
  have fits: "move_domain_loop prm 0 255 dest =
      Inr (0, take 0 dest @ word_of prm @ NUL # drop (0 + length (word_of prm) + 1) dest)"
    if "length (word_of prm) < 255"
    by (rule move_domain_fits [OF ends]) (simp_all add: assms(1) that)
  have exact: "move_domain_loop prm 0 255 dest = Inl Out_of_bounds" if "length (word_of prm) = 255"
    by (rule move_domain_exact [OF ends]) (simp_all add: assms(1) that)
  have long: "\<exists>dest'. move_domain_loop prm 0 255 dest = Inr (1, dest') \<and> length dest' = length dest"
    if "255 < length (word_of prm)"
    by (rule move_domain_too_long) (simp_all add: assms(1) that)
  consider "length (word_of prm) < 255" | "length (word_of prm) = 255" | "255 < length (word_of prm)"
    by linarith
  then show ?thesis
  proof cases
    case 1
    then show ?thesis using fits by simp
  next
    case 2
    then show ?thesis using exact by simp
  next
    case 3
    then show ?thesis using long [OF 3, unfolded assms(1)] by simp
  qed
qed

theorem domain_copy_by_length_witness:
  "move_domain_loop (replicate 255 CHR ''x'' @ [NUL]) 0 255 (replicate 255 NUL) = Inl Out_of_bounds"
proof -
  have "word_of (replicate 255 CHR ''x'' @ [NUL]) = replicate 255 CHR ''x''"
    unfolding word_of_def by (subst takeWhile_append2) (auto simp: ends_word_def)
  then show ?thesis
    using domain_copy_by_length [of "replicate 255 NUL" "replicate 255 CHR ''x'' @ [NUL]"] by simp
qed

text \<open>
  C16: The fault of the uninitialised local variable: when the stack bytes under \<open>sslconn\<close> are not
  null, a plain SMTP connection is set up with that wild pointer and greeting the client uses it.
\<close>

theorem wild_sslconn_used:
  assumes "sslstrat c \<noteq> IMPLICIT_TLS" and "conn_type c = SMTP_CONNECTION"
    and "sslconn c = Some s" and "s \<notin> ssls w" and "length dom0 \<le> 237"
  shows "bindM (connection_init e ctx c) (smtp_handler e dom0 ctx) w = Inl Dangling"
  using assms
  by (cases "sslstrat c")
     (simp_all add: connection_init_def bindM_def sys_time_def Let_def smtp_handler_def seqM_def
        smtp_send_msg_def msg_accept_connection_def guardM_def whenM_def sys_ssl_write_def with_ssl_def)

theorem wild_sslconn_used_witness:
  "bindM (connection_init demo_env None (zero_connection\<lparr>sslconn := Some 77\<rparr>))
     (smtp_handler demo_env ''mail.example'' None) demo_world = Inl Dangling"
  by (rule wild_sslconn_used) (simp_all add: zero_connection_def)

text \<open>
  A short request on the plain port is answered with a redirect to the server's own HTTPS
  address and the connection is done; an over-long one is read on, a failed or empty read is an
  error.
\<close>

lemma http_redirects:
  assumes "live c"
  shows "http_handler e dom0 c w =
    (case env_read e w (clientsocket c) of
       None \<Rightarrow> let w1 = emit (Ev_read (clientsocket c) None) w in
         Inr ((if env_would_block e w1 then CONNECTION_CONTINUE else CONNECTION_ERROR, c), w1)
     | Some bs \<Rightarrow>
         let bs = take SMALL_BUFFER_SIZE bs; w1 = emit (Ev_read (clientsocket c) (Some bs)) w in
         if bs = [] then Inr ((CONNECTION_ERROR, c), w1)
         else if length bs \<ge> SMALL_BUFFER_SIZE - 1 then Inr ((CONNECTION_CONTINUE, c), w1)
         else Inr ((CONNECTION_DONE, c), emit (Ev_write (clientsocket c) (httpmsg_redirect_https dom0)) w1))"
  using assms
  by (auto simp: http_handler_def http_after_read_def sys_read_def sys_dprintf_def Let_def bindM_def
        seqM_def SMALL_BUFFER_SIZE_def split: option.splits)

section \<open>Services and start-up\<close>



text \<open>
  Starting SMTP on an inactive context opens at most one IPv4 and one IPv6 socket, both new,
  bound to port 25 and listening; a socket that cannot be bound or cannot listen is closed again;
  the result is 0 exactly when one of them is up.
\<close>

lemma start_smtp_sockets:
  assumes "fresh_fds e" and "\<not> active c"
  shows "\<exists>r c' w'. start_smtp e ctx c w = Inr ((r, c'), w') \<and>
    r = (if active c' then 0 else 1) \<and> active c' = (socket4 c' \<noteq> - 1 \<or> socket6 c' \<noteq> - 1) \<and>
    fds w' = fds w \<union> ({socket4 c', socket6 c'} - {- 1}) \<and>
    ({socket4 c', socket6 c'} - {- 1}) \<inter> fds w = {} \<and>
    (socket4 c' \<noteq> - 1 \<longrightarrow> bound_to w' (socket4 c') = Some (AF_INET, 25) \<and> socket4 c' \<in> listening w') \<and>
    (socket6 c' \<noteq> - 1 \<longrightarrow> bound_to w' (socket6 c') = Some (AF_INET6, 25) \<and> socket6 c' \<in> listening w')"
proof -
  have "wp (start_smtp e ctx c)
      (\<lambda>(r, c') w'. service_up SMTP_PORT r (active c') (socket4 c') (socket6 c') w w') no_fault w"
    by (rule smtp_svc.start_inactive [OF assms]) simp
  then obtain r c' w' where "start_smtp e ctx c w = Inr ((r, c'), w')"
    and "service_up SMTP_PORT r (active c') (socket4 c') (socket6 c') w w'"
    by (rule wp_no_fault_pairE)
  then show ?thesis
    by (intro exI [of _ r] exI [of _ c'] exI [of _ w']) (simp add: service_up_def SMTP_PORT_def)
qed

text \<open>
  \<open>dns_init\<close> accepts a \<open>MAIL_DOMAIN\<close> of 1 to 254 bytes, which \<open>get_mail_domain\<close> then returns;
  otherwise it reports failure and leaves the array alone. The array stays terminated.
\<close>

lemma dns_init_result:
  assumes "domain_array d"
  shows "\<exists>r d' w'. dns_init e d w = Inr ((r, d'), w') \<and> quiet w w' \<and> domain_array d' \<and>
    (if valid_domain (env_getenv e w ''MAIL_DOMAIN'')
     then r = 0 \<and> get_mail_domain d' = cstr (the (env_getenv e w ''MAIL_DOMAIN''))
     else r = 1 \<and> d' = d)"
proof -
  obtain r d' w' where "dns_init e d w = Inr ((r, d'), w')"
    and "quiet w w' \<and> domain_array d' \<and>
      (case env_getenv e w ''MAIL_DOMAIN'' of
         None \<Rightarrow> r = 1 \<and> d' = d
       | Some s \<Rightarrow>
           if 0 < strlen s \<and> strlen s \<le> 254 then r = 0 \<and> get_mail_domain d' = cstr s
           else r = 1 \<and> d' = d)"
    using wp_dns_init [OF assms, of e w] by (rule wp_no_fault_pairE)
  then show ?thesis
    by (intro exI [of _ r] exI [of _ d'] exI [of _ w'])
       (auto simp: valid_domain_def split: option.splits if_splits)
qed

text \<open>
  C18: The overflow in \<open>main\<close>: a domain of 219 to 254 bytes, which \<open>dns_init\<close> accepts, makes the
  path of the certificate longer than its 256-byte buffer.
\<close>

theorem certificate_path_overflow:
  assumes "length (get_mail_domain (maildomain g)) > 218" and "env_ctx_new e w = Some x"
  shows "setup_tls e g w = Inl Out_of_bounds"
  using assms
  by (simp add: setup_tls_def sys_ctx_new_def sys_ctx_set_def with_ctx_def format_path_def bindM_def
        seqM_def guardM_def Let_def)

theorem certificate_path_overflow_witness:
  "setup_tls demo_env (zero_femail\<lparr>maildomain := replicate 219 CHR ''m'' @ replicate 36 NUL\<rparr>) demo_world =
     Inl Out_of_bounds"
proof (rule certificate_path_overflow)
  have "cstr (replicate 219 CHR ''m'' @ replicate 36 NUL) = replicate 219 CHR ''m'' @ cstr (replicate 36 NUL)"
    by (rule cstr_append) simp
  then show "length (get_mail_domain (maildomain (zero_femail\<lparr>maildomain :=
      replicate 219 CHR ''m'' @ replicate 36 NUL\<rparr>))) > 218"
    by (simp add: get_mail_domain_def)
  show "env_ctx_new demo_env demo_world = Some 0" by (simp add: demo_env_def)
qed

text \<open>
  The services' contexts are never initialised: stopping services that were refused a start
  closes descriptor 0, because their zero-filled contexts name it.
\<close>

lemma stop_closes_stdin:
  "\<exists>g' w'. stop_services zero_femail w = Inr (g', w') \<and> fds w' = fds w - {0}"
proof -
  have "listeners zero_femail = {0}"
    by (simp add: listeners_def socks_def zero_femail_def zero_smtpcontext_def zero_netcontext_def)
  then show ?thesis
    using wp_stop_services [of zero_femail w] by (auto simp: removes_def elim!: wp_no_faultE)
qed

end
